(* ===== verification/Prelude.thy ===== *)
theory Prelude
  imports Main "HOL-Library.Word"
begin

text \<open>
  The shared part of the development: the names of the C types, the pieces of the C library that
  the sources call on byte arrays (\<open>memcpy\<close>, \<open>strlen\<close>, \<open>malloc\<close>, \<open>strchr\<close>), the collections of
  rewrite rules the component theories fill, and generic lemmas on lists.

  Conventions used by every theory:
  \<^item> a C \<open>int\<close> that only counts or indexes is a HOL \<open>int\<close> or \<open>nat\<close>; where the source can leave the
    range of the type, the range test is written out (\<open>c_int_ok\<close>) or the value is a \<open>word\<close>;
  \<^item> \<open>None\<close> as the result of a function that models C code means \<^emph>\<open>undefined behaviour\<close>: an access
    outside an array, a read through a dangling pointer, a signed overflow. A theorem that states
    \<open>Some\<close> therefore also states memory safety;
  \<^item> an error the code reports is a value of \<open>natsStatus\<close>.
\<close>

unbundle bit_operations_syntax

type_synonym byte = char
type_synonym bytes = "char list"
type_synonym u8 = "8 word"
type_synonym u16 = "16 word"
type_synonym u32 = "32 word"
type_synonym u64 = "64 word"

named_theorems buf_simps \<open>operations of the growable byte buffer\<close>
named_theorems hash_simps \<open>operations of the chained hash tables\<close>
named_theorems parse_simps \<open>steps of the protocol parser\<close>

section \<open>C integers\<close>

abbreviation INT_MAX :: int where "INT_MAX \<equiv> 2147483647"
abbreviation INT_MIN :: int where "INT_MIN \<equiv> - 2147483648"

definition c_int_ok :: "int \<Rightarrow> bool" where
  "c_int_ok n \<longleftrightarrow> INT_MIN \<le> n \<and> n \<le> INT_MAX"

text \<open>The conversion \<open>(int) x\<close> of a wider integer keeps the low 32 bits.\<close>

definition to_c_int :: "int \<Rightarrow> int" where
  "to_c_int n = sint (word_of_int n :: 32 word)"

lemma to_c_int_id [simp]: "c_int_ok n \<Longrightarrow> to_c_int n = n"
  by (simp add: to_c_int_def c_int_ok_def sint_sbintrunc' signed_take_bit_int_eq_self)

lemma to_c_int_range: "c_int_ok (to_c_int n)"
proof -
  have "- (2 ^ 31) \<le> sint (word_of_int n :: 32 word)"
    and "sint (word_of_int n :: 32 word) < 2 ^ 31"
    using sint_range_size [of "word_of_int n :: 32 word"] by (simp_all add: word_size)
  then show ?thesis by (simp add: to_c_int_def c_int_ok_def)
qed

definition to_int64 :: "int \<Rightarrow> int" where
  "to_int64 n = sint (word_of_int n :: 64 word)"

lemma to_int64_id [simp]: "- (2 ^ 63) \<le> n \<Longrightarrow> n < 2 ^ 63 \<Longrightarrow> to_int64 n = n"
  by (simp add: to_int64_def sint_sbintrunc' signed_take_bit_int_eq_self)

section \<open>Bytes and C strings\<close>

abbreviation NUL :: byte where "NUL \<equiv> CHR 0x00"
abbreviation TAB :: byte where "TAB \<equiv> CHR 0x09"
abbreviation LF :: byte where "LF \<equiv> CHR 0x0A"
abbreviation CR :: byte where "CR \<equiv> CHR 0x0D"
abbreviation SPC :: byte where "SPC \<equiv> CHR 0x20"

text \<open>The value of a byte as \<open>unsigned char\<close>.\<close>

definition ord :: "byte \<Rightarrow> int" where
  "ord c = of_char c"

lemma ord_range: "0 \<le> ord c" "ord c < 256"
proof -
  have "ord c = int (of_char c)" by (simp add: ord_def of_nat_of_char)
  moreover have "of_char c < (256 :: nat)" by simp
  ultimately show "0 \<le> ord c" "ord c < 256" by linarith+
qed

definition c_isspace :: "byte \<Rightarrow> bool" where
  "c_isspace c \<longleftrightarrow> c \<in> {SPC, CHR 0x09, CHR 0x0A, CHR 0x0B, CHR 0x0C, CHR 0x0D}"

definition c_isdigit :: "byte \<Rightarrow> bool" where
  "c_isdigit c \<longleftrightarrow> 48 \<le> ord c \<and> ord c \<le> 57"

definition c_isalnum :: "byte \<Rightarrow> bool" where
  "c_isalnum c \<longleftrightarrow> c_isdigit c \<or> 65 \<le> ord c \<and> ord c \<le> 90 \<or> 97 \<le> ord c \<and> ord c \<le> 122"

definition c_isxdigit :: "byte \<Rightarrow> bool" where
  "c_isxdigit c \<longleftrightarrow> c_isdigit c \<or> 65 \<le> ord c \<and> ord c \<le> 70 \<or> 97 \<le> ord c \<and> ord c \<le> 102"

definition c_hexval :: "byte \<Rightarrow> int" where
  "c_hexval c = (if c_isdigit c then ord c - 48
                 else if 65 \<le> ord c \<and> ord c \<le> 70 then ord c - 55 else ord c - 87)"

text \<open>A C string is a list of bytes without a NUL; an array that holds one may go on after it.\<close>

definition is_cstr :: "bytes \<Rightarrow> bool" where
  "is_cstr s \<longleftrightarrow> NUL \<notin> set s"

definition c_str :: "bytes \<Rightarrow> bytes" where
  "c_str a = takeWhile (\<lambda>c. c \<noteq> NUL) a"

definition c_strlen :: "bytes \<Rightarrow> int" where
  "c_strlen a = int (length (c_str a))"

lemma c_str_id [simp]: "is_cstr s \<Longrightarrow> c_str s = s"
  by (auto simp: is_cstr_def c_str_def takeWhile_eq_all_conv)

lemma c_strlen_id [simp]: "is_cstr s \<Longrightarrow> c_strlen s = int (length s)"
  by (simp add: c_strlen_def)

text \<open>\<open>strchr\<close> and \<open>strrchr\<close>: the index of the first and of the last occurrence.\<close>

fun c_strchr :: "bytes \<Rightarrow> byte \<Rightarrow> nat option" where
  "c_strchr [] c = None"
| "c_strchr (x # xs) c = (if x = c then Some 0 else map_option Suc (c_strchr xs c))"

fun c_strrchr :: "bytes \<Rightarrow> byte \<Rightarrow> nat option" where
  "c_strrchr [] c = None"
| "c_strrchr (x # xs) c =
     (case c_strrchr xs c of Some i \<Rightarrow> Some (Suc i) | None \<Rightarrow> if x = c then Some 0 else None)"

lemma c_strchr_None: "c_strchr s c = None \<longleftrightarrow> c \<notin> set s"
  by (induction s) auto

lemma c_strrchr_None: "c_strrchr s c = None \<longleftrightarrow> c \<notin> set s"
  by (induction s) (auto split: option.splits)

lemma c_strchr_split: "c \<notin> set a \<Longrightarrow> c_strchr (a @ c # b) c = Some (length a)"
  by (induction a) auto

lemma c_strrchr_split: "c \<notin> set b \<Longrightarrow> c_strrchr (a @ c # b) c = Some (length a)"
proof (induction a)
  case Nil
  then have "c_strrchr b c = None" by (simp add: c_strrchr_None)
  then show ?case by simp
next
  case (Cons x a)
  then show ?case by simp
qed

text \<open>\<open>strstr\<close>: the index of the first occurrence of a substring.\<close>

fun c_strstr :: "bytes \<Rightarrow> bytes \<Rightarrow> nat option" where
  "c_strstr s p = (if take (length p) s = p then Some 0
     else case s of [] \<Rightarrow> None | _ # s' \<Rightarrow> map_option Suc (c_strstr s' p))"

declare c_strstr.simps [simp del]

section \<open>Byte arrays\<close>

text \<open>
  \<open>c_read a off n\<close> are the \<open>n\<close> bytes at \<open>a + off\<close>; \<open>c_write a off bs\<close> stores \<open>bs\<close> there. Both are
  \<open>None\<close> when the range is not inside the array.
\<close>

definition c_read :: "bytes \<Rightarrow> int \<Rightarrow> int \<Rightarrow> bytes option" where
  "c_read a off n =
     (if 0 \<le> off \<and> 0 \<le> n \<and> off + n \<le> int (length a) then Some (take (nat n) (drop (nat off) a))
      else None)"

definition c_write :: "bytes \<Rightarrow> int \<Rightarrow> bytes \<Rightarrow> bytes option" where
  "c_write a off bs =
     (if 0 \<le> off \<and> off + int (length bs) \<le> int (length a)
      then Some (take (nat off) a @ bs @ drop (nat off + length bs) a) else None)"

lemma c_read_length: "c_read a off n = Some bs \<Longrightarrow> length bs = nat n"
  by (auto simp: c_read_def min_def split: if_splits)

lemma c_read_all [simp]: "c_read a 0 (int (length a)) = Some a"
  by (simp add: c_read_def)

lemma c_write_length: "c_write a off bs = Some a' \<Longrightarrow> length a' = length a"
  by (auto simp: c_write_def min_def split: if_splits)

lemma c_write_Some: "0 \<le> off \<Longrightarrow> off + int (length bs) \<le> int (length a) \<Longrightarrow>
   c_write a off bs = Some (take (nat off) a @ bs @ drop (nat off + length bs) a)"
  by (simp add: c_write_def)

text \<open>
  \<open>malloc\<close> is a parameter of the model: it returns \<open>None\<close> when there is no memory and otherwise a
  block of the requested size with arbitrary contents. \<open>realloc\<close> keeps the old bytes.
\<close>

type_synonym allocator = "int \<Rightarrow> bytes option"

definition alloc_sized :: "allocator \<Rightarrow> bool" where
  "alloc_sized alloc \<longleftrightarrow> (\<forall>n b. alloc n = Some b \<longrightarrow> length b = nat n)"

definition c_realloc :: "allocator \<Rightarrow> bytes \<Rightarrow> int \<Rightarrow> bytes option" where
  "c_realloc alloc old n =
     map_option (\<lambda>b. take (length b) old @ drop (length old) b) (alloc n)"

lemma alloc_sizedD: "alloc_sized alloc \<Longrightarrow> alloc n = Some b \<Longrightarrow> length b = nat n"
  by (auto simp: alloc_sized_def)

definition calloc0 :: allocator where
  "calloc0 n = Some (replicate (nat n) NUL)"

lemma calloc0_sized: "alloc_sized calloc0"
  by (simp add: alloc_sized_def calloc0_def)

section \<open>Generic lemmas\<close>

lemma fold_invariant_list:
  assumes "P s" and "\<And>x s. x \<in> set xs \<Longrightarrow> P s \<Longrightarrow> P (f x s)"
  shows "P (fold f xs s)"
  using assms by (induction xs arbitrary: s) auto

lemma map_of_distinct_filter:
  assumes "distinct (map fst xs)"
  shows "map_of (filter (\<lambda>p. fst p \<noteq> k) xs) = (map_of xs)(k := None)"
  using assms by (induction xs) (auto simp: fun_eq_iff)

end
