(* ===== verification/Diod_Machine.thy ===== *)
theory Diod_Machine
  imports Prelude
begin

text \<open>
  The components of the proxy are objects whose methods are called one after the other under a
  mutex. The locales here carry an invariant, and a refinement, from one call to any sequence of
  calls. \<open>fits\<close> is what a call may assume of its arguments, for instance that its clock reading is
  not older than the one the object has seen.
\<close>

fun fits_all :: "('e \<Rightarrow> 's \<Rightarrow> 's) \<Rightarrow> ('e \<Rightarrow> 's \<Rightarrow> bool) \<Rightarrow> 'e list \<Rightarrow> 's \<Rightarrow> bool" where
  "fits_all step fits [] s \<longleftrightarrow> True"
| "fits_all step fits (e # es) s \<longleftrightarrow> fits e s \<and> fits_all step fits es (step e s)"

lemma fits_all_append:
  "fits_all step fits (xs @ ys) s \<longleftrightarrow> fits_all step fits xs s \<and> fits_all step fits ys (fold step xs s)"
  by (induction xs arbitrary: s) auto

lemma fits_all_True [simp]: "fits_all step (\<lambda>_ _. True) es s"
  by (induction es arbitrary: s) auto

locale machine =
  fixes step :: "'e \<Rightarrow> 's \<Rightarrow> 's" and fits :: "'e \<Rightarrow> 's \<Rightarrow> bool" and inv :: "'s \<Rightarrow> bool"
  assumes inv_step: "inv s \<Longrightarrow> fits e s \<Longrightarrow> inv (step e s)"
begin

lemma inv_run: "inv s \<Longrightarrow> fits_all step fits es s \<Longrightarrow> inv (fold step es s)"
  by (induction es arbitrary: s) (auto intro: inv_step)

end

locale refining_machine = machine step fits inv
  for step :: "'e \<Rightarrow> 's \<Rightarrow> 's" and fits :: "'e \<Rightarrow> 's \<Rightarrow> bool" and inv :: "'s \<Rightarrow> bool" +
  fixes astep :: "'e \<Rightarrow> 'a \<Rightarrow> 'a" and abs :: "'s \<Rightarrow> 'a"
  assumes refine_step: "inv s \<Longrightarrow> fits e s \<Longrightarrow> abs (step e s) = astep e (abs s)"
begin

lemma refine_run:
  "inv s \<Longrightarrow> fits_all step fits es s \<Longrightarrow> abs (fold step es s) = fold astep es (abs s)"
proof (induction es arbitrary: s)
  case (Cons e es)
  then show ?case using inv_step [of s e] refine_step [of s e] by simp
qed simp

end

text \<open>
  Where threads interleave, a component is a step relation instead, and the invariant is carried to
  the states a run can reach.
\<close>

locale transitions =
  fixes trans :: "'s \<Rightarrow> 's \<Rightarrow> bool" and inv :: "'s \<Rightarrow> bool"
  assumes inv_trans: "trans s t \<Longrightarrow> inv s \<Longrightarrow> inv t"
begin

lemma inv_reach: "trans\<^sup>*\<^sup>* s t \<Longrightarrow> inv s \<Longrightarrow> inv t"
  by (induction rule: rtranclp_induct) (auto intro: inv_trans)

end

text \<open>The threads of a component are a list of local states; these lemmas say what changing one of them changes.\<close>

lemma set_updD: "x \<in> set (xs[i := v]) \<Longrightarrow> x = v \<or> x \<in> set xs"
  by (meson insert_iff set_update_subset_insert subsetD)

lemma in_set_upd: "i < length xs \<Longrightarrow> x \<in> set xs \<Longrightarrow> x \<noteq> xs ! i \<Longrightarrow> x \<in> set (xs[i := v])"
  by (metis in_set_conv_nth length_list_update nth_list_update_neq)

lemma sum_list_update_eq:
  fixes f :: "'b \<Rightarrow> 'c :: comm_monoid_add"
  shows "i < length ws \<Longrightarrow> sum_list (map f (ws[i := v])) + f (ws ! i) = sum_list (map f ws) + f v"
proof (induction ws arbitrary: i)
  case (Cons w ws)
  then show ?case
    by (cases i) (simp_all add: add.assoc add.commute add.left_commute)
qed simp

lemma sum_list_zeros [simp]: "sum_list (replicate n (0 :: 'a :: monoid_add)) = 0"
  by (induction n) simp_all

text \<open>
  A clock reading or a difference of two is an \<open>int\<close> in nanoseconds; \<open>duration_cast\<close> to a coarser
  unit truncates towards zero.
\<close>

definition duration_cast :: "int \<Rightarrow> int \<Rightarrow> int" where
  "duration_cast unit d = (if d < 0 then - ((- d) div unit) else d div unit)"

abbreviation ns_per_ms :: int where "ns_per_ms \<equiv> 1000000"
abbreviation ns_per_s :: int where "ns_per_s \<equiv> 1000000000"

lemma duration_cast_nonneg [simp]: "0 \<le> d \<Longrightarrow> duration_cast u d = d div u"
  by (simp add: duration_cast_def)

lemma div_mult_le_int: "0 < u \<Longrightarrow> (d :: int) div u * u \<le> d"
  using div_mult_mod_eq [of d u] pos_mod_sign [of u d] by linarith

text \<open>Time is read from the steady clock, which does not go back; readings are 64-bit.\<close>

lemma unat_elapsed: "t \<le> now \<Longrightarrow> unat (now - t :: u64) = unat now - unat t"
  by (simp add: unat_sub)

end
