(* ===== verification/Diod_Pool.thy ===== *)
theory Diod_Pool
  imports Diod_Machine "HOL-Library.Multiset"
begin

text \<open>
  The worker thread pool with its bounded queue (\<open>thread_pool.hpp\<close>). A state has the queue, the local
  state of every worker, of every call of \<open>enqueue\<close> and of the call of \<open>shutdown\<close>; the mutex makes a
  critical section one step. Condition variables are explicit: a thread that finds its predicate false
  is blocked until a notification or a spurious wake-up, so that a lost wake-up would be a state the
  model can reach. A task is a value; running it is one step, and a packaged task keeps the exception
  of its function, so that running it cannot fail. \<open>tp_accepted\<close>, \<open>tp_taken\<close> and \<open>tp_executed\<close> are
  the history of the queue.
\<close>

datatype 'a worker =
    Ready              \<comment> \<open>about to take the mutex and to look at the queue\<close>
  | Blocked            \<comment> \<open>waiting on \<open>m_condition\<close>\<close>
  | Took "'a list"     \<comment> \<open>a batch is taken, \<open>m_not_full\<close> is to be notified\<close>
  | Notified "'a list"
  | Running "'a list"  \<comment> \<open>counted as active, with what is left of the batch\<close>
  | Returned

datatype 'a caller =
    Entering 'a        \<comment> \<open>about to take the mutex\<close>
  | Waiting 'a         \<comment> \<open>waiting on \<open>m_not_full\<close>\<close>
  | Pushed             \<comment> \<open>the task is in the queue, \<open>m_condition\<close> is to be notified\<close>
  | GotFuture
  | Threw

datatype stopper = NotStopping | Requesting nat | NotifyWorkers | NotifyProducers | Joining nat | Stopped

record 'a ThreadPool =
  tp_tasks :: "'a list"
  tp_stop :: bool
  tp_max_queue_size :: nat
  tp_active_workers :: int
  tp_workers :: "'a worker list"
  tp_tokens :: "bool list"
  tp_callers :: "'a caller list"
  tp_stopper :: stopper
  tp_accepted :: "'a list"
  tp_taken :: "'a list"
  tp_executed :: "'a list"

definition g_dequeue_batch :: nat where "g_dequeue_batch = 16"

definition kQueuedTasksPerThread :: u64 where "kQueuedTasksPerThread = 8"

definition effective_queue_capacity :: "u64 \<Rightarrow> u64 \<Rightarrow> u64" where
  "effective_queue_capacity threads max_queue_size =
     (if max_queue_size = 0 then threads * kQueuedTasksPerThread else max_queue_size)"

definition new_ThreadPool :: "u64 \<Rightarrow> u64 \<Rightarrow> 'a ThreadPool" where
  "new_ThreadPool threads max_queue_size =
     \<lparr>tp_tasks = [], tp_stop = False,
      tp_max_queue_size = unat (effective_queue_capacity threads max_queue_size),
      tp_active_workers = 0, tp_workers = replicate (unat threads) Ready,
      tp_tokens = replicate (unat threads) False, tp_callers = [], tp_stopper = NotStopping,
      tp_accepted = [], tp_taken = [], tp_executed = []\<rparr>"

section \<open>Worker\<close>

primrec wake_caller :: "'a caller \<Rightarrow> 'a caller" where
  "wake_caller (Waiting t) = Entering t"
| "wake_caller (Entering t) = Entering t"
| "wake_caller Pushed = Pushed"
| "wake_caller GotFuture = GotFuture"
| "wake_caller Threw = Threw"

definition wake_worker :: "'a worker \<Rightarrow> 'a worker" where
  "wake_worker w = (case w of Blocked \<Rightarrow> Ready | _ \<Rightarrow> w)"

text \<open>The critical section of the loop: wait, return, or take a batch.\<close>

definition worker_lock :: "nat \<Rightarrow> 'a ThreadPool \<Rightarrow> 'a ThreadPool" where
  "worker_lock i s =
     (let stopping = tp_tokens s ! i \<or> tp_stop s in
      if \<not> (stopping \<or> tp_tasks s \<noteq> []) then s\<lparr>tp_workers := (tp_workers s)[i := Blocked]\<rparr>
      else if stopping \<and> tp_tasks s = [] then s\<lparr>tp_workers := (tp_workers s)[i := Returned]\<rparr>
      else let to_take = min g_dequeue_batch (length (tp_tasks s)) in
        s\<lparr>tp_tasks := drop to_take (tp_tasks s),
          tp_workers := (tp_workers s)[i := Took (take to_take (tp_tasks s))],
          tp_taken := tp_taken s @ take to_take (tp_tasks s)\<rparr>)"

definition worker_step :: "nat \<Rightarrow> 'a ThreadPool \<Rightarrow> 'a ThreadPool" where
  "worker_step i s =
     (case tp_workers s ! i of
        Ready \<Rightarrow> worker_lock i s
      | Took batch \<Rightarrow> s\<lparr>tp_workers := (tp_workers s)[i := Notified batch],
          tp_callers := map wake_caller (tp_callers s)\<rparr>
      | Notified batch \<Rightarrow> s\<lparr>tp_active_workers := tp_active_workers s + 1,
          tp_workers := (tp_workers s)[i := Running batch]\<rparr>
      | Running [] \<Rightarrow> s\<lparr>tp_active_workers := tp_active_workers s - 1,
          tp_workers := (tp_workers s)[i := Ready]\<rparr>
      | Running (task # batch) \<Rightarrow> s\<lparr>tp_workers := (tp_workers s)[i := Running batch],
          tp_executed := tp_executed s @ [task]\<rparr>
      | Blocked \<Rightarrow> s
      | Returned \<Rightarrow> s)"

section \<open>enqueue\<close>

definition call_enqueue :: "'a \<Rightarrow> 'a ThreadPool \<Rightarrow> 'a ThreadPool" where
  "call_enqueue task s = s\<lparr>tp_callers := tp_callers s @ [Entering task]\<rparr>"

definition caller_lock :: "nat \<Rightarrow> 'a \<Rightarrow> 'a ThreadPool \<Rightarrow> 'a ThreadPool" where
  "caller_lock j task s =
     (if \<not> (tp_stop s \<or> length (tp_tasks s) < tp_max_queue_size s)
      then s\<lparr>tp_callers := (tp_callers s)[j := Waiting task]\<rparr>
      else if tp_stop s then s\<lparr>tp_callers := (tp_callers s)[j := Threw]\<rparr>
      else s\<lparr>tp_tasks := tp_tasks s @ [task], tp_callers := (tp_callers s)[j := Pushed],
             tp_accepted := tp_accepted s @ [task]\<rparr>)"

text \<open>\<open>notify_one\<close> wakes one blocked worker, which one is not specified, or nobody when none is blocked.\<close>

definition may_wake :: "nat option \<Rightarrow> 'a ThreadPool \<Rightarrow> bool" where
  "may_wake w s =
     (case w of None \<Rightarrow> Blocked \<notin> set (tp_workers s)
      | Some i \<Rightarrow> i < length (tp_workers s) \<and> tp_workers s ! i = Blocked)"

definition caller_notify :: "nat \<Rightarrow> nat option \<Rightarrow> 'a ThreadPool \<Rightarrow> 'a ThreadPool" where
  "caller_notify j w s =
     s\<lparr>tp_workers := (case w of None \<Rightarrow> tp_workers s | Some i \<Rightarrow> (tp_workers s)[i := Ready]),
       tp_callers := (tp_callers s)[j := GotFuture]\<rparr>"

section \<open>shutdown\<close>

definition call_shutdown :: "'a ThreadPool \<Rightarrow> 'a ThreadPool" where
  "call_shutdown s = (if tp_stop s then s else s\<lparr>tp_stop := True, tp_stopper := Requesting 0\<rparr>)"

text \<open>
  \<open>request_stop\<close> runs the stop callback of a worker that waits on \<open>m_condition\<close>, which notifies all.
  A step of \<open>shutdown\<close> is possible unless it joins a worker that has not returned.
\<close>

definition request_stop :: "nat \<Rightarrow> 'a ThreadPool \<Rightarrow> 'a ThreadPool" where
  "request_stop k s =
     s\<lparr>tp_workers := (if tp_workers s ! k = Blocked then map wake_worker (tp_workers s) else tp_workers s),
       tp_tokens := (tp_tokens s)[k := True]\<rparr>"

definition stopper_enabled :: "'a ThreadPool \<Rightarrow> bool" where
  "stopper_enabled s =
     (case tp_stopper s of
        NotStopping \<Rightarrow> False
      | Stopped \<Rightarrow> False
      | Joining k \<Rightarrow> k < length (tp_workers s) \<longrightarrow> tp_workers s ! k = Returned
      | _ \<Rightarrow> True)"

definition stopper_step :: "'a ThreadPool \<Rightarrow> 'a ThreadPool" where
  "stopper_step s =
     (case tp_stopper s of
        Requesting k \<Rightarrow> if k < length (tp_workers s) then (request_stop k s)\<lparr>tp_stopper := Requesting (Suc k)\<rparr>
          else s\<lparr>tp_stopper := NotifyWorkers\<rparr>
      | NotifyWorkers \<Rightarrow> s\<lparr>tp_workers := map wake_worker (tp_workers s), tp_stopper := NotifyProducers\<rparr>
      | NotifyProducers \<Rightarrow> s\<lparr>tp_callers := map wake_caller (tp_callers s), tp_stopper := Joining 0\<rparr>
      | Joining k \<Rightarrow> s\<lparr>tp_stopper := (if k < length (tp_workers s) then Joining (Suc k) else Stopped)\<rparr>
      | NotStopping \<Rightarrow> s
      | Stopped \<Rightarrow> s)"

definition queue_size :: "'a ThreadPool \<Rightarrow> nat" where "queue_size s = length (tp_tasks s)"

definition thread_count :: "'a ThreadPool \<Rightarrow> nat" where "thread_count s = length (tp_workers s)"

definition active_count :: "'a ThreadPool \<Rightarrow> int" where "active_count s = tp_active_workers s"

definition max_queue_capacity :: "'a ThreadPool \<Rightarrow> nat" where "max_queue_capacity s = tp_max_queue_size s"

section \<open>Steps\<close>

text \<open>The steps of the threads that are in the pool, and with those of its environment: new calls and spurious wake-ups.\<close>

inductive tp_work :: "'a ThreadPool \<Rightarrow> 'a ThreadPool \<Rightarrow> bool" where
  worker: "i < length (tp_workers s) \<Longrightarrow> tp_workers s ! i \<notin> {Blocked, Returned} \<Longrightarrow> tp_work s (worker_step i s)"
| caller: "j < length (tp_callers s) \<Longrightarrow> tp_callers s ! j = Entering task \<Longrightarrow> tp_work s (caller_lock j task s)"
| notify: "j < length (tp_callers s) \<Longrightarrow> tp_callers s ! j = Pushed \<Longrightarrow> may_wake w s \<Longrightarrow> tp_work s (caller_notify j w s)"
| stopper: "stopper_enabled s \<Longrightarrow> tp_work s (stopper_step s)"

inductive tp_step :: "'a ThreadPool \<Rightarrow> 'a ThreadPool \<Rightarrow> bool" where
  work: "tp_work s t \<Longrightarrow> tp_step s t"
| enqueue: "tp_step s (call_enqueue task s)"
| shutdown: "tp_step s (call_shutdown s)"
| spurious_worker: "i < length (tp_workers s) \<Longrightarrow> tp_workers s ! i = Blocked \<Longrightarrow>
    tp_step s (s\<lparr>tp_workers := (tp_workers s)[i := Ready]\<rparr>)"
| spurious_caller: "j < length (tp_callers s) \<Longrightarrow> tp_callers s ! j = Waiting task \<Longrightarrow>
    tp_step s (s\<lparr>tp_callers := (tp_callers s)[j := Entering task]\<rparr>)"

section \<open>Invariants\<close>

fun batch_of :: "'a worker \<Rightarrow> 'a list" where
  "batch_of (Took b) = b"
| "batch_of (Notified b) = b"
| "batch_of (Running b) = b"
| "batch_of _ = []"

fun is_running :: "'a worker \<Rightarrow> bool" where
  "is_running (Running _) = True"
| "is_running _ = False"

lemma wake_worker_simps [simp]:
  "batch_of (wake_worker w) = batch_of w" "is_running (wake_worker w) = is_running w"
  "wake_worker w \<noteq> Blocked" "Blocked \<noteq> wake_worker w" "Returned = wake_worker w \<longleftrightarrow> w = Returned"
  "wake_worker w = Returned \<longleftrightarrow> w = Returned"
  "wake_worker w = Took b \<longleftrightarrow> w = Took b" "Took b = wake_worker w \<longleftrightarrow> w = Took b"
  by (cases w; auto simp: wake_worker_def)+

lemma map_wake_worker_batches [simp]:
  "map (\<lambda>w. f (batch_of w)) (map wake_worker ws) = map (\<lambda>w. f (batch_of w)) ws"
  "map (\<lambda>w. g (is_running w)) (map wake_worker ws) = map (\<lambda>w. g (is_running w)) ws"
  by simp_all

lemma wake_caller_simps [simp]:
  "wake_caller c \<noteq> Waiting t" "Waiting t \<noteq> wake_caller c" "Pushed = wake_caller c \<longleftrightarrow> c = Pushed"
  "wake_caller c = Pushed \<longleftrightarrow> c = Pushed"
  "wake_caller c = GotFuture \<longleftrightarrow> c = GotFuture" "wake_caller c = Threw \<longleftrightarrow> c = Threw"
  by (cases c; simp)+

definition batches :: "'a ThreadPool \<Rightarrow> 'a multiset" where
  "batches s = sum_list (map (\<lambda>w. mset (batch_of w)) (tp_workers s))"

definition running :: "'a ThreadPool \<Rightarrow> int" where
  "running s = sum_list (map (\<lambda>w. of_bool (is_running w)) (tp_workers s))"

text \<open>Where the tasks are: the queue is bounded and first-in first-out, a task is in one place, and the active workers are counted.\<close>

definition data_inv :: "nat \<Rightarrow> nat \<Rightarrow> 'a ThreadPool \<Rightarrow> bool" where
  "data_inv n cap s \<longleftrightarrow>
     length (tp_workers s) = n \<and> length (tp_tokens s) = n \<and> tp_max_queue_size s = cap
   \<and> length (tp_tasks s) \<le> cap
   \<and> tp_accepted s = tp_taken s @ tp_tasks s
   \<and> mset (tp_taken s) = mset (tp_executed s) + batches s
   \<and> tp_active_workers s = running s
   \<and> (\<forall>w \<in> set (tp_workers s). length (batch_of w) \<le> g_dequeue_batch)"

lemma worker_upd:
  assumes "i < length (tp_workers s)" "tp_workers t = (tp_workers s)[i := v]"
  shows "batches t + mset (batch_of (tp_workers s ! i)) = batches s + mset (batch_of v)"
    and "running t = running s + of_bool (is_running v) - of_bool (is_running (tp_workers s ! i))"
  using sum_list_update_eq [OF assms(1), of "\<lambda>w. mset (batch_of w)" v]
    sum_list_update_eq [OF assms(1), of "\<lambda>w. of_bool (is_running w) :: int" v]
  by (simp_all add: batches_def running_def assms(2) algebra_simps)

lemma workers_same:
  assumes "tp_workers t = tp_workers s \<or> tp_workers t = map wake_worker (tp_workers s)"
  shows "batches t = batches s" "running t = running s"
    "length (tp_workers t) = length (tp_workers s)"
    "(\<forall>w \<in> set (tp_workers t). length (batch_of w) \<le> m) \<longleftrightarrow> (\<forall>w \<in> set (tp_workers s). length (batch_of w) \<le> m)"
  using assms by (auto simp: batches_def running_def comp_def)

lemma data_inv_worker:
  assumes i: "i < length (tp_workers s)" and w: "tp_workers t = (tp_workers s)[i := v]"
    and d: "data_inv n cap s"
    and st: "length (tp_tokens t) = length (tp_tokens s)" "tp_max_queue_size t = tp_max_queue_size s"
      "length (tp_tasks t) \<le> length (tp_tasks s)" "tp_accepted t = tp_taken t @ tp_tasks t"
      "mset (tp_taken t) + mset (batch_of (tp_workers s ! i)) + mset (tp_executed s)
         = mset (tp_taken s) + mset (batch_of v) + mset (tp_executed t)"
      "tp_active_workers t = tp_active_workers s + of_bool (is_running v) - of_bool (is_running (tp_workers s ! i))"
      "length (batch_of v) \<le> g_dequeue_batch"
  shows "data_inv n cap t"
proof -
  note u = worker_upd [OF i w]
  have taken: "mset (tp_taken s) = mset (tp_executed s) + batches s" using d by (simp add: data_inv_def)
  have "mset (tp_taken t) + mset (batch_of (tp_workers s ! i)) + mset (tp_executed s)
      = mset (tp_executed t) + (batches t + mset (batch_of (tp_workers s ! i))) + mset (tp_executed s)"
    unfolding st(5) taken u(1) by (simp add: ac_simps)
  then have "mset (tp_taken t) = mset (tp_executed t) + batches t" by simp
  moreover have "\<forall>w \<in> set (tp_workers t). length (batch_of w) \<le> g_dequeue_batch"
    using d st(7) set_update_subset_insert [of "tp_workers s" i v] w by (auto simp: data_inv_def)
  ultimately show ?thesis using d st u(2) w by (simp add: data_inv_def)
qed

lemma data_inv_same:
  assumes w: "tp_workers t = tp_workers s \<or> tp_workers t = map wake_worker (tp_workers s)"
    and d: "data_inv n cap s"
    and "length (tp_tokens t) = length (tp_tokens s)" "tp_max_queue_size t = tp_max_queue_size s"
      "length (tp_tasks t) \<le> cap" "tp_accepted t = tp_taken t @ tp_tasks t"
      "tp_taken t = tp_taken s" "tp_executed t = tp_executed s" "tp_active_workers t = tp_active_workers s"
  shows "data_inv n cap t"
  using assms workers_same [OF w] by (simp add: data_inv_def)

lemma data_inv_worker_step:
  assumes i: "i < length (tp_workers s)" and d: "data_inv n cap s"
  shows "data_inv n cap (worker_step i s)"
proof -
  have acc: "tp_accepted s = tp_taken s @ tp_tasks s" and
    bound: "length (batch_of (tp_workers s ! i)) \<le> g_dequeue_batch"
    using i d nth_mem [OF i] unfolding data_inv_def by blast+
  show ?thesis
  proof (cases "tp_workers s ! i")
    case Ready
    then show ?thesis using d acc
      by (auto simp: worker_step_def worker_lock_def Let_def intro!: data_inv_worker [OF i _ d])
  next
    case (Running b)
    then show ?thesis using acc bound
      by (cases b) (auto simp: worker_step_def intro!: data_inv_worker [OF i _ d])
  qed (use d acc bound in \<open>auto simp: worker_step_def intro!: data_inv_worker [OF i _ d]\<close>)
qed

lemma data_inv_caller_lock:
  assumes d: "data_inv n cap s"
  shows "data_inv n cap (caller_lock j task s)"
proof -
  have "tp_accepted s = tp_taken s @ tp_tasks s" "length (tp_tasks s) \<le> cap" "tp_max_queue_size s = cap"
    using d by (auto simp: data_inv_def)
  then show ?thesis by (intro data_inv_same [OF _ d]) (auto simp: caller_lock_def)
qed

lemma data_inv_wake:
  assumes d: "data_inv n cap s" and i: "i < length (tp_workers s)" "tp_workers s ! i = Blocked"
  shows "data_inv n cap (s\<lparr>tp_workers := (tp_workers s)[i := Ready]\<rparr>)"
  using d by (intro data_inv_worker [OF i(1) _ d]) (auto simp: data_inv_def i)

lemma data_inv_fields [simp]:
  "data_inv n cap (s\<lparr>tp_callers := cs\<rparr>) = data_inv n cap s"
  "data_inv n cap (s\<lparr>tp_stop := b\<rparr>) = data_inv n cap s"
  "data_inv n cap (s\<lparr>tp_stopper := st\<rparr>) = data_inv n cap s"
  by (auto simp: data_inv_def batches_def running_def)

lemma data_inv_caller_notify:
  assumes d: "data_inv n cap s" and w: "may_wake w s"
  shows "data_inv n cap (caller_notify j w s)"
  using data_inv_wake [OF d] d w by (auto simp: caller_notify_def may_wake_def split: option.splits)

lemma data_inv_stopper_step:
  assumes d: "data_inv n cap s"
  shows "data_inv n cap (stopper_step s)"
proof -
  have "tp_accepted s = tp_taken s @ tp_tasks s" "length (tp_tasks s) \<le> cap"
    using d by (auto simp: data_inv_def)
  then show ?thesis using d
    by (auto simp: stopper_step_def request_stop_def intro!: data_inv_same [OF _ d] split: stopper.split)
qed

lemma data_inv_step: "tp_step s t \<Longrightarrow> data_inv n cap s \<Longrightarrow> data_inv n cap t"
proof (induction rule: tp_step.induct)
  case (work s t)
  then show ?case
    by (cases rule: tp_work.cases)
      (auto intro: data_inv_worker_step data_inv_caller_lock data_inv_caller_notify data_inv_stopper_step)
qed (auto simp: call_enqueue_def call_shutdown_def intro: data_inv_wake)

interpretation pool_data: transitions tp_step "data_inv n cap"
  by unfold_locales (rule data_inv_step)

lemma data_inv_new:
  "data_inv (unat threads) (unat (effective_queue_capacity threads m)) (new_ThreadPool threads m)"
  by (auto simp: data_inv_def new_ThreadPool_def batches_def running_def)

text \<open>The order of a shutdown: who may still be blocked at which point of it, and that a worker returns only when nothing is left.\<close>

definition stop_inv :: "'a ThreadPool \<Rightarrow> bool" where
  "stop_inv s \<longleftrightarrow>
     (tp_stop s \<longleftrightarrow> tp_stopper s \<noteq> NotStopping)
   \<and> (True \<in> set (tp_tokens s) \<longrightarrow> tp_stop s)
   \<and> (Returned \<in> set (tp_workers s) \<longrightarrow> tp_stop s \<and> tp_tasks s = [])
   \<and> (Blocked \<in> set (tp_workers s) \<longrightarrow> tp_stopper s \<in> {NotStopping, NotifyWorkers} \<union> range Requesting)
   \<and> (\<forall>k. tp_stopper s = Joining k \<longrightarrow> set (take k (tp_workers s)) \<subseteq> {Returned})
   \<and> (tp_stopper s = Stopped \<longrightarrow> set (tp_workers s) \<subseteq> {Returned})"

lemma take_update_Returned:
  assumes "set (take k ws) \<subseteq> {Returned}" "ws ! i \<noteq> Returned"
  shows "take k (ws[i := v]) = take k ws"
proof (cases "i < k \<and> i < length ws")
  case True
  then have "ws ! i \<in> set (take k ws)" by (auto simp: in_set_conv_nth intro: exI [of _ i])
  then show ?thesis using assms by auto
qed (auto simp: take_update_swap list_update_beyond)

lemma stop_inv_worker:
  assumes i: "i < length (tp_workers s)" "tp_workers s ! i \<noteq> Returned" and s: "stop_inv s"
    and w: "tp_workers t = (tp_workers s)[i := v]"
    and st: "tp_stop t = tp_stop s" "tp_stopper t = tp_stopper s" "tp_tokens t = tp_tokens s"
      "tp_tasks s = [] \<Longrightarrow> tp_tasks t = []"
      "v = Returned \<Longrightarrow> tp_stop s \<and> tp_tasks s = []"
      "v = Blocked \<Longrightarrow> \<not> tp_stop s"
  shows "stop_inv t"
proof -
  have "\<not> set (tp_workers s) \<subseteq> {Returned}" using i by (auto dest: nth_mem)
  then have "tp_stopper s \<noteq> Stopped" using s by (auto simp: stop_inv_def)
  moreover have "set (take k (tp_workers t)) \<subseteq> {Returned}" if "tp_stopper s = Joining k" for k
    using s that take_update_Returned [of k "tp_workers s" i v] i(2) by (auto simp: stop_inv_def w)
  moreover have "Returned \<in> set (tp_workers t) \<longrightarrow> tp_stop t \<and> tp_tasks t = []"
    using s st by (auto simp: stop_inv_def w dest!: set_updD)
  moreover have "Blocked \<in> set (tp_workers t) \<longrightarrow> tp_stopper t \<in> {NotStopping, NotifyWorkers} \<union> range Requesting"
    using s st by (auto simp: stop_inv_def w dest!: set_updD)
  moreover have "True \<in> set (tp_tokens t) \<longrightarrow> tp_stop t"
    using s unfolding stop_inv_def st by blast
  ultimately show ?thesis using s st unfolding stop_inv_def by (metis (no_types, lifting))
qed

lemma stop_inv_worker_step:
  assumes i: "i < length (tp_workers s)" "tp_workers s ! i \<noteq> Returned" and s: "stop_inv s"
    and tok: "length (tp_tokens s) = length (tp_workers s)"
  shows "stop_inv (worker_step i s)"
proof -
  have tk: "tp_tokens s ! i \<Longrightarrow> tp_stop s"
    using s nth_mem [of i "tp_tokens s"] i(1) tok by (auto simp: stop_inv_def)
  show ?thesis
  proof (cases "tp_workers s ! i")
    case Ready
    then show ?thesis using tk
      by (auto simp: worker_step_def worker_lock_def Let_def intro!: stop_inv_worker [OF i s])
  next
    case (Running b)
    then show ?thesis
      by (cases b) (auto simp: worker_step_def intro!: stop_inv_worker [OF i s])
  qed (use i s in \<open>auto simp: worker_step_def intro!: stop_inv_worker [OF i s]\<close>)
qed

lemma stop_inv_callers [simp]: "stop_inv (s\<lparr>tp_callers := cs\<rparr>) = stop_inv s"
  by (simp add: stop_inv_def)

lemma stop_inv_caller_lock: "stop_inv s \<Longrightarrow> stop_inv (caller_lock j task s)"
  by (auto simp: caller_lock_def stop_inv_def)

lemma stop_inv_wake:
  assumes i: "i < length (tp_workers s)" "tp_workers s ! i = Blocked" and s: "stop_inv s"
  shows "stop_inv (s\<lparr>tp_workers := (tp_workers s)[i := Ready]\<rparr>)"
  by (rule stop_inv_worker [OF i(1) _ s, of _ Ready]) (use i in auto)

lemma stop_inv_caller_notify: "may_wake w s \<Longrightarrow> stop_inv s \<Longrightarrow> stop_inv (caller_notify j w s)"
  by (cases w) (simp_all add: caller_notify_def may_wake_def stop_inv_wake)

lemma stop_inv_call_shutdown: "stop_inv s \<Longrightarrow> stop_inv (call_shutdown s)"
  by (auto simp: call_shutdown_def stop_inv_def)

lemma stop_inv_stopper_step:
  assumes s: "stop_inv s" and en: "stopper_enabled s"
  shows "stop_inv (stopper_step s)"
proof (cases "tp_stopper s")
  case (Requesting k)
  then show ?thesis using s
    by (auto simp: stopper_step_def request_stop_def stop_inv_def image_iff dest!: set_updD)
next
  case (Joining k)
  then have *: "set (take k (tp_workers s)) \<subseteq> {Returned}" using s by (auto simp: stop_inv_def)
  show ?thesis
  proof (cases "k < length (tp_workers s)")
    case True
    then show ?thesis using s en Joining *
      by (auto simp: stopper_step_def stopper_enabled_def stop_inv_def take_Suc_conv_app_nth)
  qed (use s Joining * in \<open>auto simp: stopper_step_def stop_inv_def\<close>)
qed (use s in \<open>auto simp: stopper_step_def stop_inv_def\<close>)

lemma stop_inv_step: "tp_step s t \<Longrightarrow> data_inv n cap s \<Longrightarrow> stop_inv s \<Longrightarrow> stop_inv t"
proof (induction rule: tp_step.induct)
  case (work s t)
  from work(1) show ?case
    by (cases rule: tp_work.cases)
      (use work in \<open>auto simp: data_inv_def intro: stop_inv_worker_step stop_inv_caller_lock stop_inv_caller_notify
        stop_inv_stopper_step\<close>)
qed (auto simp: call_enqueue_def intro: stop_inv_wake stop_inv_call_shutdown)

text \<open>No wake-up is lost: with work in the queue a worker is up or about to be woken, and a call that waits for room will be woken when there is some.\<close>

definition up :: "'a worker \<Rightarrow> bool" where
  "up w \<longleftrightarrow> w \<noteq> Blocked \<and> w \<noteq> Returned"

definition wake_inv :: "'a ThreadPool \<Rightarrow> bool" where
  "wake_inv s \<longleftrightarrow>
     (tp_tasks s \<noteq> [] \<longrightarrow> (\<exists>w \<in> set (tp_workers s). up w) \<or> Pushed \<in> set (tp_callers s))
   \<and> ((\<exists>task. Waiting task \<in> set (tp_callers s)) \<longrightarrow>
        (tp_max_queue_size s \<le> length (tp_tasks s) \<and> \<not> tp_stop s)
      \<or> (\<exists>b. Took b \<in> set (tp_workers s))
      \<or> tp_stopper s \<in> {NotifyWorkers, NotifyProducers} \<union> range Requesting)"

lemma up_wake_worker [simp]: "up (wake_worker w) \<longleftrightarrow> w \<noteq> Returned"
  by (cases w) (simp_all add: up_def wake_worker_def)

lemma wake_one:
  assumes i: "i < length ws" "ws ! i = Blocked"
  shows "\<exists>w \<in> set (ws[i := Ready]). up w" "Took b \<in> set ws \<Longrightarrow> Took b \<in> set (ws[i := Ready])"
proof -
  show "\<exists>w \<in> set (ws[i := Ready]). up w"
    using set_update_memI [OF i(1)] by (intro bexI [of _ Ready]) (auto simp: up_def)
  show "Took b \<in> set ws \<Longrightarrow> Took b \<in> set (ws[i := Ready])"
    using in_set_upd [OF i(1)] i(2) by simp
qed

lemma wake_inv_worker_step:
  assumes i: "i < length (tp_workers s)" "up (tp_workers s ! i)" and w: "wake_inv s"
  shows "wake_inv (worker_step i s)"
proof -
  let ?ws = "tp_workers s"
  have upd: "v \<in> set (?ws[i := v])" for v by (rule set_update_memI [OF i(1)])
  have other: "Took b \<in> set (?ws[i := v])" if "Took b \<in> set ?ws" "Took b \<noteq> ?ws ! i" for b v
    using in_set_upd [OF i(1) that] .
  show ?thesis
  proof (cases "?ws ! i")
    case Ready
    then have t: "Took b \<in> set ?ws \<Longrightarrow> Took b \<in> set (?ws[i := v])" for b v using other by simp
    show ?thesis
    proof (cases "tp_tasks s = []")
      case True
      with Ready w t show ?thesis
        by (auto simp: worker_step_def worker_lock_def Let_def wake_inv_def)
    next
      case False
      have "\<exists>w \<in> set (?ws[i := Took b]). up w" "\<exists>b'. Took b' \<in> set (?ws[i := Took b])" for b
        using upd [of "Took b"] by (auto simp: up_def)
      with Ready False show ?thesis
        by (simp add: worker_step_def worker_lock_def Let_def wake_inv_def)
    qed
  next
    case (Took b)
    have "\<exists>w \<in> set (?ws[i := Notified b]). up w" using upd [of "Notified b"] by (auto simp: up_def)
    with Took show ?thesis by (auto simp: worker_step_def wake_inv_def)
  next
    case (Notified b)
    have "\<exists>w \<in> set (?ws[i := Running b]). up w" using upd [of "Running b"] by (auto simp: up_def)
    with Notified w other show ?thesis by (auto simp: worker_step_def wake_inv_def)
  next
    case (Running b)
    have "\<exists>w \<in> set (?ws[i := v]). up w" if "v = Ready \<or> v = Running (tl b)" for v
      using upd [of v] that by (auto simp: up_def)
    with Running w other show ?thesis by (cases b) (auto simp: worker_step_def wake_inv_def)
  qed (use i in \<open>auto simp: up_def\<close>)
qed

lemma wake_inv_caller_lock:
  assumes j: "j < length (tp_callers s)" "tp_callers s ! j = Entering task" and w: "wake_inv s" and s: "stop_inv s"
  shows "wake_inv (caller_lock j task s)"
proof -
  have "Pushed \<in> set (tp_callers s) \<Longrightarrow> Pushed \<in> set ((tp_callers s)[j := c])" for c
    using in_set_upd [OF j(1), of Pushed] j(2) by simp
  moreover have "Pushed \<in> set ((tp_callers s)[j := Pushed])" by (rule set_update_memI [OF j(1)])
  ultimately show ?thesis using w
    by (auto simp: caller_lock_def wake_inv_def dest!: set_updD)
qed

lemma wake_inv_caller_notify:
  assumes j: "j < length (tp_callers s)" "tp_callers s ! j = Pushed" and m: "may_wake w s"
    and n: "0 < length (tp_workers s)" and v: "wake_inv s" "stop_inv s"
  shows "wake_inv (caller_notify j w s)"
proof (cases w)
  case None
  have "\<exists>w \<in> set (tp_workers s). up w" if "tp_tasks s \<noteq> []"
  proof -
    have "Returned \<notin> set (tp_workers s)" using v(2) that by (auto simp: stop_inv_def)
    moreover have "Blocked \<notin> set (tp_workers s)" using m None by (simp add: may_wake_def)
    ultimately show ?thesis using n nth_mem [OF n] unfolding up_def by metis
  qed
  then show ?thesis using v(1) None
    by (auto simp: caller_notify_def wake_inv_def dest!: set_updD)
next
  case (Some i)
  then have i: "i < length (tp_workers s)" "tp_workers s ! i = Blocked" using m by (auto simp: may_wake_def)
  show ?thesis using v(1) Some wake_one [OF i]
    by (auto simp: caller_notify_def wake_inv_def dest!: set_updD)
qed

lemma wake_inv_stopper_step:
  assumes "wake_inv s" "stop_inv s"
  shows "wake_inv (stopper_step s)"
proof -
  have "(\<exists>w \<in> set (map wake_worker (tp_workers s)). up w)" if "w \<in> set (tp_workers s)" "up w" for w
    using that by (auto simp: up_def)
  moreover have "Took b \<in> set (map wake_worker (tp_workers s)) \<longleftrightarrow> Took b \<in> set (tp_workers s)" for b
    by auto
  ultimately show ?thesis using assms
    by (auto simp: stopper_step_def request_stop_def wake_inv_def split: stopper.split)
qed

lemma wake_inv_call: 
  "wake_inv s \<Longrightarrow> wake_inv (call_enqueue task s)" "wake_inv s \<Longrightarrow> stop_inv s \<Longrightarrow> wake_inv (call_shutdown s)"
  by (auto simp: call_enqueue_def call_shutdown_def wake_inv_def)

lemma wake_inv_spurious_worker:
  assumes i: "i < length (tp_workers s)" "tp_workers s ! i = Blocked" and w: "wake_inv s"
  shows "wake_inv (s\<lparr>tp_workers := (tp_workers s)[i := Ready]\<rparr>)"
  using w wake_one [OF i] by (auto simp: wake_inv_def)

lemma wake_inv_spurious_caller:
  assumes j: "j < length (tp_callers s)" "tp_callers s ! j = Waiting task" and w: "wake_inv s"
  shows "wake_inv (s\<lparr>tp_callers := (tp_callers s)[j := Entering task]\<rparr>)"
proof -
  have "Pushed \<in> set (tp_callers s) \<Longrightarrow> Pushed \<in> set ((tp_callers s)[j := Entering task])"
    using in_set_upd [OF j(1), of Pushed] j(2) by simp
  then show ?thesis using w by (auto simp: wake_inv_def dest!: set_updD)
qed

definition pool_inv :: "nat \<Rightarrow> nat \<Rightarrow> 'a ThreadPool \<Rightarrow> bool" where
  "pool_inv n cap s \<longleftrightarrow> data_inv n cap s \<and> stop_inv s \<and> (0 < n \<longrightarrow> wake_inv s)"

lemma wake_inv_step:
  assumes "tp_step s t" and inv: "data_inv n cap s" "stop_inv s" "wake_inv s" and n: "0 < n"
  shows "wake_inv t"
  using assms(1)
proof (cases rule: tp_step.cases)
  case work
  have len: "0 < length (tp_workers s)" using inv(1) n by (simp add: data_inv_def)
  from work show ?thesis
  proof (cases rule: tp_work.cases)
    case (worker i)
    then show ?thesis using inv by (auto simp: up_def intro: wake_inv_worker_step)
  next
    case (caller j task)
    then show ?thesis using inv by (auto intro: wake_inv_caller_lock)
  next
    case (notify j w)
    then show ?thesis using inv len by (auto intro: wake_inv_caller_notify)
  next
    case stopper
    then show ?thesis using inv by (auto intro: wake_inv_stopper_step)
  qed
qed (use inv in \<open>auto intro: wake_inv_call wake_inv_spurious_worker wake_inv_spurious_caller\<close>)

interpretation pool: transitions tp_step "pool_inv n cap"
  by unfold_locales (auto simp: pool_inv_def intro: data_inv_step stop_inv_step wake_inv_step)

lemma pool_inv_new:
  "pool_inv (unat threads) (unat (effective_queue_capacity threads m)) (new_ThreadPool threads m)"
  using data_inv_new [of threads m]
  by (auto simp: pool_inv_def stop_inv_def wake_inv_def new_ThreadPool_def)

lemmas pool_reach = pool.inv_reach [OF _ pool_inv_new]

section \<open>Termination of the work\<close>

fun worker_weight :: "'a worker \<Rightarrow> nat" where
  "worker_weight (Took b) = 3 + length b"
| "worker_weight (Notified b) = 2 + length b"
| "worker_weight (Running b) = 1 + length b"
| "worker_weight _ = 0"

fun caller_weight :: "'a caller \<Rightarrow> nat" where
  "caller_weight (Entering _) = 11"
| "caller_weight (Waiting _) = 11"
| "caller_weight Pushed = 1"
| "caller_weight _ = 0"

fun stopper_weight :: "nat \<Rightarrow> stopper \<Rightarrow> nat" where
  "stopper_weight n (Requesting k) = (n - k) + (n + 4)"
| "stopper_weight n NotifyWorkers = n + 3"
| "stopper_weight n NotifyProducers = n + 2"
| "stopper_weight n (Joining k) = (n - k) + 1"
| "stopper_weight n _ = 0"

fun is_entering :: "'a caller \<Rightarrow> bool" where
  "is_entering (Entering _) = True"
| "is_entering _ = False"

text \<open>
  What is still to be done, and then who is still to look at the queue: a thread that blocks leaves
  the first and lowers the second, every other step lowers the first.
\<close>

definition to_do :: "'a ThreadPool \<Rightarrow> nat" where
  "to_do s = 9 * length (tp_tasks s) + sum_list (map worker_weight (tp_workers s))
     + sum_list (map caller_weight (tp_callers s)) + stopper_weight (length (tp_workers s)) (tp_stopper s)"

definition to_look :: "'a ThreadPool \<Rightarrow> nat" where
  "to_look s = sum_list (map (\<lambda>w. of_bool (w = Ready)) (tp_workers s))
     + sum_list (map (\<lambda>c. of_bool (is_entering c)) (tp_callers s))"

definition work_order :: "('a ThreadPool \<times> 'a ThreadPool) set" where
  "work_order = inv_image (less_than <*lex*> less_than) (\<lambda>s. (to_do s, to_look s))"

lemma wf_work_order: "wf work_order"
  by (auto simp: work_order_def)

lemma in_work_order: "(t, s) \<in> work_order \<longleftrightarrow> to_do t < to_do s \<or> to_do t = to_do s \<and> to_look t < to_look s"
  by (auto simp: work_order_def)

lemma weight_wake [simp]:
  "worker_weight (wake_worker w) = worker_weight w" "caller_weight (wake_caller c) = caller_weight c"
  by (cases w; simp add: wake_worker_def) (cases c; simp)

lemma sum_list_map_wake [simp]:
  "sum_list (map worker_weight (map wake_worker ws)) = sum_list (map worker_weight ws)"
  "sum_list (map caller_weight (map wake_caller cs)) = sum_list (map caller_weight cs)"
  by (simp_all add: comp_def)

lemmas worker_weight_upd = sum_list_update_eq [where f = worker_weight]
lemmas caller_weight_upd = sum_list_update_eq [where f = caller_weight]
lemmas ready_upd = sum_list_update_eq [where f = "\<lambda>w. of_bool (w = Ready) :: nat"]
lemmas entering_upd = sum_list_update_eq [where f = "\<lambda>c. of_bool (is_entering c) :: nat"]

lemma work_order_worker:
  assumes i: "i < length (tp_workers s)" "tp_workers s ! i \<notin> {Blocked, Returned}"
  shows "(worker_step i s, s) \<in> work_order"
proof (cases "tp_workers s ! i")
  case Ready
  show ?thesis
  proof (cases "tp_tasks s = []")
    case True
    then show ?thesis
      using Ready worker_weight_upd [OF i(1), of Blocked] worker_weight_upd [OF i(1), of Returned]
        ready_upd [OF i(1), of Blocked] ready_upd [OF i(1), of Returned]
      by (auto simp: in_work_order to_do_def to_look_def worker_step_def worker_lock_def Let_def)
  next
    case False
    define k where "k = min g_dequeue_batch (length (tp_tasks s))"
    have k: "0 < k" "k \<le> length (tp_tasks s)" using False by (simp_all add: k_def g_dequeue_batch_def)
    have "tp_tasks (worker_step i s) = drop k (tp_tasks s)"
      "tp_workers (worker_step i s) = (tp_workers s)[i := Took (take k (tp_tasks s))]"
      "tp_callers (worker_step i s) = tp_callers s" "tp_stopper (worker_step i s) = tp_stopper s"
      using Ready False by (simp_all add: worker_step_def worker_lock_def Let_def k_def)
    then have "to_do (worker_step i s) < to_do s"
      using k Ready worker_weight_upd [OF i(1), of "Took (take k (tp_tasks s))"] by (simp add: to_do_def)
    then show ?thesis by (simp add: in_work_order)
  qed
next
  case (Took b)
  then show ?thesis using worker_weight_upd [OF i(1), of "Notified b"]
    by (simp add: in_work_order to_do_def worker_step_def comp_def)
next
  case (Notified b)
  then show ?thesis using worker_weight_upd [OF i(1), of "Running b"]
    by (simp add: in_work_order to_do_def worker_step_def)
next
  case (Running b)
  then show ?thesis
    using worker_weight_upd [OF i(1), of "Running (tl b)"] worker_weight_upd [OF i(1), of Ready]
    by (cases b) (auto simp: in_work_order to_do_def worker_step_def)
qed (use i in auto)

lemma work_order_caller:
  assumes j: "j < length (tp_callers s)" "tp_callers s ! j = Entering task"
  shows "(caller_lock j task s, s) \<in> work_order"
  using j(2) caller_weight_upd [OF j(1), of Pushed] caller_weight_upd [OF j(1), of Threw]
    caller_weight_upd [OF j(1), of "Waiting task"] entering_upd [OF j(1), of "Waiting task"]
  by (auto simp: in_work_order to_do_def to_look_def caller_lock_def)

lemma work_order_notify:
  assumes j: "j < length (tp_callers s)" "tp_callers s ! j = Pushed" and w: "may_wake w s"
  shows "(caller_notify j w s, s) \<in> work_order"
proof -
  have "sum_list (map worker_weight (tp_workers (caller_notify j w s))) = sum_list (map worker_weight (tp_workers s))"
  proof (cases w)
    case (Some i)
    then show ?thesis using w worker_weight_upd [of i "tp_workers s" Ready]
      by (simp add: caller_notify_def may_wake_def)
  qed (simp add: caller_notify_def)
  moreover have "length (tp_workers (caller_notify j w s)) = length (tp_workers s)"
    by (simp add: caller_notify_def split: option.split)
  ultimately show ?thesis using j(2) caller_weight_upd [OF j(1), of GotFuture]
    by (simp add: in_work_order to_do_def) (simp add: caller_notify_def)
qed

lemma work_order_stopper:
  assumes "stopper_enabled s"
  shows "(stopper_step s, s) \<in> work_order"
  using assms
  by (auto simp: in_work_order to_do_def stopper_step_def stopper_enabled_def request_stop_def comp_def
    split: stopper.splits)

lemma tp_work_decreases: "tp_work s t \<Longrightarrow> (t, s) \<in> work_order"
  by (induction rule: tp_work.induct)
    (auto intro: work_order_worker work_order_caller work_order_notify work_order_stopper)

section \<open>The pool runs what it accepts\<close>

lemma stuck_workers:
  assumes "\<nexists>t. tp_work s t"
  shows "set (tp_workers s) \<subseteq> {Blocked, Returned}"
proof
  fix w assume "w \<in> set (tp_workers s)"
  then obtain i where "i < length (tp_workers s)" "tp_workers s ! i = w" by (auto simp: in_set_conv_nth)
  then show "w \<in> {Blocked, Returned}" using assms tp_work.worker [of i s] by auto
qed

lemma stuck_callers:
  assumes "\<nexists>t. tp_work s t"
  shows "Entering task \<notin> set (tp_callers s)" "Pushed \<notin> set (tp_callers s)"
proof -
  show "Entering task \<notin> set (tp_callers s)" using assms tp_work.caller by (metis in_set_conv_nth)
  have "\<exists>w. may_wake w s"
  proof (cases "Blocked \<in> set (tp_workers s)")
    case True
    then obtain i where "i < length (tp_workers s)" "tp_workers s ! i = Blocked" by (auto simp: in_set_conv_nth)
    then have "may_wake (Some i) s" by (simp add: may_wake_def)
    then show ?thesis ..
  qed (auto simp: may_wake_def intro: exI [of _ None])
  then show "Pushed \<notin> set (tp_callers s)" using assms tp_work.notify by (metis in_set_conv_nth)
qed

lemma idle_workers:
  "set (tp_workers s) \<subseteq> {Blocked, Returned} \<Longrightarrow> batches s = {#}"
  "set (tp_workers s) \<subseteq> {Blocked, Returned} \<Longrightarrow> running s = 0"
proof -
  assume "set (tp_workers s) \<subseteq> {Blocked, Returned}"
  then have "map (\<lambda>w. mset (batch_of w)) (tp_workers s) = map (\<lambda>_. {#}) (tp_workers s)"
    "map (\<lambda>w. of_bool (is_running w) :: int) (tp_workers s) = map (\<lambda>_. 0) (tp_workers s)"
    by (auto intro!: map_cong)
  then show "batches s = {#}" "running s = 0" by (simp_all only: batches_def running_def sum_list_0)
qed

lemma stuck_pool:
  assumes inv: "pool_inv n cap s" and pos: "0 < n" "0 < cap" and stuck: "\<nexists>t. tp_work s t"
  shows "tp_tasks s = []" "mset (tp_executed s) = mset (tp_accepted s)" "tp_active_workers s = 0"
    "set (tp_callers s) \<subseteq> {GotFuture, Threw}" "tp_stop s \<longrightarrow> tp_stopper s = Stopped"
proof -
  have d: "data_inv n cap s" and st: "stop_inv s" and wk: "wake_inv s" using inv pos by (auto simp: pool_inv_def)
  note w = stuck_workers [OF stuck] and c = stuck_callers [OF stuck]
  have en: "\<not> stopper_enabled s" using stuck tp_work.stopper by blast
  show tasks: "tp_tasks s = []" using wk w c by (auto simp: wake_inv_def up_def)
  show "tp_active_workers s = 0" using d idle_workers(2) [OF w] by (simp add: data_inv_def)
  show "mset (tp_executed s) = mset (tp_accepted s)" using d idle_workers(1) [OF w] tasks by (simp add: data_inv_def)
  have "Waiting task \<notin> set (tp_callers s)" for task
  proof
    assume "Waiting task \<in> set (tp_callers s)"
    moreover have "tp_max_queue_size s = cap" using d by (simp add: data_inv_def)
    moreover have "Took b \<notin> set (tp_workers s)" for b using w by auto
    ultimately have "tp_stopper s \<in> {NotifyWorkers, NotifyProducers} \<union> range Requesting"
      using wk tasks pos by (auto simp: wake_inv_def)
    then show False using en by (auto simp: stopper_enabled_def)
  qed
  then have "c \<in> {GotFuture, Threw}" if "c \<in> set (tp_callers s)" for c
    using stuck_callers [OF stuck] that by (cases c) auto
  then show "set (tp_callers s) \<subseteq> {GotFuture, Threw}" by blast
  show "tp_stop s \<longrightarrow> tp_stopper s = Stopped"
  proof
    assume stop: "tp_stop s"
    have "tp_workers s ! k = Returned" if "tp_stopper s = Joining k" "k < length (tp_workers s)" for k
    proof -
      have "Blocked \<notin> set (tp_workers s)" using st that(1) by (auto simp: stop_inv_def)
      then show ?thesis using subsetD [OF w nth_mem [OF that(2)]] nth_mem [OF that(2)] by (metis insertE singletonD)
    qed
    then show "tp_stopper s = Stopped" using en stop st by (cases "tp_stopper s") (auto simp: stopper_enabled_def stop_inv_def)
  qed
qed

lemma no_infinite_work: "\<not> (\<forall>k. tp_work (f k) (f (Suc k)))"
  using wf_work_order tp_work_decreases unfolding wf_iff_no_infinite_down_chain by blast

lemma tp_work_reach: "tp_work\<^sup>*\<^sup>* s t \<Longrightarrow> tp_step\<^sup>*\<^sup>* s t"
  by (rule mono_rtranclp [rule_format, of tp_work tp_step]) (auto intro: tp_step.work)

lemma accepted_stopped_step:
  assumes "tp_step s t" "tp_stop s"
  shows "tp_stop t \<and> tp_accepted t = tp_accepted s"
  using assms(1)
proof (cases rule: tp_step.cases)
  case work
  then show ?thesis using assms(2)
    by (cases rule: tp_work.cases)
      (auto simp: worker_step_def worker_lock_def Let_def caller_lock_def caller_notify_def stopper_step_def request_stop_def
        split: worker.splits list.splits stopper.splits if_splits)
qed (use assms(2) in \<open>auto simp: call_enqueue_def call_shutdown_def\<close>)

lemma accepted_stopped:
  assumes "tp_step\<^sup>*\<^sup>* s t" "tp_stop s"
  shows "tp_stop t \<and> tp_accepted t = tp_accepted s"
  using assms by (induction rule: rtranclp_induct) (auto dest: accepted_stopped_step)

lemma one_task_reach:
  "tp_step\<^sup>*\<^sup>* (new_ThreadPool 1 2) (caller_lock 0 task (call_enqueue task (new_ThreadPool 1 2)))"
proof -
  have "tp_step (new_ThreadPool 1 2) (call_enqueue task (new_ThreadPool 1 2))" by (rule tp_step.enqueue)
  moreover have "tp_step (call_enqueue task (new_ThreadPool 1 2)) (caller_lock 0 task (call_enqueue task (new_ThreadPool 1 2)))"
    by (intro tp_step.work tp_work.caller) (simp_all add: call_enqueue_def new_ThreadPool_def)
  ultimately show ?thesis by (meson converse_rtranclp_into_rtranclp rtranclp.rtrancl_refl)
qed

text \<open>
  Property C18. Under any interleaving of workers, callers and a shutdown, with spurious wake-ups,
  the queue never holds more tasks than its capacity, workers take the tasks in the order in which they
  were accepted, at most sixteen at a time, every accepted task is in the queue, in one batch or
  executed and never twice, the counter of active workers is the number of workers that run a batch,
  and after a shutdown began nothing more is accepted.
\<close>
theorem pool_exactly_once:
  assumes "tp_step\<^sup>*\<^sup>* (new_ThreadPool threads max_queue_size) s"
  shows "queue_size s \<le> unat (effective_queue_capacity threads max_queue_size)
       \<and> tp_accepted s = tp_taken s @ tp_tasks s
       \<and> mset (tp_accepted s) = mset (tp_executed s) + (\<Sum>w\<leftarrow>tp_workers s. mset (batch_of w)) + mset (tp_tasks s)
       \<and> (\<forall>w \<in> set (tp_workers s). length (batch_of w) \<le> 16)
       \<and> active_count s = (\<Sum>w\<leftarrow>tp_workers s. of_bool (is_running w))
       \<and> (\<forall>t. tp_stop s \<longrightarrow> tp_step\<^sup>*\<^sup>* s t \<longrightarrow> tp_accepted t = tp_accepted s)"
proof -
  have d: "data_inv (unat threads) (unat (effective_queue_capacity threads max_queue_size)) s"
    using pool_reach [OF assms] by (simp add: pool_inv_def)
  then have "mset (tp_accepted s) = mset (tp_executed s) + batches s + mset (tp_tasks s)" by (simp add: data_inv_def)
  moreover have "\<forall>t. tp_stop s \<longrightarrow> tp_step\<^sup>*\<^sup>* s t \<longrightarrow> tp_accepted t = tp_accepted s"
    using accepted_stopped by blast
  ultimately show ?thesis using d unfolding batches_def
    by (auto simp: data_inv_def queue_size_def active_count_def running_def g_dequeue_batch_def)
qed

theorem pool_exactly_once_witness:
  "let s = caller_lock 0 (7 :: nat) (call_enqueue 7 (new_ThreadPool 1 2))
   in tp_accepted s = [7] \<and> queue_size s \<le> 2 \<and> mset (tp_accepted s) = mset (tp_executed s) + mset (tp_tasks s)"
  using pool_exactly_once [OF one_task_reach [of "7 :: nat"]]
  by (simp add: Let_def caller_lock_def call_enqueue_def new_ThreadPool_def effective_queue_capacity_def)

text \<open>
  Property C17. No wake-up is lost and every accepted task runs: with at least one worker and
  room in the queue, from every reachable state the threads of the pool cannot work for ever, and
  where none of them can go on the queue is empty, every accepted task has been executed, every call
  of enqueue has returned its future or thrown, no worker is active, and a shutdown that began
  has joined all the workers.
\<close>
theorem pool_drains:
  assumes "0 < threads" "0 < effective_queue_capacity threads max_queue_size"
    and "tp_step\<^sup>*\<^sup>* (new_ThreadPool threads max_queue_size) s"
  shows "(\<nexists>f. f 0 = s \<and> (\<forall>k. tp_work (f k) (f (Suc k))))
       \<and> (\<forall>t. tp_work\<^sup>*\<^sup>* s t \<longrightarrow> (\<nexists>u. tp_work t u) \<longrightarrow>
            tp_tasks t = [] \<and> mset (tp_executed t) = mset (tp_accepted t)
          \<and> set (tp_callers t) \<subseteq> {GotFuture, Threw} \<and> active_count t = 0
          \<and> (tp_stop t \<longrightarrow> tp_stopper t = Stopped \<and> set (tp_workers t) \<subseteq> {Returned}))"
proof (intro conjI allI impI)
  show "\<nexists>f. f 0 = s \<and> (\<forall>k. tp_work (f k) (f (Suc k)))" using no_infinite_work by blast
  fix t assume t: "tp_work\<^sup>*\<^sup>* s t" "\<nexists>u. tp_work t u"
  have "tp_step\<^sup>*\<^sup>* (new_ThreadPool threads max_queue_size) t"
    using assms(3) tp_work_reach [OF t(1)] by (rule rtranclp_trans)
  then have inv: "pool_inv (unat threads) (unat (effective_queue_capacity threads max_queue_size)) t" by (rule pool_reach)
  have pos: "0 < unat threads" "0 < unat (effective_queue_capacity threads max_queue_size)"
    using assms(1,2) by (simp_all add: unat_gt_0 word_gt_0)
  note stuck = stuck_pool [OF inv pos t(2)]
  show "tp_tasks t = []" "mset (tp_executed t) = mset (tp_accepted t)" "set (tp_callers t) \<subseteq> {GotFuture, Threw}"
    "active_count t = 0" using stuck by (simp_all add: active_count_def)
  show "tp_stop t \<Longrightarrow> tp_stopper t = Stopped" using stuck(5) by simp
  then show "tp_stop t \<Longrightarrow> set (tp_workers t) \<subseteq> {Returned}" using inv by (auto simp: pool_inv_def stop_inv_def)
qed

theorem pool_drains_witness:
  "\<not> (\<exists>f. f 0 = caller_lock 0 (7 :: nat) (call_enqueue 7 (new_ThreadPool 1 2)) \<and> (\<forall>k. tp_work (f k) (f (Suc k))))"
  using pool_drains [OF _ _ one_task_reach [of "7 :: nat"]] by (simp add: effective_queue_capacity_def)

end
