(* ===== verification/Diod_Sender.thy ===== *)
theory Diod_Sender
  imports Diod_Machine "HOL-Library.Multiset" "HOL-Library.Sublist"
begin

text \<open>
  The bounded queue between request threads and a delivery thread (\<open>async_sender_queue.hpp\<close>) with its
  two clients, the sender loops of \<open>trace_logger.cpp\<close> and \<open>sentry_client.cpp\<close>. A critical section is a
  function on the state; the one condition variable is explicit: the delivery thread and the calls of
  \<open>flush\<close> both wait on it. What a client does with a batch is one step. \<open>sq_offered\<close> is the history of the pushed
  items, \<open>sq_accepted\<close> of those that entered the queue, \<open>sq_dropped\<close> and \<open>sq_delivered\<close> say what
  became of them.
\<close>

datatype OverflowPolicy = DropOldest | DropNewest

datatype TakeResult = Batch | Idle | StoppedResult

record PushOutcome =
  m_accepted :: bool
  m_dropped :: bool
  m_size :: nat

datatype 'a pusher = Push_entering 'a | Push_notify PushOutcome | Push_returned PushOutcome

datatype flusher = Flush_entering | Flush_blocked | Flush_returned

datatype 'a consumer =
    Loop_head                 \<comment> \<open>at the condition of the loop\<close>
  | Take_entering             \<comment> \<open>in \<open>wait_and_take\<close>, about to take the mutex\<close>
  | Take_blocked
  | Sending "'a list"
  | Sent "'a list"            \<comment> \<open>about to call \<open>mark_processed\<close>\<close>
  | Mark_notify
  | After_loop
  | Ended

text \<open>How a client calls \<open>wait_and_take\<close>, whether its loop looks at the stop token, and whether it drains the queue at the end.\<close>

record client =
  c_idle_timeout_ms :: int
  c_max_batch :: nat
  c_drain_on_stop :: bool
  c_checks_stop :: bool
  c_final_drain :: bool

definition jaeger_client :: "int \<Rightarrow> nat \<Rightarrow> client" where
  "jaeger_client flush_interval_ms batch_size =
     \<lparr>c_idle_timeout_ms = (if flush_interval_ms < 0 then - ((- flush_interval_ms) div 10) else flush_interval_ms div 10),
      c_max_batch = batch_size, c_drain_on_stop = False, c_checks_stop = True, c_final_drain = True\<rparr>"

definition kSenderBatchSize :: nat where "kSenderBatchSize = 8"

definition sentry_client :: client where
  "sentry_client = \<lparr>c_idle_timeout_ms = 0, c_max_batch = kSenderBatchSize, c_drain_on_stop = True,
     c_checks_stop = False, c_final_drain = False\<rparr>"

record 'a AsyncSenderQueue =
  sq_items :: "'a list"
  sq_pending :: nat
  sq_max_queue_size :: nat
  sq_policy :: OverflowPolicy
  sq_stop :: bool
  sq_consumer :: "'a consumer"
  sq_pushers :: "'a pusher list"
  sq_flushers :: "flusher list"
  sq_offered :: "'a list"
  sq_accepted :: "'a list"
  sq_dropped :: "'a list"
  sq_delivered :: "'a list"

definition new_AsyncSenderQueue :: "nat \<Rightarrow> OverflowPolicy \<Rightarrow> 'a AsyncSenderQueue" where
  "new_AsyncSenderQueue max_queue_size policy =
     \<lparr>sq_items = [], sq_pending = 0, sq_max_queue_size = (if max_queue_size = 0 then 1 else max_queue_size),
      sq_policy = policy, sq_stop = False, sq_consumer = Loop_head, sq_pushers = [], sq_flushers = [],
      sq_offered = [], sq_accepted = [], sq_dropped = [], sq_delivered = []\<rparr>"

section \<open>push\<close>

text \<open>The front of a full queue is dropped, or the new item.\<close>

definition drop_front :: "'a AsyncSenderQueue \<Rightarrow> 'a AsyncSenderQueue" where
  "drop_front s = s\<lparr>sq_items := tl (sq_items s),
     sq_pending := (if sq_pending s > 0 then sq_pending s - 1 else sq_pending s),
     sq_dropped := sq_dropped s @ [hd (sq_items s)]\<rparr>"

definition push_back :: "'a \<Rightarrow> 'a AsyncSenderQueue \<Rightarrow> 'a AsyncSenderQueue" where
  "push_back item s = s\<lparr>sq_items := sq_items s @ [item], sq_pending := sq_pending s + 1,
     sq_accepted := sq_accepted s @ [item]\<rparr>"

definition push_locked :: "'a \<Rightarrow> 'a AsyncSenderQueue \<Rightarrow> PushOutcome \<times> 'a AsyncSenderQueue" where
  "push_locked item s0 =
     (let s = s0\<lparr>sq_offered := sq_offered s0 @ [item]\<rparr>;
          dropped = length (sq_items s) \<ge> sq_max_queue_size s;
          accepted = (\<not> dropped \<or> sq_policy s = DropOldest);
          s1 = (if dropped \<and> sq_policy s = DropOldest then drop_front s else s);
          s2 = (if accepted then push_back item s1 else s1\<lparr>sq_dropped := sq_dropped s1 @ [item]\<rparr>)
      in (\<lparr>m_accepted = accepted, m_dropped = dropped, m_size = length (sq_items s2)\<rparr>, s2))"

definition push_enter :: "nat \<Rightarrow> 'a \<Rightarrow> 'a AsyncSenderQueue \<Rightarrow> 'a AsyncSenderQueue" where
  "push_enter j item s =
     (let (outcome, t) = push_locked item s in t\<lparr>sq_pushers := (sq_pushers t)[j := Push_notify outcome]\<rparr>)"

text \<open>\<open>notify_one\<close> wakes one of the threads that wait on the condition variable, the delivery thread or a flush.\<close>

datatype waiter = NoOne | TheConsumer | TheFlush nat

definition may_notify :: "waiter \<Rightarrow> 'a AsyncSenderQueue \<Rightarrow> bool" where
  "may_notify w s =
     (case w of
        NoOne \<Rightarrow> sq_consumer s \<noteq> Take_blocked \<and> Flush_blocked \<notin> set (sq_flushers s)
      | TheConsumer \<Rightarrow> sq_consumer s = Take_blocked
      | TheFlush i \<Rightarrow> i < length (sq_flushers s) \<and> sq_flushers s ! i = Flush_blocked)"

definition wake :: "waiter \<Rightarrow> 'a AsyncSenderQueue \<Rightarrow> 'a AsyncSenderQueue" where
  "wake w s =
     (case w of
        NoOne \<Rightarrow> s
      | TheConsumer \<Rightarrow> s\<lparr>sq_consumer := Take_entering\<rparr>
      | TheFlush i \<Rightarrow> s\<lparr>sq_flushers := (sq_flushers s)[i := Flush_entering]\<rparr>)"

definition push_notify :: "nat \<Rightarrow> PushOutcome \<Rightarrow> waiter \<Rightarrow> 'a AsyncSenderQueue \<Rightarrow> 'a AsyncSenderQueue" where
  "push_notify j outcome w s = (wake w s)\<lparr>sq_pushers := (sq_pushers s)[j := Push_returned outcome]\<rparr>"

definition wake_flusher :: "flusher \<Rightarrow> flusher" where
  "wake_flusher f = (case f of Flush_blocked \<Rightarrow> Flush_entering | _ \<Rightarrow> f)"

definition wake_consumer :: "'a consumer \<Rightarrow> 'a consumer" where
  "wake_consumer c = (case c of Take_blocked \<Rightarrow> Take_entering | _ \<Rightarrow> c)"

definition notify_all :: "'a AsyncSenderQueue \<Rightarrow> 'a AsyncSenderQueue" where
  "notify_all s = s\<lparr>sq_consumer := wake_consumer (sq_consumer s), sq_flushers := map wake_flusher (sq_flushers s)\<rparr>"

section \<open>flush\<close>

definition flush_enter :: "nat \<Rightarrow> 'a AsyncSenderQueue \<Rightarrow> 'a AsyncSenderQueue" where
  "flush_enter i s = s\<lparr>sq_flushers := (sq_flushers s)[i := (if sq_pending s = 0 then Flush_returned else Flush_blocked)]\<rparr>"

section \<open>The delivery thread\<close>

text \<open>\<open>wait_and_take\<close> once its wait is over, and the whole of it: it waits while the queue is empty and no stop is requested.\<close>

definition take_after_wait :: "client \<Rightarrow> 'a AsyncSenderQueue \<Rightarrow> TakeResult \<times> 'a list \<times> 'a AsyncSenderQueue" where
  "take_after_wait c s =
     (if sq_items s = [] then (if sq_stop s then StoppedResult else Idle, [], s)
      else if sq_stop s \<and> \<not> c_drain_on_stop c then (StoppedResult, [], s)
      else let to_take = min (length (sq_items s)) (c_max_batch c)
        in (Batch, take to_take (sq_items s), s\<lparr>sq_items := drop to_take (sq_items s)\<rparr>))"

definition take_result :: "TakeResult \<Rightarrow> 'a list \<Rightarrow> 'a consumer" where
  "take_result r batch = (case r of StoppedResult \<Rightarrow> After_loop | Idle \<Rightarrow> Loop_head | Batch \<Rightarrow> Sending batch)"

definition after_wait :: "client \<Rightarrow> 'a AsyncSenderQueue \<Rightarrow> 'a AsyncSenderQueue" where
  "after_wait c s = (let (r, batch, t) = take_after_wait c s in t\<lparr>sq_consumer := take_result r batch\<rparr>)"

definition mark_processed :: "nat \<Rightarrow> 'a AsyncSenderQueue \<Rightarrow> 'a AsyncSenderQueue" where
  "mark_processed n s = s\<lparr>sq_pending := (if sq_pending s \<ge> n then sq_pending s - n else 0)\<rparr>"

definition drain :: "'a AsyncSenderQueue \<Rightarrow> 'a list \<times> 'a AsyncSenderQueue" where
  "drain s =
     (let taken = length (sq_items s)
      in (sq_items s, s\<lparr>sq_items := [], sq_pending := (if sq_pending s \<ge> taken then sq_pending s - taken else 0)\<rparr>))"

definition final_drain :: "client \<Rightarrow> 'a AsyncSenderQueue \<Rightarrow> 'a AsyncSenderQueue" where
  "final_drain c s =
     (if c_final_drain c then let (out, t) = drain s in t\<lparr>sq_consumer := Ended, sq_delivered := sq_delivered t @ out\<rparr>
      else s\<lparr>sq_consumer := Ended\<rparr>)"

definition consumer_step :: "client \<Rightarrow> 'a AsyncSenderQueue \<Rightarrow> 'a AsyncSenderQueue" where
  "consumer_step c s =
     (case sq_consumer s of
        Loop_head \<Rightarrow> s\<lparr>sq_consumer := (if c_checks_stop c \<and> sq_stop s then After_loop else Take_entering)\<rparr>
      | Take_entering \<Rightarrow> if sq_items s = [] \<and> \<not> sq_stop s then s\<lparr>sq_consumer := Take_blocked\<rparr> else after_wait c s
      | Sending batch \<Rightarrow> s\<lparr>sq_delivered := sq_delivered s @ batch, sq_consumer := Sent batch\<rparr>
      | Sent batch \<Rightarrow> (mark_processed (length batch) s)\<lparr>sq_consumer := Mark_notify\<rparr>
      | Mark_notify \<Rightarrow> (notify_all s)\<lparr>sq_consumer := Loop_head\<rparr>
      | After_loop \<Rightarrow> final_drain c s
      | Take_blocked \<Rightarrow> s
      | Ended \<Rightarrow> s)"

text \<open>A stop request wakes the delivery thread when it waits with its token.\<close>

definition request_stop_sender :: "'a AsyncSenderQueue \<Rightarrow> 'a AsyncSenderQueue" where
  "request_stop_sender s =
     (let t = s\<lparr>sq_stop := True\<rparr> in if sq_consumer s = Take_blocked then notify_all t else t)"

section \<open>Steps\<close>

inductive sq_work :: "client \<Rightarrow> 'a AsyncSenderQueue \<Rightarrow> 'a AsyncSenderQueue \<Rightarrow> bool" for c where
  push: "j < length (sq_pushers s) \<Longrightarrow> sq_pushers s ! j = Push_entering item \<Longrightarrow> sq_work c s (push_enter j item s)"
| notify: "j < length (sq_pushers s) \<Longrightarrow> sq_pushers s ! j = Push_notify outcome \<Longrightarrow> may_notify w s \<Longrightarrow>
    sq_work c s (push_notify j outcome w s)"
| flush: "i < length (sq_flushers s) \<Longrightarrow> sq_flushers s ! i = Flush_entering \<Longrightarrow> sq_work c s (flush_enter i s)"
| consumer: "sq_consumer s \<notin> {Take_blocked, Ended} \<Longrightarrow> sq_work c s (consumer_step c s)"
| timeout: "sq_consumer s = Take_blocked \<Longrightarrow> c_idle_timeout_ms c > 0 \<Longrightarrow> sq_work c s (after_wait c s)"

inductive sq_step :: "client \<Rightarrow> 'a AsyncSenderQueue \<Rightarrow> 'a AsyncSenderQueue \<Rightarrow> bool" for c where
  work: "sq_work c s t \<Longrightarrow> sq_step c s t"
| call_push: "sq_step c s (s\<lparr>sq_pushers := sq_pushers s @ [Push_entering item]\<rparr>)"
| call_flush: "sq_step c s (s\<lparr>sq_flushers := sq_flushers s @ [Flush_entering]\<rparr>)"
| call_notify_all: "sq_step c s (notify_all s)"
| call_request_stop: "sq_step c s (request_stop_sender s)"
| spurious: "may_notify w s \<Longrightarrow> sq_step c s (wake w s)"

section \<open>Invariant\<close>

text \<open>What the delivery thread has taken and not marked as processed, and the part of it that is still to be sent.\<close>

fun unmarked :: "'a consumer \<Rightarrow> 'a list" where
  "unmarked (Sending b) = b"
| "unmarked (Sent b) = b"
| "unmarked _ = []"

fun unsent :: "'a consumer \<Rightarrow> 'a list" where
  "unsent (Sending b) = b"
| "unsent _ = []"

definition sq_inv :: "'a AsyncSenderQueue \<Rightarrow> bool" where
  "sq_inv s \<longleftrightarrow>
     0 < sq_max_queue_size s \<and> length (sq_items s) \<le> sq_max_queue_size s
   \<and> sq_pending s = length (sq_items s) + length (unmarked (sq_consumer s))
   \<and> mset (sq_offered s) = mset (sq_dropped s) + mset (sq_delivered s) + mset (unsent (sq_consumer s)) + mset (sq_items s)
   \<and> subseq (sq_delivered s @ unsent (sq_consumer s) @ sq_items s) (sq_accepted s)"

lemma unmarked_wake [simp]:
  "unmarked (wake_consumer c) = unmarked c" "unsent (wake_consumer c) = unsent c"
  by (cases c; simp add: wake_consumer_def)+

lemma sq_inv_fields [simp]:
  "sq_inv (s\<lparr>sq_pushers := ps\<rparr>) = sq_inv s" "sq_inv (s\<lparr>sq_flushers := fs\<rparr>) = sq_inv s"
  "sq_inv (s\<lparr>sq_stop := b\<rparr>) = sq_inv s"
  by (simp_all add: sq_inv_def)

lemma sq_inv_consumer:
  "sq_inv s \<Longrightarrow> unmarked c = unmarked (sq_consumer s) \<Longrightarrow> unsent c = unsent (sq_consumer s) \<Longrightarrow>
   sq_inv (s\<lparr>sq_consumer := c\<rparr>)"
  by (simp add: sq_inv_def)

lemma sq_inv_notify_all: "sq_inv s \<Longrightarrow> sq_inv (notify_all s)"
  by (simp add: notify_all_def sq_inv_def)

lemma sq_inv_wake: "sq_inv s \<Longrightarrow> may_notify w s \<Longrightarrow> sq_inv (wake w s)"
  by (cases w) (simp_all add: wake_def may_notify_def sq_inv_consumer)

lemma sq_inv_drop_push:
  assumes inv: "sq_inv s" and full: "sq_max_queue_size s \<le> length (sq_items s)"
  shows "sq_inv (push_back item (drop_front (s\<lparr>sq_offered := sq_offered s @ [item]\<rparr>)))"
proof (cases "sq_items s")
  case Nil
  then show ?thesis using inv full by (simp add: sq_inv_def)
next
  case (Cons x xs)
  let ?d = "sq_delivered s @ unsent (sq_consumer s)"
  have "subseq (?d @ xs) (?d @ x # xs)" by (intro list_emb_append_mono) auto
  also have "subseq (?d @ x # xs) (sq_accepted s)" using inv Cons by (simp add: sq_inv_def)
  finally have "subseq (?d @ xs @ [item]) (sq_accepted s @ [item])"
    by (metis append.assoc list_emb_append_mono subseq_order.order_refl)
  then show ?thesis using inv Cons by (simp add: sq_inv_def push_back_def drop_front_def)
qed

lemma sq_inv_push:
  assumes inv: "sq_inv s" and room: "length (sq_items s) < sq_max_queue_size s"
  shows "sq_inv (push_back item (s\<lparr>sq_offered := sq_offered s @ [item]\<rparr>))"
proof -
  have "subseq (sq_delivered s @ unsent (sq_consumer s) @ sq_items s @ [item]) (sq_accepted s @ [item])"
    using inv by (metis (no_types, lifting) append.assoc list_emb_append_mono sq_inv_def subseq_order.order_refl)
  then show ?thesis using inv room by (simp add: sq_inv_def push_back_def)
qed

lemma sq_inv_push_enter:
  assumes inv: "sq_inv s" shows "sq_inv (push_enter j item s)"
proof -
  have "sq_inv (s\<lparr>sq_offered := sq_offered s @ [item], sq_dropped := sq_dropped s @ [item]\<rparr>)"
    using inv by (simp add: sq_inv_def)
  then show ?thesis using sq_inv_drop_push [OF inv, of item] sq_inv_push [OF inv, of item]
    by (auto simp: push_enter_def push_locked_def Let_def)
qed

lemma sq_inv_after_wait:
  assumes inv: "sq_inv s" and c: "unmarked (sq_consumer s) = []" "unsent (sq_consumer s) = []"
  shows "sq_inv (after_wait c s)"
proof -
  have "mset (take k xs) + mset (drop k xs) = mset xs" for k and xs :: "'a list"
    by (metis append_take_drop_id mset_append)
  then show ?thesis using inv c
    by (auto simp: after_wait_def take_after_wait_def take_result_def Let_def sq_inv_def min_def add.assoc)
qed

lemma sq_inv_final_drain:
  assumes inv: "sq_inv s" and c: "sq_consumer s = After_loop"
  shows "sq_inv (final_drain c s)"
  using inv c by (auto simp: final_drain_def drain_def sq_inv_def Let_def)

lemma sq_inv_consumer_step:
  assumes inv: "sq_inv s" shows "sq_inv (consumer_step c s)"
proof (cases "sq_consumer s")
  case Take_entering
  then show ?thesis using inv sq_inv_after_wait [OF inv, of c]
    by (auto simp: consumer_step_def sq_inv_consumer)
next
  case (Sending b)
  then show ?thesis using inv by (simp add: consumer_step_def sq_inv_def add.assoc)
next
  case (Sent b)
  then show ?thesis using inv by (simp add: consumer_step_def mark_processed_def sq_inv_def)
next
  case Mark_notify
  then show ?thesis using inv by (simp add: consumer_step_def notify_all_def sq_inv_def)
qed (use inv sq_inv_final_drain [OF inv, of c] in \<open>auto simp: consumer_step_def sq_inv_consumer\<close>)

lemma sq_inv_step: "sq_step c s t \<Longrightarrow> sq_inv s \<Longrightarrow> sq_inv t"
proof (induction rule: sq_step.induct)
  case (work s t)
  then show ?case
    by (cases rule: sq_work.cases)
      (auto simp: push_notify_def flush_enter_def intro: sq_inv_push_enter sq_inv_wake sq_inv_consumer_step sq_inv_after_wait)
qed (auto simp: request_stop_sender_def Let_def intro: sq_inv_notify_all sq_inv_wake)

interpretation sender: transitions "sq_step c" sq_inv
  by unfold_locales (rule sq_inv_step)

lemma sq_inv_new: "sq_inv (new_AsyncSenderQueue n policy)"
  by (simp add: sq_inv_def new_AsyncSenderQueue_def)

lemmas sender_reach = sender.inv_reach [OF _ sq_inv_new]

text \<open>The capacity and the policy of a queue do not change.\<close>

lemma sq_config_step:
  "sq_step c s t \<Longrightarrow> sq_max_queue_size t = sq_max_queue_size s \<and> sq_policy t = sq_policy s"
proof (induction rule: sq_step.induct)
  case (work s t)
  then show ?case
    by (cases rule: sq_work.cases)
      (auto simp: push_enter_def push_locked_def push_back_def drop_front_def Let_def push_notify_def wake_def flush_enter_def
        consumer_step_def after_wait_def take_after_wait_def notify_all_def mark_processed_def final_drain_def drain_def
        split: waiter.splits consumer.splits if_splits)
qed (auto simp: request_stop_sender_def notify_all_def wake_def Let_def split: waiter.splits)

lemma sq_config: "(sq_step c)\<^sup>*\<^sup>* s t \<Longrightarrow> sq_max_queue_size t = sq_max_queue_size s \<and> sq_policy t = sq_policy s"
  by (induction rule: rtranclp_induct) (auto dest: sq_config_step)

section \<open>What the overflow policies promise\<close>

definition policy_inv :: "'a AsyncSenderQueue \<Rightarrow> bool" where
  "policy_inv s \<longleftrightarrow>
     (sq_policy s = DropNewest \<longrightarrow> sq_accepted s = sq_delivered s @ unsent (sq_consumer s) @ sq_items s)
   \<and> (sq_policy s = DropOldest \<longrightarrow> sq_accepted s = sq_offered s)"

lemma policy_inv_after_wait:
  "policy_inv s \<Longrightarrow> unsent (sq_consumer s) = [] \<Longrightarrow> policy_inv (after_wait c s)"
  by (auto simp: policy_inv_def after_wait_def take_after_wait_def take_result_def Let_def)

lemma policy_inv_consumer_step: "policy_inv s \<Longrightarrow> policy_inv (consumer_step c s)"
  using policy_inv_after_wait [of s c]
  by (cases "sq_consumer s")
    (auto simp: policy_inv_def consumer_step_def mark_processed_def notify_all_def final_drain_def drain_def Let_def)

lemma policy_inv_push_enter:
  "policy_inv s \<Longrightarrow> policy_inv (push_enter j item s)"
  by (auto simp: policy_inv_def push_enter_def push_locked_def push_back_def drop_front_def Let_def)

lemma policy_inv_wake: "policy_inv s \<Longrightarrow> may_notify w s \<Longrightarrow> policy_inv (wake w s)"
  by (cases w) (auto simp: policy_inv_def wake_def may_notify_def)

lemma policy_inv_fields [simp]:
  "policy_inv (s\<lparr>sq_pushers := ps\<rparr>) = policy_inv s" "policy_inv (s\<lparr>sq_flushers := fs\<rparr>) = policy_inv s"
  "policy_inv (s\<lparr>sq_stop := b\<rparr>) = policy_inv s"
  by (simp_all add: policy_inv_def)

lemma policy_inv_notify_all: "policy_inv s \<Longrightarrow> policy_inv (notify_all s)"
  by (simp add: policy_inv_def notify_all_def)

lemma policy_inv_step: "sq_step c s t \<Longrightarrow> policy_inv s \<Longrightarrow> policy_inv t"
proof (induction rule: sq_step.induct)
  case (work s t)
  from work show ?case
    by (cases rule: sq_work.cases)
      (auto simp: push_notify_def flush_enter_def
        intro: policy_inv_push_enter policy_inv_wake policy_inv_after_wait policy_inv_consumer_step)
qed (auto simp: request_stop_sender_def Let_def intro: policy_inv_notify_all policy_inv_wake)

interpretation sender_policy: transitions "sq_step c" policy_inv
  by unfold_locales (rule policy_inv_step)

lemma policy_inv_new: "policy_inv (new_AsyncSenderQueue n policy)"
  by (simp add: policy_inv_def new_AsyncSenderQueue_def)

section \<open>Wake-ups\<close>

text \<open>As long as no flush waits, a delivery thread that waits with work in the queue is about to be notified; it leaves its loop only after a stop request.\<close>

definition push_notifies :: "'a AsyncSenderQueue \<Rightarrow> bool" where
  "push_notifies s \<longleftrightarrow> (\<exists>outcome. Push_notify outcome \<in> set (sq_pushers s))"

definition sq_wake_inv :: "'a AsyncSenderQueue \<Rightarrow> bool" where
  "sq_wake_inv s \<longleftrightarrow>
     (sq_consumer s = Take_blocked \<longrightarrow>
        \<not> sq_stop s \<and> (sq_items s \<noteq> [] \<longrightarrow> push_notifies s \<or> (\<exists>f \<in> set (sq_flushers s). f \<noteq> Flush_returned)))
   \<and> (sq_consumer s \<in> {After_loop, Ended} \<longrightarrow> sq_stop s)"

lemma wake_consumer_not_blocked [simp]: "wake_consumer c \<noteq> Take_blocked"
  by (cases c) (simp_all add: wake_consumer_def)

lemma take_result_not_blocked [simp]: "take_result r b \<noteq> Take_blocked"
  by (cases r) (simp_all add: take_result_def)

lemma after_wait_not_blocked [simp]: "sq_consumer (after_wait c s) \<noteq> Take_blocked"
  by (simp add: after_wait_def split: prod.split)

lemma wake_consumer_over [simp]: "wake_consumer c = After_loop \<longleftrightarrow> c = After_loop" "wake_consumer c = Ended \<longleftrightarrow> c = Ended"
  by (cases c; simp add: wake_consumer_def)+

lemma after_wait_over: "sq_consumer (after_wait c s) \<in> {After_loop, Ended} \<Longrightarrow> sq_stop (after_wait c s)"
  by (auto simp: after_wait_def take_after_wait_def take_result_def Let_def split: if_splits)

lemma sq_wake_inv_after_wait: "sq_wake_inv (after_wait c s)"
  using after_wait_over [of c s] by (auto simp: sq_wake_inv_def)

lemma sq_wake_inv_consumer_step: "sq_consumer s \<noteq> Take_blocked \<Longrightarrow> sq_wake_inv s \<Longrightarrow> sq_wake_inv (consumer_step c s)"
  using sq_wake_inv_after_wait [of c s]
  by (cases "sq_consumer s")
    (auto simp: sq_wake_inv_def consumer_step_def mark_processed_def notify_all_def final_drain_def drain_def Let_def)

lemma sq_wake_inv_push_enter:
  assumes "j < length (sq_pushers s)" "sq_wake_inv s"
  shows "sq_wake_inv (push_enter j item s)"
proof -
  obtain outcome t where p: "push_locked item s = (outcome, t)" by fastforce
  then have t: "sq_consumer t = sq_consumer s" "sq_stop t = sq_stop s" "sq_pushers t = sq_pushers s" "sq_flushers t = sq_flushers s"
    by (auto simp: push_locked_def Let_def push_back_def drop_front_def split: if_splits)
  have "push_notifies (push_enter j item s)"
    using set_update_memI [OF assms(1), of "Push_notify outcome"] by (auto simp: push_notifies_def push_enter_def p t)
  then show ?thesis using assms(2) by (simp add: sq_wake_inv_def) (simp add: push_enter_def p t)
qed

lemma sq_wake_inv_notify:
  assumes j: "j < length (sq_pushers s)" and w: "may_notify w s" and inv: "sq_wake_inv s"
  shows "sq_wake_inv (push_notify j outcome w s)"
  using assms by (cases w) (auto simp: sq_wake_inv_def push_notify_def wake_def may_notify_def
    intro: set_update_memI bexI [of _ Flush_entering])

lemma sq_wake_inv_call_push:
  "sq_wake_inv s \<Longrightarrow> sq_wake_inv (s\<lparr>sq_pushers := sq_pushers s @ [Push_entering item]\<rparr>)"
  by (auto simp: sq_wake_inv_def push_notifies_def)

lemma sq_wake_inv_flush:
  assumes i: "i < length (sq_flushers s)" and inv: "sq_inv s" "sq_wake_inv s"
  shows "sq_wake_inv (flush_enter i s)"
proof (cases "sq_pending s = 0")
  case True
  then have "sq_items s = []" using inv(1) by (simp add: sq_inv_def)
  then show ?thesis using inv(2) by (simp add: sq_wake_inv_def flush_enter_def)
next
  case False
  then show ?thesis using inv(2) set_update_memI [OF i, of Flush_blocked]
    by (auto simp: sq_wake_inv_def flush_enter_def push_notifies_def)
qed

lemma sq_wake_inv_step: "sq_step c s t \<Longrightarrow> sq_inv s \<Longrightarrow> sq_wake_inv s \<Longrightarrow> sq_wake_inv t"
proof (induction rule: sq_step.induct)
  case (work s t)
  from work show ?case
    by (cases rule: sq_work.cases)
      (auto intro: sq_wake_inv_consumer_step sq_wake_inv_push_enter sq_wake_inv_notify sq_wake_inv_flush sq_wake_inv_after_wait)
next
  case (spurious w s)
  then show ?case
    by (cases w) (auto simp: sq_wake_inv_def push_notifies_def wake_def may_notify_def intro: set_update_memI bexI [of _ Flush_entering])
qed (auto simp: request_stop_sender_def notify_all_def Let_def sq_wake_inv_def push_notifies_def)

interpretation sender_wake: transitions "sq_step c" "\<lambda>s. sq_inv s \<and> sq_wake_inv s"
  by unfold_locales (simp add: sq_inv_step sq_wake_inv_step)

lemma sq_wake_inv_new: "sq_wake_inv (new_AsyncSenderQueue n policy)"
  by (simp add: sq_wake_inv_def new_AsyncSenderQueue_def)

lemmas sender_wake_reach = sender_wake.inv_reach [OF _ conjI [OF sq_inv_new sq_wake_inv_new]]

section \<open>Termination\<close>

fun pusher_weight :: "'a pusher \<Rightarrow> nat" where
  "pusher_weight (Push_entering _) = 12"
| "pusher_weight (Push_notify _) = 3"
| "pusher_weight (Push_returned _) = 0"

fun consumer_weight :: "'a consumer \<Rightarrow> nat" where
  "consumer_weight (Sending _) = 6"
| "consumer_weight (Sent _) = 5"
| "consumer_weight Mark_notify = 4"
| "consumer_weight Loop_head = 3"
| "consumer_weight Take_entering = 2"
| "consumer_weight After_loop = 1"
| "consumer_weight _ = 0"

definition sq_to_do :: "'a AsyncSenderQueue \<Rightarrow> nat" where
  "sq_to_do s = 8 * length (sq_items s) + sum_list (map pusher_weight (sq_pushers s)) + consumer_weight (sq_consumer s)"

definition sq_to_look :: "'a AsyncSenderQueue \<Rightarrow> nat" where
  "sq_to_look s = sum_list (map (\<lambda>f. of_bool (f = Flush_entering)) (sq_flushers s))"

definition sq_order :: "('a AsyncSenderQueue \<times> 'a AsyncSenderQueue) set" where
  "sq_order = inv_image (less_than <*lex*> less_than) (\<lambda>s. (sq_to_do s, sq_to_look s))"

lemma wf_sq_order: "wf sq_order"
  by (auto simp: sq_order_def)

lemma in_sq_order: "(t, s) \<in> sq_order \<longleftrightarrow> sq_to_do t < sq_to_do s \<or> sq_to_do t = sq_to_do s \<and> sq_to_look t < sq_to_look s"
  by (auto simp: sq_order_def)

lemmas pusher_weight_upd = sum_list_update_eq [where f = pusher_weight]

lemma sq_order_push:
  assumes j: "j < length (sq_pushers s)" "sq_pushers s ! j = Push_entering item"
  shows "(push_enter j item s, s) \<in> sq_order"
proof -
  obtain outcome t where p: "push_locked item s = (outcome, t)" by fastforce
  then have t: "sq_consumer t = sq_consumer s" "sq_pushers t = sq_pushers s" "length (sq_items t) \<le> Suc (length (sq_items s))"
    by (auto simp: push_locked_def Let_def push_back_def drop_front_def split: if_splits)
  then show ?thesis using pusher_weight_upd [OF j(1), of "Push_notify outcome"] j(2)
    by (simp add: in_sq_order sq_to_do_def push_enter_def p)
qed

lemma sq_order_notify:
  assumes j: "j < length (sq_pushers s)" "sq_pushers s ! j = Push_notify outcome" and w: "may_notify w s"
  shows "(push_notify j outcome w s, s) \<in> sq_order"
  using pusher_weight_upd [OF j(1), of "Push_returned outcome"] j(2) w
  by (cases w) (auto simp: in_sq_order sq_to_do_def push_notify_def wake_def may_notify_def)

lemma sq_order_flush:
  assumes i: "i < length (sq_flushers s)" "sq_flushers s ! i = Flush_entering"
  shows "(flush_enter i s, s) \<in> sq_order"
  using sum_list_update_eq [OF i(1), of "\<lambda>f. of_bool (f = Flush_entering) :: nat" Flush_returned]
    sum_list_update_eq [OF i(1), of "\<lambda>f. of_bool (f = Flush_entering) :: nat" Flush_blocked] i(2)
  by (auto simp: in_sq_order sq_to_do_def sq_to_look_def flush_enter_def)

lemma sq_order_consumer:
  assumes c: "sq_consumer s \<notin> {Take_blocked, Ended}" "0 < c_max_batch c"
  shows "(consumer_step c s, s) \<in> sq_order"
proof -
  have "sq_to_do (consumer_step c s) < sq_to_do s"
  proof (cases "sq_consumer s")
    case Take_entering
    define k where "k = min (length (sq_items s)) (c_max_batch c)"
    have "0 < k \<and> k \<le> length (sq_items s)" if "sq_items s \<noteq> []" using that c(2) by (simp add: k_def)
    with Take_entering show ?thesis
      by (auto simp: sq_to_do_def consumer_step_def after_wait_def take_after_wait_def take_result_def Let_def
        simp flip: k_def)
  qed (use c in \<open>auto simp: sq_to_do_def consumer_step_def mark_processed_def notify_all_def final_drain_def drain_def Let_def\<close>)
  then show ?thesis by (simp add: in_sq_order)
qed

lemma sq_work_decreases:
  "sq_work c s t \<Longrightarrow> c_idle_timeout_ms c \<le> 0 \<Longrightarrow> 0 < c_max_batch c \<Longrightarrow> (t, s) \<in> sq_order"
  by (induction rule: sq_work.induct)
    (auto intro: sq_order_push sq_order_notify sq_order_flush sq_order_consumer)

lemma no_infinite_sq_work:
  "c_idle_timeout_ms c \<le> 0 \<Longrightarrow> 0 < c_max_batch c \<Longrightarrow> \<not> (\<forall>k. sq_work c (f k) (f (Suc k)))"
  using wf_sq_order sq_work_decreases unfolding wf_iff_no_infinite_down_chain by blast

text \<open>With a timeout the work can go on only by waiting at an empty queue.\<close>

lemma sq_order_timeout:
  assumes "sq_consumer s = Take_blocked" "sq_items s \<noteq> []" "\<not> sq_stop s" "0 < c_max_batch c"
  shows "(after_wait c s, s) \<in> sq_order"
proof -
  define k where "k = min (length (sq_items s)) (c_max_batch c)"
  have "0 < k" "k \<le> length (sq_items s)" using assms(2,4) by (simp_all add: k_def)
  then have "sq_to_do (after_wait c s) < sq_to_do s" using assms(1-3)
    by (simp add: sq_to_do_def after_wait_def take_after_wait_def take_result_def Let_def flip: k_def)
  then show ?thesis by (simp add: in_sq_order)
qed

definition idles :: "'a AsyncSenderQueue \<Rightarrow> bool" where
  "idles s \<longleftrightarrow> sq_consumer s = Take_blocked \<and> sq_items s = []"

lemma sq_busy_decreases:
  assumes "sq_work c s t" "0 < c_max_batch c" "sq_wake_inv s" "\<not> idles s"
  shows "(t, s) \<in> sq_order"
  using assms(1)
proof (cases rule: sq_work.cases)
  case timeout
  then show ?thesis using assms(2-4) by (simp add: sq_wake_inv_def idles_def sq_order_timeout)
qed (use assms(2) in \<open>simp_all add: sq_order_push sq_order_notify sq_order_flush sq_order_consumer\<close>)

lemma sq_work_idles:
  assumes run: "\<And>k. sq_work c (f k) (f (Suc k))" and batch: "0 < c_max_batch c" and inv: "sq_inv (f 0)" "sq_wake_inv (f 0)"
  shows "\<exists>k \<ge> n. idles (f k)"
proof (rule ccontr)
  assume busy: "\<not> (\<exists>k \<ge> n. idles (f k))"
  have inv': "sq_inv (f k) \<and> sq_wake_inv (f k)" for k
  proof (induction k)
    case (Suc k)
    then show ?case using sq_step.work [OF run] sq_inv_step sq_wake_inv_step by blast
  qed (use inv in simp)
  have "(f (Suc (n + k)), f (n + k)) \<in> sq_order" for k
    using busy inv' by (intro sq_busy_decreases [OF run batch]) simp_all
  then show False using wf_no_infinite_down_chainE [OF wf_sq_order, of "\<lambda>k. f (n + k)"] by (metis add_Suc_right)
qed

lemma stuck_sender:
  assumes stuck: "\<nexists>t. sq_work c s t"
  shows "sq_consumer s \<in> {Take_blocked, Ended}" "Push_entering item \<notin> set (sq_pushers s)" "\<not> push_notifies s"
proof -
  show "sq_consumer s \<in> {Take_blocked, Ended}" using stuck sq_work.consumer by blast
  show "Push_entering item \<notin> set (sq_pushers s)" using stuck sq_work.push by (metis in_set_conv_nth)
  have "\<exists>w. may_notify w s"
  proof (cases "sq_consumer s = Take_blocked")
    case True
    then have "may_notify TheConsumer s" by (simp add: may_notify_def)
    then show ?thesis ..
  next
    case False
    show ?thesis
    proof (cases "Flush_blocked \<in> set (sq_flushers s)")
      case True
      then obtain i where "i < length (sq_flushers s)" "sq_flushers s ! i = Flush_blocked" by (auto simp: in_set_conv_nth)
      then have "may_notify (TheFlush i) s" by (simp add: may_notify_def)
      then show ?thesis ..
    next
      case no: False
      from False no have "may_notify NoOne s" by (simp add: may_notify_def)
      then show ?thesis ..
    qed
  qed
  then show "\<not> push_notifies s" using stuck sq_work.notify unfolding push_notifies_def by (metis in_set_conv_nth)
qed

lemma sender_at_rest:
  assumes stuck: "\<nexists>t. sq_work c s t" and noflush: "Flush_blocked \<notin> set (sq_flushers s)" and inv: "sq_inv s" "sq_wake_inv s"
  shows "\<forall>p \<in> set (sq_pushers s). \<exists>outcome. p = Push_returned outcome"
    "sq_consumer s = Ended \<and> sq_stop s \<or> sq_consumer s = Take_blocked \<and> \<not> sq_stop s \<and> sq_items s = []
        \<and> mset (sq_offered s) = mset (sq_dropped s) + mset (sq_delivered s)"
proof -
  note st = stuck_sender [OF stuck]
  have "Flush_entering \<notin> set (sq_flushers s)" using stuck sq_work.flush by (metis in_set_conv_nth)
  then have none: "f = Flush_returned" if "f \<in> set (sq_flushers s)" for f using that noflush by (cases f) auto
  show "\<forall>p \<in> set (sq_pushers s). \<exists>outcome. p = Push_returned outcome"
  proof
    fix p assume "p \<in> set (sq_pushers s)"
    then show "\<exists>outcome. p = Push_returned outcome" using st(2,3) unfolding push_notifies_def by (metis pusher.exhaust)
  qed
  show "sq_consumer s = Ended \<and> sq_stop s \<or> sq_consumer s = Take_blocked \<and> \<not> sq_stop s \<and> sq_items s = []
      \<and> mset (sq_offered s) = mset (sq_dropped s) + mset (sq_delivered s)"
    using st(1,3) inv none by (auto simp: sq_wake_inv_def sq_inv_def)
qed

section \<open>The end of the delivery thread\<close>

text \<open>
  The last time a delivery thread looks at the queue is the final drain of the tracer; the error reporter has none and
  looks at the queue for the last time when \<open>wait_and_take\<close> reports the stop.
\<close>

definition looked :: "client \<Rightarrow> 'a consumer set" where
  "looked c = (if c_final_drain c then {Ended} else {After_loop, Ended})"

definition drains :: "client \<Rightarrow> bool" where
  "drains c \<longleftrightarrow> c_final_drain c \<or> c_drain_on_stop c \<and> \<not> c_checks_stop c"

lemma drains_clients: "drains sentry_client" "drains (jaeger_client flush_interval_ms batch_size)"
  by (simp_all add: drains_def sentry_client_def jaeger_client_def)

text \<open>A moment after the stop request when everything offered before it had been delivered or dropped, and nothing of it is in the queue later.\<close>

definition served_at_stop :: "client \<Rightarrow> 'a AsyncSenderQueue \<Rightarrow> 'a AsyncSenderQueue \<Rightarrow> bool" where
  "served_at_stop c s0 s \<longleftrightarrow>
     (\<exists>t late. (sq_step c)\<^sup>*\<^sup>* s0 t \<and> (sq_step c)\<^sup>*\<^sup>* t s \<and> sq_stop t \<and> sq_items t = []
        \<and> mset (sq_offered t) = mset (sq_dropped t) + mset (sq_delivered t)
        \<and> sq_offered s = sq_offered t @ late \<and> mset (sq_items s) \<subseteq># mset late)"

lemma after_wait_queue:
  "sq_offered (after_wait c s) = sq_offered s" "mset (sq_items (after_wait c s)) \<subseteq># mset (sq_items s)"
proof -
  have "mset (drop k xs) \<subseteq># mset xs" for k and xs :: "'a list" by (metis append_take_drop_id mset_append mset_subset_eq_add_right)
  then show "sq_offered (after_wait c s) = sq_offered s" "mset (sq_items (after_wait c s)) \<subseteq># mset (sq_items s)"
    by (auto simp: after_wait_def take_after_wait_def Let_def)
qed

lemma push_enter_queue:
  "sq_offered (push_enter j item s) = sq_offered s @ [item]" "mset (sq_items (push_enter j item s)) \<subseteq># mset (sq_items s) + {#item#}"
  by (cases "sq_items s"; auto simp: push_enter_def push_locked_def push_back_def drop_front_def Let_def)+

lemma consumer_step_queue:
  "sq_offered (consumer_step c s) = sq_offered s" "mset (sq_items (consumer_step c s)) \<subseteq># mset (sq_items s)"
  using after_wait_queue [of c s]
  by (auto simp: consumer_step_def mark_processed_def notify_all_def final_drain_def drain_def Let_def split: consumer.split)

lemma sq_step_queue:
  "sq_step c s t \<Longrightarrow> \<exists>more. sq_offered t = sq_offered s @ more \<and> mset (sq_items t) \<subseteq># mset (sq_items s) + mset more"
proof (induction rule: sq_step.induct)
  case (work s t)
  then show ?case
  proof (cases rule: sq_work.cases)
    case (push j item)
    then show ?thesis using push_enter_queue [of j item s] by (intro exI [of _ "[item]"]) simp
  next
    case consumer
    then show ?thesis using consumer_step_queue [of c s] by (intro exI [of _ "[]"]) simp
  next
    case timeout
    then show ?thesis using after_wait_queue [of c s] by (intro exI [of _ "[]"]) simp
  qed (auto simp: push_notify_def wake_def flush_enter_def split: waiter.split)
qed (auto simp: request_stop_sender_def notify_all_def wake_def Let_def split: waiter.split)

lemma sq_step_looks:
  assumes "sq_step c s t" "drains c" "sq_consumer s \<notin> looked c" "sq_consumer t \<in> looked c" "sq_wake_inv s"
  shows "sq_items t = [] \<and> sq_stop t \<and> unsent (sq_consumer t) = []"
  using assms(1)
proof (cases rule: sq_step.cases)
  case work
  then show ?thesis
  proof (cases rule: sq_work.cases)
    case consumer
    then show ?thesis using assms(2-5)
      by (cases "sq_consumer s")
        (auto simp: consumer_step_def looked_def drains_def sq_wake_inv_def after_wait_def take_after_wait_def take_result_def
          final_drain_def drain_def mark_processed_def notify_all_def Let_def split: if_splits)
  next
    case timeout
    then show ?thesis using assms(2-5)
      by (auto simp: looked_def drains_def after_wait_def take_after_wait_def take_result_def Let_def split: if_splits)
  qed (use assms(3,4) in \<open>auto simp: push_enter_def push_locked_def push_back_def drop_front_def Let_def push_notify_def wake_def
      flush_enter_def looked_def split: waiter.splits if_splits\<close>)
qed (use assms(3,4) in \<open>auto simp: request_stop_sender_def notify_all_def wake_def looked_def Let_def split: waiter.splits if_splits\<close>)

lemma sender_served:
  assumes "(sq_step c)\<^sup>*\<^sup>* (new_AsyncSenderQueue n policy) s" "drains c" "sq_consumer s \<in> looked c"
  shows "served_at_stop c (new_AsyncSenderQueue n policy) s"
  using assms(1,3)
proof (induction rule: rtranclp_induct)
  case base
  then show ?case by (simp add: looked_def new_AsyncSenderQueue_def split: if_splits)
next
  case (step s t)
  note reach = rtranclp.rtrancl_into_rtrancl [OF step.hyps]
  show ?case
  proof (cases "sq_consumer s \<in> looked c")
    case True
    then obtain u late where u: "(sq_step c)\<^sup>*\<^sup>* (new_AsyncSenderQueue n policy) u" "(sq_step c)\<^sup>*\<^sup>* u s" "sq_stop u" "sq_items u = []"
        "mset (sq_offered u) = mset (sq_dropped u) + mset (sq_delivered u)"
        "sq_offered s = sq_offered u @ late" "mset (sq_items s) \<subseteq># mset late"
      using step.IH unfolding served_at_stop_def by blast
    obtain more where "sq_offered t = sq_offered s @ more" "mset (sq_items t) \<subseteq># mset (sq_items s) + mset more"
      using sq_step_queue [OF step.hyps(2)] by blast
    then have "sq_offered t = sq_offered u @ late @ more" "mset (sq_items t) \<subseteq># mset (late @ more)"
      using u(6,7) by (auto intro: subset_mset.order_trans [OF _ subset_mset.add_right_mono])
    then show ?thesis using u step.hyps(2) unfolding served_at_stop_def by (meson rtranclp.rtrancl_into_rtrancl)
  next
    case False
    have "sq_wake_inv s" using sender_wake_reach [OF step.hyps(1)] by simp
    then have t: "sq_items t = []" "sq_stop t" "unsent (sq_consumer t) = []"
      using sq_step_looks [OF step.hyps(2) assms(2) False step.prems] by simp_all
    moreover have "sq_inv t" using reach by (rule sender_reach)
    ultimately have "mset (sq_offered t) = mset (sq_dropped t) + mset (sq_delivered t)" by (simp add: sq_inv_def)
    then show ?thesis using t reach unfolding served_at_stop_def by (intro exI [of _ t] exI [of _ "[]"]) simp
  qed
qed

section \<open>Delivery\<close>

lemma one_push_reach:
  "(sq_step c)\<^sup>*\<^sup>* (new_AsyncSenderQueue n policy)
     (push_enter 0 item ((new_AsyncSenderQueue n policy)\<lparr>sq_pushers := [Push_entering item]\<rparr>))"
proof -
  let ?s = "new_AsyncSenderQueue n policy :: 'a AsyncSenderQueue"
  have "sq_step c ?s (?s\<lparr>sq_pushers := sq_pushers ?s @ [Push_entering item]\<rparr>)" by (rule sq_step.call_push)
  moreover have "sq_pushers ?s = []" by (simp add: new_AsyncSenderQueue_def)
  moreover have "sq_step c (?s\<lparr>sq_pushers := [Push_entering item]\<rparr>) (push_enter 0 item (?s\<lparr>sq_pushers := [Push_entering item]\<rparr>))"
    by (intro sq_step.work sq_work.push) simp_all
  ultimately show ?thesis by (metis append_Nil converse_rtranclp_into_rtranclp rtranclp.rtrancl_refl)
qed

lemma consumer_steps_reach: "(sq_step c)\<^sup>*\<^sup>* s ((consumer_step c ^^ n) s)"
proof (induction n)
  case (Suc n)
  let ?t = "(consumer_step c ^^ n) s"
  have "(sq_step c)\<^sup>*\<^sup>* ?t (consumer_step c ?t)"
  proof (cases "sq_consumer ?t \<in> {Take_blocked, Ended}")
    case True
    then have "consumer_step c ?t = ?t" by (auto simp: consumer_step_def)
    then show ?thesis by simp
  next
    case False
    then show ?thesis by (intro r_into_rtranclp sq_step.work sq_work.consumer)
  qed
  with Suc show ?case by simp
qed simp

text \<open>
  Property C19. Under any interleaving of pushes, flushes, the delivery thread of either client and
  a stop request, with spurious wake-ups, the queue stays within its size, the pending counter is the number of items
  that are queued or taken and not yet marked, every offered item is dropped, delivered, in hand
  or queued, once, and what is delivered is in the order of acceptance. With the policy of the tracer
  nothing that was accepted is lost, with that of the error reporter every item is accepted; and a
  flush returns exactly when nothing is queued or in hand.
\<close>
theorem sender_accounting:
  assumes "(sq_step c)\<^sup>*\<^sup>* (new_AsyncSenderQueue max_queue_size policy) s"
  shows "length (sq_items s) \<le> max 1 max_queue_size
       \<and> sq_pending s = length (sq_items s) + length (unmarked (sq_consumer s))
       \<and> mset (sq_offered s) = mset (sq_dropped s) + mset (sq_delivered s) + mset (unsent (sq_consumer s)) + mset (sq_items s)
       \<and> subseq (sq_delivered s) (sq_accepted s)
       \<and> (policy = DropNewest \<longrightarrow> sq_accepted s = sq_delivered s @ unsent (sq_consumer s) @ sq_items s)
       \<and> (policy = DropOldest \<longrightarrow> sq_accepted s = sq_offered s)
       \<and> (\<forall>i < length (sq_flushers s).
            sq_flushers (flush_enter i s) ! i = Flush_returned \<longleftrightarrow> sq_items s = [] \<and> unmarked (sq_consumer s) = [])"
proof -
  note inv = sender_reach [OF assms] and pol = sender_policy.inv_reach [OF assms policy_inv_new] and cfg = sq_config [OF assms]
  have "sq_max_queue_size s = max 1 max_queue_size" "sq_policy s = policy"
    using cfg by (auto simp: new_AsyncSenderQueue_def)
  moreover have "subseq (sq_delivered s) (sq_accepted s)"
    by (rule subseq_order.order_trans [OF prefix_imp_subseq])
      (use inv in \<open>auto simp: sq_inv_def prefix_def\<close>)
  ultimately show ?thesis using inv pol by (auto simp: sq_inv_def policy_inv_def flush_enter_def)
qed

theorem sender_accounting_witness:
  "let s = push_enter 0 (7 :: nat) ((new_AsyncSenderQueue 0 DropNewest)\<lparr>sq_pushers := [Push_entering 7]\<rparr>)
   in sq_items s = [7] \<and> sq_pending s = 1 \<and> sq_accepted s = sq_delivered s @ unsent (sq_consumer s) @ sq_items s"
  using sender_accounting [OF one_push_reach [where n = 0 and policy = DropNewest and c = sentry_client and item = "7 :: nat"]]
  by (simp add: Let_def push_enter_def push_locked_def push_back_def new_AsyncSenderQueue_def)

text \<open>
  Property C20. Items do not get stuck unless a flush waits. For the tracer and for the error reporter, under any interleaving: the threads can work for
  ever only by waking up at an idle timeout, and then the delivery thread finds the queue empty again and again, so with no
  timeout they come to rest. Where none can go on and no flush is waiting, every push has returned and the delivery thread either waits for
  the next item with an empty queue, everything offered having been delivered or dropped, or has ended after a stop request. And a
  delivery thread that has ended left nothing behind: at a moment after the stop request the queue was empty and everything offered until
  then had been delivered or dropped, and what is in the queue since was offered after that moment. The case of a flush that waits is
  excepted because it is false of the code (\<open>sender_flush_stuck\<close>).
\<close>
theorem sender_progress:
  assumes client: "c = sentry_client \<or> c = jaeger_client flush_interval_ms batch_size" "0 < c_max_batch c"
    and reach: "(sq_step c)\<^sup>*\<^sup>* (new_AsyncSenderQueue max_queue_size policy) s"
  shows "(\<forall>f. f 0 = s \<and> (\<forall>k. sq_work c (f k) (f (Suc k))) \<longrightarrow>
            c_idle_timeout_ms c > 0 \<and> (\<forall>n. \<exists>k \<ge> n. sq_consumer (f k) = Take_blocked \<and> sq_items (f k) = []))
       \<and> ((\<nexists>t. sq_work c s t) \<and> Flush_blocked \<notin> set (sq_flushers s) \<longrightarrow>
            (\<forall>p \<in> set (sq_pushers s). \<exists>outcome. p = Push_returned outcome)
          \<and> (sq_consumer s = Ended \<and> sq_stop s \<or> sq_consumer s = Take_blocked \<and> \<not> sq_stop s \<and> sq_items s = []
               \<and> mset (sq_offered s) = mset (sq_dropped s) + mset (sq_delivered s)))
       \<and> (sq_consumer s = Ended \<longrightarrow>
            (\<exists>t late. (sq_step c)\<^sup>*\<^sup>* (new_AsyncSenderQueue max_queue_size policy) t \<and> (sq_step c)\<^sup>*\<^sup>* t s \<and> sq_stop t \<and> sq_items t = []
               \<and> mset (sq_offered t) = mset (sq_dropped t) + mset (sq_delivered t)
               \<and> sq_offered s = sq_offered t @ late \<and> mset (sq_items s) \<subseteq># mset late))"
proof (intro conjI allI impI)
  note inv = sender_wake_reach [OF reach, THEN conjunct1] sender_wake_reach [OF reach, THEN conjunct2]
  show "c_idle_timeout_ms c > 0" if "f 0 = s \<and> (\<forall>k. sq_work c (f k) (f (Suc k)))" for f
    using no_infinite_sq_work [of c f] client(2) that by (meson not_le)
  show "\<exists>k \<ge> n. sq_consumer (f k) = Take_blocked \<and> sq_items (f k) = []" if "f 0 = s \<and> (\<forall>k. sq_work c (f k) (f (Suc k)))" for f n
    using sq_work_idles [of c f n] that client(2) inv by (simp add: idles_def)
  show "\<forall>p \<in> set (sq_pushers s). \<exists>outcome. p = Push_returned outcome"
    "sq_consumer s = Ended \<and> sq_stop s \<or> sq_consumer s = Take_blocked \<and> \<not> sq_stop s \<and> sq_items s = []
      \<and> mset (sq_offered s) = mset (sq_dropped s) + mset (sq_delivered s)"
    if "(\<nexists>t. sq_work c s t) \<and> Flush_blocked \<notin> set (sq_flushers s)"
    using sender_at_rest [OF that [THEN conjunct1] that [THEN conjunct2] inv] .
  have "drains c" using client(1) drains_clients by blast
  then show "\<exists>t late. (sq_step c)\<^sup>*\<^sup>* (new_AsyncSenderQueue max_queue_size policy) t \<and> (sq_step c)\<^sup>*\<^sup>* t s \<and> sq_stop t \<and> sq_items t = []
               \<and> mset (sq_offered t) = mset (sq_dropped t) + mset (sq_delivered t)
               \<and> sq_offered s = sq_offered t @ late \<and> mset (sq_items s) \<subseteq># mset late" if "sq_consumer s = Ended"
    using sender_served [OF reach] that by (simp add: looked_def served_at_stop_def)
qed

theorem sender_progress_witness:
  "let s0 = new_AsyncSenderQueue 4 DropOldest;
       s = (consumer_step sentry_client ^^ 2) (request_stop_sender ((consumer_step sentry_client ^^ 6)
             (push_enter 0 (7 :: nat) (s0\<lparr>sq_pushers := [Push_entering 7]\<rparr>))))
   in sq_consumer s = Ended \<and> sq_delivered s = [7]
    \<and> (\<exists>t late. (sq_step sentry_client)\<^sup>*\<^sup>* s0 t \<and> (sq_step sentry_client)\<^sup>*\<^sup>* t s \<and> sq_stop t \<and> sq_items t = []
         \<and> mset (sq_offered t) = mset (sq_dropped t) + mset (sq_delivered t)
         \<and> sq_offered s = sq_offered t @ late \<and> mset (sq_items s) \<subseteq># mset late)"
proof -
  let ?C = sentry_client and ?new = "new_AsyncSenderQueue 4 DropOldest :: nat AsyncSenderQueue"
  let ?a = "push_enter 0 7 (?new\<lparr>sq_pushers := [Push_entering 7]\<rparr>)"
  let ?b = "(consumer_step ?C ^^ 6) ?a"
  let ?s = "(consumer_step ?C ^^ 2) (request_stop_sender ?b)"
  have "(sq_step ?C)\<^sup>*\<^sup>* ?new ?a" by (rule one_push_reach)
  also have "(sq_step ?C)\<^sup>*\<^sup>* ?a ?b" by (rule consumer_steps_reach)
  also have "sq_step ?C ?b (request_stop_sender ?b)" by (rule sq_step.call_request_stop)
  also have "(sq_step ?C)\<^sup>*\<^sup>* (request_stop_sender ?b) ?s" by (rule consumer_steps_reach)
  finally have r: "(sq_step ?C)\<^sup>*\<^sup>* ?new ?s" .
  have "0 < c_max_batch ?C" by (simp add: sentry_client_def kSenderBatchSize_def)
  note ends = sender_progress [OF disjI1 [OF refl] this r, THEN conjunct2, THEN conjunct2]
  have "sq_consumer ?s = Ended" "sq_delivered ?s = [7]"
    by (simp_all add: eval_nat_numeral new_AsyncSenderQueue_def push_enter_def push_locked_def push_back_def Let_def consumer_step_def
      after_wait_def take_after_wait_def take_result_def mark_processed_def notify_all_def request_stop_sender_def final_drain_def
      sentry_client_def kSenderBatchSize_def)
  then show ?thesis using ends by (simp only: Let_def simp_thms)
qed

text \<open>
  A flush can lose the wake-up of the delivery thread. The condition variable is
  shared and a push notifies one waiter: when a flush comes between the critical section of the push and
  its notification, the notification can go to the flush, which waits again. The item then stays in the
  queue, the delivery thread of the error reporter and the flush both wait, and no thread of the queue can go on.
\<close>
theorem sender_flush_stuck:
  "\<exists>s. (sq_step sentry_client)\<^sup>*\<^sup>* (new_AsyncSenderQueue max_queue_size DropOldest) s
     \<and> sq_items s = [item] \<and> sq_pending s = 1 \<and> sq_delivered s = [] \<and> sq_consumer s = Take_blocked
     \<and> sq_flushers s = [Flush_blocked] \<and> \<not> sq_stop s \<and> set (sq_pushers s) \<subseteq> range Push_returned
     \<and> (\<nexists>t. sq_work sentry_client s t)"
proof -
  let ?C = sentry_client
  let ?outcome = "\<lparr>m_accepted = True, m_dropped = False, m_size = 1\<rparr>"
  define s0 where "s0 = (new_AsyncSenderQueue max_queue_size DropOldest :: 'a AsyncSenderQueue)"
  define s1 where "s1 = consumer_step ?C (consumer_step ?C s0)"
  define s2 where "s2 = s1\<lparr>sq_pushers := sq_pushers s1 @ [Push_entering item]\<rparr>"
  define s3 where "s3 = push_enter 0 item s2"
  define s4 where "s4 = s3\<lparr>sq_flushers := sq_flushers s3 @ [Flush_entering]\<rparr>"
  define s5 where "s5 = flush_enter 0 s4"
  define s6 where "s6 = push_notify 0 ?outcome (TheFlush 0) s5"
  define s7 where "s7 = flush_enter 0 s6"
  note defs = s0_def new_AsyncSenderQueue_def consumer_step_def sentry_client_def push_enter_def push_locked_def push_back_def
    flush_enter_def push_notify_def wake_def Let_def
  have f0: "sq_consumer s0 = Loop_head" "sq_consumer (consumer_step ?C s0) = Take_entering" by (simp_all add: defs)
  have f1: "s1 = s0\<lparr>sq_consumer := Take_blocked\<rparr>" by (simp add: s1_def defs)
  have f2: "sq_pushers s2 = [Push_entering item]" by (simp add: s2_def f1 defs)
  have f4: "sq_flushers s4 = [Flush_entering]" by (simp add: s4_def s3_def s2_def f1 defs)
  have f5: "sq_pushers s5 = [Push_notify ?outcome]" "sq_flushers s5 = [Flush_blocked]"
    by (simp_all add: s5_def s4_def s3_def s2_def f1 defs)
  have f6: "sq_flushers s6 = [Flush_entering]" by (simp add: s6_def f5 push_notify_def wake_def)
  have f7: "sq_items s7 = [item]" "sq_pending s7 = 1" "sq_delivered s7 = []" "sq_consumer s7 = Take_blocked"
    "sq_flushers s7 = [Flush_blocked]" "\<not> sq_stop s7" "sq_pushers s7 = [Push_returned ?outcome]"
    by (simp_all add: s7_def s6_def s5_def s4_def s3_def s2_def f1 defs)
  have "sq_step ?C s0 (consumer_step ?C s0)" "sq_step ?C (consumer_step ?C s0) s1"
    using f0 by (auto simp: s1_def intro!: sq_step.work sq_work.consumer)
  moreover have "sq_step ?C s1 s2" "sq_step ?C s3 s4" unfolding s2_def s4_def by (rule sq_step.intros)+
  moreover have "sq_step ?C s2 s3" using f2 by (auto simp: s3_def intro!: sq_step.work sq_work.push)
  moreover have "sq_step ?C s4 s5" "sq_step ?C s6 s7" using f4 f6 by (auto simp: s5_def s7_def intro!: sq_step.work sq_work.flush)
  moreover have "sq_step ?C s5 s6" using f5 by (auto simp: s6_def may_notify_def intro!: sq_step.work sq_work.notify)
  ultimately have "(sq_step ?C)\<^sup>*\<^sup>* s0 s7" by (meson converse_rtranclp_into_rtranclp rtranclp.rtrancl_refl)
  moreover have "\<nexists>t. sq_work ?C s7 t"
    using f7 by (auto elim!: sq_work.cases simp: sentry_client_def)
  ultimately show ?thesis using f7 by (intro exI [of _ s7]) (auto simp: s0_def)
qed

end
