(* ===== verification/Diod_InFlight.thy ===== *)
theory Diod_InFlight
  imports Diod_Machine
begin

text \<open>
  The counter of requests in flight (\<open>in_flight_tracker.hpp\<close>), on which a shutdown waits. \<open>track\<close> and
  the destructor of its guard are sequences of atomic operations on the shard of the thread and on the
  number of active shards; \<open>tr_step\<close> lets any number of requests take them in any order. The shard of
  a request, the hash of its thread modulo sixteen, is a parameter. Counters are integers: the
  invariant bounds them below by zero, so that the unsigned counters of the source never wrap down.
  \<open>in_flight\<close> reads the shards at one moment; the source loads them one after the other, and requests may come and go between the loads.
\<close>

definition g_shard_count :: nat where "g_shard_count = 16"

text \<open>
  A request: not there, after the first operation of \<open>increment\<close> with what the shard held before,
  about to register its shard, in flight, and about to unregister its shard in \<open>decrement\<close>.
\<close>

datatype req = Out | Counting int | Registering | In | Unregistering

record InFlightTracker =
  sh_in_flight :: "nat \<Rightarrow> int"
  sh_total :: "nat \<Rightarrow> nat"
  tr_active :: int
  tr_shutdown :: bool
  tr_notified :: nat
  tr_req :: "nat \<Rightarrow> req"

definition new_InFlightTracker :: InFlightTracker where
  "new_InFlightTracker = \<lparr>sh_in_flight = (\<lambda>_. 0), sh_total = (\<lambda>_. 0), tr_active = 0, tr_shutdown = False, tr_notified = 0,
     tr_req = (\<lambda>_. Out)\<rparr>"

definition shard_index :: "(nat \<Rightarrow> nat) \<Rightarrow> nat \<Rightarrow> nat" where
  "shard_index hash i = hash i mod g_shard_count"

text \<open>The three operations of \<open>increment\<close> and the two of \<open>decrement\<close>.\<close>

definition inc_in_flight :: "nat \<Rightarrow> nat \<Rightarrow> InFlightTracker \<Rightarrow> InFlightTracker" where
  "inc_in_flight sh i s = s\<lparr>sh_in_flight := (sh_in_flight s)(sh := sh_in_flight s sh + 1),
     tr_req := (tr_req s)(i := Counting (sh_in_flight s sh))\<rparr>"

definition inc_total :: "nat \<Rightarrow> nat \<Rightarrow> int \<Rightarrow> InFlightTracker \<Rightarrow> InFlightTracker" where
  "inc_total sh i prev s = s\<lparr>sh_total := (sh_total s)(sh := Suc (sh_total s sh)),
     tr_req := (tr_req s)(i := (if prev = 0 then Registering else In))\<rparr>"

definition inc_active :: "nat \<Rightarrow> InFlightTracker \<Rightarrow> InFlightTracker" where
  "inc_active i s = s\<lparr>tr_active := tr_active s + 1, tr_req := (tr_req s)(i := In)\<rparr>"

definition dec_in_flight :: "nat \<Rightarrow> nat \<Rightarrow> InFlightTracker \<Rightarrow> InFlightTracker" where
  "dec_in_flight sh i s = s\<lparr>sh_in_flight := (sh_in_flight s)(sh := sh_in_flight s sh - 1),
     tr_req := (tr_req s)(i := (if sh_in_flight s sh = 1 then Unregistering else Out))\<rparr>"

definition dec_active :: "nat \<Rightarrow> InFlightTracker \<Rightarrow> InFlightTracker" where
  "dec_active i s = s\<lparr>tr_active := tr_active s - 1, tr_req := (tr_req s)(i := Out),
     tr_notified := (if tr_active s = 1 then Suc (tr_notified s) else tr_notified s)\<rparr>"

definition request_shutdown :: "InFlightTracker \<Rightarrow> InFlightTracker" where
  "request_shutdown s = s\<lparr>tr_shutdown := True\<rparr>"

definition is_shutdown_requested :: "InFlightTracker \<Rightarrow> bool" where
  "is_shutdown_requested s = tr_shutdown s"

definition in_flight :: "InFlightTracker \<Rightarrow> int" where
  "in_flight s = sum_list (map (sh_in_flight s) [0..<g_shard_count])"

definition total_requests :: "InFlightTracker \<Rightarrow> nat" where
  "total_requests s = sum_list (map (sh_total s) [0..<g_shard_count])"

text \<open>What \<open>wait_for_completion\<close> waits for; it returns true when it sees this before the timeout.\<close>

definition completed :: "InFlightTracker \<Rightarrow> bool" where
  "completed s \<longleftrightarrow> tr_active s = 0"

text \<open>
  A guard designates a request, or none after it was moved from: moving takes the request over, and
  assigning to a guard that has one ends it first.
\<close>

definition guard_move :: "nat option \<Rightarrow> nat option \<times> nat option" where
  "guard_move other = (other, None)"

definition guard_assign :: "bool \<Rightarrow> nat option \<Rightarrow> nat option \<Rightarrow> nat option \<times> nat option \<times> nat option" where
  "guard_assign same this other = (if same then (None, this, other) else (this, other, None))"

inductive tr_step :: "(nat \<Rightarrow> nat) \<Rightarrow> InFlightTracker \<Rightarrow> InFlightTracker \<Rightarrow> bool" for hash where
  enter: "tr_req s i = Out \<Longrightarrow> tr_step hash s (inc_in_flight (shard_index hash i) i s)"
| count: "tr_req s i = Counting prev \<Longrightarrow> tr_step hash s (inc_total (shard_index hash i) i prev s)"
| register: "tr_req s i = Registering \<Longrightarrow> tr_step hash s (inc_active i s)"
| leave: "tr_req s i = In \<Longrightarrow> tr_step hash s (dec_in_flight (shard_index hash i) i s)"
| unregister: "tr_req s i = Unregistering \<Longrightarrow> tr_step hash s (dec_active i s)"
| shutdown: "tr_step hash s (request_shutdown s)"

section \<open>Invariant\<close>

definition present :: "InFlightTracker \<Rightarrow> nat set" where
  "present s = {i. tr_req s i \<noteq> Out}"

definition holders :: "(nat \<Rightarrow> nat) \<Rightarrow> InFlightTracker \<Rightarrow> nat \<Rightarrow> nat set" where
  "holders hash s sh = {i. shard_index hash i = sh \<and> tr_req s i \<notin> {Out, Unregistering}}"

definition registering :: "(nat \<Rightarrow> nat) \<Rightarrow> InFlightTracker \<Rightarrow> nat \<Rightarrow> nat set" where
  "registering hash s sh = {i. shard_index hash i = sh \<and> tr_req s i \<in> {Counting 0, Registering}}"

definition unregistering :: "InFlightTracker \<Rightarrow> nat set" where
  "unregistering s = {i. tr_req s i = Unregistering}"

text \<open>The shards that are counted as active: they have a request and none that is still to register them.\<close>

definition registered :: "(nat \<Rightarrow> nat) \<Rightarrow> InFlightTracker \<Rightarrow> nat set" where
  "registered hash s = {sh. holders hash s sh \<noteq> {} \<and> registering hash s sh = {}}"

definition tr_inv :: "(nat \<Rightarrow> nat) \<Rightarrow> InFlightTracker \<Rightarrow> bool" where
  "tr_inv hash s \<longleftrightarrow>
     finite (present s)
   \<and> (\<forall>sh. sh_in_flight s sh = int (card (holders hash s sh)))
   \<and> (\<forall>sh i j. i \<in> registering hash s sh \<longrightarrow> j \<in> registering hash s sh \<longrightarrow> i = j)
   \<and> tr_active s = int (card (registered hash s)) + int (card (unregistering s))"

lemma registering_holders: "registering hash s sh \<subseteq> holders hash s sh"
  by (auto simp: registering_def holders_def)

lemma finite_holders: "tr_inv hash s \<Longrightarrow> finite (holders hash s sh)" "tr_inv hash s \<Longrightarrow> finite (unregistering s)"
proof -
  assume "tr_inv hash s"
  then have f: "finite (present s)" by (simp add: tr_inv_def)
  show "finite (holders hash s sh)" by (rule finite_subset [OF _ f]) (auto simp: holders_def present_def)
  show "finite (unregistering s)" by (rule finite_subset [OF _ f]) (auto simp: unregistering_def present_def)
qed

lemma finite_registered: "tr_inv hash s \<Longrightarrow> finite (registered hash s)"
proof -
  assume "tr_inv hash s"
  have "registered hash s \<subseteq> {..<g_shard_count}"
    by (auto simp: registered_def holders_def shard_index_def g_shard_count_def)
  then show ?thesis by (rule finite_subset) simp
qed

text \<open>How one request's change of place changes the sets.\<close>

lemma sets_upd:
  assumes "tr_req t = (tr_req s)(i := r)"
  shows "holders hash t sh = (if shard_index hash i \<noteq> sh then holders hash s sh
           else if r \<notin> {Out, Unregistering} then insert i (holders hash s sh) else holders hash s sh - {i})"
    and "registering hash t sh = (if shard_index hash i \<noteq> sh then registering hash s sh
           else if r \<in> {Counting 0, Registering} then insert i (registering hash s sh) else registering hash s sh - {i})"
    and "unregistering t = (if r = Unregistering then insert i (unregistering s) else unregistering s - {i})"
    and "finite (present s) \<Longrightarrow> finite (present t)"
proof -
  have "present t \<subseteq> insert i (present s)" using assms by (auto simp: present_def)
  then show "finite (present s) \<Longrightarrow> finite (present t)" by (meson finite_insert finite_subset)
qed (use assms in \<open>auto simp: holders_def registering_def unregistering_def\<close>)

text \<open>The ways in which the sets of a shard change, and with them the counters.\<close>

lemma tr_inv_keep:
  assumes "tr_inv hash s" "finite (present t)" "tr_active t = tr_active s"
    and "\<And>sh. sh_in_flight t sh = int (card (holders hash t sh))"
    and "\<And>sh. registering hash t sh \<subseteq> registering hash s sh \<or> (\<exists>i. registering hash t sh \<subseteq> {i})"
    and "card (registered hash t) + card (unregistering t) = card (registered hash s) + card (unregistering s)"
  shows "tr_inv hash t"
proof -
  have "int (card (registered hash t)) + int (card (unregistering t)) = tr_active s"
    using assms(6) assms(1) by (simp add: tr_inv_def flip: of_nat_add)
  moreover have "i = j" if "i \<in> registering hash t sh" "j \<in> registering hash t sh" for i j sh
    using assms(5) [of sh] that assms(1) unfolding tr_inv_def by blast
  ultimately show ?thesis using assms(2,3,4) by (simp add: tr_inv_def)
qed

lemma op_fields [simp]:
  "tr_req (inc_in_flight sh i s) = (tr_req s)(i := Counting (sh_in_flight s sh))"
  "sh_in_flight (inc_in_flight sh i s) = (sh_in_flight s)(sh := sh_in_flight s sh + 1)"
  "tr_active (inc_in_flight sh i s) = tr_active s"
  "tr_req (inc_total sh i prev s) = (tr_req s)(i := (if prev = 0 then Registering else In))"
  "sh_in_flight (inc_total sh i prev s) = sh_in_flight s" "tr_active (inc_total sh i prev s) = tr_active s"
  "tr_req (inc_active i s) = (tr_req s)(i := In)" "sh_in_flight (inc_active i s) = sh_in_flight s"
  "tr_active (inc_active i s) = tr_active s + 1"
  "tr_req (dec_in_flight sh i s) = (tr_req s)(i := (if sh_in_flight s sh = 1 then Unregistering else Out))"
  "sh_in_flight (dec_in_flight sh i s) = (sh_in_flight s)(sh := sh_in_flight s sh - 1)"
  "tr_active (dec_in_flight sh i s) = tr_active s"
  "tr_req (dec_active i s) = (tr_req s)(i := Out)" "sh_in_flight (dec_active i s) = sh_in_flight s"
  "tr_active (dec_active i s) = tr_active s - 1"
  by (simp_all add: inc_in_flight_def inc_total_def inc_active_def dec_in_flight_def dec_active_def)

lemma enter_inv:
  assumes "tr_inv hash s" "tr_req s i = Out"
  shows "tr_inv hash (inc_in_flight (shard_index hash i) i s)" (is "tr_inv hash ?t")
proof -
  let ?sh = "shard_index hash i"
  have u: "tr_req ?t = (tr_req s)(i := Counting (sh_in_flight s ?sh))" by simp
  note upd = sets_upd [OF u]
  have ni: "i \<notin> holders hash s sh" "i \<notin> registering hash s sh" "i \<notin> unregistering s" for sh
    using assms(2) by (auto simp: holders_def registering_def unregistering_def)
  have cnt: "sh_in_flight s sh = int (card (holders hash s sh))" for sh using assms(1) by (simp add: tr_inv_def)
  have empty: "sh_in_flight s ?sh = 0 \<longleftrightarrow> holders hash s ?sh = {}" using cnt [of ?sh] finite_holders(1) [OF assms(1), of ?sh] by simp
  have reg0: "sh_in_flight s ?sh = 0 \<Longrightarrow> registering hash s ?sh = {}" using empty registering_holders [of hash s ?sh] by auto
  have "sh \<in> registered hash ?t \<longleftrightarrow> sh \<in> registered hash s" for sh
    using empty upd(1) [of hash sh] upd(2) [of hash sh] ni(2) [of sh] reg0 by (auto simp: registered_def)
  then have "registered hash ?t = registered hash s" by blast
  moreover have "unregistering ?t = unregistering s" using upd(3) ni(3) by simp
  moreover have "sh_in_flight ?t sh = int (card (holders hash ?t sh))" for sh
    using upd(1) [of hash sh] ni(1) [of sh] cnt [of sh] finite_holders(1) [OF assms(1), of sh] by auto
  moreover have "registering hash ?t sh \<subseteq> registering hash s sh \<or> (\<exists>i. registering hash ?t sh \<subseteq> {i})" for sh
    using upd(2) [of hash sh] reg0 by auto
  moreover have "finite (present ?t)" using upd(4) assms(1) by (simp add: tr_inv_def)
  ultimately show ?thesis using assms(1) by (intro tr_inv_keep [OF assms(1)]) simp_all
qed

lemma count_inv:
  assumes "tr_inv hash s" "tr_req s i = Counting prev"
  shows "tr_inv hash (inc_total sh0 i prev s)" (is "tr_inv hash ?t")
proof -
  have u: "tr_req ?t = (tr_req s)(i := (if prev = 0 then Registering else In))" by simp
  note upd = sets_upd [OF u]
  have h: "holders hash ?t sh = holders hash s sh" for sh using upd(1) [of hash sh] assms(2) by (auto simp: holders_def)
  have r: "registering hash ?t sh = registering hash s sh" for sh using upd(2) [of hash sh] assms(2) by (auto simp: registering_def)
  have un: "unregistering ?t = unregistering s" using upd(3) assms(2) by (auto simp: unregistering_def)
  have "finite (present ?t)" using upd(4) assms(1) by (simp add: tr_inv_def)
  then show ?thesis using assms(1)
    by (intro tr_inv_keep [OF assms(1)]) (simp_all add: h r un registered_def tr_inv_def)
qed

lemma register_inv:
  assumes "tr_inv hash s" "tr_req s i = Registering"
  shows "tr_inv hash (inc_active i s)" (is "tr_inv hash ?t")
proof -
  let ?sh = "shard_index hash i"
  have u: "tr_req ?t = (tr_req s)(i := In)" by simp
  note upd = sets_upd [OF u]
  have i: "i \<in> holders hash s ?sh" "i \<in> registering hash s ?sh" "i \<notin> unregistering s"
    using assms(2) by (auto simp: holders_def registering_def unregistering_def)
  have only: "registering hash s ?sh = {i}" using i(2) assms(1) unfolding tr_inv_def by blast
  have h: "holders hash ?t sh = holders hash s sh" for sh using upd(1) [of hash sh] i(1) by auto
  have r: "registering hash ?t sh = (if sh = ?sh then {} else registering hash s sh)" for sh using upd(2) [of hash sh] only by auto
  have new: "registered hash ?t = insert ?sh (registered hash s)" "?sh \<notin> registered hash s"
    using h r only i(1) by (auto simp: registered_def)
  have "card (registered hash ?t) = Suc (card (registered hash s))"
    using new finite_registered [OF assms(1)] by simp
  moreover have "unregistering ?t = unregistering s" using upd(3) i(3) by simp
  moreover have "finite (present ?t)" using upd(4) assms(1) by (simp add: tr_inv_def)
  moreover have "a = b" if "a \<in> registering hash ?t sh" "b \<in> registering hash ?t sh" for a b sh
    using that assms(1) unfolding r tr_inv_def by (auto split: if_splits)
  ultimately show ?thesis using assms(1) by (simp add: tr_inv_def h)
qed

lemma leave_inv:
  assumes "tr_inv hash s" "tr_req s i = In"
  shows "tr_inv hash (dec_in_flight (shard_index hash i) i s)" (is "tr_inv hash ?t")
proof -
  let ?sh = "shard_index hash i"
  have u: "tr_req ?t = (tr_req s)(i := (if sh_in_flight s ?sh = 1 then Unregistering else Out))" by simp
  note upd = sets_upd [OF u]
  have i: "i \<in> holders hash s ?sh" "i \<notin> registering hash s sh" "i \<notin> unregistering s" for sh
    using assms(2) by (auto simp: holders_def registering_def unregistering_def)
  have fin: "finite (holders hash s sh)" for sh by (rule finite_holders(1) [OF assms(1)])
  have cnt: "sh_in_flight s sh = int (card (holders hash s sh))" for sh using assms(1) by (simp add: tr_inv_def)
  have h: "holders hash ?t sh = (if sh = ?sh then holders hash s ?sh - {i} else holders hash s sh)" for sh
    using upd(1) [of hash sh] by auto
  have r: "registering hash ?t sh = registering hash s sh" for sh using upd(2) [of hash sh] i(2) by auto
  have card: "card (holders hash s ?sh - {i}) = card (holders hash s ?sh) - 1" "0 < card (holders hash s ?sh)"
    using i(1) fin [of ?sh] by (auto simp: card_gt_0_iff)
  have flight: "sh_in_flight ?t sh = int (card (holders hash ?t sh))" for sh
    using card cnt [of sh] by (auto simp: h of_nat_diff)
  have count: "card (registered hash ?t) + card (unregistering ?t) = card (registered hash s) + card (unregistering s)"
  proof (cases "sh_in_flight s ?sh = 1")
    case True
    then have "card (holders hash s ?sh) = 1" using cnt [of ?sh] by simp
    then have one: "holders hash s ?sh = {i}" using i(1) by (auto simp: card_1_singleton_iff)
    then have "registering hash s ?sh = {}" using registering_holders [of hash s ?sh] i(2) [of ?sh] by auto
    then have "?sh \<in> registered hash s" "registered hash ?t = registered hash s - {?sh}" using one h r by (auto simp: registered_def)
    moreover have "unregistering ?t = insert i (unregistering s)" using upd(3) True by simp
    ultimately show ?thesis using i(3) card_Suc_Diff1 [OF finite_registered [OF assms(1)]] finite_holders(2) [OF assms(1)]
      by simp
  next
    case False
    then have "card (holders hash s ?sh - {i}) \<noteq> 0" using card cnt [of ?sh] by (simp; linarith)
    then have "holders hash s ?sh - {i} \<noteq> {}" by (intro notI) (simp only: card.empty)
    then have "registered hash ?t = registered hash s" using h r i(1) by (auto simp: registered_def)
    moreover have "unregistering ?t = unregistering s" using upd(3) False i(3) by simp
    ultimately show ?thesis by simp
  qed
  have "finite (present ?t)" using upd(4) assms(1) by (simp add: tr_inv_def)
  then show ?thesis using flight count r by (intro tr_inv_keep [OF assms(1)]) simp_all
qed

lemma unregister_inv:
  assumes "tr_inv hash s" "tr_req s i = Unregistering"
  shows "tr_inv hash (dec_active i s)" (is "tr_inv hash ?t")
proof -
  have u: "tr_req ?t = (tr_req s)(i := Out)" by simp
  note upd = sets_upd [OF u]
  have i: "i \<notin> holders hash s sh" "i \<notin> registering hash s sh" "i \<in> unregistering s" for sh
    using assms(2) by (auto simp: holders_def registering_def unregistering_def)
  have h: "holders hash ?t sh = holders hash s sh" "registering hash ?t sh = registering hash s sh" for sh
    using upd(1) [of hash sh] upd(2) [of hash sh] i(1,2) [of sh] by auto
  have "unregistering ?t = unregistering s - {i}" using upd(3) by simp
  then have "Suc (card (unregistering ?t)) = card (unregistering s)"
    using card_Suc_Diff1 [OF finite_holders(2) [OF assms(1)] i(3)] by simp
  moreover have "finite (present ?t)" using upd(4) assms(1) by (simp add: tr_inv_def)
  moreover have "registered hash ?t = registered hash s" by (simp add: registered_def h)
  ultimately show ?thesis using assms(1) by (simp add: tr_inv_def h)
qed

lemma tr_inv_step: "tr_step hash s t \<Longrightarrow> tr_inv hash s \<Longrightarrow> tr_inv hash t"
proof (induction rule: tr_step.induct)
  case (shutdown s)
  then show ?case by (simp add: tr_inv_def request_shutdown_def holders_def registering_def unregistering_def registered_def present_def)
qed (auto intro: enter_inv count_inv register_inv leave_inv unregister_inv)

interpretation tracker: transitions "tr_step hash" "tr_inv hash" for hash
  by unfold_locales (rule tr_inv_step)

lemma tr_inv_new: "tr_inv hash new_InFlightTracker"
  by (simp add: tr_inv_def new_InFlightTracker_def holders_def registering_def unregistering_def registered_def present_def)

lemma in_flight_holders:
  assumes "tr_inv hash s"
  shows "in_flight s = int (card {i. tr_req s i \<notin> {Out, Unregistering}})"
proof -
  have "in_flight s = (\<Sum>sh < g_shard_count. int (card (holders hash s sh)))"
    using assms by (simp add: in_flight_def tr_inv_def sum_list_distinct_conv_sum_set atLeast0LessThan)
  also have "\<dots> = int (card (\<Union>sh < g_shard_count. holders hash s sh))"
    using finite_holders(1) [OF assms] by (subst card_UN_disjoint) (auto simp: holders_def)
  also have "(\<Union>sh < g_shard_count. holders hash s sh) = {i. tr_req s i \<notin> {Out, Unregistering}}"
    by (auto simp: holders_def shard_index_def g_shard_count_def)
  finally show ?thesis .
qed

lemma settled_completed:
  assumes "tr_inv hash s" "\<And>i. tr_req s i \<in> {Out, In}"
  shows "completed s \<longleftrightarrow> in_flight s = 0"
proof -
  have r: "registering hash s sh = {}" "unregistering s = {}" for sh
    using assms(2) by (auto simp: registering_def unregistering_def) (metis req.distinct insertE singletonD)+
  have f: "finite {i. tr_req s i \<notin> {Out, Unregistering}}"
  proof (rule finite_subset)
    show "{i. tr_req s i \<notin> {Out, Unregistering}} \<subseteq> present s" by (auto simp: present_def)
    show "finite (present s)" using assms(1) by (simp add: tr_inv_def)
  qed
  have "tr_active s = int (card (registered hash s))" using assms(1) r by (simp add: tr_inv_def)
  then have "completed s \<longleftrightarrow> registered hash s = {}"
    using finite_registered [OF assms(1)] by (simp add: completed_def)
  also have "\<dots> \<longleftrightarrow> {i. tr_req s i \<notin> {Out, Unregistering}} = {}" using r by (auto simp: registered_def holders_def)
  also have "\<dots> \<longleftrightarrow> in_flight s = 0" using in_flight_holders [OF assms(1)] f by simp
  finally show ?thesis .
qed

section \<open>Properties\<close>

text \<open>
  Property C40. Under any interleaving the sum over the shards is the number of requests that have
  entered and not left, and the number of active shards never goes below zero; whenever no request is
  in the middle of entering or leaving, \<open>wait_for_completion\<close> succeeds exactly when none is in flight.
\<close>

theorem tracker_counts:
  assumes "(tr_step hash)\<^sup>*\<^sup>* new_InFlightTracker s"
  shows "in_flight s = int (card {i. tr_req s i \<notin> {Out, Unregistering}}) \<and> 0 \<le> tr_active s
     \<and> ((\<forall>i. tr_req s i = Out \<or> tr_req s i = In) \<longrightarrow> (completed s \<longleftrightarrow> in_flight s = 0))"
proof -
  have i: "tr_inv hash s" by (rule tracker.inv_reach [OF assms tr_inv_new])
  then have "0 \<le> tr_active s" by (simp add: tr_inv_def)
  then show ?thesis using in_flight_holders [OF i] settled_completed [OF i] by auto
qed

text \<open>A request alone, and a second one that enters before the first has registered the shard.\<close>

definition overtaking :: "(nat \<Rightarrow> nat) \<Rightarrow> InFlightTracker" where
  "overtaking hash = (let sh = shard_index hash 0; s1 = inc_in_flight sh 0 new_InFlightTracker; s2 = inc_in_flight sh 1 s1
     in inc_total sh 1 1 s2)"

lemma overtaking_reach:
  assumes "shard_index hash 0 = shard_index hash 1"
  shows "(tr_step hash)\<^sup>*\<^sup>* new_InFlightTracker (overtaking hash)"
proof -
  let ?sh = "shard_index hash 0"
  let ?s1 = "inc_in_flight ?sh 0 new_InFlightTracker" let ?s2 = "inc_in_flight ?sh 1 ?s1"
  have "tr_step hash new_InFlightTracker ?s1" by (rule enter) (simp add: new_InFlightTracker_def)
  moreover have "tr_step hash ?s1 ?s2" using enter [of ?s1 1 hash] assms by (simp add: new_InFlightTracker_def)
  moreover have "tr_step hash ?s2 (inc_total ?sh 1 1 ?s2)"
    using count [of ?s2 1 1 hash] assms by (simp add: new_InFlightTracker_def)
  ultimately show ?thesis by (auto simp: overtaking_def Let_def intro: rtranclp.rtrancl_into_rtrancl)
qed

text \<open>
  The number of active shards can be zero while requests are running: a thread that
  shares its shard with one that has counted itself but not yet registered the shard is tracked at
  once, and \<open>wait_for_completion\<close> then reports that all requests completed although a tracked
  request is in flight.
\<close>

theorem tracker_early_completion:
  assumes "shard_index hash 0 = shard_index hash 1"
  shows "\<exists>s. (tr_step hash)\<^sup>*\<^sup>* new_InFlightTracker s \<and> completed s \<and> tr_req s 1 = In \<and> in_flight s = 2"
proof (intro exI conjI)
  show r: "(tr_step hash)\<^sup>*\<^sup>* new_InFlightTracker (overtaking hash)" by (rule overtaking_reach [OF assms])
  show "completed (overtaking hash)" by (simp add: overtaking_def Let_def completed_def new_InFlightTracker_def)
  show "tr_req (overtaking hash) 1 = In" by (simp add: overtaking_def Let_def)
  have "tr_req (overtaking hash) = (\<lambda>_. Out)(0 := Counting 0, 1 := In)"
    by (simp add: overtaking_def Let_def new_InFlightTracker_def fun_eq_iff)
  then have "{i. tr_req (overtaking hash) i \<notin> {Out, Unregistering}} = {0, 1}" by auto
  then show "in_flight (overtaking hash) = 2" using in_flight_holders [OF tracker.inv_reach [OF r tr_inv_new]] by simp
qed

theorem tracker_early_completion_witness:
  "\<exists>s. (tr_step (\<lambda>i. 16 * i + 3))\<^sup>*\<^sup>* new_InFlightTracker s \<and> completed s \<and> tr_req s 1 = In \<and> in_flight s = 2"
  by (rule tracker_early_completion) (simp add: shard_index_def g_shard_count_def)

theorem tracker_counts_witness:
  "in_flight (overtaking (\<lambda>_. 3)) = int (card {i. tr_req (overtaking (\<lambda>_. 3)) i \<notin> {Out, Unregistering}}) \<and> 0 \<le> tr_active (overtaking (\<lambda>_. 3))"
  using tracker_counts [OF overtaking_reach [of "\<lambda>_. 3"]] by (simp add: shard_index_def)

end
