(* ===== verification/Diod_Utf8.thy ===== *)
theory Diod_Utf8
  imports Prelude
begin

text \<open>
  The UTF-8 checks of \<open>utf8_utils.hpp\<close>: the worker sends a body as text exactly when it is valid
  UTF-8, and cleans header values so that the JSON serialiser accepts them. A code point has at most
  21 bits, so that the 32-bit arithmetic of the source does not wrap and is done on natural numbers.
\<close>

abbreviation byte_at :: "string \<Rightarrow> nat \<Rightarrow> nat" where
  "byte_at input i \<equiv> of_char (input ! i)"

definition min_codepoint :: "nat list" where
  "min_codepoint = [0, 0x80, 0x800, 0x10000]"

text \<open>The loop over the continuation bytes from a position on.\<close>

primrec continuation :: "nat \<Rightarrow> string \<Rightarrow> nat \<Rightarrow> nat \<Rightarrow> nat option" where
  "continuation 0 input pos codepoint = Some codepoint"
| "continuation (Suc extra) input pos codepoint =
     (let next = byte_at input pos
      in if next AND 0xC0 \<noteq> 0x80 then None
         else continuation extra input (pos + 1) (push_bit 6 codepoint OR (next AND 0x3F)))"

definition sequence_end :: "string \<Rightarrow> nat \<Rightarrow> nat \<Rightarrow> nat \<Rightarrow> nat" where
  "sequence_end input index extra codepoint =
     (if index + extra \<ge> length input then 0
      else case continuation extra input (index + 1) codepoint of
             None \<Rightarrow> 0
           | Some cp \<Rightarrow> if cp < min_codepoint ! extra \<or> cp > 0x10FFFF \<or> 0xD800 \<le> cp \<and> cp \<le> 0xDFFF then 0 else extra + 1)"

definition sequence_length :: "string \<Rightarrow> nat \<Rightarrow> nat" where
  "sequence_length input index =
     (let first = byte_at input index
      in if first < 0x80 then 1
         else if first AND 0xE0 = 0xC0 then sequence_end input index 1 (first AND 0x1F)
         else if first AND 0xF0 = 0xE0 then sequence_end input index 2 (first AND 0x0F)
         else if first AND 0xF8 = 0xF0 then sequence_end input index 3 (first AND 0x07)
         else 0)"

function valid_from :: "string \<Rightarrow> nat \<Rightarrow> bool" where
  "valid_from input index =
     (if index < length input then
        let len = sequence_length input index in if len = 0 then False else valid_from input (index + len)
      else True)"
  by pat_completeness auto
termination by (relation "measure (\<lambda>(input, index). length input - index)") auto

definition is_valid_utf8 :: "string \<Rightarrow> bool" where
  "is_valid_utf8 input = valid_from input 0"

definition replacement :: string where
  "replacement = [CHR 0xEF, CHR 0xBF, CHR 0xBD]"

function sanitize_from :: "string \<Rightarrow> nat \<Rightarrow> string" where
  "sanitize_from input index =
     (if index < length input then
        let len = sequence_length input index
        in if len = 0 then replacement @ sanitize_from input (index + 1)
           else take len (drop index input) @ sanitize_from input (index + len)
      else [])"
  by pat_completeness auto
termination by (relation "measure (\<lambda>(input, index). length input - index)") auto

definition sanitize_invalid :: "string \<Rightarrow> string" where
  "sanitize_invalid input = sanitize_from input 0"

declare valid_from.simps [simp del] sanitize_from.simps [simp del]

section \<open>Bit fields\<close>

lemma and_field: "(b :: nat) AND (2 ^ k * (2 ^ m - 1)) = 2 ^ k * (b div 2 ^ k mod 2 ^ m)"
proof -
  have "b AND push_bit k (mask m) = push_bit k (take_bit m (drop_bit k b))"
    by (rule bit_eqI) (auto simp: bit_simps)
  then show ?thesis
    by (simp add: push_bit_eq_mult mask_eq_exp_minus_1 take_bit_eq_mod drop_bit_eq_div mult.commute)
qed

lemma or_field: "(m :: nat) < 2 ^ k \<Longrightarrow> push_bit k n OR m = n * 2 ^ k + m"
proof -
  assume "m < 2 ^ k"
  then have m: "take_bit k m = m" by (simp add: take_bit_nat_eq_self)
  have "push_bit k n AND m = 0"
    by (subst m [symmetric], rule bit_eqI) (auto simp: bit_simps)
  then have "push_bit k n + m = push_bit k n OR m" by (rule disjunctive_add_eq_or)
  then show ?thesis by (simp add: push_bit_eq_mult)
qed

lemma low_bits:
  "(b :: nat) AND 0x1F = b mod 32" "b AND 0x0F = b mod 16" "b AND 0x07 = b mod 8" "b AND 0x3F = b mod 64"
  using and_field [of b 0 5] and_field [of b 0 4] and_field [of b 0 3] and_field [of b 0 6] by simp_all

lemma field_eq:
  fixes b :: nat
  assumes "0 < c"
  shows "c * (b div c) = c * k \<longleftrightarrow> c * k \<le> b \<and> b < c * k + c"
proof
  assume "c * (b div c) = c * k"
  then show "c * k \<le> b \<and> b < c * k + c"
    using assms mult_div_mod_eq [of c b] mod_less_divisor [OF assms, of b] by linarith
next
  assume "c * k \<le> b \<and> b < c * k + c"
  then show "c * (b div c) = c * k" by (simp add: div_nat_eqI mult.commute)
qed

lemma lead_bits:
  assumes "b < (256 :: nat)"
  shows "b AND 0xE0 = 0xC0 \<longleftrightarrow> 0xC0 \<le> b \<and> b < 0xE0" "b AND 0xF0 = 0xE0 \<longleftrightarrow> 0xE0 \<le> b \<and> b < 0xF0"
    "b AND 0xF8 = 0xF0 \<longleftrightarrow> 0xF0 \<le> b \<and> b < 0xF8" "b AND 0xC0 = 0x80 \<longleftrightarrow> 0x80 \<le> b \<and> b < 0xC0"
proof -
  have e: "b AND 0xE0 = 32 * (b div 32)" "b AND 0xF0 = 16 * (b div 16)"
    "b AND 0xF8 = 8 * (b div 8)" "b AND 0xC0 = 64 * (b div 64)"
    using assms and_field [of b 5 3] and_field [of b 4 4] and_field [of b 3 5] and_field [of b 6 2] by simp_all
  show "b AND 0xE0 = 0xC0 \<longleftrightarrow> 0xC0 \<le> b \<and> b < 0xE0" using field_eq [of 32 b 6] unfolding e by simp
  show "b AND 0xF0 = 0xE0 \<longleftrightarrow> 0xE0 \<le> b \<and> b < 0xF0" using field_eq [of 16 b 14] unfolding e by simp
  show "b AND 0xF8 = 0xF0 \<longleftrightarrow> 0xF0 \<le> b \<and> b < 0xF8" using field_eq [of 8 b 30] unfolding e by simp
  show "b AND 0xC0 = 0x80 \<longleftrightarrow> 0x80 \<le> b \<and> b < 0xC0" using field_eq [of 64 b 2] unfolding e by simp
qed

section \<open>Encoding of code points\<close>

text \<open>The Unicode scalar values and their encodings.\<close>

definition is_scalar :: "nat \<Rightarrow> bool" where
  "is_scalar cp \<longleftrightarrow> cp \<le> 0x10FFFF \<and> \<not> (0xD800 \<le> cp \<and> cp \<le> 0xDFFF)"

definition tail_byte :: "nat \<Rightarrow> char" where
  "tail_byte n = char_of (0x80 + n mod 64)"

definition encode :: "nat \<Rightarrow> string" where
  "encode cp =
     (if cp < 0x80 then [char_of cp]
      else if cp < 0x800 then [char_of (0xC0 + cp div 64), tail_byte cp]
      else if cp < 0x10000 then [char_of (0xE0 + cp div 4096), tail_byte (cp div 64), tail_byte cp]
      else [char_of (0xF0 + cp div 262144), tail_byte (cp div 4096), tail_byte (cp div 64), tail_byte cp])"

lemma encode_nonempty [simp]: "encode cp \<noteq> []" "length (encode cp) > 0"
  by (simp_all add: encode_def)

lemma of_tail_byte [simp]: "of_char (tail_byte n) = (0x80 + n mod 64 :: nat)"
proof -
  have "n mod 64 < 64" by simp
  then show ?thesis unfolding tail_byte_def of_char_of by (intro mod_less) linarith
qed

lemma continuation_step:
  "0x80 \<le> byte_at input pos \<Longrightarrow> byte_at input pos < 0xC0 \<Longrightarrow>
   continuation (Suc extra) input pos cp = continuation extra input (pos + 1) (cp * 64 + byte_at input pos mod 64)"
  using lead_bits(4) [of "byte_at input pos"] or_field [of "byte_at input pos mod 64" 6 cp]
  by (simp add: low_bits Let_def)

lemma continuation_Some:
  assumes "continuation (Suc extra) input pos cp = Some r"
  shows "0x80 \<le> byte_at input pos \<and> byte_at input pos < 0xC0
    \<and> continuation extra input (pos + 1) (cp * 64 + byte_at input pos mod 64) = Some r"
proof -
  have "0x80 \<le> byte_at input pos \<and> byte_at input pos < 0xC0"
    using assms lead_bits(4) [of "byte_at input pos"] by (simp add: Let_def split: if_splits)
  then show ?thesis using assms continuation_step by metis
qed

lemma continuation_tail:
  "input ! pos = tail_byte n \<Longrightarrow>
   continuation (Suc extra) input pos cp = continuation extra input (pos + 1) (cp * 64 + n mod 64)"
proof -
  assume i: "input ! pos = tail_byte n"
  have "(128 + n mod 64) mod 64 = n mod 64" using mod_mult_self2 [of "n mod 64" 64 2] by (simp add: add.commute)
  moreover have "n mod 64 < 64" by simp
  ultimately show ?thesis using continuation_step [of input pos extra cp] by (simp add: i del: continuation.simps)
qed

lemma first_byte:
  "byte_at input i < 0x80 \<Longrightarrow> sequence_length input i = 1"
  "0xC0 \<le> byte_at input i \<Longrightarrow> byte_at input i < 0xE0 \<Longrightarrow> sequence_length input i = sequence_end input i 1 (byte_at input i - 0xC0)"
  "0xE0 \<le> byte_at input i \<Longrightarrow> byte_at input i < 0xF0 \<Longrightarrow> sequence_length input i = sequence_end input i 2 (byte_at input i - 0xE0)"
  "0xF0 \<le> byte_at input i \<Longrightarrow> byte_at input i < 0xF8 \<Longrightarrow> sequence_length input i = sequence_end input i 3 (byte_at input i - 0xF0)"
  "0x80 \<le> byte_at input i \<Longrightarrow> byte_at input i < 0xC0 \<or> 0xF8 \<le> byte_at input i \<Longrightarrow> sequence_length input i = 0"
proof -
  let ?b = "byte_at input i"
  have "0xC0 \<le> ?b \<Longrightarrow> ?b < 0xE0 \<Longrightarrow> ?b mod 32 = ?b - 0xC0" "0xE0 \<le> ?b \<Longrightarrow> ?b < 0xF0 \<Longrightarrow> ?b mod 16 = ?b - 0xE0"
    "0xF0 \<le> ?b \<Longrightarrow> ?b < 0xF8 \<Longrightarrow> ?b mod 8 = ?b - 0xF0"
    by (rule mod_nat_eqI; simp)+
  note m = this and t = lead_bits [OF nat_of_char_less_256 [of "input ! i"]]
  show "?b < 0x80 \<Longrightarrow> sequence_length input i = 1" by (simp add: sequence_length_def)
  show "0xC0 \<le> ?b \<Longrightarrow> ?b < 0xE0 \<Longrightarrow> sequence_length input i = sequence_end input i 1 (?b - 0xC0)"
    by (simp add: sequence_length_def t low_bits m)
  show "0xE0 \<le> ?b \<Longrightarrow> ?b < 0xF0 \<Longrightarrow> sequence_length input i = sequence_end input i 2 (?b - 0xE0)"
    by (simp add: sequence_length_def t low_bits m)
  show "0xF0 \<le> ?b \<Longrightarrow> ?b < 0xF8 \<Longrightarrow> sequence_length input i = sequence_end input i 3 (?b - 0xF0)"
    by (simp add: sequence_length_def t low_bits m)
  show "0x80 \<le> ?b \<Longrightarrow> ?b < 0xC0 \<or> 0xF8 \<le> ?b \<Longrightarrow> sequence_length input i = 0"
    by (auto simp: sequence_length_def t)
qed

lemma drop_nth:
  assumes "drop i xs = ys @ zs" "k < length ys"
  shows "xs ! (i + k) = ys ! k" "i + k < length xs"
proof -
  have "length ys \<le> length (drop i xs)" using assms(1) by simp
  then show "i + k < length xs" using assms(2) by simp
  then show "xs ! (i + k) = ys ! k" using assms by (metis nth_append nth_drop less_or_eq_imp_le add_leD1)
qed

lemma sequence_end_scalar:
  assumes "is_scalar cp" "min_codepoint ! extra \<le> cp" "index + extra < length input"
    and "continuation extra input (index + 1) c = Some cp"
  shows "sequence_end input index extra c = extra + 1"
  using assms by (auto simp: sequence_end_def is_scalar_def)

lemma sequence_end_pos:
  assumes "sequence_end input index extra c \<noteq> 0"
  obtains cp where "continuation extra input (index + 1) c = Some cp" "is_scalar cp" "min_codepoint ! extra \<le> cp"
    "index + extra < length input" "sequence_end input index extra c = extra + 1"
  using assms by (auto simp: sequence_end_def is_scalar_def split: if_splits option.splits)

lemma sequence_length_encode:
  assumes cp: "is_scalar cp" and d: "drop i input = encode cp @ rest"
  shows "sequence_length input i = length (encode cp)"
proof -
  note n = drop_nth [OF d]
  have split3: "(cp div 4096 * 64 + cp div 64 mod 64) * 64 + cp mod 64 = cp"
  proof -
    have "cp div 64 = cp div 4096 * 64 + cp div 64 mod 64"
      using div_mult_mod_eq [of "cp div 64" 64] by (simp add: div_mult2_eq [symmetric])
    then show ?thesis using div_mult_mod_eq [of cp 64] by metis
  qed
  have split4: "((cp div 262144 * 64 + cp div 4096 mod 64) * 64 + cp div 64 mod 64) * 64 + cp mod 64 = cp"
  proof -
    have "cp div 4096 = cp div 262144 * 64 + cp div 4096 mod 64"
      using div_mult_mod_eq [of "cp div 4096" 64] by (simp add: div_mult2_eq [symmetric])
    then show ?thesis using split3 by metis
  qed
  have bound: "cp \<le> 0x10FFFF" using cp by (simp add: is_scalar_def)
  consider "cp < 0x80" | "0x80 \<le> cp" "cp < 0x800" | "0x800 \<le> cp" "cp < 0x10000" | "0x10000 \<le> cp" by linarith
  then show ?thesis
  proof cases
    case 1
    then have "byte_at input i = cp" using n [of 0] by (simp add: encode_def)
    then show ?thesis using 1 first_byte(1) [of input i] by (simp add: encode_def)
  next
    case 2
    have b: "byte_at input i = 0xC0 + cp div 64" "input ! (i + 1) = tail_byte cp" "i + 1 < length input"
      using 2 n [of 0] n [of 1] by (simp_all add: encode_def)
    have "continuation 1 input (i + 1) (cp div 64) = Some cp"
      using continuation_tail [OF b(2), of 0] by simp
    then have "sequence_end input i 1 (cp div 64) = 2"
      using sequence_end_scalar [OF cp _ b(3)] 2 by (simp add: min_codepoint_def)
    then show ?thesis using first_byte(2) [of input i] 2 b(1) by (simp add: encode_def)
  next
    case 3
    have b: "byte_at input i = 0xE0 + cp div 4096" "input ! (i + 1) = tail_byte (cp div 64)"
      "input ! (i + 1 + 1) = tail_byte cp" "i + 2 < length input"
      using 3 n [of 0] n [of 1] n [of 2] by (simp_all add: encode_def)
    have "continuation 2 input (i + 1) (cp div 4096) = Some cp"
      by (simp only: numeral_2_eq_2 continuation_tail [OF b(2)] continuation_tail [OF b(3)] continuation.simps(1) split3)
    then have "sequence_end input i 2 (cp div 4096) = 3"
      using sequence_end_scalar [OF cp _ b(4)] 3 by (simp add: min_codepoint_def)
    then show ?thesis using first_byte(3) [of input i] 3 b(1) by (simp add: encode_def)
  next
    case 4
    have b: "byte_at input i = 0xF0 + cp div 262144" "input ! (i + 1) = tail_byte (cp div 4096)"
      "input ! (i + 1 + 1) = tail_byte (cp div 64)" "input ! (i + 1 + 1 + 1) = tail_byte cp" "i + 3 < length input"
      using 4 bound n [of 0] n [of 1] n [of 2] n [of 3] by (simp_all add: encode_def numeral_3_eq_3)
    have "continuation 3 input (i + 1) (cp div 262144) = Some cp"
      by (simp only: numeral_3_eq_3 continuation_tail [OF b(2)] continuation_tail [OF b(3)] continuation_tail [OF b(4)]
        continuation.simps(1) split4)
    then have "sequence_end input i 3 (cp div 262144) = 4"
      using sequence_end_scalar [OF cp _ b(5)] 4 by (simp add: min_codepoint_def)
    then show ?thesis using first_byte(4) [of input i] 4 bound b(1) by (simp add: encode_def)
  qed
qed

lemma tail_byte_eq:
  assumes "(0x80 :: nat) \<le> of_char c" "of_char c < (0xC0 :: nat)" "n mod 64 = of_char c mod 64"
  shows "tail_byte n = c"
proof -
  have "of_char c mod 64 = of_char c - (0x80 :: nat)" using assms(1,2) by (intro mod_nat_eqI) simp_all
  then have "0x80 + of_char c mod 64 = (of_char c :: nat)" using assms(1) by linarith
  then have "tail_byte n = char_of (of_char c :: nat)" unfolding tail_byte_def assms(3) by metis
  then show ?thesis by simp
qed

lemma take_nths:
  "i + 1 < length xs \<Longrightarrow> take 2 (drop i xs) = [xs ! i, xs ! (i + 1)]"
  "i + 2 < length xs \<Longrightarrow> take 3 (drop i xs) = [xs ! i, xs ! (i + 1), xs ! (i + 2)]"
  "i + 3 < length xs \<Longrightarrow> take 4 (drop i xs) = [xs ! i, xs ! (i + 1), xs ! (i + 2), xs ! (i + 3)]"
  by (auto simp: list_eq_iff_nth_eq less_Suc_eq numeral_eq_Suc)

lemma six_bits: "(a * 64 + b mod 64) div 64 = (a :: nat)"
  by simp

lemma sequence_length_pos:
  assumes i: "i < length input" and pos: "sequence_length input i \<noteq> 0"
  shows "\<exists>cp. is_scalar cp \<and> take (sequence_length input i) (drop i input) = encode cp"
proof -
  let ?b = "byte_at input"
  consider "?b i < 0x80" | "0xC0 \<le> ?b i" "?b i < 0xE0" | "0xE0 \<le> ?b i" "?b i < 0xF0" | "0xF0 \<le> ?b i" "?b i < 0xF8"
    using first_byte(5) [of input i] pos by linarith
  then show ?thesis
  proof cases
    case 1
    have "take 1 (drop i input) = [input ! i]" using i by (simp add: take_Suc_conv_app_nth)
    then have "take (sequence_length input i) (drop i input) = encode (?b i)"
      using 1 first_byte(1) [OF 1] by (simp add: encode_def)
    moreover have "is_scalar (?b i)" using 1 by (simp add: is_scalar_def)
    ultimately show ?thesis by blast
  next
    case 2
    note e = first_byte(2) [OF 2]
    obtain cp where cp: "continuation 1 input (i + 1) (?b i - 0xC0) = Some cp" "is_scalar cp" "0x80 \<le> cp"
      "i + 1 < length input" "sequence_length input i = 2"
      by (rule sequence_end_pos [OF pos [unfolded e]]) (auto simp: e min_codepoint_def)
    have b1: "0x80 \<le> ?b (i + 1)" "?b (i + 1) < 0xC0" and v: "cp = (?b i - 0xC0) * 64 + ?b (i + 1) mod 64"
      using continuation_Some [OF cp(1) [unfolded One_nat_def]] by auto
    have "cp div 64 = ?b i - 0xC0" unfolding v by simp
    moreover have "tail_byte cp = input ! (i + 1)" using tail_byte_eq [OF b1] v by simp
    moreover have "cp < 0x800" unfolding v using 2 by simp
    ultimately have "encode cp = [input ! i, input ! (i + 1)]" using 2 cp(3) by (simp add: encode_def)
    then show ?thesis using cp take_nths(1) [OF cp(4)] by (intro exI [of _ cp]) simp
  next
    case 3
    note e = first_byte(3) [OF 3]
    obtain cp where cp: "continuation 2 input (i + 1) (?b i - 0xE0) = Some cp" "is_scalar cp" "0x800 \<le> cp"
      "i + 2 < length input" "sequence_length input i = 3"
      by (rule sequence_end_pos [OF pos [unfolded e]]) (auto simp: e min_codepoint_def)
    note c1 = continuation_Some [OF cp(1) [unfolded numeral_2_eq_2]]
    note c2 = continuation_Some [OF c1 [THEN conjunct2, THEN conjunct2]]
    have b1: "0x80 \<le> ?b (i + 1)" "?b (i + 1) < 0xC0" and b2: "0x80 \<le> ?b (i + 2)" "?b (i + 2) < 0xC0"
      and v: "cp = ((?b i - 0xE0) * 64 + ?b (i + 1) mod 64) * 64 + ?b (i + 2) mod 64"
      using c1 c2 by (simp_all del: continuation.simps(2))
    have d: "cp div 64 = (?b i - 0xE0) * 64 + ?b (i + 1) mod 64" unfolding v by simp
    have "cp div 4096 = cp div 64 div 64" by (simp add: div_mult2_eq [symmetric])
    then have "cp div 4096 = ?b i - 0xE0" unfolding d by simp
    moreover have "tail_byte cp = input ! (i + 2)"
      by (rule tail_byte_eq [OF b2]) (simp only: v mod_mult_self3 mod_mod_trivial)
    moreover have "tail_byte (cp div 64) = input ! (i + 1)"
      by (rule tail_byte_eq [OF b1]) (simp only: d mod_mult_self3 mod_mod_trivial)
    moreover have "cp < 0x10000" unfolding v using 3 by (simp add: algebra_simps)
    ultimately have "encode cp = [input ! i, input ! (i + 1), input ! (i + 2)]" using 3 cp(3) by (simp add: encode_def)
    then show ?thesis using cp take_nths(2) [OF cp(4)] by (intro exI [of _ cp]) simp
  next
    case 4
    note e = first_byte(4) [OF 4]
    obtain cp where cp: "continuation 3 input (i + 1) (?b i - 0xF0) = Some cp" "is_scalar cp" "0x10000 \<le> cp"
      "i + 3 < length input" "sequence_length input i = 4"
      by (rule sequence_end_pos [OF pos [unfolded e]]) (auto simp: e min_codepoint_def numeral_3_eq_3)
    note c1 = continuation_Some [OF cp(1) [unfolded numeral_3_eq_3]]
    note c2 = continuation_Some [OF c1 [THEN conjunct2, THEN conjunct2]]
    note c3 = continuation_Some [OF c2 [THEN conjunct2, THEN conjunct2]]
    have b1: "0x80 \<le> ?b (i + 1)" "?b (i + 1) < 0xC0" and b2: "0x80 \<le> ?b (i + 2)" "?b (i + 2) < 0xC0"
      and b3: "0x80 \<le> ?b (i + 3)" "?b (i + 3) < 0xC0"
      and v: "cp = (((?b i - 0xF0) * 64 + ?b (i + 1) mod 64) * 64 + ?b (i + 2) mod 64) * 64 + ?b (i + 3) mod 64"
      using c1 c2 c3 by (simp_all add: numeral_3_eq_3 del: continuation.simps(2))
    have d: "cp div 64 = ((?b i - 0xF0) * 64 + ?b (i + 1) mod 64) * 64 + ?b (i + 2) mod 64" unfolding v six_bits by (rule refl)
    have "cp div 4096 = cp div 64 div 64" "cp div 262144 = cp div 64 div 64 div 64" by (simp_all add: div_mult2_eq [symmetric])
    then have d2: "cp div 4096 = (?b i - 0xF0) * 64 + ?b (i + 1) mod 64" and "cp div 262144 = ?b i - 0xF0" unfolding d six_bits by blast+
    moreover have "tail_byte cp = input ! (i + 3)"
      by (rule tail_byte_eq [OF b3]) (simp only: v mod_mult_self3 mod_mod_trivial)
    moreover have "tail_byte (cp div 64) = input ! (i + 2)"
      by (rule tail_byte_eq [OF b2]) (simp only: d mod_mult_self3 mod_mod_trivial)
    moreover have "tail_byte (cp div 4096) = input ! (i + 1)"
      by (rule tail_byte_eq [OF b1]) (simp only: d2 mod_mult_self3 mod_mod_trivial)
    ultimately have "encode cp = [input ! i, input ! (i + 1), input ! (i + 2), input ! (i + 3)]"
      using 4 cp(3) by (simp add: encode_def)
    then show ?thesis using cp take_nths(3) [OF cp(4)] by (intro exI [of _ cp]) simp
  qed
qed

section \<open>Valid text\<close>

definition utf8_text :: "nat list \<Rightarrow> string" where
  "utf8_text cps = concat (map encode cps)"

lemma utf8_text_simps [simp]: "utf8_text [] = []" "utf8_text (cp # cps) = encode cp @ utf8_text cps"
  by (simp_all add: utf8_text_def)

lemma split_at: "drop i xs = take n (drop i xs) @ drop (i + n) xs"
  by (metis add.commute append_take_drop_id drop_drop)

lemma valid_from_text:
  "valid_from input i \<longleftrightarrow> (\<exists>cps. list_all is_scalar cps \<and> drop i input = utf8_text cps)"
proof (induction input i rule: valid_from.induct)
  case (1 input i)
  show ?case
  proof (cases "i < length input")
    case False
    then show ?thesis by (auto simp: valid_from.simps [of input i] intro!: exI [of _ "[]"])
  next
    case True
    let ?n = "sequence_length input i"
    show ?thesis
    proof
      assume v: "valid_from input i"
      then have n: "?n \<noteq> 0" and v': "valid_from input (i + ?n)"
        using True by (auto simp: valid_from.simps [of input i] Let_def split: if_splits)
      obtain cp where cp: "is_scalar cp" "take ?n (drop i input) = encode cp"
        using sequence_length_pos [OF True n] by blast
      obtain cps where cps: "list_all is_scalar cps" "drop (i + ?n) input = utf8_text cps"
        using "1.IH" [OF True refl n] v' by blast
      have "drop i input = take ?n (drop i input) @ drop (i + ?n) input" by (rule split_at)
      then have "drop i input = utf8_text (cp # cps)" using cp cps by simp
      then show "\<exists>cps. list_all is_scalar cps \<and> drop i input = utf8_text cps"
        using cp cps by (intro exI [of _ "cp # cps"]) simp
    next
      assume "\<exists>cps. list_all is_scalar cps \<and> drop i input = utf8_text cps"
      then obtain cp cps where cps: "is_scalar cp" "list_all is_scalar cps" "drop i input = encode cp @ utf8_text cps"
        using True by (metis drop_eq_Nil linorder_not_le list.pred_inject(2) list.exhaust utf8_text_simps)
      have n: "?n = length (encode cp)" using sequence_length_encode [OF cps(1,3)] .
      have "drop (i + ?n) input = utf8_text cps" using arg_cong [OF cps(3), of "drop ?n"] n by (simp add: add.commute)
      then have "valid_from input (i + ?n)" using "1.IH" [OF True refl] n cps(2) by auto
      then show "valid_from input i" using True n by (simp add: valid_from.simps [of input i] Let_def)
    qed
  qed
qed

lemma replacement_encode: "replacement = encode 0xFFFD"
  by (simp add: replacement_def encode_def tail_byte_def char_of_def bit_0)

lemma sanitize_from_text: "\<exists>cps. list_all is_scalar cps \<and> sanitize_from input i = utf8_text cps"
proof (induction input i rule: sanitize_from.induct)
  case (1 input i)
  show ?case
  proof (cases "i < length input")
    case True
    let ?n = "sequence_length input i"
    show ?thesis
    proof (cases "?n = 0")
      case zero: True
      obtain cps where "list_all is_scalar cps" "sanitize_from input (i + 1) = utf8_text cps"
        using "1.IH"(1) [OF True refl zero] by blast
      then have "list_all is_scalar (0xFFFD # cps) \<and> sanitize_from input i = utf8_text (0xFFFD # cps)"
        using True zero by (simp add: sanitize_from.simps [of input i] replacement_encode is_scalar_def)
      then show ?thesis by blast
    next
      case pos: False
      obtain cps where "list_all is_scalar cps" "sanitize_from input (i + ?n) = utf8_text cps"
        using "1.IH"(2) [OF True refl pos] by blast
      moreover obtain cp where "is_scalar cp" "take ?n (drop i input) = encode cp"
        using sequence_length_pos [OF True pos] by blast
      ultimately have "list_all is_scalar (cp # cps) \<and> sanitize_from input i = utf8_text (cp # cps)"
        using True pos by (simp add: sanitize_from.simps [of input i] Let_def)
      then show ?thesis by blast
    qed
  qed (simp add: sanitize_from.simps [of input i] exI [of _ "[]"])
qed

lemma sanitize_from_valid: "valid_from input i \<Longrightarrow> sanitize_from input i = drop i input"
proof (induction input i rule: valid_from.induct)
  case (1 input i)
  show ?case
  proof (cases "i < length input")
    case True
    let ?n = "sequence_length input i"
    have n: "?n \<noteq> 0" and v: "valid_from input (i + ?n)"
      using True "1.prems" by (auto simp: valid_from.simps [of input i] Let_def split: if_splits)
    have "sanitize_from input i = take ?n (drop i input) @ drop (i + ?n) input"
      using True n "1.IH" [OF True refl n v] by (simp add: sanitize_from.simps [of input i] Let_def)
    then show ?thesis using split_at [of i input ?n] by simp
  qed (simp add: sanitize_from.simps [of input i])
qed

lemma utf8_exact_text: "is_valid_utf8 s \<longleftrightarrow> (\<exists>cps. list_all is_scalar cps \<and> s = utf8_text cps)"
  using valid_from_text [of s 0] by (simp add: is_valid_utf8_def)

lemma sanitize_valid [simp]: "is_valid_utf8 (sanitize_invalid s)"
  using sanitize_from_text [of s 0] by (simp add: utf8_exact_text sanitize_invalid_def)

lemma sanitize_id [simp]: "is_valid_utf8 s \<Longrightarrow> sanitize_invalid s = s"
  using sanitize_from_valid [of s 0] by (simp add: is_valid_utf8_def sanitize_invalid_def)

text \<open>
  Property C21. The check accepts exactly the sequences of encoded Unicode scalar values:
  overlong forms, surrogates, code points above U+10FFFF, stray and missing continuation
  bytes are refused. The result of cleaning a string is always accepted, and an accepted string
  is left as it is.
\<close>
theorem utf8_exact:
  "(is_valid_utf8 input \<longleftrightarrow> (\<exists>cps. list_all is_scalar cps \<and> input = utf8_text cps))
   \<and> is_valid_utf8 (sanitize_invalid input)
   \<and> (if is_valid_utf8 input then sanitize_invalid input = input else sanitize_invalid input \<noteq> input)"
  using utf8_exact_text [of input] sanitize_valid [of input] sanitize_id [of input] by metis

end
