(* ===== verification/Diod_Json.thy ===== *)
theory Diod_Json
  imports Diod_Utf8 "HOL-Library.Countable"
begin

text \<open>
  JSON values, the accessors of \<open>json_utils.hpp\<close> and the header helpers of \<open>header_utils.hpp\<close>. The
  JSON library itself is not part of the model: a value is a datatype, an object the list of its members
  sorted by name as the library keeps them, a float its 64 bits. Serialiser and parser are parameters of the
  theories that use them; \<open>serialises\<close> says what the library documents of the pair: a well-formed value
  is written to a text that reads back as the same value, and a value with a string that is not UTF-8 is
  not written (\<open>type_error.316\<close>, an exception). The two exceptional outcomes of reading a
  member are values: an exception, and undefined behaviour when \<open>operator[]\<close> of a constant object does not find it.
\<close>

datatype json =
    JNull
  | JBool bool
  | JInt int
  | JFloat nat
  | JString string
  | JArray "json list"
  | JObject "(string \<times> json) list"

instance json :: countable
  by countable_datatype

datatype fault = Thrown | Undefined

definition and_then :: "fault + 'a \<Rightarrow> ('a \<Rightarrow> fault + 'b) \<Rightarrow> fault + 'b" where
  "and_then r f = (case r of Inl e \<Rightarrow> Inl e | Inr x \<Rightarrow> f x)"

lemma and_then_simps [simp]: "and_then (Inr x) f = f x" "and_then (Inl e) f = Inl e"
  by (simp_all add: and_then_def)

section \<open>Members\<close>

fun str_less :: "string \<Rightarrow> string \<Rightarrow> bool" where
  "str_less _ [] = False"
| "str_less [] (_ # _) = True"
| "str_less (x # xs) (y # ys) = (ord x < ord y \<or> x = y \<and> str_less xs ys)"

fun is_object :: "json \<Rightarrow> bool" where
  "is_object (JObject _) = True"
| "is_object _ = False"

text \<open>\<open>find\<close> and \<open>contains\<close>, which find nothing in a value that is no object; \<open>operator[]\<close> of an object that is written to.\<close>

definition json_find :: "json \<Rightarrow> string \<Rightarrow> json option" where
  "json_find j key = (case j of JObject m \<Rightarrow> map_of m key | _ \<Rightarrow> None)"

definition json_contains :: "json \<Rightarrow> string \<Rightarrow> bool" where
  "json_contains j key \<longleftrightarrow> json_find j key \<noteq> None"

fun member_set :: "string \<Rightarrow> json \<Rightarrow> (string \<times> json) list \<Rightarrow> (string \<times> json) list" where
  "member_set key v [] = [(key, v)]"
| "member_set key v ((k, w) # m) =
     (if k = key then (k, v) # m else if str_less key k then (key, v) # (k, w) # m else (k, w) # member_set key v m)"

fun json_set :: "string \<Rightarrow> json \<Rightarrow> json \<Rightarrow> json" where
  "json_set key v (JObject m) = JObject (member_set key v m)"
| "json_set key v j = j"

definition json_object :: "(string \<times> json) list \<Rightarrow> json" where
  "json_object members = fold (\<lambda>(k, v). json_set k v) members (JObject [])"

text \<open>\<open>get<std::string>\<close> of a member of a constant object, and \<open>value\<close> with a default.\<close>

definition get_string :: "json \<Rightarrow> string \<Rightarrow> fault + string" where
  "get_string j key = (case json_find j key of None \<Rightarrow> Inl Undefined | Some (JString s) \<Rightarrow> Inr s | Some _ \<Rightarrow> Inl Thrown)"

definition value_string :: "json \<Rightarrow> string \<Rightarrow> string \<Rightarrow> fault + string" where
  "value_string j key dflt = (case json_find j key of None \<Rightarrow> Inr dflt | Some (JString s) \<Rightarrow> Inr s | Some _ \<Rightarrow> Inl Thrown)"

definition value_bool :: "json \<Rightarrow> string \<Rightarrow> bool \<Rightarrow> fault + bool" where
  "value_bool j key dflt = (case json_find j key of None \<Rightarrow> Inr dflt | Some (JBool b) \<Rightarrow> Inr b | Some _ \<Rightarrow> Inl Thrown)"

definition safe_get_string :: "json \<Rightarrow> string \<Rightarrow> string \<Rightarrow> string" where
  "safe_get_string j key fallback = (case json_find j key of Some (JString s) \<Rightarrow> s | _ \<Rightarrow> fallback)"

definition safe_get_int :: "json \<Rightarrow> string \<Rightarrow> int \<Rightarrow> int" where
  "safe_get_int j key fallback = (case json_find j key of Some (JInt n) \<Rightarrow> to_c_int n | _ \<Rightarrow> fallback)"

definition safe_get_bool :: "json \<Rightarrow> string \<Rightarrow> bool \<Rightarrow> bool" where
  "safe_get_bool j key fallback = (case json_find j key of Some (JBool b) \<Rightarrow> b | _ \<Rightarrow> fallback)"

definition has_key :: "json \<Rightarrow> string \<Rightarrow> bool" where
  "has_key j key \<longleftrightarrow> (case json_find j key of None \<Rightarrow> False | Some v \<Rightarrow> v \<noteq> JNull)"

section \<open>The response envelope\<close>

text \<open>What the worker sends to the proxy, and how the proxy reads it.\<close>

definition build_nats_response_envelope ::
  "int \<Rightarrow> string \<Rightarrow> string \<Rightarrow> int \<Rightarrow> bool \<Rightarrow> string \<Rightarrow> json \<Rightarrow> string \<Rightarrow> json" where
  "build_nats_response_envelope status_code request_id response timestamp_us is_binary content_type headers_json traceparent_header =
     (let envelope = json_object ([(''status_code'', JInt status_code)]
            @ (if headers_json \<noteq> JObject [] then [(''headers'', headers_json)] else []));
          body = json_object ([(''request_id'', JString request_id), (''response'', JString response),
            (''timestamp'', JInt timestamp_us), (''is_binary'', JBool is_binary), (''content_type'', JString content_type)]
            @ (if traceparent_header \<noteq> [] then [(''traceparent'', JString traceparent_header)] else []))
      in json_set ''body'' body envelope)"

definition get_response_body :: "json \<Rightarrow> json" where
  "get_response_body j =
     (case json_find j ''body'' of Some b \<Rightarrow> if is_object b then b else JObject [] | None \<Rightarrow> JObject [])"

definition get_body_response :: "json \<Rightarrow> string" where
  "get_body_response j = safe_get_string (get_response_body j) ''response'' []"

definition get_body_string :: "json \<Rightarrow> string \<Rightarrow> string \<Rightarrow> string" where
  "get_body_string j key fallback = safe_get_string (get_response_body j) key fallback"

definition get_body_bool :: "json \<Rightarrow> string \<Rightarrow> bool \<Rightarrow> bool" where
  "get_body_bool j key fallback = safe_get_bool (get_response_body j) key fallback"

section \<open>Headers\<close>

text \<open>
  HTTP headers are a multimap whose names are compared without case; a lookup yields one of the
  values of a name.
\<close>

type_synonym headers = "(string \<times> string) list"

definition to_lower :: "string \<Rightarrow> string" where
  "to_lower s = map (\<lambda>c. if 65 \<le> ord c \<and> ord c \<le> 90 then char_of (of_char c + 32 :: nat) else c) s"

fun contains_str :: "string \<Rightarrow> string \<Rightarrow> bool" where
  "contains_str sub [] = (sub = [])"
| "contains_str sub (c # s) = (take (length sub) (c # s) = sub \<or> contains_str sub s)"

definition g_default_skip_headers :: "string list" where
  "g_default_skip_headers = [''host'', ''content-length'', ''connection'', ''transfer-encoding'']"

definition should_skip_header :: "string \<Rightarrow> string list \<Rightarrow> bool" where
  "should_skip_header name skip \<longleftrightarrow> to_lower name \<in> set skip"

definition filter_headers :: "headers \<Rightarrow> string list \<Rightarrow> headers" where
  "filter_headers source skip = filter (\<lambda>(name, _). \<not> should_skip_header name skip) source"

definition filter_headers_to_json :: "headers \<Rightarrow> string list \<Rightarrow> json" where
  "filter_headers_to_json source skip =
     json_object (map (\<lambda>(name, v). (name, JString (sanitize_invalid v))) (filter_headers source skip))"

fun string_members :: "(string \<times> json) list \<Rightarrow> headers" where
  "string_members [] = []"
| "string_members ((name, v) # m) = (case v of JString s \<Rightarrow> (name, s) # string_members m | _ \<Rightarrow> string_members m)"

definition filter_headers_from_json :: "json \<Rightarrow> string list \<Rightarrow> headers" where
  "filter_headers_from_json j skip = (case j of JObject m \<Rightarrow> filter_headers (string_members m) skip | _ \<Rightarrow> [])"

definition headers_to_json :: "headers \<Rightarrow> json" where
  "headers_to_json source = json_object (map (\<lambda>(name, v). (name, JString (sanitize_invalid v))) source)"

definition header_find :: "headers \<Rightarrow> string \<Rightarrow> string option" where
  "header_find hs name = map_option snd (List.find (\<lambda>(n, _). to_lower n = to_lower name) hs)"

definition get_header_value :: "headers \<Rightarrow> string \<Rightarrow> string \<Rightarrow> string" where
  "get_header_value hs name dflt = (case header_find hs name of Some v \<Rightarrow> if v \<noteq> [] then v else dflt | None \<Rightarrow> dflt)"

definition is_binary_content_type :: "string \<Rightarrow> bool" where
  "is_binary_content_type content_type \<longleftrightarrow>
     contains_str ''image/'' content_type \<or> contains_str ''application/octet-stream'' content_type
     \<or> contains_str ''audio/'' content_type \<or> contains_str ''video/'' content_type"

section \<open>Well-formed values and the library\<close>

fun json_utf8 :: "json \<Rightarrow> bool" where
  "json_utf8 (JString s) = is_valid_utf8 s"
| "json_utf8 (JArray xs) = list_all json_utf8 xs"
| "json_utf8 (JObject m) = list_all (\<lambda>(k, v). is_valid_utf8 k \<and> json_utf8 v) m"
| "json_utf8 _ = True"

text \<open>Integers in the range of the library, finite floats, sorted members.\<close>

fun json_wf :: "json \<Rightarrow> bool" where
  "json_wf (JInt n) = (- (2 ^ 63) \<le> n \<and> n < 2 ^ 64)"
| "json_wf (JFloat bits) = (bits < 2 ^ 64 \<and> bits div 2 ^ 52 mod 2048 \<noteq> 2047)"
| "json_wf (JArray xs) = list_all json_wf xs"
| "json_wf (JObject m) = (sorted_wrt str_less (map fst m) \<and> list_all (\<lambda>(k, v). json_wf v) m)"
| "json_wf _ = True"

definition serialises :: "(json \<Rightarrow> string option) \<Rightarrow> (string \<Rightarrow> json option) \<Rightarrow> bool" where
  "serialises dump parse \<longleftrightarrow>
     (\<forall>j. json_wf j \<longrightarrow> (if json_utf8 j then \<exists>text. dump j = Some text \<and> text \<noteq> [] \<and> parse text = Some j else dump j = None))"

definition base64_codec :: "(string \<Rightarrow> string) \<Rightarrow> (string \<Rightarrow> string option) \<Rightarrow> bool" where
  "base64_codec to_base64 from_base64 \<longleftrightarrow> (\<forall>s. from_base64 (to_base64 s) = Some s \<and> is_valid_utf8 (to_base64 s))"

section \<open>Lemmas on members\<close>

lemma str_less_irrefl [simp]: "\<not> str_less s s"
  by (induction s) auto

lemma str_less_trans: "str_less a b \<Longrightarrow> str_less b c \<Longrightarrow> str_less a c"
proof (induction a b arbitrary: c rule: str_less.induct)
  case (2 y ys)
  then show ?case by (cases c) auto
next
  case (3 x xs y ys)
  then show ?case by (cases c) auto
qed simp

lemma ord_inj: "ord c = ord d \<longleftrightarrow> c = d"
  by (simp add: ord_def)

lemma str_less_total: "a \<noteq> b \<Longrightarrow> \<not> str_less a b \<Longrightarrow> str_less b a"
proof (induction a b rule: str_less.induct)
  case (1 a)
  then show ?case by (cases a) auto
next
  case (3 x xs y ys)
  then show ?case using ord_inj [of x y] by auto
qed simp

lemma map_of_member_set [simp]: "map_of (member_set k v m) x = (if x = k then Some v else map_of m x)"
  by (induction k v m rule: member_set.induct) auto

lemma set_member_set: "set (member_set k v m) \<subseteq> insert (k, v) (set m)"
  by (induction k v m rule: member_set.induct) auto

lemma sorted_member_set:
  "sorted_wrt str_less (map fst m) \<Longrightarrow> sorted_wrt str_less (map fst (member_set k v m))"
proof (induction k v m rule: member_set.induct)
  case (2 k v k' w m)
  have "str_less k' x" if "x \<in> set (map fst (member_set k v m))" "k' \<noteq> k" "\<not> str_less k k'" for x
    using that "2.prems" str_less_total [of k k'] set_member_set [of k v m] by auto
  moreover have "str_less k x" if "x \<in> fst ` set m" "str_less k k'" for x
    using that "2.prems" str_less_trans [of k k' x] by auto
  ultimately show ?case using 2 by auto
qed simp

lemma json_find_simps [simp]:
  "json_find (JObject m) k = map_of m k"
  "json_find (json_set k v (JObject m)) x = (if x = k then Some v else map_of m x)"
  by (simp_all add: json_find_def)

lemma is_object_set [simp]: "is_object (json_set k v j) = is_object j"
  by (cases j) simp_all

lemma json_find_set: "is_object j \<Longrightarrow> json_find (json_set k v j) x = (if x = k then Some v else json_find j x)"
  by (cases j) (simp_all add: json_find_def)

lemma list_all_member_set: "list_all P m \<Longrightarrow> P (k, v) \<Longrightarrow> list_all P (member_set k v m)"
  using set_member_set [of k v m] unfolding list_all_iff by blast

lemma json_set_wf: "json_wf j \<Longrightarrow> json_wf v \<Longrightarrow> json_wf (json_set k v j)"
  by (cases j) (simp_all add: list_all_member_set sorted_member_set)

lemma json_set_utf8: "json_utf8 j \<Longrightarrow> is_valid_utf8 k \<Longrightarrow> json_utf8 v \<Longrightarrow> json_utf8 (json_set k v j)"
  by (cases j) (simp_all add: list_all_member_set)

lemma fold_json_set:
  assumes "is_object j"
  shows "is_object (fold (\<lambda>(k, v). json_set k v) ms j)"
    and "json_find (fold (\<lambda>(k, v). json_set k v) ms j) x = (case map_of (rev ms) x of None \<Rightarrow> json_find j x | Some v \<Rightarrow> Some v)"
    and "json_wf j \<Longrightarrow> list_all (\<lambda>(k, v). json_wf v) ms \<Longrightarrow> json_wf (fold (\<lambda>(k, v). json_set k v) ms j)"
    and "json_utf8 j \<Longrightarrow> list_all (\<lambda>(k, v). is_valid_utf8 k \<and> json_utf8 v) ms \<Longrightarrow> json_utf8 (fold (\<lambda>(k, v). json_set k v) ms j)"
  using assms
  by (induction ms arbitrary: j)
    (auto simp: json_find_set json_set_wf json_set_utf8 map_add_def split: option.splits)

lemma json_object_find [simp]: "json_find (json_object ms) x = map_of (rev ms) x"
  using fold_json_set(2) [of "JObject []" ms x] by (simp add: json_object_def split: option.split)

lemma json_object_is_object [simp]: "is_object (json_object ms)"
  using fold_json_set(1) [of "JObject []" ms] by (simp add: json_object_def)

lemma json_object_wf: "list_all (\<lambda>(k, v). json_wf v) ms \<Longrightarrow> json_wf (json_object ms)"
  using fold_json_set(3) [of "JObject []" ms] by (simp add: json_object_def)

lemma json_object_utf8: "list_all (\<lambda>(k, v). is_valid_utf8 k \<and> json_utf8 v) ms \<Longrightarrow> json_utf8 (json_object ms)"
  using fold_json_set(4) [of "JObject []" ms] by (simp add: json_object_def)

lemma ascii_valid: "list_all (\<lambda>c. of_char c < (128 :: nat)) s \<Longrightarrow> is_valid_utf8 s"
proof -
  assume a: "list_all (\<lambda>c. of_char c < (128 :: nat)) s"
  have "utf8_text (map of_char s) = s" using a
    by (induction s) (auto simp: encode_def)
  moreover have "list_all is_scalar (map of_char s)" using a
    by (fastforce simp: list_all_iff is_scalar_def)
  ultimately show ?thesis using utf8_exact_text by metis
qed

end
