(* ===== verification/Diod_Sql.thy ===== *)
theory Diod_Sql
  imports Diod_Json
begin

text \<open>
  The contract of the database gateway (\<open>db_query_utils.hpp\<close>), shared by the proxy and the worker: the
  read-only check of a statement, the validation of a request, the request and response bodies and
  the collector of rows. A position in a string is modelled as the rest of the string.
\<close>

section \<open>The read-only check\<close>

abbreviation NEWLINE :: char where "NEWLINE \<equiv> CHR 0x0A"

text \<open>What follows a block comment, and nothing when the comment is not closed.\<close>

fun block_end :: "string \<Rightarrow> string" where
  "block_end (a # b # s) = (if a \<noteq> CHR ''*'' \<or> b \<noteq> CHR ''/'' then block_end (b # s) else s)"
| "block_end _ = []"

lemma block_end_length: "length (block_end s) \<le> length s"
  by (induction s rule: block_end.induct) auto

function strip_sql_comments :: "string \<Rightarrow> string" where
  "strip_sql_comments (a # b # s) =
     (if a = CHR ''-'' \<and> b = CHR ''-'' then strip_sql_comments (dropWhile (\<lambda>c. c \<noteq> NEWLINE) (a # b # s))
      else if a = CHR ''/'' \<and> b = CHR ''*'' then strip_sql_comments (block_end s)
      else a # strip_sql_comments (b # s))"
| "strip_sql_comments [a] = [a]"
| "strip_sql_comments [] = []"
  by pat_completeness auto
termination
proof (relation "measure length")
  fix a b :: char and s
  assume "a = CHR ''-'' \<and> b = CHR ''-''"
  then show "(dropWhile (\<lambda>c. c \<noteq> NEWLINE) (a # b # s), a # b # s) \<in> measure length"
    using length_dropWhile_le [of "\<lambda>c. c \<noteq> NEWLINE" s] by (simp add: le_imp_less_Suc less_SucI)
next
  fix a b :: char and s
  show "(block_end s, a # b # s) \<in> measure length" using block_end_length [of s] by simp
qed auto

definition next_word_lower :: "string \<Rightarrow> string" where
  "next_word_lower s = to_lower (takeWhile (\<lambda>c. \<not> c_isspace c) (dropWhile c_isspace s))"

definition is_read_only_sql :: "string \<Rightarrow> bool" where
  "is_read_only_sql sql =
     (let stripped = strip_sql_comments sql;
          first = next_word_lower (dropWhile (\<lambda>c. c = CHR ''('') stripped)
      in first = ''select'' \<or> first = ''with'')"

section \<open>Requests\<close>

record DbQueryRequest =
  dq_type :: string
  dq_request_id :: string
  dq_db :: string
  dq_sql :: string
  dq_params :: json
  dq_timeout_ms :: int
  dq_max_rows :: int

fun is_scalar_value :: "json \<Rightarrow> bool" where
  "is_scalar_value (JArray _) = False"
| "is_scalar_value (JObject _) = False"
| "is_scalar_value _ = True"

text \<open>The loop over the bind parameters, which stops at the first value that is no scalar.\<close>

fun copy_params :: "(string \<times> json) list \<Rightarrow> json \<Rightarrow> json option" where
  "copy_params [] acc = Some acc"
| "copy_params ((name, v) # m) acc = (if is_scalar_value v then copy_params m (json_set name v acc) else None)"

definition request_params :: "json \<Rightarrow> string + json" where
  "request_params j =
     (case json_find j ''params'' of
        None \<Rightarrow> Inr (JObject [])
      | Some JNull \<Rightarrow> Inr (JObject [])
      | Some (JObject m) \<Rightarrow>
          (case copy_params m (JObject []) of
             Some p \<Rightarrow> Inr p
           | None \<Rightarrow> Inl ''params must contain only scalar values (null/bool/number/string)'')
      | Some _ \<Rightarrow> Inl ''params must be an object'')"

definition parse_db_query_request :: "json \<Rightarrow> string + DbQueryRequest" where
  "parse_db_query_request j =
     (let type = safe_get_string j ''type'' []; sql = safe_get_string j ''sql'' [];
          timeout_ms = safe_get_int j ''timeout_ms'' (-1); max_rows = safe_get_int j ''max_rows'' (-1)
      in if \<not> is_object j then Inl ''request must be a JSON object''
         else if type \<noteq> ''query'' \<and> type \<noteq> ''ping'' then Inl ''type must be \"query\" or \"ping\"''
         else if type = ''query'' \<and> sql = [] then Inl ''sql must be a non-empty string''
         else if type = ''query'' \<and> \<not> is_read_only_sql sql
         then Inl ''only read-only queries are allowed (must start with SELECT or WITH)''
         else case request_params j of
                Inl e \<Rightarrow> Inl e
              | Inr params \<Rightarrow>
                  if timeout_ms < -1 \<or> timeout_ms = 0 then Inl ''timeout_ms must be a positive number''
                  else if max_rows < -1 \<or> max_rows = 0 then Inl ''max_rows must be a positive number''
                  else Inr \<lparr>dq_type = type, dq_request_id = safe_get_string j ''request_id'' [],
                            dq_db = safe_get_string j ''db'' [], dq_sql = sql, dq_params = params,
                            dq_timeout_ms = timeout_ms, dq_max_rows = max_rows\<rparr>)"

definition resolve_positive_or :: "int \<Rightarrow> int \<Rightarrow> int" where
  "resolve_positive_or v fallback = (if v > 0 then v else fallback)"

definition build_db_query_request :: "string \<Rightarrow> string \<Rightarrow> string \<Rightarrow> json \<Rightarrow> json" where
  "build_db_query_request type request_id db payload =
     (let request = json_object [(''type'', JString type), (''request_id'', JString request_id), (''db'', JString db)];
          request1 = (if type = ''query'' then json_set ''sql'' (JString (safe_get_string payload ''sql'' [])) request else request)
      in fold (\<lambda>key r. case json_find payload key of Some v \<Rightarrow> json_set key v r | None \<Rightarrow> r)
           [''params'', ''timeout_ms'', ''max_rows''] request1)"

section \<open>Response bodies\<close>

definition make_db_error_body :: "string \<Rightarrow> string \<Rightarrow> json" where
  "make_db_error_body code message =
     json_object [(''status'', JString ''error''),
       (''error'', json_object [(''code'', JString code), (''message'', JString message)])]"

text \<open>The functions that also set the status code return it with the body.\<close>

definition make_db_unavailable :: "string \<Rightarrow> int \<times> json" where
  "make_db_unavailable detail =
     (503, make_db_error_body ''DB_UNAVAILABLE''
        (if detail = [] then ''Failed to acquire a database connection''
         else ''Failed to acquire a database connection: '' @ detail))"

definition make_db_sql_error :: "string \<Rightarrow> int \<times> json" where
  "make_db_sql_error message = (422, make_db_error_body ''SQL_ERROR'' message)"

definition make_db_query_response :: "string \<Rightarrow> json \<Rightarrow> json \<Rightarrow> nat \<Rightarrow> bool \<Rightarrow> int \<Rightarrow> json" where
  "make_db_query_response db columns rows row_count truncated duration_ms =
     json_object [(''status'', JString ''ok''), (''db'', JString db), (''columns'', columns), (''rows'', rows),
       (''row_count'', JInt (int row_count)), (''truncated'', JBool truncated), (''duration_ms'', JInt duration_ms)]"

definition make_db_ping_response :: "string \<Rightarrow> int \<Rightarrow> json" where
  "make_db_ping_response db latency_ms =
     json_object [(''status'', JString ''ok''), (''db'', JString db), (''latency_ms'', JInt latency_ms)]"

definition make_db_response_envelope :: "int \<Rightarrow> json \<Rightarrow> json" where
  "make_db_response_envelope status body = json_object [(''status'', JInt status), (''body'', body)]"

definition make_db_columns_json :: "(string \<times> string) list \<Rightarrow> json" where
  "make_db_columns_json name_type =
     JArray (map (\<lambda>(name, type). json_object [(''name'', JString name), (''type'', JString type)]) name_type)"

definition db_error_class :: "string \<Rightarrow> string" where
  "db_error_class sqlstate = (if length sqlstate < 2 then ''unknown'' else take 2 sqlstate)"

record DbRowCollector =
  rc_max_rows :: nat
  rc_rows :: "json list"
  rc_truncated :: bool

definition new_DbRowCollector :: "nat \<Rightarrow> DbRowCollector" where
  "new_DbRowCollector max_rows = \<lparr>rc_max_rows = max_rows, rc_rows = [], rc_truncated = False\<rparr>"

definition try_add :: "json \<Rightarrow> DbRowCollector \<Rightarrow> bool \<times> DbRowCollector" where
  "try_add row c =
     (if length (rc_rows c) \<ge> rc_max_rows c then (False, c\<lparr>rc_truncated := True\<rparr>)
      else (True, c\<lparr>rc_rows := rc_rows c @ [row]\<rparr>))"

text \<open>The loop of the executors over the rows of a result.\<close>

fun collect :: "json list \<Rightarrow> DbRowCollector \<Rightarrow> DbRowCollector" where
  "collect [] c = c"
| "collect (row # rows) c = (case try_add row c of (True, d) \<Rightarrow> collect rows d | (False, d) \<Rightarrow> d)"

section \<open>The first keyword\<close>

text \<open>What may stand before the first keyword of a statement.\<close>

datatype trivia = Blank char | LineComment string | BlockComment string

primrec render_trivia :: "trivia \<Rightarrow> string" where
  "render_trivia (Blank c) = [c]"
| "render_trivia (LineComment msg) = ''--'' @ msg @ [NEWLINE]"
| "render_trivia (BlockComment msg) = ''/*'' @ msg @ ''*/''"

primrec trivia_ok :: "trivia \<Rightarrow> bool" where
  "trivia_ok (Blank c) = c_isspace c"
| "trivia_ok (LineComment msg) = (NEWLINE \<notin> set msg)"
| "trivia_ok (BlockComment msg) = (\<not> contains_str ''*/'' msg)"

lemma block_end_close: "\<not> contains_str ''*/'' msg \<Longrightarrow> block_end (msg @ CHR ''*'' # CHR ''/'' # s) = s"
proof (induction msg)
  case (Cons a msg)
  then show ?case by (cases msg) (auto split: if_splits)
qed simp

lemma strip_plain: "a \<noteq> CHR ''-'' \<Longrightarrow> a \<noteq> CHR ''/'' \<Longrightarrow> strip_sql_comments (a # s) = a # strip_sql_comments s"
  by (cases s) simp_all

lemma isspace_plain: "c_isspace c \<Longrightarrow> c \<noteq> CHR ''-'' \<and> c \<noteq> CHR ''/'' \<and> c \<noteq> CHR ''(''"
  by (auto simp: c_isspace_def)

lemma newline_space [simp]: "c_isspace NEWLINE"
  by (simp add: c_isspace_def)

lemma strip_trivium:
  assumes "trivia_ok t"
  shows "\<exists>blanks. list_all c_isspace blanks \<and> strip_sql_comments (render_trivia t @ s) = blanks @ strip_sql_comments s"
proof (cases t)
  case (Blank c)
  then show ?thesis using assms strip_plain [of c s] isspace_plain [of c] by (intro exI [of _ "[c]"]) simp
next
  case (LineComment msg)
  then have "dropWhile (\<lambda>c. c \<noteq> NEWLINE) (msg @ NEWLINE # s) = NEWLINE # s" using assms
    by (subst dropWhile_append2) auto
  then show ?thesis using LineComment strip_plain [of NEWLINE s] by (intro exI [of _ "[NEWLINE]"]) simp
next
  case (BlockComment msg)
  then show ?thesis using assms block_end_close [of msg s] by (intro exI [of _ "[]"]) simp
qed

lemma strip_trivia:
  "list_all trivia_ok ts \<Longrightarrow>
   \<exists>blanks. list_all c_isspace blanks \<and> strip_sql_comments (concat (map render_trivia ts) @ s) = blanks @ strip_sql_comments s"
proof (induction ts)
  case (Cons t ts)
  then obtain b1 where b1: "list_all c_isspace b1"
      "strip_sql_comments (concat (map render_trivia ts) @ s) = b1 @ strip_sql_comments s" by auto
  obtain b0 where "list_all c_isspace b0"
      "strip_sql_comments (render_trivia t @ concat (map render_trivia ts) @ s) = b0 @ b1 @ strip_sql_comments s"
    using strip_trivium [of t "concat (map render_trivia ts) @ s"] Cons.prems b1(2) by auto
  then show ?case using b1(1) by (intro exI [of _ "b0 @ b1"]) simp
qed (simp add: exI [of _ "[]"])

lemma strip_word:
  assumes "\<not> contains_str ''--'' w" "\<not> contains_str ''/*'' w" "rest = [] \<or> c_isspace (hd rest)"
  shows "strip_sql_comments (w @ rest) = w @ strip_sql_comments rest"
  using assms(1,2)
proof (induction w)
  case (Cons a w)
  show ?case
  proof (cases w)
    case Nil
    then show ?thesis using assms(3) by (cases rest) (auto simp: c_isspace_def)
  next
    case w: (Cons b v)
    then show ?thesis using Cons by auto
  qed
qed simp

lemma strip_starts: "s = [] \<or> c_isspace (hd s) \<Longrightarrow> strip_sql_comments s = [] \<or> c_isspace (hd (strip_sql_comments s))"
  using strip_plain [of "hd s" "tl s"] isspace_plain [of "hd s"] by (cases s) auto

lemma strip_parens: "strip_sql_comments (replicate k (CHR ''('') @ s) = replicate k (CHR ''('') @ strip_sql_comments s"
  by (induction k) (simp_all add: strip_plain)

lemma next_word:
  assumes "list_all c_isspace blanks" "w \<noteq> []" "list_all (\<lambda>c. \<not> c_isspace c) w" "rest = [] \<or> c_isspace (hd rest)"
  shows "next_word_lower (blanks @ w @ rest) = to_lower w"
proof -
  have "dropWhile c_isspace (blanks @ w @ rest) = w @ rest"
    using assms(1-3) by (cases w) (simp_all add: dropWhile_append2 list_all_iff)
  moreover have "takeWhile (\<lambda>c. \<not> c_isspace c) (w @ rest) = w"
    using assms(3,4) by (cases rest) (simp_all add: takeWhile_append2 list_all_iff)
  ultimately show ?thesis by (simp add: next_word_lower_def)
qed

text \<open>
  Property C8. No comment can hide the first keyword: after any opening parentheses, blanks, line
  comments and block comments, the check decides by the first word alone, whatever
  follows it, and accepts exactly SELECT and WITH in any case.
\<close>
theorem sql_guard:
  assumes "list_all trivia_ok ts" "w \<noteq> []" "list_all (\<lambda>c. \<not> c_isspace c) w" "hd w \<noteq> CHR ''(''"
    and "\<not> contains_str ''--'' w" "\<not> contains_str ''/*'' w" "rest = [] \<or> c_isspace (hd rest)"
  shows "is_read_only_sql (replicate k (CHR ''('') @ concat (map render_trivia ts) @ w @ rest)
     \<longleftrightarrow> to_lower w = ''select'' \<or> to_lower w = ''with''"
proof -
  obtain blanks where b: "list_all c_isspace blanks"
      "strip_sql_comments (concat (map render_trivia ts) @ w @ rest) = blanks @ w @ strip_sql_comments rest"
    using strip_trivia [OF assms(1), of "w @ rest"] strip_word [OF assms(5-7)] by auto
  have "dropWhile (\<lambda>c. c = CHR ''('') (blanks @ w @ strip_sql_comments rest) = blanks @ w @ strip_sql_comments rest"
    using b(1) assms(2,4) isspace_plain by (cases blanks; cases w) auto
  then have "dropWhile (\<lambda>c. c = CHR ''('') (replicate k (CHR ''('') @ blanks @ w @ strip_sql_comments rest) = blanks @ w @ strip_sql_comments rest"
    by (subst dropWhile_append2) auto
  moreover have "next_word_lower (blanks @ w @ strip_sql_comments rest) = to_lower w"
    using next_word [OF b(1) assms(2,3)] strip_starts [OF assms(7)] by blast
  ultimately show ?thesis by (simp add: is_read_only_sql_def Let_def strip_parens b(2))
qed

theorem sql_guard_witness:
  "\<not> is_read_only_sql (replicate 1 (CHR ''('') @ concat (map render_trivia [BlockComment ''select'', Blank CHR '' '', LineComment ''with'']) @ ''DELETE'' @ '' from t'')
   \<and> is_read_only_sql (replicate 0 (CHR ''('') @ concat (map render_trivia [BlockComment ''delete'']) @ ''Select'' @ '' 1'')"
proof -
  have "to_lower ''DELETE'' = ''delete''" "to_lower ''Select'' = ''select''" by code_simp+
  then show ?thesis
    using sql_guard [of "[BlockComment ''select'', Blank CHR '' '', LineComment ''with'']" "''DELETE''" "'' from t''" 1]
      sql_guard [of "[BlockComment ''delete'']" "''Select''" "'' 1''" 0]
    by (simp add: c_isspace_def)
qed

text \<open>
  Block comments of PostgreSQL nest, as in the SQL standard. The end of such a comment, from inside
  a number of open ones.
\<close>

fun nested_end :: "nat \<Rightarrow> string \<Rightarrow> string" where
  "nested_end 0 s = s"
| "nested_end (Suc d) (a # b # s) =
     (if a = CHR ''/'' \<and> b = CHR ''*'' then nested_end (d + 2) s
      else if a = CHR ''*'' \<and> b = CHR ''/'' then nested_end d s
      else nested_end (Suc d) (b # s))"
| "nested_end (Suc d) _ = []"

text \<open>
  With nested comments a statement that changes data passes the check: what a server with
  nested comments reads as a comment ends later than the check assumes, and the word
  that the check takes for the first keyword is still inside it.
\<close>
theorem sql_nested_comment:
  "is_read_only_sql (''/*'' @ '' /* */ select */ delete from t returning 1'')
   \<and> nested_end 1 '' /* */ select */ delete from t returning 1'' = '' delete from t returning 1''
   \<and> \<not> is_read_only_sql '' delete from t returning 1''"
  by (simp add: is_read_only_sql_def Let_def next_word_lower_def c_isspace_def to_lower_def ord_def numeral_2_eq_2)

end
