(* ===== verification/Nats_Status.thy ===== *)
theory Nats_Status
  imports Prelude
begin

text \<open>
  The result codes of the NATS client (\<open>status.h\<close>) and their texts (\<open>status.c\<close>). The enum value of
  a code is its position in the list, and \<open>natsStatus_GetText\<close> indexes the array of texts with it;
  \<open>NATS_MAX_STATUS_VALUE\<close> is the number of codes.
\<close>

datatype natsStatus =
    NATS_OK
  | NATS_ERR
  | NATS_PROTOCOL_ERROR
  | NATS_IO_ERROR
  | NATS_LINE_TOO_LONG
  | NATS_CONNECTION_CLOSED
  | NATS_NO_SERVER
  | NATS_STALE_CONNECTION
  | NATS_SECURE_CONNECTION_WANTED
  | NATS_SECURE_CONNECTION_REQUIRED
  | NATS_CONNECTION_DISCONNECTED
  | NATS_CONNECTION_AUTH_FAILED
  | NATS_NOT_PERMITTED
  | NATS_NOT_FOUND
  | NATS_ADDRESS_MISSING
  | NATS_INVALID_SUBJECT
  | NATS_INVALID_ARG
  | NATS_INVALID_SUBSCRIPTION
  | NATS_INVALID_TIMEOUT
  | NATS_ILLEGAL_STATE
  | NATS_SLOW_CONSUMER
  | NATS_MAX_PAYLOAD
  | NATS_MAX_DELIVERED_MSGS
  | NATS_INSUFFICIENT_BUFFER
  | NATS_NO_MEMORY
  | NATS_SYS_ERROR
  | NATS_TIMEOUT
  | NATS_FAILED_TO_INITIALIZE
  | NATS_NOT_INITIALIZED
  | NATS_SSL_ERROR
  | NATS_NO_SERVER_SUPPORT
  | NATS_NOT_YET_CONNECTED
  | NATS_DRAINING
  | NATS_INVALID_QUEUE_NAME
  | NATS_NO_RESPONDERS
  | NATS_MISMATCH
  | NATS_MISSED_HEARTBEAT
  | NATS_LIMIT_REACHED
  | NATS_PIN_ID_MISMATCH
  | NATS_INVALID_CONFIG

definition natsStatus_all :: "natsStatus list" where
  "natsStatus_all = [NATS_OK, NATS_ERR, NATS_PROTOCOL_ERROR,
     NATS_IO_ERROR, NATS_LINE_TOO_LONG, NATS_CONNECTION_CLOSED,
     NATS_NO_SERVER, NATS_STALE_CONNECTION, NATS_SECURE_CONNECTION_WANTED,
     NATS_SECURE_CONNECTION_REQUIRED, NATS_CONNECTION_DISCONNECTED, NATS_CONNECTION_AUTH_FAILED,
     NATS_NOT_PERMITTED, NATS_NOT_FOUND, NATS_ADDRESS_MISSING,
     NATS_INVALID_SUBJECT, NATS_INVALID_ARG, NATS_INVALID_SUBSCRIPTION,
     NATS_INVALID_TIMEOUT, NATS_ILLEGAL_STATE, NATS_SLOW_CONSUMER,
     NATS_MAX_PAYLOAD, NATS_MAX_DELIVERED_MSGS, NATS_INSUFFICIENT_BUFFER,
     NATS_NO_MEMORY, NATS_SYS_ERROR, NATS_TIMEOUT,
     NATS_FAILED_TO_INITIALIZE, NATS_NOT_INITIALIZED, NATS_SSL_ERROR,
     NATS_NO_SERVER_SUPPORT, NATS_NOT_YET_CONNECTED, NATS_DRAINING,
     NATS_INVALID_QUEUE_NAME, NATS_NO_RESPONDERS, NATS_MISMATCH,
     NATS_MISSED_HEARTBEAT, NATS_LIMIT_REACHED, NATS_PIN_ID_MISMATCH,
     NATS_INVALID_CONFIG]"

fun natsStatus_value :: "natsStatus \<Rightarrow> nat" where
  "natsStatus_value NATS_OK = 0"
| "natsStatus_value NATS_ERR = 1"
| "natsStatus_value NATS_PROTOCOL_ERROR = 2"
| "natsStatus_value NATS_IO_ERROR = 3"
| "natsStatus_value NATS_LINE_TOO_LONG = 4"
| "natsStatus_value NATS_CONNECTION_CLOSED = 5"
| "natsStatus_value NATS_NO_SERVER = 6"
| "natsStatus_value NATS_STALE_CONNECTION = 7"
| "natsStatus_value NATS_SECURE_CONNECTION_WANTED = 8"
| "natsStatus_value NATS_SECURE_CONNECTION_REQUIRED = 9"
| "natsStatus_value NATS_CONNECTION_DISCONNECTED = 10"
| "natsStatus_value NATS_CONNECTION_AUTH_FAILED = 11"
| "natsStatus_value NATS_NOT_PERMITTED = 12"
| "natsStatus_value NATS_NOT_FOUND = 13"
| "natsStatus_value NATS_ADDRESS_MISSING = 14"
| "natsStatus_value NATS_INVALID_SUBJECT = 15"
| "natsStatus_value NATS_INVALID_ARG = 16"
| "natsStatus_value NATS_INVALID_SUBSCRIPTION = 17"
| "natsStatus_value NATS_INVALID_TIMEOUT = 18"
| "natsStatus_value NATS_ILLEGAL_STATE = 19"
| "natsStatus_value NATS_SLOW_CONSUMER = 20"
| "natsStatus_value NATS_MAX_PAYLOAD = 21"
| "natsStatus_value NATS_MAX_DELIVERED_MSGS = 22"
| "natsStatus_value NATS_INSUFFICIENT_BUFFER = 23"
| "natsStatus_value NATS_NO_MEMORY = 24"
| "natsStatus_value NATS_SYS_ERROR = 25"
| "natsStatus_value NATS_TIMEOUT = 26"
| "natsStatus_value NATS_FAILED_TO_INITIALIZE = 27"
| "natsStatus_value NATS_NOT_INITIALIZED = 28"
| "natsStatus_value NATS_SSL_ERROR = 29"
| "natsStatus_value NATS_NO_SERVER_SUPPORT = 30"
| "natsStatus_value NATS_NOT_YET_CONNECTED = 31"
| "natsStatus_value NATS_DRAINING = 32"
| "natsStatus_value NATS_INVALID_QUEUE_NAME = 33"
| "natsStatus_value NATS_NO_RESPONDERS = 34"
| "natsStatus_value NATS_MISMATCH = 35"
| "natsStatus_value NATS_MISSED_HEARTBEAT = 36"
| "natsStatus_value NATS_LIMIT_REACHED = 37"
| "natsStatus_value NATS_PIN_ID_MISMATCH = 38"
| "natsStatus_value NATS_INVALID_CONFIG = 39"

definition statusText :: "string list" where
  "statusText = [
     ''OK'',
     ''Error'',
     ''Protocol Error'',
     ''IO Error'',
     ''Line too long'',
     ''Connection Closed'',
     ''No server available for connection'',
     ''Stale Connection'',
     ''Secure Connection not available'',
     ''Secure Connection Required'',
     ''Connection Disconnected'',
     ''Authentication Violation'',
     ''Not Permitted'',
     ''Not Found'',
     ''TCP Address missing'',
     ''Invalid Subject'',
     ''Invalid Argument'',
     ''Invalid Subscription'',
     ''Invalid Timeout'',
     ''Illegal State'',
     ''Slow Consumer, messages dropped'',
     ''Maximum Payload Exceeded'',
     ''Maximum Messages Delivered'',
     ''Insufficient Buffer'',
     ''No Memory'',
     ''System Error'',
     ''Timeout'',
     ''Initialization Failed'',
     ''Not Initialized'',
     ''SSL Error'',
     ''Not Supported By Server'',
     ''Not Yet Connected'',
     ''Draining in progress'',
     ''Invalid queue name'',
     ''No responders available for request'',
     ''Mismatch'',
     ''Missed Server Heartbeat'',
     ''Limit reached'',
     ''Jetstream Consumer PinID Mismatch'',
     ''Invalid Configuration'']"

definition NATS_MAX_STATUS_VALUE :: nat where
  "NATS_MAX_STATUS_VALUE = 40"

definition natsStatus_GetText :: "natsStatus \<Rightarrow> string option" where
  "natsStatus_GetText s =
     (if natsStatus_value s < length statusText then Some (statusText ! natsStatus_value s) else None)"

text \<open>The compile-time assertion of \<open>status.c\<close>: as many texts as codes.\<close>

lemma statusText_length: "length statusText = NATS_MAX_STATUS_VALUE"
  by (simp add: statusText_def NATS_MAX_STATUS_VALUE_def)

lemma natsStatus_value_bound: "natsStatus_value s < NATS_MAX_STATUS_VALUE"
  by (cases s) (simp_all add: NATS_MAX_STATUS_VALUE_def)

lemma natsStatus_all_complete: "natsStatus_all ! natsStatus_value s = s"
  by (cases s) (simp_all add: natsStatus_all_def)

lemma natsStatus_value_inj: "natsStatus_value s = natsStatus_value t \<Longrightarrow> s = t"
  by (metis natsStatus_all_complete)

end
