(* ===== verification/Nats_Parse_Int.thy ===== *)
theory Nats_Parse_Int
  imports Nats_Status
begin

text \<open>
  Decimal numbers of the protocol: \<open>nats_ParseInt64\<close> of \<open>util.c\<close>, and the decimal printing of
  \<open>snprintf\<close> with \<open>%d\<close> that the other end uses to write them.
\<close>

text \<open>
  The argument is the array of \<open>dLen\<close> bytes. The accumulation is on 64 bits with wrap-around,
  which is what the overflow test of the source looks for.
\<close>

fun parse_digits :: "bytes \<Rightarrow> int \<Rightarrow> int" where
  "parse_digits [] pn = pn"
| "parse_digits (dec # ds) pn =
     (if ord dec < 48 \<or> ord dec > 57 then -1
      else (let n = to_int64 (pn * 10 + (ord dec - 48))
            in if n < pn then -1 else parse_digits ds n))"

definition nats_ParseInt64 :: "bytes \<Rightarrow> int" where
  "nats_ParseInt64 d = (if length d = 0 then -1 else parse_digits d 0)"

section \<open>Decimal representation\<close>

fun dec_value :: "bytes \<Rightarrow> int \<Rightarrow> int" where
  "dec_value [] acc = acc"
| "dec_value (c # cs) acc = dec_value cs (acc * 10 + (ord c - 48))"

definition all_digits :: "bytes \<Rightarrow> bool" where
  "all_digits s \<longleftrightarrow> (\<forall>c \<in> set s. c_isdigit c)"

definition digit_char :: "nat \<Rightarrow> byte" where
  "digit_char n = char_of (48 + n)"

fun dec_str :: "nat \<Rightarrow> bytes" where
  "dec_str n = (if n < 10 then [digit_char n] else dec_str (n div 10) @ [digit_char (n mod 10)])"

declare dec_str.simps [simp del]

lemma ord_digit_char: "n < 10 \<Longrightarrow> ord (digit_char n) = 48 + int n"
proof -
  assume "n < 10"
  then have "of_char (char_of (48 + n)) = 48 + n" by (simp add: of_char_of)
  then show ?thesis unfolding ord_def digit_char_def
    by (metis of_nat_add of_nat_numeral of_nat_of_char)
qed

lemma dec_value_append: "dec_value (xs @ ys) a = dec_value ys (dec_value xs a)"
  by (induction xs arbitrary: a) auto

lemma dec_value_ge: "all_digits s \<Longrightarrow> 0 \<le> a \<Longrightarrow> a \<le> dec_value s a"
proof (induction s arbitrary: a)
  case Nil
  then show ?case by simp
next
  case (Cons c s)
  then have "0 \<le> ord c - 48" by (simp add: all_digits_def c_isdigit_def)
  moreover have "all_digits s" using Cons.prems by (simp add: all_digits_def)
  ultimately show ?case using Cons.IH [of "a * 10 + (ord c - 48)"] Cons.prems(2) by simp
qed

lemma parse_digits_ok:
  assumes "all_digits s" "0 \<le> a" "dec_value s a < 2 ^ 63"
  shows "parse_digits s a = dec_value s a"
  using assms
proof (induction s arbitrary: a)
  case Nil
  then show ?case by simp
next
  case (Cons c s)
  let ?n = "a * 10 + (ord c - 48)"
  have c: "48 \<le> ord c" "ord c \<le> 57" using Cons.prems by (auto simp: all_digits_def c_isdigit_def)
  have s: "all_digits s" using Cons.prems by (simp add: all_digits_def)
  have "?n \<le> dec_value s ?n" using dec_value_ge [OF s, of ?n] c Cons.prems by simp
  with Cons.prems c have n: "0 \<le> ?n" "?n < 2 ^ 63" "a \<le> ?n" by auto
  then have "to_int64 ?n = ?n" by (intro to_int64_id) auto
  with n c s Cons.IH [of ?n] Cons.prems show ?case by (simp add: Let_def)
qed

lemma parse_digits_bad:
  assumes "\<not> all_digits s"
  shows "parse_digits s a = -1"
  using assms
  by (induction s arbitrary: a) (auto simp: all_digits_def c_isdigit_def Let_def)

lemma parse_digits_range: "0 \<le> a \<Longrightarrow> a < 2 ^ 63 \<Longrightarrow> -1 \<le> parse_digits s a \<and> parse_digits s a < 2 ^ 63"
proof (induction s arbitrary: a)
  case Nil
  then show ?case by simp
next
  case (Cons c s)
  let ?n = "to_int64 (a * 10 + (ord c - 48))"
  have "?n < 2 ^ 63"
    using sint_range_size [of "word_of_int (a * 10 + (ord c - 48)) :: 64 word"]
    by (simp add: to_int64_def word_size)
  with Cons.IH [of ?n] Cons.prems show ?case by (auto simp: Let_def)
qed

lemma dec_str_digits: "all_digits (dec_str n)" "dec_str n \<noteq> []"
proof -
  show "all_digits (dec_str n)"
  proof (induction n rule: dec_str.induct)
    case (1 n)
    show ?case
      using 1 by (subst dec_str.simps) (auto simp: all_digits_def c_isdigit_def ord_digit_char)
  qed
  show "dec_str n \<noteq> []" by (subst dec_str.simps) simp
qed

lemma dec_value_dec_str: "dec_value (dec_str n) 0 = int n"
proof (induction n rule: dec_str.induct)
  case (1 n)
  show ?case
  proof (cases "n < 10")
    case True
    then show ?thesis by (subst dec_str.simps) (simp add: ord_digit_char)
  next
    case False
    have "int (n div 10) * 10 + int (n mod 10) = int n" by presburger
    with 1 False show ?thesis by (subst dec_str.simps) (simp add: dec_value_append ord_digit_char)
  qed
qed

lemma dec_str_not_space: "c \<in> set (dec_str n) \<Longrightarrow> c_isdigit c"
  using dec_str_digits(1) by (auto simp: all_digits_def)

lemma ParseInt64_dec_str: "int n < 2 ^ 63 \<Longrightarrow> nats_ParseInt64 (dec_str n) = int n"
  using parse_digits_ok [of "dec_str n" 0] dec_str_digits [of n] dec_value_dec_str [of n]
  by (simp add: nats_ParseInt64_def)

section \<open>Properties\<close>

text \<open>
  Property C38. \<open>nats_ParseInt64\<close> is exact on every number that fits: for a non-empty array of
  digits whose value is below \<open>2^63\<close> it returns the value, and it returns -1 for an empty array
  or when any byte is not a digit. In particular it reads back what is printed with \<open>%d\<close>.
\<close>

theorem ParseInt64_correct:
  "(all_digits d \<and> d \<noteq> [] \<and> dec_value d 0 < 2 ^ 63 \<longrightarrow> nats_ParseInt64 d = dec_value d 0)
   \<and> (d = [] \<or> \<not> all_digits d \<longrightarrow> nats_ParseInt64 d = -1)
   \<and> (int n < 2 ^ 63 \<longrightarrow> nats_ParseInt64 (dec_str n) = int n)"
  using parse_digits_ok [of d 0] parse_digits_bad [of d 0] ParseInt64_dec_str [of n]
  by (auto simp: nats_ParseInt64_def)

theorem ParseInt64_correct_witness:
  "nats_ParseInt64 ''4096'' = 4096 \<and> nats_ParseInt64 ''12a'' = -1 \<and> nats_ParseInt64 (dec_str 907) = 907"
  using ParseInt64_correct [of "''4096''" 907] ParseInt64_correct [of "''12a''" 907]
  by (simp add: all_digits_def c_isdigit_def ord_def)

text \<open>
  The overflow test of \<open>nats_ParseInt64\<close> is incomplete: it compares the wrapped value
  with the previous one, and a product by ten can wrap to a larger number. The twenty digits of
  \<open>25000000000000000000\<close>, which is above \<open>2^64\<close>, are accepted with another value.
\<close>

theorem ParseInt64_overflow_undetected:
  "dec_value ''25000000000000000000'' 0 = 25000000000000000000
   \<and> nats_ParseInt64 ''25000000000000000000'' = 6553255926290448384"
  by (simp add: nats_ParseInt64_def to_int64_def ord_def sint_sbintrunc')

end
