(* ===== verification/Diod_Routing.thy ===== *)
theory Diod_Routing
  imports Nats_Parse_Int "HOL-Library.Sublist"
begin

text \<open>
  The routing of requests: the parser of URLs and the headers a client address is taken from
  (\<open>url_utils.hpp\<close>), the policy that decides which level 2 server a path may reach
  (\<open>l2_routing.hpp\<close>), and the paths of the database gateway (\<open>db_gateway_routing.hpp\<close>). An exception is
  \<open>None\<close>. The header map and the addresses of a connection belong to the HTTP library: the lookup of a
  header (by its name in any case) is a parameter.
\<close>

abbreviation SLASH :: char where "SLASH \<equiv> CHR ''/''"
abbreviation COLON :: char where "COLON \<equiv> CHR '':''"

section \<open>Strings\<close>

text \<open>\<open>find\<close> of a character from a position on, as an index into the whole string.\<close>

definition find_from :: "char \<Rightarrow> nat \<Rightarrow> string \<Rightarrow> nat option" where
  "find_from c start s = (if start > length s then None else map_option (\<lambda>i. start + i) (c_strchr (drop start s) c))"

text \<open>\<open>std::stoi\<close>: blanks, a sign, digits; anything may follow. It throws without a digit and out of range.\<close>

definition stoi :: "string \<Rightarrow> int option" where
  "stoi s =
     (let t = dropWhile c_isspace s;
          neg = (t \<noteq> [] \<and> hd t = CHR ''-'');
          u = (if t \<noteq> [] \<and> (hd t = CHR ''-'' \<or> hd t = CHR ''+'') then tl t else t);
          ds = takeWhile c_isdigit u;
          v = (if neg then - dec_value ds 0 else dec_value ds 0)
      in if ds = [] then None else if c_int_ok v then Some v else None)"

definition format_int :: "int \<Rightarrow> string" where
  "format_int n = (if n < 0 then CHR ''-'' # dec_str (nat (- n)) else dec_str (nat n))"

section \<open>URLs\<close>

record ParsedUrl =
  m_host :: string
  m_path :: string
  m_port :: int
  m_is_https :: bool

abbreviation kHttpPort :: int where "kHttpPort \<equiv> 80"
abbreviation kHttpsPort :: int where "kHttpsPort \<equiv> 443"

definition is_liveness_path :: "string \<Rightarrow> bool" where
  "is_liveness_path path \<longleftrightarrow> path = ''/health/live'' \<or> path = ''/health''"

text \<open>The part of \<open>parse_url\<close> after the scheme: host, port and path.\<close>

definition parse_authority :: "bool \<Rightarrow> nat \<Rightarrow> string \<Rightarrow> ParsedUrl" where
  "parse_authority https host_start url =
     (let port_start = find_from COLON host_start url;
          path_start = find_from SLASH host_start url;
          default_port = (if https then kHttpsPort else kHttpPort);
          path_end = (case path_start of Some p \<Rightarrow> p | None \<Rightarrow> length url);
          path = (case path_start of Some p \<Rightarrow> drop p url | None \<Rightarrow> ''/'')
      in case port_start of
           Some q \<Rightarrow>
             if path_start = None \<or> q < path_end then
               (let port_str = take (path_end - q - 1) (drop (q + 1) url)
                in \<lparr>m_host = take (q - host_start) (drop host_start url), m_path = path,
                    m_port = (case stoi port_str of Some n \<Rightarrow> n | None \<Rightarrow> default_port), m_is_https = https\<rparr>)
             else \<lparr>m_host = take (path_end - host_start) (drop host_start url), m_path = path, m_port = default_port, m_is_https = https\<rparr>
         | None \<Rightarrow> \<lparr>m_host = take (path_end - host_start) (drop host_start url), m_path = path, m_port = default_port, m_is_https = https\<rparr>)"

definition parse_url :: "string \<Rightarrow> ParsedUrl option" where
  "parse_url url =
     (if url = [] then None
      else case c_strstr url ''://'' of
        None \<Rightarrow> None
      | Some protocol_end \<Rightarrow>
          (let https = (take protocol_end url = ''https''); host_start = protocol_end + 3
           in if host_start \<ge> length url then None
              else let r = parse_authority https host_start url
                   in if m_host r = [] \<or> m_path r = [] then None else Some r))"

definition normalize_path :: "string \<Rightarrow> string" where
  "normalize_path path = (if path = [] then ''/'' else if hd path = SLASH then path else SLASH # path)"

section \<open>Canonical paths\<close>

text \<open>The loop over the segments; the argument is what is left of the path after the cursor.\<close>

function canon_loop :: "string \<Rightarrow> string list \<Rightarrow> string list" where
  "canon_loop [] segments = segments"
| "canon_loop (c # cs) segments =
     (let segment = takeWhile (\<lambda>x. x \<noteq> SLASH) (c # cs);
          rest = drop (length segment + 1) (c # cs)
      in if segment = [] \<or> segment = ''.'' then canon_loop rest segments
         else if segment = ''..'' then canon_loop rest (if segments \<noteq> [] then butlast segments else segments)
         else canon_loop rest (segments @ [segment]))"
  by pat_completeness auto

termination by (relation "measure (\<lambda>(s, _). length s)") auto

declare canon_loop.simps(2) [simp del]

definition join_segments :: "string list \<Rightarrow> string" where
  "join_segments segs = concat (map (\<lambda>s. SLASH # s) segs)"

definition canonicalize_path :: "string \<Rightarrow> string" where
  "canonicalize_path path =
     (if path = [] then ''/''
      else let full = (if hd path \<noteq> SLASH then SLASH # path else path);
               out = join_segments (canon_loop (tl full) [])
           in if out = [] then ''/'' else out)"

definition extract_scheme_host_port :: "string \<Rightarrow> string" where
  "extract_scheme_host_port url =
     (case parse_url url of
        None \<Rightarrow> []
      | Some p \<Rightarrow>
         (let default_port = (if m_is_https p then kHttpsPort else kHttpPort)
          in (if m_is_https p then ''https://'' else ''http://'') @ m_host p
             @ (if m_port p \<noteq> default_port then COLON # format_int (m_port p) else [])))"

text \<open>\<open>rfind (base, 0) == 0\<close>: the string starts with the base.\<close>

definition starts_with :: "string \<Rightarrow> string \<Rightarrow> bool" where
  "starts_with s base \<longleftrightarrow> take (length base) s = base"

definition under_base :: "string \<Rightarrow> string \<Rightarrow> bool" where
  "under_base path base \<longleftrightarrow>
     path = base \<or> starts_with path base \<and> (length path = length base \<or> path ! length base = SLASH)"

fun find_base :: "string \<Rightarrow> string list \<Rightarrow> string option" where
  "find_base path [] = None"
| "find_base path (allowed_base # bases) =
     (case parse_url allowed_base of
        Some parsed \<Rightarrow>
         (let base_path = canonicalize_path (m_path parsed)
          in if base_path = ''/'' then Some allowed_base
             else if under_base path base_path then Some allowed_base
             else find_base path bases)
      | None \<Rightarrow> if starts_with path allowed_base then Some allowed_base else find_base path bases)"

definition find_allowed_l2_server :: "string list \<Rightarrow> string \<Rightarrow> string option" where
  "find_allowed_l2_server l2_server_urls path =
     (case l2_server_urls of
        [] \<Rightarrow> None
      | first # _ \<Rightarrow>
         (let normalized_path = canonicalize_path path
          in if normalized_path = ''/metrics'' \<or> normalized_path = ''/'' \<or> normalized_path = ''/favicon.ico'' then Some first
             else find_base normalized_path l2_server_urls))"

definition build_l2_url :: "string \<Rightarrow> string \<Rightarrow> string" where
  "build_l2_url selected_url path =
     (let base_url = extract_scheme_host_port selected_url; canonical_path = canonicalize_path path
      in if base_url \<noteq> [] \<and> last base_url = SLASH then butlast base_url @ canonical_path else base_url @ canonical_path)"

section \<open>The database gateway\<close>

definition normalize_path_rest :: "string \<Rightarrow> string" where
  "normalize_path_rest path_rest = rev (dropWhile (\<lambda>c. c = SLASH) (rev (dropWhile (\<lambda>c. c = SLASH) path_rest)))"

record ParsedPath =
  m_db_name :: string
  m_action :: string
  m_is_list :: bool
  m_valid :: bool

definition parse_path :: "string \<Rightarrow> ParsedPath" where
  "parse_path rest =
     (if rest = [] then \<lparr>m_db_name = [], m_action = [], m_is_list = True, m_valid = True\<rparr>
      else let (db_name, action) = (case c_strchr rest SLASH of Some i \<Rightarrow> (take i rest, drop (i + 1) rest) | None \<Rightarrow> (rest, []))
           in \<lparr>m_db_name = db_name, m_action = action, m_is_list = False,
               m_valid = (db_name \<noteq> [] \<and> action \<noteq> [] \<and> c_strchr action SLASH = None)\<rparr>)"

record MethodDecision =
  m_is_error :: bool
  m_status :: int
  m_code :: string
  m_message :: string

definition classify_method :: "string \<Rightarrow> string \<Rightarrow> MethodDecision" where
  "classify_method action req_method =
     (if action = ''query'' \<and> req_method \<noteq> ''POST'' \<or> action = ''ping'' \<and> req_method \<noteq> ''GET'' then
        \<lparr>m_is_error = True, m_status = 405, m_code = ''METHOD_NOT_ALLOWED'',
         m_message = ''Unsupported method '' @ [CHR 0x27] @ req_method @ [CHR 0x27] @ '' for action '' @ [CHR 0x27] @ action @ [CHR 0x27]\<rparr>
      else if action \<noteq> ''query'' \<and> action \<noteq> ''ping'' then
        \<lparr>m_is_error = True, m_status = 404, m_code = ''NOT_FOUND'',
         m_message = ''Unsupported DB gateway action '' @ [CHR 0x27] @ action @ [CHR 0x27] @ '' for '' @ req_method\<rparr>
      else \<lparr>m_is_error = False, m_status = 0, m_code = [], m_message = []\<rparr>)"

section \<open>The address of the client\<close>

definition trim_blanks :: "string \<Rightarrow> string option" where
  "trim_blanks s =
     (let blank = (\<lambda>c. c = SPC \<or> c = TAB)
      in if list_all blank s then None else Some (rev (dropWhile blank (rev (dropWhile blank s)))))"

definition extract_client_ip :: "(string \<Rightarrow> string option) \<Rightarrow> string \<Rightarrow> string" where
  "extract_client_ip header remote_addr =
     (let cf = (case header ''cf-connecting-ip'' of Some ip \<Rightarrow> if ip \<noteq> [] then ip else remote_addr | None \<Rightarrow> remote_addr);
          xff = (case header ''x-forwarded-for'' of
                   Some x \<Rightarrow>
                     if x \<noteq> [] then
                       (let client_ip = (case c_strrchr x (CHR '','') of None \<Rightarrow> x | Some i \<Rightarrow> drop (i + 1) x)
                        in case trim_blanks client_ip of Some ip \<Rightarrow> ip | None \<Rightarrow> cf)
                     else cf
                 | None \<Rightarrow> cf)
      in case header ''x-real-ip'' of Some ip \<Rightarrow> if ip \<noteq> [] then ip else xff | None \<Rightarrow> xff)"

definition extract_query_string :: "string \<Rightarrow> string" where
  "extract_query_string target = (case c_strchr target (CHR ''?'') of None \<Rightarrow> [] | Some q \<Rightarrow> drop (q + 1) target)"

section \<open>Paths as lists of segments\<close>

text \<open>The specification: the segments between the slashes, with empty and dot segments resolved.\<close>

fun split_slash :: "string \<Rightarrow> string list" where
  "split_slash [] = [[]]"
| "split_slash (c # cs) =
     (if c = SLASH then [] # split_slash cs
      else case split_slash cs of s # ss \<Rightarrow> (c # s) # ss | [] \<Rightarrow> [[c]])"

definition resolve_step :: "string list \<Rightarrow> string \<Rightarrow> string list" where
  "resolve_step acc s = (if s = [] \<or> s = ''.'' then acc else if s = ''..'' then butlast acc else acc @ [s])"

definition path_segments :: "string \<Rightarrow> string list" where
  "path_segments p = foldl resolve_step [] (split_slash p)"

definition segment_ok :: "string \<Rightarrow> bool" where
  "segment_ok s \<longleftrightarrow> s \<noteq> [] \<and> s \<noteq> ''.'' \<and> s \<noteq> ''..'' \<and> SLASH \<notin> set s"

definition render :: "string list \<Rightarrow> string" where
  "render segs = (if segs = [] then ''/'' else join_segments segs)"

lemma split_slash_unfold:
  "split_slash s = takeWhile (\<lambda>x. x \<noteq> SLASH) s #
     (case dropWhile (\<lambda>x. x \<noteq> SLASH) s of [] \<Rightarrow> [] | _ # r \<Rightarrow> split_slash r)"
  by (induction s) (auto split: list.splits)

lemma drop_segment:
  "drop (length (takeWhile P s) + 1) s = (case dropWhile P s of [] \<Rightarrow> [] | _ # r \<Rightarrow> r)"
  by (induction s) auto

lemma resolve_step_cases:
  "s = [] \<or> s = ''.'' \<Longrightarrow> resolve_step acc s = acc"
  "\<not> (s = [] \<or> s = ''.'') \<Longrightarrow> s = ''..'' \<Longrightarrow> resolve_step acc s = (if acc \<noteq> [] then butlast acc else acc)"
  "\<not> (s = [] \<or> s = ''.'') \<Longrightarrow> s \<noteq> ''..'' \<Longrightarrow> resolve_step acc s = acc @ [s]"
  by (auto simp: resolve_step_def)

lemma canon_loop_eq: "s \<noteq> [] \<Longrightarrow> canon_loop s acc = foldl resolve_step acc (split_slash s)"
proof (induction s acc rule: canon_loop.induct)
  case (2 c cs acc)
  define seg where "seg = takeWhile (\<lambda>x. x \<noteq> SLASH) (c # cs)"
  define rest where "rest = drop (length seg + 1) (c # cs)"
  define tail where "tail = dropWhile (\<lambda>x. x \<noteq> SLASH) (c # cs)"
  define more where "more = (case tail of [] \<Rightarrow> [] | _ # r \<Rightarrow> split_slash r)"
  have step: "canon_loop (c # cs) acc = canon_loop rest (resolve_step acc seg)"
    unfolding canon_loop.simps(2) Let_def seg_def [symmetric] rest_def [symmetric] resolve_step_def by simp
  have split: "split_slash (c # cs) = seg # more" unfolding seg_def more_def tail_def by (rule split_slash_unfold)
  have rest: "rest = (case tail of [] \<Rightarrow> [] | _ # r \<Rightarrow> r)"
    unfolding rest_def seg_def tail_def by (rule drop_segment)
  have "canon_loop rest (resolve_step acc seg) = foldl resolve_step (resolve_step acc seg) more"
  proof (cases "rest = []")
    case True
    then have "more = [] \<or> more = [[]]" unfolding more_def rest by (cases tail) simp_all
    with True show ?thesis by (auto simp: resolve_step_def)
  next
    case False
    then have more: "more = split_slash rest" unfolding more_def rest by (cases tail) simp_all
    have "canon_loop rest (resolve_step acc seg) = foldl resolve_step (resolve_step acc seg) (split_slash rest)"
    proof (cases "seg = [] \<or> seg = ''.''")
      case True
      then show ?thesis using 2(1) [OF seg_def rest_def True False] by (simp only: resolve_step_cases)
    next
      case nodot: False
      show ?thesis
      proof (cases "seg = ''..''")
        case True
        show ?thesis using 2(2) [OF seg_def rest_def nodot True False] unfolding resolve_step_cases(2) [OF nodot True] .
      next
        case other: False
        show ?thesis using 2(3) [OF seg_def rest_def nodot other False] unfolding resolve_step_cases(3) [OF nodot other] .
      qed
    qed
    with more show ?thesis by simp
  qed
  with step split show ?case by simp
qed simp

lemma split_slash_nonempty: "split_slash s \<noteq> []"
  by (subst split_slash_unfold) simp

lemma canonicalize_path_eq: "canonicalize_path p = render (path_segments p)"
proof -
  have join: "join_segments segs = [] \<longleftrightarrow> segs = []" for segs by (simp add: join_segments_def)
  have skip: "path_segments (SLASH # q) = path_segments q" for q by (simp add: path_segments_def resolve_step_def)
  have loop: "canon_loop q [] = path_segments q" for q
    using canon_loop_eq [of q "[]"] by (cases "q = []") (simp_all add: path_segments_def resolve_step_def)
  show ?thesis
  proof (cases p)
    case Nil
    then show ?thesis by (simp add: canonicalize_path_def render_def path_segments_def resolve_step_def)
  next
    case (Cons c cs)
    then show ?thesis using skip [of cs] loop [of cs] loop [of p]
      by (simp add: canonicalize_path_def Let_def render_def join)
  qed
qed

lemma split_slash_no_slash: "s \<in> set (split_slash p) \<Longrightarrow> SLASH \<notin> set s"
  by (induction p arbitrary: s) (auto split: list.splits if_splits)

lemma path_segments_ok: "list_all segment_ok (path_segments p)"
proof -
  have "list_all segment_ok acc \<Longrightarrow> list_all (\<lambda>s. SLASH \<notin> set s) ss \<Longrightarrow> list_all segment_ok (foldl resolve_step acc ss)" for acc ss
  proof (induction ss arbitrary: acc)
    case (Cons s ss)
    have "list_all segment_ok (resolve_step acc s)"
      using Cons(2,3) by (auto simp: resolve_step_def segment_ok_def list_all_iff dest: in_set_butlastD)
    then show ?case using Cons by simp
  qed simp
  from this [of "[]" "split_slash p"] show ?thesis
    unfolding path_segments_def using split_slash_no_slash [of _ p] by (simp add: list_all_iff)
qed

lemma split_slash_segment: "SLASH \<notin> set s \<Longrightarrow> split_slash (s @ SLASH # r) = s # split_slash r" "SLASH \<notin> set s \<Longrightarrow> split_slash s = [s]"
  by (induction s) auto

lemma split_slash_join: "list_all segment_ok segs \<Longrightarrow> split_slash (join_segments segs) = [] # segs"
proof (induction segs)
  case (Cons s segs)
  then have s: "SLASH \<notin> set s" by (simp add: segment_ok_def)
  show ?case
  proof (cases segs)
    case Nil
    then show ?thesis using split_slash_segment(2) [OF s] by (simp add: join_segments_def)
  next
    case (Cons t ts)
    have "join_segments segs = SLASH # (t @ join_segments ts)" using Cons by (simp add: join_segments_def)
    moreover from this have "split_slash (t @ join_segments ts) = segs" using Cons.IH Cons.prems by simp
    ultimately show ?thesis using split_slash_segment(1) [OF s] by (simp add: join_segments_def)
  qed
qed (simp add: join_segments_def)

lemma foldl_resolve_ok: "list_all segment_ok segs \<Longrightarrow> foldl resolve_step acc segs = acc @ segs"
  by (induction segs arbitrary: acc) (auto simp: resolve_step_def segment_ok_def)

lemma path_segments_render: "list_all segment_ok segs \<Longrightarrow> path_segments (render segs) = segs"
proof (cases "segs = []")
  case False
  assume "list_all segment_ok segs"
  then show ?thesis using False split_slash_join [of segs] foldl_resolve_ok [of segs]
    by (simp add: render_def path_segments_def resolve_step_def)
qed (simp add: render_def path_segments_def resolve_step_def)

section \<open>The policy on segments\<close>

definition boundary :: "string \<Rightarrow> bool" where
  "boundary s \<longleftrightarrow> s = [] \<or> hd s = SLASH"

lemma boundary_join: "boundary (join_segments segs)"
  by (cases segs) (simp_all add: boundary_def join_segments_def)

lemma segment_unique:
  assumes "SLASH \<notin> set a" "SLASH \<notin> set b" "boundary x" "boundary y" "a @ x = b @ y"
  shows "a = b \<and> x = y"
proof -
  have tw: "takeWhile (\<lambda>c. c \<noteq> SLASH) (s @ z) = s" if "SLASH \<notin> set s" "boundary z" for s z
    using that by (cases z) (auto simp: boundary_def takeWhile_append)
  have "a = b" using tw [OF assms(1,3)] tw [OF assms(2,4)] assms(5) by simp
  with assms(5) show ?thesis by simp
qed

lemma join_prefix:
  "list_all segment_ok as \<Longrightarrow> list_all segment_ok bs \<Longrightarrow>
   (\<exists>r. join_segments bs = join_segments as @ r \<and> boundary r) \<longleftrightarrow> prefix as bs"
proof (induction as arbitrary: bs)
  case Nil
  then show ?case using boundary_join [of bs] by (auto simp: join_segments_def)
next
  case (Cons a as)
  show ?case
  proof (cases bs)
    case Nil
    then show ?thesis by (simp add: join_segments_def)
  next
    case (Cons b bs')
    have a: "SLASH \<notin> set a" "SLASH \<notin> set b" using Cons.prems Cons by (simp_all add: segment_ok_def)
    have eq: "join_segments (c # cs) = SLASH # (c @ join_segments cs)" for c cs by (simp add: join_segments_def)
    have "(\<exists>r. join_segments bs = join_segments (a # as) @ r \<and> boundary r)
        \<longleftrightarrow> a = b \<and> (\<exists>r. join_segments bs' = join_segments as @ r \<and> boundary r)"
    proof
      assume "\<exists>r. join_segments bs = join_segments (a # as) @ r \<and> boundary r"
      then obtain r where r: "b @ join_segments bs' = a @ (join_segments as @ r)" "boundary r" by (auto simp: Cons eq)
      have "boundary (join_segments as @ r)" using boundary_join [of as] r(2) by (cases "join_segments as") (auto simp: boundary_def)
      from segment_unique [OF a(2) a(1) boundary_join this r(1)] r(2)
      show "a = b \<and> (\<exists>r. join_segments bs' = join_segments as @ r \<and> boundary r)" by auto
    qed (auto simp: Cons eq)
    then show ?thesis using Cons.IH [of bs'] Cons.prems Cons by simp
  qed
qed

lemma under_base_length: "under_base x y \<Longrightarrow> length y \<le> length x"
  unfolding under_base_def starts_with_def by (metis length_take min.cobounded1 order_refl)

lemma under_base_prefix:
  assumes "list_all segment_ok as" "list_all segment_ok bs" "as \<noteq> []"
  shows "under_base (render bs) (render as) \<longleftrightarrow> prefix as bs"
proof (cases "bs = []")
  case True
  obtain a as' where as: "as = a # as'" using assms(3) by (cases as) auto
  have "length (join_segments as) > 1" using assms(1) by (auto simp: as join_segments_def segment_ok_def)
  moreover have "render bs = ''/''" "render as = join_segments as" using True assms(3) by (simp_all add: render_def)
  ultimately have "\<not> under_base (render bs) (render as)" using under_base_length [of "render bs" "render as"] by auto
  then show ?thesis using True assms(3) by simp
next
  case False
  have r: "render bs = join_segments bs" "render as = join_segments as" using False assms(3) by (simp_all add: render_def)
  have "under_base x y \<longleftrightarrow> (\<exists>r. x = y @ r \<and> boundary r)" for x y
  proof
    assume u: "under_base x y"
    then have "x = y @ drop (length y) x" unfolding under_base_def starts_with_def
      by (metis append_Nil2 append_take_drop_id drop_all order_refl)
    moreover have "boundary (drop (length y) x)"
      using u by (cases "length y < length x") (auto simp: under_base_def starts_with_def boundary_def hd_drop_conv_nth)
    ultimately show "\<exists>r. x = y @ r \<and> boundary r" by blast
  next
    assume "\<exists>r. x = y @ r \<and> boundary r"
    then obtain r where "x = y @ r" "boundary r" by blast
    then show "under_base x y" by (cases r) (auto simp: under_base_def starts_with_def boundary_def nth_append)
  qed
  then show ?thesis using join_prefix [OF assms(1,2)] by (simp add: r)
qed

text \<open>A configured URL allows the paths below its own; an entry that is not a URL allows its textual extensions.\<close>

definition allows :: "string \<Rightarrow> string \<Rightarrow> bool" where
  "allows path url \<longleftrightarrow>
     (case parse_url url of
        Some p \<Rightarrow> prefix (path_segments (m_path p)) (path_segments path)
      | None \<Rightarrow> starts_with (canonicalize_path path) url)"

lemma find_base_eq: "find_base (canonicalize_path path) urls = List.find (allows path) urls"
proof (induction urls)
  case (Cons url urls)
  show ?case
  proof (cases "parse_url url")
    case None
    then show ?thesis using Cons by (simp add: allows_def)
  next
    case (Some p)
    let ?b = "path_segments (m_path p)"
    have root: "canonicalize_path (m_path p) = ''/'' \<longleftrightarrow> ?b = []"
    proof
      assume "canonicalize_path (m_path p) = ''/''"
      then have "path_segments (render ?b) = path_segments ''/''" by (simp add: canonicalize_path_eq)
      then show "?b = []" using path_segments_render [OF path_segments_ok [of "m_path p"]] by (simp add: path_segments_def resolve_step_def)
    qed (simp add: canonicalize_path_eq render_def)
    have "?b \<noteq> [] \<Longrightarrow> under_base (canonicalize_path path) (canonicalize_path (m_path p)) \<longleftrightarrow> prefix ?b (path_segments path)"
      using under_base_prefix [OF path_segments_ok path_segments_ok, of "m_path p" path] by (simp add: canonicalize_path_eq)
    then show ?thesis using Some Cons root by (cases "?b = []") (simp_all add: allows_def Let_def)
  qed
qed simp

section \<open>The forwarded URL\<close>

lemma c_strchr_Some: "c_strchr s c = Some i \<Longrightarrow> i < length s \<and> s ! i = c \<and> c \<notin> set (take i s)"
  by (induction s arbitrary: i) (auto split: if_splits)

lemma find_from_None: "start \<le> length s \<Longrightarrow> find_from c start s = None \<longleftrightarrow> c \<notin> set (drop start s)"
  by (simp add: find_from_def c_strchr_None)

lemma find_from_Some:
  assumes "find_from c start s = Some i"
  shows "start \<le> i" "i < length s" "c \<notin> set (take (i - start) (drop start s))" "s ! i = c"
proof -
  obtain j where j: "i = start + j" "c_strchr (drop start s) c = Some j" "start \<le> length s"
    using assms by (auto simp: find_from_def split: if_splits)
  then show "start \<le> i" "i < length s" "c \<notin> set (take (i - start) (drop start s))" "s ! i = c"
    using c_strchr_Some [OF j(2)] by auto
qed

lemma take_mono_not_in: "c \<notin> set (take n s) \<Longrightarrow> m \<le> n \<Longrightarrow> c \<notin> set (take m s)"
  using set_take_subset_set_take [of m n s] by blast

lemma stoi_range: "stoi s = Some n \<Longrightarrow> c_int_ok n"
  by (auto simp: stoi_def Let_def split: if_splits)

text \<open>What the parser leaves in the host: neither a slash nor a colon.\<close>

lemma parse_authority_host:
  assumes "hs < length url"
  shows "SLASH \<notin> set (m_host (parse_authority https hs url))" "COLON \<notin> set (m_host (parse_authority https hs url))"
    and "m_is_https (parse_authority https hs url) = https" "c_int_ok (m_port (parse_authority https hs url))"
proof -
  let ?r = "parse_authority https hs url"
  have path: "SLASH \<notin> set (take (n - hs) (drop hs url))"
    if "n \<le> (case find_from SLASH hs url of Some p \<Rightarrow> p | None \<Rightarrow> length url)" for n
  proof (cases "find_from SLASH hs url")
    case None
    then show ?thesis using find_from_None [of hs url SLASH] assms by (auto dest: in_set_takeD)
  next
    case (Some p)
    then show ?thesis using take_mono_not_in [OF find_from_Some(3) [OF Some], of "n - hs"] that by simp
  qed
  have colon: "COLON \<notin> set (take (n - hs) (drop hs url))" if "\<And>q. find_from COLON hs url = Some q \<Longrightarrow> n \<le> q" for n
  proof (cases "find_from COLON hs url")
    case None
    then show ?thesis using find_from_None [of hs url COLON] assms by (auto dest: in_set_takeD)
  next
    case (Some q)
    then show ?thesis using take_mono_not_in [OF find_from_Some(3) [OF Some], of "n - hs"] that [OF Some] by simp
  qed
  have ports: "c_int_ok 80" "c_int_ok 443" by (simp_all add: c_int_ok_def)
  let ?path_end = "case find_from SLASH hs url of Some p \<Rightarrow> p | None \<Rightarrow> length url"
  let ?host_end = "case find_from COLON hs url of Some q \<Rightarrow> min q ?path_end | None \<Rightarrow> ?path_end"
  have host: "m_host ?r = take (?host_end - hs) (drop hs url)"
    using find_from_Some(2) [of COLON hs url] by (auto simp: parse_authority_def Let_def min_def split: option.splits)
  show "SLASH \<notin> set (m_host ?r)" unfolding host by (rule path) (simp split: option.split)
  show "COLON \<notin> set (m_host ?r)" unfolding host by (rule colon) simp
  show "m_is_https ?r = https" by (simp add: parse_authority_def Let_def split: option.splits)
  show "c_int_ok (m_port ?r)"
    using stoi_range ports by (auto simp: parse_authority_def Let_def split: option.splits)
qed

lemma parse_url_host:
  assumes "parse_url url = Some p"
  shows "m_host p \<noteq> []" "SLASH \<notin> set (m_host p)" "COLON \<notin> set (m_host p)" "c_int_ok (m_port p)"
  using assms parse_authority_host [of _ url]
  by (auto simp: parse_url_def Let_def not_le split: option.splits if_splits)

lemma dec_value_nonneg: "all_digits ds \<Longrightarrow> 0 \<le> dec_value ds 0"
  using dec_value_ge [of ds 0] by simp

lemma stoi_format_int: "c_int_ok n \<Longrightarrow> stoi (format_int n) = Some n"
proof -
  assume ok: "c_int_ok n"
  have d: "takeWhile c_isdigit (dec_str k) = dec_str k" "dec_str k \<noteq> []" for k
    using dec_str_not_space dec_str_digits(2) by (auto simp: takeWhile_eq_all_conv)
  have h: "c_isdigit (hd (dec_str k))" for k using dec_str_not_space [of "hd (dec_str k)" k] d(2) [of k] by simp
  have nd: "\<not> c_isspace c" "c \<noteq> CHR ''-''" "c \<noteq> CHR ''+''" if "c_isdigit c" for c
    using that by (auto simp: c_isspace_def c_isdigit_def ord_def)
  have ns: "dropWhile c_isspace (dec_str k) = dec_str k" for k
    using nd(1) [OF h [of k]] d(2) [of k] by (cases "dec_str k") auto
  show ?thesis
  proof (cases "n < 0")
    case True
    then show ?thesis using ok dec_value_dec_str [of "nat (- n)"] d(2) [of "nat (- n)"]
      by (simp add: stoi_def format_int_def Let_def c_isspace_def d(1) del: takeWhile_eq_all_conv)
  next
    case False
    then show ?thesis using ok dec_value_dec_str [of "nat n"] d(2) [of "nat n"] nd(2,3) [OF h [of "nat n"]]
      by (simp add: stoi_def format_int_def Let_def ns d(1) del: takeWhile_eq_all_conv)
  qed
qed

lemma format_int_chars: "c \<in> set (format_int n) \<Longrightarrow> c \<noteq> SLASH \<and> c \<noteq> COLON"
proof -
  assume "c \<in> set (format_int n)"
  then have "c = CHR ''-'' \<or> c_isdigit c" using dec_str_not_space [of c] by (auto simp: format_int_def split: if_splits)
  then show ?thesis by (auto simp: c_isdigit_def ord_def)
qed

lemma find_from_append:
  "find_from c (length a) (a @ s) = map_option (\<lambda>i. length a + i) (c_strchr s c)"
  by (simp add: find_from_def)

lemma render_slash: "\<exists>r. render segs = SLASH # r"
  by (cases segs) (auto simp: render_def join_segments_def)

text \<open>Parsing a URL that is put together from its parts.\<close>

lemma parse_authority_parts:
  fixes https :: bool
  assumes "SLASH \<notin> set host" "COLON \<notin> set host" "c_int_ok port"
  defines "dflt \<equiv> (if https then kHttpsPort else kHttpPort)"
  shows "parse_authority https (length a) (a @ host @ (if port \<noteq> dflt then COLON # format_int port else []) @ SLASH # r)
     = \<lparr>m_host = host, m_path = SLASH # r, m_port = port, m_is_https = https\<rparr>"
proof (cases "port = dflt")
  case True
  have p: "c_strchr (host @ SLASH # r) SLASH = Some (length host)" by (rule c_strchr_split [OF assms(1)])
  have q: "c_strchr (host @ SLASH # r) COLON = Some i \<Longrightarrow> length host < i" for i
  proof -
    assume q: "c_strchr (host @ SLASH # r) COLON = Some i"
    have "i \<noteq> length host" using c_strchr_Some [OF q] by auto
    moreover have "\<not> i < length host"
    proof
      assume i: "i < length host"
      then have "host ! i = COLON" using c_strchr_Some [OF q] by (simp add: nth_append)
      with nth_mem [OF i] assms(2) show False by simp
    qed
    ultimately show ?thesis by linarith
  qed
  show ?thesis using True p q unfolding dflt_def
    by (auto simp: parse_authority_def Let_def find_from_append split: option.splits)
next
  case False
  let ?ps = "format_int port"
  have p: "c_strchr (host @ COLON # ?ps @ SLASH # r) SLASH = Some (length host + 1 + length ?ps)"
    using c_strchr_split [of SLASH "host @ COLON # ?ps" r] assms(1) format_int_chars by auto
  have q: "c_strchr (host @ COLON # ?ps @ SLASH # r) COLON = Some (length host)" by (rule c_strchr_split [OF assms(2)])
  show ?thesis using False p q stoi_format_int [OF assms(3)] unfolding dflt_def
    by (simp add: parse_authority_def Let_def find_from_append)
qed

lemma parse_url_parts:
  assumes "SLASH \<notin> set host" "COLON \<notin> set host" "host \<noteq> []" "c_int_ok port"
  shows "parse_url ((if https then ''https://'' else ''http://'') @ host
      @ (if port \<noteq> (if https then kHttpsPort else kHttpPort) then COLON # format_int port else []) @ SLASH # r)
     = Some \<lparr>m_host = host, m_path = SLASH # r, m_port = port, m_is_https = https\<rparr>"
proof -
  let ?s = "if https then ''https://'' else ''http://''"
  let ?u = "?s @ host @ (if port \<noteq> (if https then kHttpsPort else kHttpPort) then COLON # format_int port else []) @ SLASH # r"
  have scheme: "c_strstr (?s @ x) ''://'' = Some (length ?s - 3)" for x by (simp add: c_strstr.simps)
  have "take (length ?s - 3) ?u = ''https'' \<longleftrightarrow> https" by simp
  moreover have "length ?s - 3 + 3 = length ?s" by simp
  ultimately show ?thesis
    using parse_authority_parts [OF assms(1,2,4), of https ?s r] scheme assms(3)
    unfolding parse_url_def by (simp add: Let_def)
qed

text \<open>The URL that is built, with anything that is put after it.\<close>

lemma build_l2_url_parses:
  assumes "parse_url server = Some p"
  shows "parse_url (build_l2_url server path @ tail) = Some (p\<lparr>m_path := canonicalize_path path @ tail\<rparr>)"
proof -
  note h = parse_url_host [OF assms]
  obtain r where r: "canonicalize_path path = SLASH # r" using render_slash [of "path_segments path"] by (auto simp: canonicalize_path_eq)
  let ?port = "if m_port p \<noteq> (if m_is_https p then kHttpsPort else kHttpPort) then COLON # format_int (m_port p) else []"
  let ?base = "(if m_is_https p then ''https://'' else ''http://'') @ m_host p @ ?port"
  have base: "extract_scheme_host_port server = ?base" using assms by (simp add: extract_scheme_host_port_def Let_def)
  have "last ?base \<noteq> SLASH"
  proof (cases "?port = []")
    case True
    moreover have "last (m_host p) \<noteq> SLASH" using h(1,2) last_in_set by metis
    ultimately show ?thesis using h(1) by simp
  next
    case False
    then have port: "?port = COLON # format_int (m_port p)" by metis
    then have "last ?base = last (COLON # format_int (m_port p))" by simp
    moreover have "last (COLON # format_int (m_port p)) \<in> set (COLON # format_int (m_port p))" by (rule last_in_set) simp
    ultimately show ?thesis using format_int_chars [of "last ?base" "m_port p"] by auto
  qed
  then have "build_l2_url server path = ?base @ canonicalize_path path" by (simp add: build_l2_url_def Let_def base)
  then show ?thesis using parse_url_parts [OF h(2,3,1,4), of "m_is_https p" "r @ tail"] by (simp add: r)
qed

section \<open>Trimming\<close>

lemma dropWhile_eq_replicate: "s = replicate (length (takeWhile (\<lambda>c. c = x) s)) x @ dropWhile (\<lambda>c. c = x) s"
  by (induction s) auto

lemma normalize_path_rest_split: "\<exists>a b. rest = replicate a SLASH @ normalize_path_rest rest @ replicate b SLASH"
proof -
  let ?t = "dropWhile (\<lambda>c. c = SLASH) rest"
  obtain a where a: "rest = replicate a SLASH @ ?t" using dropWhile_eq_replicate by metis
  obtain b where "rev ?t = replicate b SLASH @ dropWhile (\<lambda>c. c = SLASH) (rev ?t)" using dropWhile_eq_replicate by metis
  then have "?t = normalize_path_rest rest @ replicate b SLASH"
    unfolding normalize_path_rest_def by (metis rev_append rev_replicate rev_rev_ident)
  with a show ?thesis by metis
qed

lemma dropWhile_blank_prefix: "list_all P xs \<Longrightarrow> ys = [] \<or> \<not> P (hd ys) \<Longrightarrow> dropWhile P (xs @ ys) = ys"
  by (induction xs) (auto simp: neq_Nil_conv, cases ys, auto)

text \<open>Taking a run of characters off both ends.\<close>

lemma trim_both:
  assumes "list_all P xs" "list_all P zs" "ys \<noteq> []" "\<not> P (hd ys)" "\<not> P (last ys)"
  shows "rev (dropWhile P (rev (dropWhile P (xs @ ys @ zs)))) = ys"
proof -
  have "dropWhile P (xs @ ys @ zs) = ys @ zs" using assms(1,3,4) by (intro dropWhile_blank_prefix) simp_all
  moreover have "dropWhile P (rev zs @ rev ys) = rev ys"
    using assms(2,3,5) by (intro dropWhile_blank_prefix) (simp_all add: hd_rev)
  ultimately show ?thesis by simp
qed

lemma parse_path_valid:
  "m_valid (parse_path r) \<and> \<not> m_is_list (parse_path r) \<longleftrightarrow>
     (\<exists>db action. r = db @ SLASH # action \<and> db \<noteq> [] \<and> action \<noteq> [] \<and> SLASH \<notin> set db \<and> SLASH \<notin> set action
        \<and> parse_path r = \<lparr>m_db_name = db, m_action = action, m_is_list = False, m_valid = True\<rparr>)"
proof
  assume v: "m_valid (parse_path r) \<and> \<not> m_is_list (parse_path r)"
  then have ne: "r \<noteq> []" by (auto simp: parse_path_def)
  then obtain i where i: "c_strchr r SLASH = Some i" using v by (auto simp: parse_path_def Let_def split: option.splits)
  have "r = take i r @ SLASH # drop (i + 1) r" "SLASH \<notin> set (take i r)" using c_strchr_Some [OF i] id_take_nth_drop [of i r] by auto
  then show "\<exists>db action. r = db @ SLASH # action \<and> db \<noteq> [] \<and> action \<noteq> [] \<and> SLASH \<notin> set db \<and> SLASH \<notin> set action
        \<and> parse_path r = \<lparr>m_db_name = db, m_action = action, m_is_list = False, m_valid = True\<rparr>"
    using v i ne by (intro exI [of _ "take i r"] exI [of _ "drop (i + 1) r"]) (auto simp: parse_path_def c_strchr_None)
qed auto

section \<open>Properties\<close>

text \<open>
  Canonical paths: the result of \<open>canonicalize_path\<close> is the rendering of the segments of
  the path with empty and dot segments resolved as the specification does it; none of its segments is
  empty, a dot or a double dot, and it has the same segments again, so canonicalizing twice is the
  same as once.
\<close>

theorem canonical_path:
  "canonicalize_path p = render (path_segments p) \<and> list_all segment_ok (path_segments p)
     \<and> path_segments (canonicalize_path p) = path_segments p
     \<and> canonicalize_path (canonicalize_path p) = canonicalize_path p"
  using path_segments_ok [of p] path_segments_render [OF path_segments_ok [of p]] by (simp add: canonicalize_path_eq)

text \<open>
  Property C23. The access policy: without servers every path is refused; the root, \<open>/metrics\<close> and
  \<open>/favicon.ico\<close> go to the first server; any other path goes to the first configured entry that
  allows it, and is refused when none does. An entry that is a URL allows exactly the paths whose
  segments, dots resolved, begin with the segments of its own path.
\<close>

theorem l2_policy:
  "find_allowed_l2_server urls path =
     (if urls = [] then None
      else if path_segments path \<in> {[], [''metrics''], [''favicon.ico'']} then Some (hd urls)
      else List.find (allows path) urls)"
proof (cases urls)
  case (Cons u us)
  have inj: "canonicalize_path path = render segs \<longleftrightarrow> path_segments path = segs" if "list_all segment_ok segs" for segs
    using path_segments_render [OF that] path_segments_render [OF path_segments_ok [of path]]
    by (auto simp: canonicalize_path_eq)
  have r: "render [] = ''/''" "render [''metrics''] = ''/metrics''" "render [''favicon.ico''] = ''/favicon.ico''"
    by (simp_all add: render_def join_segments_def)
  have "canonicalize_path path = ''/metrics'' \<or> canonicalize_path path = ''/'' \<or> canonicalize_path path = ''/favicon.ico''
     \<longleftrightarrow> path_segments path \<in> {[], [''metrics''], [''favicon.ico'']}"
    using inj [of "[]"] inj [of "[''metrics'']"] inj [of "[''favicon.ico'']"] by (auto simp: r segment_ok_def)
  then show ?thesis using Cons find_base_eq [of path urls] by (simp add: find_allowed_l2_server_def Let_def)
qed (simp add: find_allowed_l2_server_def)

text \<open>
  Property C24. What is forwarded is what was checked: for a server that is a URL, the URL that is
  built parses back to the scheme, host and port of the server and to the canonical path that the
  policy decided on.
\<close>

theorem l2_forwarded_url:
  assumes "parse_url server = Some p"
  shows "parse_url (build_l2_url server path) = Some (p\<lparr>m_path := canonicalize_path path\<rparr>)"
  using build_l2_url_parses [OF assms, of path "[]"] by simp

theorem l2_forwarded_url_witness:
  "parse_url (build_l2_url ''http://l2:8080/api'' ''/api/x/../y'') =
     Some \<lparr>m_host = ''l2'', m_path = canonicalize_path ''/api/x/../y'', m_port = 8080, m_is_https = False\<rparr>"
proof -
  have "parse_url ''http://l2:8080/api'' = Some \<lparr>m_host = ''l2'', m_path = ''/api'', m_port = 8080, m_is_https = False\<rparr>"
    by code_simp
  from l2_forwarded_url [OF this] show ?thesis by simp
qed

text \<open>
  The fallback for an entry that is not a URL does not respect the boundary of segments:
  such an entry allows every canonical path that extends it as a text, so \<open>/api\<close> admits \<open>/apiv2\<close>.
\<close>

theorem l2_fallback_no_boundary:
  "parse_url ''/api'' = None \<and> find_allowed_l2_server [''/api''] ''/apiv2/x'' = Some ''/api''
     \<and> \<not> prefix (path_segments ''/api'') (path_segments ''/apiv2/x'')"
  by code_simp

text \<open>
  The paths of the database gateway: after the prefix, a path is the list exactly when it
  has only slashes, and it names a database and an action exactly when it has these two segments,
  with any number of slashes before and after them.
\<close>

theorem gateway_path:
  "let r = parse_path (normalize_path_rest rest)
   in (m_is_list r \<longleftrightarrow> set rest \<subseteq> {SLASH})
    \<and> (m_valid r \<and> \<not> m_is_list r \<longleftrightarrow>
        (\<exists>a b db action. rest = replicate a SLASH @ (db @ SLASH # action) @ replicate b SLASH
           \<and> db \<noteq> [] \<and> action \<noteq> [] \<and> SLASH \<notin> set db \<and> SLASH \<notin> set action
           \<and> r = \<lparr>m_db_name = db, m_action = action, m_is_list = False, m_valid = True\<rparr>))"
proof -
  let ?n = "normalize_path_rest rest"
  obtain a b where ab: "rest = replicate a SLASH @ ?n @ replicate b SLASH" using normalize_path_rest_split by blast
  have "?n = [] \<longleftrightarrow> set rest \<subseteq> {SLASH}"
  proof
    show "?n = [] \<Longrightarrow> set rest \<subseteq> {SLASH}" using ab by (metis append_Nil set_append set_replicate_conv_if Un_least empty_subsetI order_refl)
    show "set rest \<subseteq> {SLASH} \<Longrightarrow> ?n = []" unfolding normalize_path_rest_def by (auto simp: dropWhile_eq_Nil_conv dest: set_dropWhileD)
  qed
  then have list: "m_is_list (parse_path ?n) \<longleftrightarrow> set rest \<subseteq> {SLASH}" by (simp add: parse_path_def split_beta Let_def)
  have trim: "normalize_path_rest (replicate a SLASH @ (db @ SLASH # action) @ replicate b SLASH) = db @ SLASH # action"
    if "db \<noteq> []" "action \<noteq> []" "SLASH \<notin> set db" "SLASH \<notin> set action" for a b db action
  proof -
    have "hd (db @ SLASH # action) \<noteq> SLASH" "last (db @ SLASH # action) \<noteq> SLASH"
      using that hd_in_set [OF that(1)] last_in_set [OF that(2)] by (auto simp del: hd_in_set last_in_set)
    then show ?thesis unfolding normalize_path_rest_def by (intro trim_both) (simp_all add: list_all_iff)
  qed
  have "m_valid (parse_path ?n) \<and> \<not> m_is_list (parse_path ?n) \<longleftrightarrow>
        (\<exists>a b db action. rest = replicate a SLASH @ (db @ SLASH # action) @ replicate b SLASH
           \<and> db \<noteq> [] \<and> action \<noteq> [] \<and> SLASH \<notin> set db \<and> SLASH \<notin> set action
           \<and> parse_path ?n = \<lparr>m_db_name = db, m_action = action, m_is_list = False, m_valid = True\<rparr>)" (is "?L \<longleftrightarrow> ?R")
  proof
    assume ?L
    then obtain db action where "?n = db @ SLASH # action" "db \<noteq> []" "action \<noteq> []" "SLASH \<notin> set db" "SLASH \<notin> set action"
      "parse_path ?n = \<lparr>m_db_name = db, m_action = action, m_is_list = False, m_valid = True\<rparr>" unfolding parse_path_valid by blast
    with ab show ?R by metis
  qed auto
  with list show ?thesis by (simp only: Let_def)
qed

text \<open>
  The address a request is accounted to cannot be chosen by the client: a nonempty
  \<open>X-Real-IP\<close>, which the reverse proxy overwrites, decides alone, and without it it is the last
  address of \<open>X-Forwarded-For\<close>, which the reverse proxy appended, whatever the client put before it.
\<close>

theorem client_ip_trusted:
  assumes "CHR '','' \<notin> set ip" "ip \<noteq> []" "hd ip \<notin> {SPC, TAB}" "last ip \<notin> {SPC, TAB}"
    and "list_all (\<lambda>c. c = SPC \<or> c = TAB) bl" "list_all (\<lambda>c. c = SPC \<or> c = TAB) br"
    and "header ''x-real-ip'' = Some ip \<or> header ''x-real-ip'' = None \<and> header ''x-forwarded-for'' = Some (spoofed @ CHR '','' # bl @ ip @ br)"
  shows "extract_client_ip header remote_addr = ip"
proof -
  let ?P = "\<lambda>c. c = SPC \<or> c = TAB" and ?x = "spoofed @ CHR '','' # bl @ ip @ br"
  have "CHR '','' \<notin> set b" if "list_all ?P b" for b using that by (induction b) auto
  then have "CHR '','' \<notin> set (bl @ ip @ br)" using assms(1,5,6) by simp
  then have r: "c_strrchr ?x (CHR '','') = Some (length spoofed)" by (rule c_strrchr_split)
  have "\<not> list_all ?P (bl @ ip @ br)" using assms(2,3) by (cases ip) auto
  moreover have "rev (dropWhile ?P (rev (dropWhile ?P (bl @ ip @ br)))) = ip"
    by (rule trim_both [OF assms(5,6,2)]) (use assms(3,4) in simp_all)
  ultimately have t: "trim_blanks (bl @ ip @ br) = Some ip" unfolding trim_blanks_def Let_def by simp
  have d: "drop (length spoofed + 1) ?x = bl @ ip @ br" by simp
  show ?thesis using assms(7)
  proof (elim disjE)
    assume "header ''x-real-ip'' = Some ip"
    then show ?thesis using assms(2) unfolding extract_client_ip_def Let_def by simp
  next
    assume h: "header ''x-real-ip'' = None \<and> header ''x-forwarded-for'' = Some ?x"
    have ne: "?x \<noteq> []" by simp
    show ?thesis unfolding extract_client_ip_def Let_def
      by (simp only: h r d t option.case ne if_True not_False_eq_True)
  qed
qed

theorem client_ip_trusted_witness:
  "extract_client_ip [''x-forwarded-for'' \<mapsto> ''6.6.6.6, 10.1.2.3 ''] ''127.0.0.1'' = ''10.1.2.3''"
  by (rule client_ip_trusted [where spoofed = "''6.6.6.6''" and bl = "'' ''" and br = "'' ''"]) simp_all

end
