(* ===== verification/Diod_Pg.thy ===== *)
theory Diod_Pg
  imports Diod_Sql Diod_Routing Diod_Machine "HOL-Library.Multiset"
begin

text \<open>
  The PostgreSQL executor (\<open>db_query_executor_postgres.cpp\<close>): the text form of the bind parameters, the
  connection pool under any interleaving of queries, and what a query answers. The answers of libpq
  are parameters: whether a connection attempt succeeds, whether a connection is still usable when it is
  given back, and the result of a statement with its values already converted to JSON.
\<close>

section \<open>Bind parameters\<close>

text \<open>
  \<open>std::to_string\<close> of a finite double, given by its 64 bits: sign, integer part and six decimals, rounded
  half to even.
\<close>

definition round_half_even :: "nat \<Rightarrow> nat \<Rightarrow> nat" where
  "round_half_even n d =
     (let q = n div d; r = n mod d in if 2 * r > d \<or> 2 * r = d \<and> odd q then q + 1 else q)"

definition double_scaled :: "nat \<Rightarrow> nat" where
  "double_scaled bits =
     (let e = bits div 2 ^ 52 mod 2048; f = bits mod 2 ^ 52;
          m = (if e = 0 then f else f + 2 ^ 52); x = (if e = 0 then 1 else e)
      in if x \<ge> 1075 then m * 2 ^ (x - 1075) * 10 ^ 6 else round_half_even (m * 10 ^ 6) (2 ^ (1075 - x)))"

definition six_digits :: "nat \<Rightarrow> string" where
  "six_digits n = (let s = dec_str n in replicate (6 - length s) (CHR ''0'') @ s)"

definition to_string_double :: "nat \<Rightarrow> string" where
  "to_string_double bits =
     (let s = double_scaled bits
      in (if bits div 2 ^ 63 mod 2 = 1 then ''-'' else []) @ dec_str (s div 10 ^ 6) @ ''.'' @ six_digits (s mod 10 ^ 6))"

text \<open>The value pointer of a parameter, null for a JSON null; a text is passed up to its first zero byte.\<close>

fun bind_value :: "json \<Rightarrow> string option" where
  "bind_value JNull = None"
| "bind_value (JBool b) = Some (if b then ''t'' else ''f'')"
| "bind_value (JInt n) = Some (format_int (to_int64 n))"
| "bind_value (JFloat bits) = Some (to_string_double bits)"
| "bind_value (JString s) = Some (takeWhile (\<lambda>c. c \<noteq> CHR 0x00) s)"
| "bind_value _ = None"

definition bind_params :: "json \<Rightarrow> string option list" where
  "bind_params params = (case params of JObject m \<Rightarrow> map (\<lambda>(name, v). bind_value v) m | _ \<Rightarrow> [])"

section \<open>The answer of a query\<close>

record pg_result =
  pr_tuples_ok :: bool
  pr_message :: string
  pr_columns :: "(string \<times> string) list"
  pr_rows :: "json list"

definition set_timeout_failed :: "string \<Rightarrow> int \<times> json" where
  "set_timeout_failed timeout_error = make_db_sql_error (''Failed to set statement timeout: '' @ timeout_error)"

definition build_query_response :: "string \<Rightarrow> json \<Rightarrow> DbRowCollector \<Rightarrow> int \<Rightarrow> json" where
  "build_query_response db columns_json rows duration_ms =
     make_db_query_response db columns_json (JArray (rc_rows rows)) (length (rc_rows rows)) (rc_truncated rows) duration_ms"

definition execute_query :: "string \<Rightarrow> bool \<Rightarrow> string \<Rightarrow> pg_result \<Rightarrow> int \<Rightarrow> int \<Rightarrow> int \<times> json" where
  "execute_query db acquired timeout_error res max_rows duration_ms =
     (if \<not> acquired then make_db_unavailable []
      else if timeout_error \<noteq> [] then set_timeout_failed timeout_error
      else if \<not> pr_tuples_ok res then make_db_sql_error (pr_message res)
      else if pr_columns res = [] then make_db_sql_error ''Statement returned no result set''
      else (200, build_query_response db (make_db_columns_json (pr_columns res))
              (collect (pr_rows res) (new_DbRowCollector (unat (word_of_int max_rows :: u64)))) duration_ms))"

definition pg_ping :: "bool \<Rightarrow> string \<Rightarrow> bool \<Rightarrow> bool" where
  "pg_ping acquired timeout_error tuples_ok \<longleftrightarrow> acquired \<and> timeout_error = [] \<and> tuples_ok"

section \<open>The connection pool\<close>

text \<open>
  A thread that runs a query or a ping: before the first critical section of \<open>acquire_conn\<close>, connecting
  outside of the lock, about to give back its slot after a failed attempt or a broken connection, using a
  connection, or finished. Connections are numbered; the open ones are remembered.
\<close>

datatype pg_user = Acquiring | Connecting | GivingUp | Using nat | Broken | Finished bool

record pg_pool =
  m_idle :: "nat list"
  m_total :: nat
  pool_max :: nat
  pg_users :: "pg_user list"
  pg_open :: "nat set"
  pg_next :: nat

definition new_pg_pool :: "int \<Rightarrow> pg_pool" where
  "new_pg_pool m_pool_max =
     \<lparr>m_idle = [], m_total = 0, pool_max = unat (word_of_int m_pool_max :: u64), pg_users = [], pg_open = {}, pg_next = 0\<rparr>"

definition pg_user_becomes :: "nat \<Rightarrow> pg_user \<Rightarrow> pg_pool \<Rightarrow> pg_pool" where
  "pg_user_becomes i u s = s\<lparr>pg_users := (pg_users s)[i := u]\<rparr>"

definition acquire_locked :: "nat \<Rightarrow> pg_pool \<Rightarrow> pg_pool" where
  "acquire_locked i s =
     (if m_idle s \<noteq> [] then pg_user_becomes i (Using (last (m_idle s))) (s\<lparr>m_idle := butlast (m_idle s)\<rparr>)
      else if m_total s \<ge> pool_max s then pg_user_becomes i (Finished False) s
      else pg_user_becomes i Connecting (s\<lparr>m_total := m_total s + 1\<rparr>))"

definition connected :: "nat \<Rightarrow> pg_pool \<Rightarrow> pg_pool" where
  "connected i s = pg_user_becomes i (Using (pg_next s)) (s\<lparr>pg_open := insert (pg_next s) (pg_open s), pg_next := pg_next s + 1\<rparr>)"

definition free_slot :: "nat \<Rightarrow> bool \<Rightarrow> pg_pool \<Rightarrow> pg_pool" where
  "free_slot i r s = pg_user_becomes i (Finished r) (s\<lparr>m_total := (if m_total s > 0 then m_total s - 1 else m_total s)\<rparr>)"

definition release_ok :: "nat \<Rightarrow> nat \<Rightarrow> pg_pool \<Rightarrow> pg_pool" where
  "release_ok i conn s = pg_user_becomes i (Finished True) (s\<lparr>m_idle := m_idle s @ [conn]\<rparr>)"

definition release_broken :: "nat \<Rightarrow> nat \<Rightarrow> pg_pool \<Rightarrow> pg_pool" where
  "release_broken i conn s = pg_user_becomes i Broken (s\<lparr>pg_open := pg_open s - {conn}\<rparr>)"

inductive pg_work :: "pg_pool \<Rightarrow> pg_pool \<Rightarrow> bool" where
  acquire: "i < length (pg_users s) \<Longrightarrow> pg_users s ! i = Acquiring \<Longrightarrow> pg_work s (acquire_locked i s)"
| connect_ok: "i < length (pg_users s) \<Longrightarrow> pg_users s ! i = Connecting \<Longrightarrow> pg_work s (connected i s)"
| connect_failed: "i < length (pg_users s) \<Longrightarrow> pg_users s ! i = Connecting \<Longrightarrow> pg_work s (pg_user_becomes i GivingUp s)"
| give_up: "i < length (pg_users s) \<Longrightarrow> pg_users s ! i = GivingUp \<Longrightarrow> pg_work s (free_slot i False s)"
| release: "i < length (pg_users s) \<Longrightarrow> pg_users s ! i = Using conn \<Longrightarrow> pg_work s (release_ok i conn s)"
| finish_conn: "i < length (pg_users s) \<Longrightarrow> pg_users s ! i = Using conn \<Longrightarrow> pg_work s (release_broken i conn s)"
| drop: "i < length (pg_users s) \<Longrightarrow> pg_users s ! i = Broken \<Longrightarrow> pg_work s (free_slot i True s)"

inductive pg_step :: "pg_pool \<Rightarrow> pg_pool \<Rightarrow> bool" where
  work: "pg_work s t \<Longrightarrow> pg_step s t"
| call: "pg_step s (s\<lparr>pg_users := pg_users s @ [Acquiring]\<rparr>)"

section \<open>Invariant of the pool\<close>

fun held :: "pg_user \<Rightarrow> nat multiset" where
  "held (Using c) = {#c#}"
| "held _ = {#}"

fun slots :: "pg_user \<Rightarrow> nat" where
  "slots Connecting = 1"
| "slots GivingUp = 1"
| "slots (Using _) = 1"
| "slots Broken = 1"
| "slots _ = 0"

definition pg_inv :: "pg_pool \<Rightarrow> bool" where
  "pg_inv s \<longleftrightarrow> m_total s = length (m_idle s) + sum_list (map slots (pg_users s)) \<and> m_total s \<le> pool_max s
     \<and> finite (pg_open s) \<and> mset (m_idle s) + sum_list (map held (pg_users s)) = mset_set (pg_open s)
     \<and> (\<forall>c \<in> pg_open s. c < pg_next s)"

lemma user_change:
  assumes "i < length us" "us ! i = u"
  shows "sum_list (map slots (us[i := v])) + slots u = sum_list (map slots us) + slots v"
    "sum_list (map held (us[i := v])) + held u = sum_list (map held us) + held v"
  using sum_list_update_eq [of i us slots v] sum_list_update_eq [of i us held v] assms by simp_all

lemma pg_inv_change:
  assumes "pg_inv s" "i < length (pg_users s)" "pg_users s ! i = u"
    and "length idle' + slots v + m_total s = length (m_idle s) + slots u + total'" "total' \<le> pool_max s"
    and "mset idle' + held v + mset_set (pg_open s) = mset (m_idle s) + held u + mset_set open'" "finite open'"
    and "\<forall>c \<in> open'. c < next'"
  shows "pg_inv (s\<lparr>m_idle := idle', m_total := total', pg_users := (pg_users s)[i := v], pg_open := open', pg_next := next'\<rparr>)"
proof -
  note ch = user_change [OF assms(2,3), of v]
  have "mset idle' + sum_list (map held ((pg_users s)[i := v])) + (held u + mset (m_idle s))
      = mset idle' + held v + (mset (m_idle s) + sum_list (map held (pg_users s)))"
    using ch(2) by (simp add: add.assoc add.commute add.left_commute)
  also have "\<dots> = mset idle' + held v + mset_set (pg_open s)" using assms(1) by (simp add: pg_inv_def)
  also have "\<dots> = mset_set open' + (held u + mset (m_idle s))" using assms(6) by (simp add: ac_simps)
  finally have "mset idle' + sum_list (map held ((pg_users s)[i := v])) = mset_set open'" by simp
  then show ?thesis using assms ch(1) by (simp add: pg_inv_def)
qed

lemma pg_inv_acquire:
  assumes "pg_inv s" "i < length (pg_users s)" "pg_users s ! i = Acquiring"
  shows "pg_inv (acquire_locked i s)"
proof (cases "m_idle s = []")
  case True
  then show ?thesis
    using pg_inv_change [OF assms, of "m_idle s" "Finished False" "m_total s" "pg_open s" "pg_next s"]
      pg_inv_change [OF assms, of "m_idle s" Connecting "m_total s + 1" "pg_open s" "pg_next s"] assms(1)
    by (auto simp: acquire_locked_def pg_user_becomes_def pg_inv_def)
next
  case False
  then have "mset (m_idle s) = mset (butlast (m_idle s)) + {#last (m_idle s)#}"
    by (metis append_butlast_last_id mset.simps mset_append)
  then show ?thesis
    using False pg_inv_change [OF assms, of "butlast (m_idle s)" "Using (last (m_idle s))" "m_total s" "pg_open s" "pg_next s"] assms(1)
    by (auto simp: acquire_locked_def pg_user_becomes_def pg_inv_def)
qed

lemma pg_inv_connected:
  assumes "pg_inv s" "i < length (pg_users s)" "pg_users s ! i = Connecting"
  shows "pg_inv (connected i s)"
proof -
  have "pg_next s \<notin> pg_open s" "\<forall>c \<in> insert (pg_next s) (pg_open s). c < pg_next s + 1"
    using assms(1) by (auto simp: pg_inv_def less_SucI)
  then show ?thesis
    using pg_inv_change [OF assms, of "m_idle s" "Using (pg_next s)" "m_total s" "insert (pg_next s) (pg_open s)" "pg_next s + 1"] assms(1)
    by (auto simp: connected_def pg_user_becomes_def pg_inv_def)
qed

lemma in_use_open:
  assumes "pg_inv s" "i < length (pg_users s)" "pg_users s ! i = Using conn"
  shows "conn \<in> pg_open s"
proof -
  have "conn \<in># held (pg_users s ! i)" using assms(3) by simp
  then have "conn \<in># sum_list (map held (pg_users s))"
    using assms(2) by (simp add: sum_mset_sum_list [symmetric]) (metis nth_mem assms(3))
  then show ?thesis using assms(1) unfolding pg_inv_def by (metis elem_mset_set union_iff)
qed

lemma pg_inv_release:
  assumes "pg_inv s" "i < length (pg_users s)" "pg_users s ! i = Using conn"
  shows "pg_inv (release_ok i conn s)" "pg_inv (release_broken i conn s)"
proof -
  show "pg_inv (release_ok i conn s)"
    using pg_inv_change [OF assms, of "m_idle s @ [conn]" "Finished True" "m_total s" "pg_open s" "pg_next s"] assms(1)
    by (auto simp: release_ok_def pg_user_becomes_def pg_inv_def)
  have "mset_set (pg_open s) = mset_set (pg_open s - {conn}) + {#conn#}"
    using in_use_open [OF assms] assms(1) by (simp add: pg_inv_def mset_set.remove)
  then show "pg_inv (release_broken i conn s)"
    using pg_inv_change [OF assms, of "m_idle s" Broken "m_total s" "pg_open s - {conn}" "pg_next s"] assms(1)
    by (auto simp: release_broken_def pg_user_becomes_def pg_inv_def)
qed

lemma total_pos:
  assumes "pg_inv s" "i < length (pg_users s)" "slots (pg_users s ! i) = 1"
  shows "0 < m_total s"
proof -
  have "1 \<in> set (map slots (pg_users s))" using assms(2,3) by (metis length_map nth_map nth_mem)
  then show ?thesis using assms(1) member_le_sum_list [of 1 "map slots (pg_users s)"] by (simp add: pg_inv_def)
qed

lemma pg_inv_free:
  assumes "pg_inv s" "i < length (pg_users s)" "pg_users s ! i \<in> {GivingUp, Broken}"
  shows "pg_inv (free_slot i r s)"
proof -
  have pos: "0 < m_total s" using total_pos [OF assms(1,2)] assms(3) by auto
  then have eq: "free_slot i r s = s\<lparr>m_idle := m_idle s, m_total := m_total s - 1, pg_users := (pg_users s)[i := Finished r],
      pg_open := pg_open s, pg_next := pg_next s\<rparr>" by (simp add: free_slot_def pg_user_becomes_def)
  show ?thesis unfolding eq
    by (rule pg_inv_change [OF assms(1,2) refl]) (use assms(1,3) pos in \<open>auto simp: pg_inv_def\<close>)
qed

lemma pg_inv_step: "pg_step s t \<Longrightarrow> pg_inv s \<Longrightarrow> pg_inv t"
proof (induction rule: pg_step.induct)
  case (work s t)
  then show ?case
  proof (induction rule: pg_work.induct)
    case (connect_failed i s)
    then show ?case using pg_inv_change [OF connect_failed(3,1,2), of "m_idle s" GivingUp "m_total s" "pg_open s" "pg_next s"]
      by (auto simp: pg_user_becomes_def pg_inv_def)
  qed (auto intro: pg_inv_acquire pg_inv_connected pg_inv_release pg_inv_free)
next
  case (call s)
  then show ?case by (simp add: pg_inv_def)
qed

lemma pg_inv_new: "pg_inv (new_pg_pool m)"
  by (simp add: pg_inv_def new_pg_pool_def)

interpretation pg: transitions pg_step pg_inv
  by unfold_locales (rule pg_inv_step)

section \<open>Progress\<close>

fun pg_weight :: "pg_user \<Rightarrow> nat" where
  "pg_weight Acquiring = 4"
| "pg_weight Connecting = 3"
| "pg_weight GivingUp = 1"
| "pg_weight (Using _) = 2"
| "pg_weight Broken = 1"
| "pg_weight (Finished _) = 0"

lemma pg_weight_change:
  assumes "i < length us" "pg_weight v < pg_weight (us ! i)"
  shows "sum_list (map pg_weight (us[i := v])) < sum_list (map pg_weight us)"
  using sum_list_update_eq [OF assms(1), of pg_weight v] assms(2) by linarith

lemma pg_work_decreases: "pg_work s t \<Longrightarrow> sum_list (map pg_weight (pg_users t)) < sum_list (map pg_weight (pg_users s))"
  by (induction rule: pg_work.induct)
    (auto simp: acquire_locked_def pg_user_becomes_def connected_def free_slot_def release_ok_def release_broken_def
      intro!: pg_weight_change)

lemma pg_finishes: "\<nexists>f. f 0 = s \<and> (\<forall>k. pg_work (f k) (f (Suc k)))"
proof
  assume "\<exists>f. f 0 = s \<and> (\<forall>k. pg_work (f k) (f (Suc k)))"
  then obtain f where f: "\<forall>k. pg_work (f k) (f (Suc k))" by blast
  have "\<forall>k. (f (Suc k), f k) \<in> measure (\<lambda>s. sum_list (map pg_weight (pg_users s)))"
    using f pg_work_decreases by (simp add: measure_def inv_image_def less_than_def less_eq)
  then show False using wf_measure wf_iff_no_infinite_down_chain by metis
qed

lemma pg_stuck:
  assumes "\<nexists>t. pg_work s t"
  shows "set (pg_users s) \<subseteq> range Finished"
proof
  fix u assume "u \<in> set (pg_users s)"
  then obtain i where "i < length (pg_users s)" "pg_users s ! i = u" by (auto simp: in_set_conv_nth)
  then show "u \<in> range Finished" using assms by (cases u) (auto intro: pg_work.intros)
qed

text \<open>
  Property C9. The connection pool is sound under any interleaving of queries: the number of connections, with those that
  are being opened or closed, never exceeds the limit, the counter is exact, no connection is given to two
  threads at once or is both idle and in use, a closed connection is never given out, no thread waits for ever,
  and when the threads are done every connection that is open is idle in the pool.
\<close>
theorem pg_pool_sound:
  assumes "pg_step\<^sup>*\<^sup>* (new_pg_pool m_pool_max) s"
  shows "m_total s = length (m_idle s) + sum_list (map slots (pg_users s))
       \<and> m_total s \<le> unat (word_of_int m_pool_max :: u64)
       \<and> mset (m_idle s) + sum_list (map held (pg_users s)) = mset_set (pg_open s)
       \<and> (\<nexists>f. f 0 = s \<and> (\<forall>k. pg_work (f k) (f (Suc k))))
       \<and> ((\<nexists>t. pg_work s t) \<longrightarrow> set (pg_users s) \<subseteq> range Finished \<and> m_total s = length (m_idle s) \<and> set (m_idle s) = pg_open s)"
proof -
  have inv: "pg_inv s" using pg.inv_reach [OF assms pg_inv_new] .
  have "pool_max t = pool_max s" if "pg_step s t" for s t using that
    by (induction rule: pg_step.induct)
      (auto elim!: pg_work.cases simp: acquire_locked_def pg_user_becomes_def connected_def free_slot_def release_ok_def release_broken_def)
  with assms have "pool_max s = unat (word_of_int m_pool_max :: u64)"
    by (induction rule: rtranclp_induct) (simp_all add: new_pg_pool_def)
  moreover have "sum_list (map slots us) = 0 \<and> sum_list (map held us) = {#}" if "set us \<subseteq> range Finished" for us
    using that by (induction us) auto
  ultimately show ?thesis using inv pg_finishes [of s] pg_stuck [of s]
    by (auto simp: pg_inv_def) (metis empty_neutral(2) finite_set_mset_mset_set set_mset_mset)+
qed

theorem pg_pool_sound_witness:
  "let s = acquire_locked 0 ((new_pg_pool 1)\<lparr>pg_users := [Acquiring]\<rparr>)
   in pg_users s = [Connecting] \<and> m_total s = length (m_idle s) + sum_list (map slots (pg_users s)) \<and> m_total s \<le> 1"
proof -
  let ?s = "(new_pg_pool 1)\<lparr>pg_users := [Acquiring]\<rparr>"
  have "pg_step (new_pg_pool 1) ?s" using pg_step.call [of "new_pg_pool 1"] by (simp add: new_pg_pool_def)
  moreover have "pg_step ?s (acquire_locked 0 ?s)" by (intro pg_step.work pg_work.acquire) simp_all
  ultimately have "pg_step\<^sup>*\<^sup>* (new_pg_pool 1) (acquire_locked 0 ?s)"
    by (metis (no_types) r_into_rtranclp rtranclp.rtrancl_into_rtrancl)
  from pg_pool_sound [OF this] show ?thesis
    by (simp add: Let_def acquire_locked_def new_pg_pool_def pg_user_becomes_def)
qed

section \<open>Rows and parameters\<close>

lemma collect_rows:
  assumes "length acc \<le> n"
  shows "collect rows \<lparr>rc_max_rows = n, rc_rows = acc, rc_truncated = False\<rparr>
    = \<lparr>rc_max_rows = n, rc_rows = take n (acc @ rows), rc_truncated = (length (acc @ rows) > n)\<rparr>"
  using assms
proof (induction rows arbitrary: acc)
  case (Cons row rows)
  show ?case
  proof (cases "length acc < n")
    case True
    then show ?thesis using Cons.IH [of "acc @ [row]"] by (simp add: try_add_def)
  next
    case False
    then show ?thesis using Cons.prems by (simp add: try_add_def)
  qed
qed simp

text \<open>
  Property C10. A result set is cut at the row limit and says so: the answer holds the first rows of the result, no more
  than the limit, in their order, their number, and the mark that rows are missing exactly when there were more.
\<close>
theorem db_rows_bounded:
  assumes "0 < max_rows" "c_int_ok max_rows" "pr_tuples_ok res" "pr_columns res \<noteq> []"
  shows "execute_query db True [] res max_rows duration_ms =
    (200, make_db_query_response db (make_db_columns_json (pr_columns res)) (JArray (take (nat max_rows) (pr_rows res)))
       (min (nat max_rows) (length (pr_rows res))) (length (pr_rows res) > nat max_rows) duration_ms)"
proof -
  have "unat (word_of_int max_rows :: u64) = nat max_rows"
    using assms(1,2) by (simp add: unat_eq_nat_uint uint_word_of_int c_int_ok_def mod_pos_pos_trivial)
  then show ?thesis using assms(3,4) collect_rows [of "[]" "nat max_rows" "pr_rows res"]
    by (simp add: execute_query_def build_query_response_def new_DbRowCollector_def min.commute)
qed

theorem db_rows_bounded_witness:
  "execute_query ''pg'' True [] \<lparr>pr_tuples_ok = True, pr_message = [], pr_columns = [(''a'', ''INTEGER'')],
      pr_rows = [JArray [JInt 1], JArray [JInt 2], JArray [JInt 3]]\<rparr> 2 9
   = (200, make_db_query_response ''pg'' (make_db_columns_json [(''a'', ''INTEGER'')]) (JArray [JArray [JInt 1], JArray [JInt 2]]) 2 True 9)"
  by (subst db_rows_bounded) (simp_all add: c_int_ok_def numeral_2_eq_2)

text \<open>
  Bind parameters that the validation accepts can be changed on their way to the statement without an
  error: an unsigned integer above the signed range becomes negative, a small number becomes zero,
  and a text ends at its first zero byte.
\<close>
theorem pg_bind_changes:
  "request_params (JObject [(''params'', JObject [(''a'', JInt 18446744073709551615), (''b'', JFloat 0x3E7AD7F29ABCAF48),
       (''c'', JFloat 0x3FF8000000000000), (''d'', JString [CHR ''x'', CHR 0x00, CHR ''y''])])])
     = Inr (JObject [(''a'', JInt 18446744073709551615), (''b'', JFloat 0x3E7AD7F29ABCAF48),
       (''c'', JFloat 0x3FF8000000000000), (''d'', JString [CHR ''x'', CHR 0x00, CHR ''y''])])
   \<and> bind_params (JObject [(''a'', JInt 18446744073709551615), (''b'', JFloat 0x3E7AD7F29ABCAF48),
       (''c'', JFloat 0x3FF8000000000000), (''d'', JString [CHR ''x'', CHR 0x00, CHR ''y''])])
     = [Some ''-1'', Some ''0.000000'', Some ''1.500000'', Some ''x'']"
proof -
  have d: "dec_str 0 = ''0''" "dec_str 1 = ''1''" "dec_str 500000 = ''500000''"
    by (simp_all add: dec_str.simps digit_char_def char_of_def bit_Suc_0_iff)
  have a: "bind_value (JInt 18446744073709551615) = Some ''-1''"
    using d(2) by (simp add: to_int64_def format_int_def)
  have b: "double_scaled 0x3E7AD7F29ABCAF48 = 0"
    by (simp add: double_scaled_def round_half_even_def Let_def)
  have c: "double_scaled 0x3FF8000000000000 = 1500000"
    by (simp add: double_scaled_def round_half_even_def Let_def)
  have "replicate 5 (CHR ''0'') = ''00000''" by code_simp
  then show ?thesis using a b c d by (simp add: request_params_def bind_params_def to_string_double_def six_digits_def Let_def ord_def)
qed

end
