(* ===== verification/Diod_RateLimit.thy ===== *)
theory Diod_RateLimit
  imports Diod_Machine
begin

text \<open>
  The token bucket (\<open>rate_limiter.hpp\<close>). \<open>refill\<close> and \<open>acquire\<close> are the methods as one thread runs
  them; \<open>bucket_step\<close> is the same code as its atomic actions, taken by any number of threads in
  any order: the reading of the clock under the mutex, the loads, and the compare-and-exchange
  operations, which may fail spuriously; the counter that follows a successful exchange is part of its step. Clock readings are nanoseconds of the steady clock.
\<close>

record RateLimiterCounters =
  m_total_requests :: u64
  m_allowed_requests :: u64
  m_rejected_requests :: u64

definition zero_counters :: RateLimiterCounters where
  "zero_counters = \<lparr>m_total_requests = 0, m_allowed_requests = 0, m_rejected_requests = 0\<rparr>"

definition count_request :: "RateLimiterCounters \<Rightarrow> RateLimiterCounters" where
  "count_request c = c\<lparr>m_total_requests := m_total_requests c + 1\<rparr>"

definition count_allowed :: "RateLimiterCounters \<Rightarrow> RateLimiterCounters" where
  "count_allowed c = c\<lparr>m_allowed_requests := m_allowed_requests c + 1\<rparr>"

definition count_rejected :: "RateLimiterCounters \<Rightarrow> RateLimiterCounters" where
  "count_rejected c = c\<lparr>m_rejected_requests := m_rejected_requests c + 1\<rparr>"

record RateLimiter =
  m_max_tokens :: u64
  m_refill_tokens_per_second :: u64
  m_tokens :: u64
  m_last_refill :: int
  m_stats :: RateLimiterCounters

abbreviation g_rate_limiter_ms_per_second :: int where "g_rate_limiter_ms_per_second \<equiv> 1000"

definition new_RateLimiter :: "u64 \<Rightarrow> u64 \<Rightarrow> int \<Rightarrow> RateLimiter" where
  "new_RateLimiter max_tokens rate now =
     \<lparr>m_max_tokens = max_tokens, m_refill_tokens_per_second = rate, m_tokens = max_tokens,
      m_last_refill = now, m_stats = zero_counters\<rparr>"

definition refill_elapsed :: "int \<Rightarrow> RateLimiter \<Rightarrow> int" where
  "refill_elapsed now rl = duration_cast ns_per_ms (now - m_last_refill rl)"

definition refill_ticks :: "int \<Rightarrow> RateLimiter \<Rightarrow> u64" where
  "refill_ticks now rl = word_of_int (refill_elapsed now rl div g_rate_limiter_ms_per_second)"

definition refill_desired :: "u64 \<Rightarrow> u64 \<Rightarrow> RateLimiter \<Rightarrow> u64" where
  "refill_desired cur ticks rl =
     min (cur + ticks * m_refill_tokens_per_second rl) (m_max_tokens rl)"

definition advance_refill :: "u64 \<Rightarrow> RateLimiter \<Rightarrow> int" where
  "advance_refill ticks rl = m_last_refill rl + ns_per_ms * to_int64 (uint (ticks * 1000))"

definition refill :: "int \<Rightarrow> RateLimiter \<Rightarrow> RateLimiter" where
  "refill now rl =
     (if refill_elapsed now rl \<ge> g_rate_limiter_ms_per_second then
        (let ticks = refill_ticks now rl
         in rl\<lparr>m_tokens := refill_desired (m_tokens rl) ticks rl, m_last_refill := advance_refill ticks rl\<rparr>)
      else rl)"

definition acquire :: "int \<Rightarrow> RateLimiter \<Rightarrow> bool \<times> RateLimiter" where
  "acquire now rl =
     (let rl1 = refill now (rl\<lparr>m_stats := count_request (m_stats rl)\<rparr>);
          expected = m_tokens rl1
      in if expected > 0 then (True, rl1\<lparr>m_tokens := expected - 1, m_stats := count_allowed (m_stats rl1)\<rparr>)
         else (False, rl1\<lparr>m_stats := count_rejected (m_stats rl1)\<rparr>))"

definition available_tokens :: "RateLimiter \<Rightarrow> u64" where "available_tokens rl = m_tokens rl"
definition max_tokens :: "RateLimiter \<Rightarrow> u64" where "max_tokens rl = m_max_tokens rl"
definition refill_rate :: "RateLimiter \<Rightarrow> u64" where "refill_rate rl = m_refill_tokens_per_second rl"

section \<open>Threads\<close>

text \<open>
  Where a thread is in \<open>acquire\<close>. \<open>Refilling cur ticks\<close> holds the mutex, in the loop that stores the
  refilled count; \<open>Taking expected\<close> is in the loop that takes a token. The clock only goes forward.
  \<open>sys_granted\<close> counts the calls that took a token.
\<close>

datatype pc = Idle | Locking | Refilling u64 u64 | Loading | Taking u64

record bucket_sys =
  sys_rl :: RateLimiter
  sys_mutex :: "nat option"
  sys_pc :: "nat \<Rightarrow> pc"
  sys_now :: int
  sys_granted :: nat

definition bucket_start :: "u64 \<Rightarrow> u64 \<Rightarrow> int \<Rightarrow> bucket_sys" where
  "bucket_start burst rate t0 =
     \<lparr>sys_rl = new_RateLimiter burst rate t0, sys_mutex = None, sys_pc = (\<lambda>_. Idle), sys_now = t0, sys_granted = 0\<rparr>"

abbreviation at :: "nat \<Rightarrow> pc \<Rightarrow> bucket_sys \<Rightarrow> bucket_sys" where
  "at i p s \<equiv> s\<lparr>sys_pc := (sys_pc s)(i := p)\<rparr>"

abbreviation stats :: "(RateLimiterCounters \<Rightarrow> RateLimiterCounters) \<Rightarrow> RateLimiter \<Rightarrow> RateLimiter" where
  "stats f rl \<equiv> rl\<lparr>m_stats := f (m_stats rl)\<rparr>"

inductive bucket_step :: "bucket_sys \<Rightarrow> bucket_sys \<Rightarrow> bool" where
  clock: "sys_now s \<le> t \<Longrightarrow> t < 2 ^ 63 \<Longrightarrow> bucket_step s (s\<lparr>sys_now := t\<rparr>)"
| call: "sys_pc s i = Idle \<Longrightarrow>
    bucket_step s (at i Locking (s\<lparr>sys_rl := stats count_request (sys_rl s)\<rparr>))"
| lock_early: "sys_pc s i = Locking \<Longrightarrow> sys_mutex s = None \<Longrightarrow>
    refill_elapsed (sys_now s) (sys_rl s) < g_rate_limiter_ms_per_second \<Longrightarrow>
    bucket_step s (at i Loading s)"
| lock_due: "sys_pc s i = Locking \<Longrightarrow> sys_mutex s = None \<Longrightarrow>
    refill_elapsed (sys_now s) (sys_rl s) \<ge> g_rate_limiter_ms_per_second \<Longrightarrow>
    bucket_step s (at i (Refilling (m_tokens (sys_rl s)) (refill_ticks (sys_now s) (sys_rl s)))
                     (s\<lparr>sys_mutex := Some i\<rparr>))"
| refill_cas: "sys_pc s i = Refilling cur ticks \<Longrightarrow> m_tokens (sys_rl s) = cur \<Longrightarrow>
    bucket_step s (at i Loading (s\<lparr>sys_mutex := None,
      sys_rl := (sys_rl s)\<lparr>m_tokens := refill_desired cur ticks (sys_rl s),
                           m_last_refill := advance_refill ticks (sys_rl s)\<rparr>\<rparr>))"
| refill_retry: "sys_pc s i = Refilling cur ticks \<Longrightarrow>
    bucket_step s (at i (Refilling (m_tokens (sys_rl s)) ticks) s)"
| load: "sys_pc s i = Loading \<Longrightarrow> m_tokens (sys_rl s) > 0 \<Longrightarrow>
    bucket_step s (at i (Taking (m_tokens (sys_rl s))) s)"
| take_cas: "sys_pc s i = Taking expected \<Longrightarrow> m_tokens (sys_rl s) = expected \<Longrightarrow>
    bucket_step s (at i Idle (s\<lparr>sys_granted := Suc (sys_granted s),
      sys_rl := stats count_allowed ((sys_rl s)\<lparr>m_tokens := expected - 1\<rparr>)\<rparr>))"
| take_retry: "sys_pc s i = Taking expected \<Longrightarrow> m_tokens (sys_rl s) > 0 \<Longrightarrow>
    bucket_step s (at i (Taking (m_tokens (sys_rl s))) s)"
| empty: "sys_pc s i = Loading \<or> sys_pc s i = Taking expected \<Longrightarrow> m_tokens (sys_rl s) = 0 \<Longrightarrow>
    bucket_step s (at i Idle (s\<lparr>sys_rl := stats count_rejected (sys_rl s)\<rparr>))"

section \<open>The budget\<close>

text \<open>
  \<open>budget s0 s\<close> relates a state to an earlier one: the tokens handed out since then and those left
  are no more than the tokens there were and the refills of the whole seconds in between.
\<close>

definition refilling_ok :: "bucket_sys \<Rightarrow> bool" where
  "refilling_ok s \<longleftrightarrow>
     (\<forall>i cur ticks. sys_pc s i = Refilling cur ticks \<longrightarrow>
        sys_mutex s = Some i \<and> uint ticks * ns_per_s \<le> sys_now s - m_last_refill (sys_rl s))
   \<and> (\<forall>i. sys_mutex s = Some i \<longrightarrow> (\<exists>cur ticks. sys_pc s i = Refilling cur ticks))
   \<and> (\<forall>i. sys_pc s i \<noteq> Taking 0)"

definition bucket_inv :: "bucket_sys \<Rightarrow> bool" where
  "bucket_inv s \<longleftrightarrow>
     0 \<le> m_last_refill (sys_rl s) \<and> m_last_refill (sys_rl s) \<le> sys_now s \<and> sys_now s < 2 ^ 63
   \<and> m_tokens (sys_rl s) \<le> m_max_tokens (sys_rl s)
   \<and> m_allowed_requests (m_stats (sys_rl s)) = of_nat (sys_granted s) \<and> refilling_ok s"

definition budget :: "bucket_sys \<Rightarrow> bucket_sys \<Rightarrow> bool" where
  "budget s0 s \<longleftrightarrow>
     m_max_tokens (sys_rl s) = m_max_tokens (sys_rl s0)
   \<and> m_refill_tokens_per_second (sys_rl s) = m_refill_tokens_per_second (sys_rl s0)
   \<and> (\<exists>k \<ge> 0. m_last_refill (sys_rl s) = m_last_refill (sys_rl s0) + k * ns_per_s
        \<and> int (sys_granted s) + uint (m_tokens (sys_rl s))
          \<le> int (sys_granted s0) + uint (m_tokens (sys_rl s0))
            + uint (m_refill_tokens_per_second (sys_rl s0)) * k)"

lemma uint_refill_desired:
  "uint (refill_desired cur ticks rl)
     \<le> uint cur + uint (m_refill_tokens_per_second rl) * uint ticks"
proof -
  have "uint (cur + ticks * m_refill_tokens_per_second rl)
        \<le> uint cur + uint (ticks * m_refill_tokens_per_second rl)" by (rule uint_add_le)
  also have "uint (ticks * m_refill_tokens_per_second rl) \<le> uint ticks * uint (m_refill_tokens_per_second rl)"
    by (simp add: uint_word_arith_bintrs(3) take_bit_eq_mod zmod_le_nonneg_dividend)
  finally show ?thesis by (simp add: refill_desired_def min_def word_le_def mult.commute)
qed

lemma refill_ticks_bound:
  assumes "0 \<le> m_last_refill rl" "m_last_refill rl \<le> now"
  shows "uint (refill_ticks now rl) * ns_per_s \<le> now - m_last_refill rl"
proof -
  let ?d = "now - m_last_refill rl"
  have "uint (refill_ticks now rl) \<le> ?d div ns_per_ms div 1000"
    using assms by (simp add: refill_ticks_def refill_elapsed_def uint_word_of_int take_bit_eq_mod zmod_le_nonneg_dividend pos_imp_zdiv_nonneg_iff)
  also have "\<dots> = ?d div ns_per_s" by (simp add: zdiv_zmult2_eq [symmetric])
  finally show ?thesis using div_mult_le_int [of ns_per_s ?d] by (simp; linarith)
qed

lemma advance_refill_eq:
  assumes "uint ticks * ns_per_s \<le> d" "d < 2 ^ 63"
  shows "advance_refill ticks rl = m_last_refill rl + uint ticks * ns_per_s"
proof -
  have "uint ticks * 1000 < 2 ^ 63" using assms uint_ge_0 [of ticks] by (simp; linarith)
  moreover from this have "uint (ticks * 1000) = uint ticks * 1000"
    by (simp add: uint_word_ariths)
  moreover have "to_int64 (uint ticks * 1000) = uint ticks * 1000" using calculation(1) by (intro to_int64_id) (simp_all add: order_trans [OF _ mult_nonneg_nonneg])
  ultimately show ?thesis by (simp only: advance_refill_def)
qed

lemma uint_pred: "x \<noteq> 0 \<Longrightarrow> uint (x - 1 :: u64) = uint x - 1"
  using uint_sub_lem [of 1 x] uint_0_iff [of x] uint_ge_0 [of x] by (simp; linarith)

lemma refill_desired_max: "refill_desired cur ticks rl \<le> m_max_tokens rl"
  by (simp add: refill_desired_def)

lemmas bucket_defs = bucket_inv_def refilling_ok_def count_request_def count_allowed_def count_rejected_def

lemma refilling_holder: "bucket_inv s \<Longrightarrow> sys_pc s i = Refilling cur ticks \<Longrightarrow> sys_mutex s = Some i"
  by (simp add: bucket_defs)

lemma one_refilling:
  "bucket_inv s \<Longrightarrow> sys_pc s i = Refilling cur ticks \<Longrightarrow> j \<noteq> i \<Longrightarrow> sys_pc s j \<noteq> Refilling c k"
  using refilling_holder [of s j c k] refilling_holder [of s i cur ticks] by auto

lemma bucket_inv_step: "bucket_step s t \<Longrightarrow> bucket_inv s \<Longrightarrow> bucket_inv t"
proof (induction rule: bucket_step.induct)
  case (clock s t)
  then show ?case by (force simp: bucket_defs)
next
  case (lock_due s i)
  then show ?case using refill_ticks_bound [of "sys_rl s" "sys_now s"] by (simp add: bucket_defs)
next
  case (refill_cas s i cur ticks)
  then have a: "advance_refill ticks (sys_rl s) = m_last_refill (sys_rl s) + uint ticks * ns_per_s"
    and d: "uint ticks * ns_per_s \<le> sys_now s - m_last_refill (sys_rl s)"
    using advance_refill_eq [of ticks "sys_now s - m_last_refill (sys_rl s)"] by (simp_all add: bucket_defs)
  note others = one_refilling [OF refill_cas(3,1)]
  have "sys_pc s j \<noteq> Taking 0" for j using refill_cas(3) by (simp add: bucket_defs)
  with others have "refilling_ok (at i Loading (s\<lparr>sys_mutex := None, sys_rl := rl\<rparr>))" for rl
    by (simp add: refilling_ok_def)
  with refill_cas(3) a d uint_ge_0 [of ticks] show ?case
    by (simp add: bucket_inv_def refill_desired_max)
next
  case (refill_retry s i cur ticks)
  then show ?case using one_refilling [OF refill_retry(2,1)] by (auto simp: bucket_defs)
next
  case (take_cas s i expected)
  then have "expected \<noteq> 0" by (auto simp: bucket_defs)
  with take_cas show ?case using uint_pred [of expected]
    by (auto simp: bucket_defs word_le_def)
qed (auto simp: bucket_defs)

lemma budget_step:
  assumes "bucket_step s t" "bucket_inv s" "budget s0 s"
  shows "budget s0 t"
  using assms
proof (induction rule: bucket_step.induct)
  case (refill_cas s i cur ticks)
  then obtain k where k: "0 \<le> k" "m_last_refill (sys_rl s) = m_last_refill (sys_rl s0) + k * ns_per_s"
    "int (sys_granted s) + uint (m_tokens (sys_rl s)) \<le> int (sys_granted s0) + uint (m_tokens (sys_rl s0))
            + uint (m_refill_tokens_per_second (sys_rl s0)) * k" by (auto simp: budget_def)
  have a: "advance_refill ticks (sys_rl s) = m_last_refill (sys_rl s) + uint ticks * ns_per_s"
    using refill_cas advance_refill_eq [of ticks "sys_now s - m_last_refill (sys_rl s)"] by (simp add: bucket_defs)
  from refill_cas(2) uint_refill_desired [of cur ticks "sys_rl s"] k refill_cas(4)
  have "int (sys_granted s) + uint (refill_desired cur ticks (sys_rl s))
     \<le> int (sys_granted s0) + uint (m_tokens (sys_rl s0)) + uint (m_refill_tokens_per_second (sys_rl s0)) * (k + uint ticks)"
    by (simp add: budget_def distrib_left)
  with refill_cas(4) k a show ?case
    by (simp add: budget_def) (rule exI [of _ "k + uint ticks"], simp add: distrib_right)
next
  case (take_cas s i expected)
  then have "expected \<noteq> 0" by (auto simp: bucket_defs)
  then have "uint (expected - 1) = uint expected - 1" by (rule uint_pred)
  with take_cas show ?case by (auto simp: budget_def)
qed (auto simp: budget_def)

interpretation bucket: transitions bucket_step bucket_inv
  by unfold_locales (rule bucket_inv_step)

interpretation bucket_budget: transitions bucket_step "\<lambda>s. bucket_inv s \<and> budget s0 s" for s0
  by unfold_locales (auto intro: bucket_inv_step budget_step)

lemma bucket_inv_start: "0 \<le> t0 \<Longrightarrow> t0 < 2 ^ 63 \<Longrightarrow> bucket_inv (bucket_start burst rate t0)"
  by (simp add: bucket_defs bucket_start_def new_RateLimiter_def zero_counters_def)

lemma budget_refl: "budget s s"
  by (auto simp: budget_def)

section \<open>Progress\<close>

abbreviation reaches :: "bucket_sys \<Rightarrow> bucket_sys \<Rightarrow> bool" where
  "reaches \<equiv> bucket_step\<^sup>*\<^sup>*"

text \<open>A thread alone completes its part: the refill, and taking a token or being refused.\<close>

lemma finish_refill:
  assumes "sys_pc s i = Refilling cur ticks"
  shows "\<exists>t. reaches s t \<and> sys_pc t = (sys_pc s)(i := Loading) \<and> sys_mutex t = None \<and> sys_now t = sys_now s"
proof -
  let ?u = "at i (Refilling (m_tokens (sys_rl s)) ticks) s"
  let ?t = "at i Loading (?u\<lparr>sys_mutex := None,
      sys_rl := (sys_rl ?u)\<lparr>m_tokens := refill_desired (m_tokens (sys_rl s)) ticks (sys_rl ?u),
                           m_last_refill := advance_refill ticks (sys_rl ?u)\<rparr>\<rparr>)"
  have "bucket_step s ?u" using assms by (rule refill_retry)
  moreover have "bucket_step ?u ?t" by (rule refill_cas) simp_all
  ultimately have "reaches s ?t" by (meson r_into_rtranclp rtranclp.rtrancl_into_rtrancl)
  then show ?thesis by (intro exI [of _ ?t]) simp
qed

lemma finish_take:
  assumes "sys_pc s i = Loading \<or> sys_pc s i = Taking expected"
  shows "\<exists>t. reaches s t \<and> sys_pc t i = Idle"
proof (cases "m_tokens (sys_rl s) = 0")
  case True
  with assms have "bucket_step s (at i Idle (s\<lparr>sys_rl := stats count_rejected (sys_rl s)\<rparr>))" by (rule empty)
  then show ?thesis by (intro exI conjI, rule r_into_rtranclp) auto
next
  case False
  let ?u = "at i (Taking (m_tokens (sys_rl s))) s"
  have "bucket_step s ?u"
    using assms False load [of s i] take_retry [of s i expected] by (auto simp: word_neq_0_conv)
  moreover have "bucket_step ?u (at i Idle (?u\<lparr>sys_granted := Suc (sys_granted ?u),
      sys_rl := stats count_allowed ((sys_rl ?u)\<lparr>m_tokens := m_tokens (sys_rl s) - 1\<rparr>)\<rparr>))" (is "bucket_step _ ?t")
    by (rule take_cas) simp_all
  ultimately have "reaches s ?t" by (meson r_into_rtranclp rtranclp.rtrancl_into_rtrancl)
  then show ?thesis by (intro exI [of _ ?t]) simp
qed

lemma lock_free:
  assumes "sys_pc s i = Locking" "sys_mutex s = None"
  shows "\<exists>t. reaches s t \<and> sys_pc t i = Loading"
proof (cases "refill_elapsed (sys_now s) (sys_rl s) < g_rate_limiter_ms_per_second")
  case True
  with assms have "bucket_step s (at i Loading s)" by (rule lock_early)
  then show ?thesis by (intro exI [of _ "at i Loading s"]) auto
next
  case False
  with assms have "bucket_step s (at i (Refilling (m_tokens (sys_rl s)) (refill_ticks (sys_now s) (sys_rl s)))
                     (s\<lparr>sys_mutex := Some i\<rparr>))" (is "bucket_step s ?u") by (intro lock_due) auto
  moreover obtain t where "reaches ?u t" "sys_pc t i = Loading"
    using finish_refill [of ?u i] by auto
  ultimately show ?thesis by (meson converse_rtranclp_into_rtranclp)
qed

lemma call_can_finish:
  assumes "bucket_inv s"
  shows "\<exists>t. reaches s t \<and> sys_pc t i = Idle"
proof -
  have loading: "\<exists>t. reaches s t \<and> sys_pc t i = Idle" if "reaches s u" "sys_pc u i = Loading" for u
    using that finish_take [of u i] by (meson rtranclp_trans)
  show ?thesis
  proof (cases "sys_pc s i")
    case Locking
    obtain u where u: "reaches s u" "sys_pc u i = Locking" "sys_mutex u = None"
    proof (cases "sys_mutex s")
      case (Some h)
      with assms obtain cur ticks where h: "sys_pc s h = Refilling cur ticks" by (auto simp: bucket_defs)
      with Locking have "h \<noteq> i" by auto
      then show thesis using that finish_refill [OF h] Locking by auto
    qed (use Locking in blast)
    then show ?thesis using lock_free [OF u(2,3)] loading by (meson rtranclp_trans)
  next
    case (Refilling cur ticks)
    then show ?thesis using finish_refill [OF Refilling] loading by auto
  next
    case Loading
    then show ?thesis using finish_take [of s i] by blast
  next
    case (Taking e)
    then show ?thesis using finish_take [of s i e] by blast
  qed auto
qed

text \<open>One thread that calls \<open>acquire\<close> while no other is active performs the function \<open>acquire\<close>.\<close>

lemma reaches_step: "reaches s t \<Longrightarrow> bucket_step t u \<Longrightarrow> reaches s u"
  by (rule rtranclp.rtrancl_into_rtrancl)

lemma refill_is_run:
  assumes "sys_pc s i = Locking" "sys_mutex s = None"
  shows "reaches s (at i Loading (s\<lparr>sys_rl := refill (sys_now s) (sys_rl s)\<rparr>))"
proof (cases "refill_elapsed (sys_now s) (sys_rl s) < g_rate_limiter_ms_per_second")
  case True
  then show ?thesis using lock_early [OF assms True] by (simp add: refill_def r_into_rtranclp)
next
  case False
  let ?u = "at i (Refilling (m_tokens (sys_rl s)) (refill_ticks (sys_now s) (sys_rl s))) (s\<lparr>sys_mutex := Some i\<rparr>)"
  have "reaches s ?u" using lock_due [OF assms] False by simp
  then have "reaches s (at i Loading (?u\<lparr>sys_mutex := None, sys_rl := refill (sys_now s) (sys_rl s)\<rparr>))"
    using refill_cas [of ?u i "m_tokens (sys_rl s)" "refill_ticks (sys_now s) (sys_rl s)"] False
    by (auto elim!: reaches_step simp: refill_def Let_def)
  moreover have "at i Loading (?u\<lparr>sys_mutex := None, sys_rl := refill (sys_now s) (sys_rl s)\<rparr>)
     = at i Loading (s\<lparr>sys_rl := refill (sys_now s) (sys_rl s)\<rparr>)" using assms(2) by simp
  ultimately show ?thesis by simp
qed

lemma take_is_run:
  assumes "sys_pc s i = Loading" "m_tokens (sys_rl s) > 0"
  shows "reaches s (at i Idle (s\<lparr>sys_granted := Suc (sys_granted s),
           sys_rl := stats count_allowed ((sys_rl s)\<lparr>m_tokens := m_tokens (sys_rl s) - 1\<rparr>)\<rparr>))"
proof -
  let ?u = "at i (Taking (m_tokens (sys_rl s))) s"
  have "reaches s ?u" using load [OF assms] by simp
  then show ?thesis using take_cas [of ?u i "m_tokens (sys_rl s)"] by (auto elim!: reaches_step)
qed

lemma acquire_is_run:
  assumes "sys_pc s i = Idle" "sys_mutex s = None"
  shows "reaches s (s\<lparr>sys_granted := sys_granted s + (if fst (acquire (sys_now s) (sys_rl s)) then 1 else 0),
            sys_rl := snd (acquire (sys_now s) (sys_rl s))\<rparr>)"
proof -
  let ?c = "at i Locking (s\<lparr>sys_rl := stats count_request (sys_rl s)\<rparr>)"
  define r where "r = refill (sys_now s) (stats count_request (sys_rl s))"
  define l where "l = at i Loading (s\<lparr>sys_rl := r\<rparr>)"
  have idle: "(sys_pc s)(i := Idle) = sys_pc s" using assms(1) by auto
  have acq: "acquire (sys_now s) (sys_rl s) = (if m_tokens r > 0
     then (True, stats count_allowed (r\<lparr>m_tokens := m_tokens r - 1\<rparr>)) else (False, stats count_rejected r))"
    by (simp add: acquire_def r_def Let_def)
  have "reaches s ?c" using call [OF assms(1)] by simp
  moreover have "reaches ?c l" using refill_is_run [of ?c i] assms(2) by (simp add: l_def r_def)
  ultimately have l: "reaches s l" by (rule rtranclp_trans)
  show ?thesis
  proof (cases "m_tokens r = 0")
    case True
    then have "bucket_step l (at i Idle (l\<lparr>sys_rl := stats count_rejected (sys_rl l)\<rparr>))"
      by (intro empty) (simp_all add: l_def)
    then have "reaches s (at i Idle (l\<lparr>sys_rl := stats count_rejected (sys_rl l)\<rparr>))" by (rule reaches_step [OF l])
    with True idle acq show ?thesis by (simp add: l_def)
  next
    case False
    then have "reaches l (at i Idle (l\<lparr>sys_granted := Suc (sys_granted l),
           sys_rl := stats count_allowed ((sys_rl l)\<lparr>m_tokens := m_tokens (sys_rl l) - 1\<rparr>)\<rparr>))"
      by (intro take_is_run) (simp_all add: l_def word_neq_0_conv)
    then have "reaches s (at i Idle (l\<lparr>sys_granted := Suc (sys_granted l),
           sys_rl := stats count_allowed ((sys_rl l)\<lparr>m_tokens := m_tokens (sys_rl l) - 1\<rparr>)\<rparr>))"
      by (rule rtranclp_trans [OF l])
    with False idle acq show ?thesis by (simp add: l_def word_neq_0_conv)
  qed
qed

lemma refill_exact:
  fixes rl :: RateLimiter and now :: int
  defines "k \<equiv> (now - m_last_refill rl) div ns_per_s"
  assumes "0 \<le> m_last_refill rl" "m_last_refill rl \<le> now" "now < 2 ^ 63"
    and fit: "uint (m_tokens rl) + k * uint (m_refill_tokens_per_second rl) < 2 ^ 64"
  shows "uint (m_tokens (refill now (stats f rl)))
           = (if k = 0 then uint (m_tokens rl) else min (uint (m_max_tokens rl)) (uint (m_tokens rl) + k * uint (m_refill_tokens_per_second rl)))
       \<and> m_last_refill (refill now (stats f rl)) = m_last_refill rl + k * ns_per_s"
proof -
  let ?d = "now - m_last_refill rl"
  have k: "?d div ns_per_ms div 1000 = k" by (simp add: k_def zdiv_zmult2_eq [symmetric])
  have el: "refill_elapsed now (stats f rl) = ?d div ns_per_ms" using assms by (simp add: refill_elapsed_def)
  have k0: "0 \<le> k" using assms by (simp add: k_def pos_imp_zdiv_nonneg_iff)
  have kd: "k * ns_per_s \<le> ?d" unfolding k_def by (rule div_mult_le_int) simp
  show ?thesis
  proof (cases "k = 0")
    case True
    then have "?d div ns_per_ms < 1000" using k by simp
    with True el show ?thesis by (simp add: refill_def)
  next
    case False
    then have ge: "?d div ns_per_ms \<ge> 1000" using k assms by (cases "?d div ns_per_ms < 1000") (simp_all add: div_pos_pos_trivial pos_imp_zdiv_nonneg_iff)
    have t: "uint (refill_ticks now (stats f rl)) = k"
    proof -
      have "k < 2 ^ 64" using kd assms(2-4) by (simp; linarith)
      then show ?thesis using el k k0 by (simp add: refill_ticks_def uint_word_of_int take_bit_eq_mod)
    qed
    have m: "uint (refill_ticks now (stats f rl) * m_refill_tokens_per_second rl) = k * uint (m_refill_tokens_per_second rl)"
    proof -
      have "0 \<le> k * uint (m_refill_tokens_per_second rl)" using k0 by simp
      moreover have "k * uint (m_refill_tokens_per_second rl) < 2 ^ 64" using fit uint_ge_0 [of "m_tokens rl"] by linarith
      ultimately show ?thesis using t by (simp add: uint_word_ariths(3) mod_pos_pos_trivial)
    qed
    have "uint (refill_desired (m_tokens rl) (refill_ticks now (stats f rl)) (stats f rl))
        = min (uint (m_max_tokens rl)) (uint (m_tokens rl) + k * uint (m_refill_tokens_per_second rl))"
      using fit m k0 by (simp add: refill_desired_def min_def word_le_def uint_word_ariths(1))
    moreover have "advance_refill (refill_ticks now (stats f rl)) (stats f rl) = m_last_refill rl + k * ns_per_s"
      using advance_refill_eq [of "refill_ticks now (stats f rl)" ?d "stats f rl"] t kd assms by simp
    ultimately show ?thesis using False ge el by (simp add: refill_def Let_def)
  qed
qed

lemma granted_bound:
  assumes "reaches (bucket_start burst rate t0) s" "reaches s t" "0 \<le> t0" "t0 < 2 ^ 63"
  shows "int (sys_granted t) \<le> int (sys_granted s) + uint (m_tokens (sys_rl s))
           + uint rate * ((sys_now t - m_last_refill (sys_rl s)) div ns_per_s)
       \<and> m_tokens (sys_rl t) \<le> burst
       \<and> m_allowed_requests (m_stats (sys_rl t)) = of_nat (sys_granted t)"
proof -
  have inv: "bucket_inv s" and const: "budget (bucket_start burst rate t0) s"
    using bucket_budget.inv_reach [OF assms(1)] bucket_inv_start [OF assms(3,4)] budget_refl by auto
  have t: "bucket_inv t" "budget s t"
    using bucket_budget.inv_reach [OF assms(2)] inv budget_refl by auto
  have c: "m_refill_tokens_per_second (sys_rl s) = rate" "m_max_tokens (sys_rl t) = burst"
    using const t(2) by (auto simp: budget_def bucket_start_def new_RateLimiter_def)
  obtain k where k: "0 \<le> k" "m_last_refill (sys_rl t) = m_last_refill (sys_rl s) + k * ns_per_s"
    "int (sys_granted t) + uint (m_tokens (sys_rl t)) \<le> int (sys_granted s) + uint (m_tokens (sys_rl s)) + uint rate * k"
    using t(2) c by (auto simp: budget_def)
  have "k * ns_per_s \<le> sys_now t - m_last_refill (sys_rl s)" using t(1) k(2) by (simp add: bucket_inv_def)
  then have "k * ns_per_s div ns_per_s \<le> (sys_now t - m_last_refill (sys_rl s)) div ns_per_s"
    by (rule zdiv_mono1) simp
  then have "uint rate * k \<le> uint rate * ((sys_now t - m_last_refill (sys_rl s)) div ns_per_s)"
    by (intro mult_left_mono) simp_all
  then have "int (sys_granted t) \<le> int (sys_granted s) + uint (m_tokens (sys_rl s))
           + uint rate * ((sys_now t - m_last_refill (sys_rl s)) div ns_per_s)"
    using k(3) uint_ge_0 [of "m_tokens (sys_rl t)"] by linarith
  with t(1) c(2) show ?thesis by (simp add: bucket_inv_def)
qed

section \<open>Properties\<close>

text \<open>
  Property C22. The limiter keeps its budget under any interleaving of any number of threads: between
  two states of a run, the calls that were let through are at most the tokens that were in the bucket
  and the refills of the whole seconds since the last refill before the first state; the bucket never
  holds more than its maximum, whatever the 64-bit products and sums wrap to, and the counter of
  allowed requests counts exactly those calls.
\<close>

theorem rate_limiter_budget:
  assumes "reaches (bucket_start burst rate t0) s" "reaches s t" "0 \<le> t0" "t0 < 2 ^ 63"
  shows "int (sys_granted t) \<le> int (sys_granted s) + uint (m_tokens (sys_rl s))
           + uint rate * ((sys_now t - m_last_refill (sys_rl s)) div ns_per_s)
       \<and> m_tokens (sys_rl t) \<le> burst
       \<and> m_allowed_requests (m_stats (sys_rl t)) = of_nat (sys_granted t)"
  using granted_bound [OF assms] .

theorem rate_limiter_budget_witness:
  "\<exists>t. reaches (bucket_start 2 1 0) t \<and> sys_granted t = 1 \<and> int (sys_granted t) \<le> 0 + 2 + 1 * (0 div ns_per_s)
     \<and> m_tokens (sys_rl t) \<le> 2"
proof -
  let ?s = "bucket_start 2 1 0"
  let ?t = "?s\<lparr>sys_granted := sys_granted ?s + (if fst (acquire (sys_now ?s) (sys_rl ?s)) then 1 else 0),
            sys_rl := snd (acquire (sys_now ?s) (sys_rl ?s))\<rparr>"
  have t: "reaches ?s ?t" by (rule acquire_is_run [of _ 0]) (simp_all add: bucket_start_def)
  moreover have "sys_granted ?t = 1"
    by (simp add: bucket_start_def acquire_def refill_def refill_elapsed_def new_RateLimiter_def)
  ultimately show ?thesis using rate_limiter_budget [of 2 1 0 ?s ?t]
    by (intro exI [of _ ?t]) (simp add: bucket_start_def new_RateLimiter_def)
qed

text \<open>
  No call of \<open>acquire\<close> can be stuck: from every state that threads can bring the limiter
  to, every thread's call can run to its end, and one that runs alone has exactly the effect of the
  function \<open>acquire\<close>.
\<close>

theorem rate_limiter_progress:
  assumes "reaches (bucket_start burst rate t0) s" "0 \<le> t0" "t0 < 2 ^ 63"
  shows "\<exists>t. reaches s t \<and> sys_pc t i = Idle"
  using call_can_finish [OF bucket.inv_reach [OF assms(1) bucket_inv_start [OF assms(2,3)]]] .

theorem rate_limiter_progress_witness:
  "\<exists>t. reaches (at 7 Locking ((bucket_start 2 1 0)\<lparr>sys_rl := stats count_request (sys_rl (bucket_start 2 1 0))\<rparr>)) t
       \<and> sys_pc t 7 = Idle"
proof -
  have "sys_pc (bucket_start 2 1 0) 7 = Idle" by (simp add: bucket_start_def)
  from rate_limiter_progress [OF r_into_rtranclp [where r = bucket_step, OF call [OF this]]] show ?thesis by simp
qed

text \<open>
  What one call does when the 64-bit sums do not wrap: the whole seconds since the last
  refill add their tokens up to the maximum, the fraction of a second is kept for later, and the call
  takes a token exactly when there is one.
\<close>

theorem rate_limiter_acquire:
  assumes "0 \<le> m_last_refill rl" "m_last_refill rl \<le> now" "now < 2 ^ 63"
    and "uint (m_tokens rl) + (now - m_last_refill rl) div ns_per_s * uint (m_refill_tokens_per_second rl) < 2 ^ 64"
  shows "let k = (now - m_last_refill rl) div ns_per_s;
             present = (if k = 0 then uint (m_tokens rl)
                        else min (uint (m_max_tokens rl)) (uint (m_tokens rl) + k * uint (m_refill_tokens_per_second rl)));
             (allowed, rl') = acquire now rl
         in (allowed \<longleftrightarrow> present > 0) \<and> uint (m_tokens rl') = (if allowed then present - 1 else 0)
            \<and> m_last_refill rl' = m_last_refill rl + k * ns_per_s"
proof -
  let ?r = "refill now (stats count_request rl)"
  define k where "k = (now - m_last_refill rl) div ns_per_s"
  define present where "present = (if k = 0 then uint (m_tokens rl)
                        else min (uint (m_max_tokens rl)) (uint (m_tokens rl) + k * uint (m_refill_tokens_per_second rl)))"
  have r: "uint (m_tokens ?r) = present" "m_last_refill ?r = m_last_refill rl + k * ns_per_s"
    using refill_exact [OF assms, of count_request] by (simp_all add: k_def present_def)
  have "uint (m_tokens ?r) = 0 \<longleftrightarrow> m_tokens ?r = 0" by (rule uint_0_iff)
  then have "let (allowed, rl') = acquire now rl
         in (allowed \<longleftrightarrow> present > 0) \<and> uint (m_tokens rl') = (if allowed then present - 1 else 0)
            \<and> m_last_refill rl' = m_last_refill rl + k * ns_per_s"
    using r uint_pred [of "m_tokens ?r"] uint_ge_0 [of "m_tokens ?r"]
    by (cases "m_tokens ?r = 0") (auto simp: acquire_def Let_def word_neq_0_conv)
  then show ?thesis by (simp only: Let_def k_def present_def)
qed

theorem rate_limiter_acquire_witness:
  "let (allowed, rl') = acquire 2500000000 ((new_RateLimiter 5 2 0)\<lparr>m_tokens := 0\<rparr>)
   in allowed \<and> uint (m_tokens rl') = 3 \<and> m_last_refill rl' = 2000000000"
  using rate_limiter_acquire [of "(new_RateLimiter 5 2 0)\<lparr>m_tokens := 0\<rparr>" 2500000000]
  by (simp add: new_RateLimiter_def Let_def split_beta)

end
