(* ===== verification/Diod_Lru.thy ===== *)
theory Diod_Lru
  imports Prelude "HOL-Library.Multiset"
begin

text \<open>
  The container that several classes of the proxy build by hand: an \<open>unordered_map\<close> from keys to
  entries and a \<open>std::list\<close> of the keys in an order, where each entry holds the iterator of its node.
  The map is an association list, whose order stands for the unspecified order of iteration. A node
  of the list has an identity, and an iterator is that identity (\<open>nd e\<close> for an entry \<open>e\<close>); an iterator
  that is not in the list any more is undefined behaviour (\<open>None\<close>).
\<close>

text \<open>The operations of \<open>std::list\<close> and \<open>std::unordered_map\<close> that the classes use.\<close>

definition has_node :: "nat \<Rightarrow> (nat \<times> 'k) list \<Rightarrow> bool" where
  "has_node n l \<longleftrightarrow> n \<in> fst ` set l"

definition list_erase :: "nat \<Rightarrow> (nat \<times> 'k) list \<Rightarrow> (nat \<times> 'k) list option" where
  "list_erase n l = (if has_node n l then Some (filter (\<lambda>p. fst p \<noteq> n) l) else None)"

definition splice_end :: "nat \<Rightarrow> (nat \<times> 'k) list \<Rightarrow> (nat \<times> 'k) list option" where
  "splice_end n l =
     (if has_node n l then Some (filter (\<lambda>p. fst p \<noteq> n) l @ filter (\<lambda>p. fst p = n) l) else None)"

definition map_erase :: "'k \<Rightarrow> ('k \<times> 'e) list \<Rightarrow> ('k \<times> 'e) list" where
  "map_erase ip m = filter (\<lambda>p. fst p \<noteq> ip) m"

definition map_modify :: "'k \<Rightarrow> ('e \<Rightarrow> 'e) \<Rightarrow> ('k \<times> 'e) list \<Rightarrow> ('k \<times> 'e) list" where
  "map_modify ip f m = map (\<lambda>(k, e). (k, if k = ip then f e else e)) m"

section \<open>The list and the map as one container\<close>

definition pairs_of :: "('e \<Rightarrow> nat) \<Rightarrow> ('k \<times> 'e) list \<Rightarrow> (nat \<times> 'k) set" where
  "pairs_of nd m = (\<lambda>(k, e). (nd e, k)) ` set m"

definition lru_rep :: "('e \<Rightarrow> nat) \<Rightarrow> ('k \<times> 'e) list \<Rightarrow> (nat \<times> 'k) list \<Rightarrow> bool" where
  "lru_rep nd m l \<longleftrightarrow>
     distinct (map fst m) \<and> distinct (map fst l) \<and> distinct (map snd l) \<and> set l = pairs_of nd m"

lemma distinct_fst_unique: "distinct (map fst l) \<Longrightarrow> (a, b) \<in> set l \<Longrightarrow> (a, c) \<in> set l \<Longrightarrow> b = c"
  using eq_key_imp_eq_value by fast

lemma distinct_snd_unique: "distinct (map snd l) \<Longrightarrow> (a, b) \<in> set l \<Longrightarrow> (c, b) \<in> set l \<Longrightarrow> a = c"
  by (fastforce simp: distinct_map inj_on_def)

lemma pairs_of_map_of:
  "distinct (map fst m) \<Longrightarrow> (n, ip) \<in> pairs_of nd m \<longleftrightarrow> (\<exists>e. map_of m ip = Some e \<and> nd e = n)"
  by (force simp: pairs_of_def image_iff)

lemma lru_rep_find: "lru_rep nd m l \<Longrightarrow> map_of m ip = Some e \<Longrightarrow> (nd e, ip) \<in> set l"
  by (simp add: lru_rep_def pairs_of_map_of)

lemma lru_rep_length: "lru_rep nd m l \<Longrightarrow> length l = length m"
proof -
  assume r: "lru_rep nd m l"
  have "snd ` set l = fst ` set m" using r by (force simp: lru_rep_def pairs_of_def image_iff)
  then have "set (map snd l) = set (map fst m)" by simp
  with r show ?thesis unfolding lru_rep_def by (metis distinct_card length_map)
qed

lemma lru_rep_splice:
  assumes "lru_rep nd m l" shows "lru_rep nd m (filter (\<lambda>p. fst p \<noteq> n) l @ filter (\<lambda>p. fst p = n) l)"
proof -
  let ?l = "filter (\<lambda>p. fst p \<noteq> n) l @ filter (\<lambda>p. fst p = n) l"
  have "mset ?l = mset l" by (simp add: union_commute)
  then have m: "mset (map fst ?l) = mset (map fst l)" "mset (map snd ?l) = mset (map snd l)"
    by (simp_all only: mset_map)
  have "set ?l = set l" by auto
  then show ?thesis using assms mset_eq_imp_distinct_iff [OF m(1)] mset_eq_imp_distinct_iff [OF m(2)]
    by (simp only: lru_rep_def)
qed

lemma lru_rep_modify:
  assumes "lru_rep nd m l" "\<And>e. nd (f e) = nd e"
  shows "lru_rep nd (map_modify ip f m) l"
proof -
  have "map fst (map_modify ip f m) = map fst m" by (auto simp: map_modify_def)
  moreover have "pairs_of nd (map_modify ip f m) = pairs_of nd m"
    using assms(2) by (induction m) (auto simp: pairs_of_def map_modify_def)
  ultimately show ?thesis using assms(1) by (simp add: lru_rep_def)
qed

lemma lru_rep_append:
  assumes "lru_rep nd m l" "map_of m ip = None" "\<forall>n' \<in> fst ` set l. n' < n" "nd e = n"
  shows "lru_rep nd (m @ [(ip, e)]) (l @ [(n, ip)])"
proof -
  have "ip \<notin> fst ` set m" using assms(2) by (simp add: map_of_eq_None_iff)
  moreover from this have "ip \<notin> snd ` set l" using assms(1) by (force simp: lru_rep_def pairs_of_def)
  moreover have "n \<notin> fst ` set l" using assms(3) by auto
  ultimately show ?thesis using assms(1,4) by (auto simp: lru_rep_def pairs_of_def)
qed

lemma lru_rep_erase:
  assumes "lru_rep nd m l" "(n, ip) \<in> set l"
  shows "lru_rep nd (map_erase ip m) (filter (\<lambda>p. fst p \<noteq> n) l)"
proof -
  have d: "distinct (map fst m)" "distinct (map fst l)" "distinct (map snd l)" "set l = pairs_of nd m"
    using assms(1) by (simp_all add: lru_rep_def)
  have "p \<in> set l \<Longrightarrow> fst p \<noteq> n \<longleftrightarrow> snd p \<noteq> ip" for p
    using distinct_fst_unique [OF d(2), of n ip "snd p"] distinct_snd_unique [OF d(3), of n ip "fst p"] assms(2)
    by (cases p) auto
  then have "set (filter (\<lambda>p. fst p \<noteq> n) l) = {p \<in> pairs_of nd m. snd p \<noteq> ip}" using d(4) by auto
  also have "\<dots> = pairs_of nd (map_erase ip m)" by (force simp: pairs_of_def map_erase_def image_iff)
  finally show ?thesis using d by (auto simp: lru_rep_def map_erase_def distinct_map_filter)
qed

lemma lru_rep_cleanup:
  assumes "lru_rep nd m l"
  shows "lru_rep nd (filter (\<lambda>p. \<not> P p) m) (filter (\<lambda>p. p \<notin> pairs_of nd (filter P m)) l)"
proof -
  have "distinct (map fst m)" using assms by (simp add: lru_rep_def)
  then have "pairs_of nd m - pairs_of nd (filter P m) = pairs_of nd (filter (\<lambda>p. \<not> P p) m)"
    using distinct_fst_unique [of m] by (auto simp: pairs_of_def image_iff)
  then show ?thesis using assms by (auto simp: lru_rep_def distinct_map_filter)
qed

lemma map_of_modify: "map_of (map_modify ip f m) = (map_of m)(ip := map_option f (map_of m ip))"
  by (induction m) (auto simp: map_modify_def fun_eq_iff)

lemma filter_node:
  assumes "distinct (map fst l)" "(n, ip) \<in> set l" shows "filter (\<lambda>p. fst p = n) l = [(n, ip)]"
proof -
  obtain xs ys where l: "l = xs @ (n, ip) # ys" using assms(2) by (meson split_list)
  then have "n \<notin> fst ` set xs" "n \<notin> fst ` set ys" using assms(1) by auto
  then have "filter (\<lambda>p. fst p = n) xs = []" "filter (\<lambda>p. fst p = n) ys = []" by (auto simp: filter_empty_conv)
  with l show ?thesis by simp
qed

lemma lru_rep_pop:
  assumes "lru_rep nd m ((n, k) # l)" shows "lru_rep nd (map_erase k m) l"
proof -
  have "filter (\<lambda>p. fst p \<noteq> n) l = l" using assms by (auto simp: lru_rep_def filter_id_conv image_iff)
  then show ?thesis using lru_rep_erase [OF assms, of n k] by simp
qed

lemma lru_rep_map_erase: "lru_rep nd m l \<Longrightarrow> map_of (map_erase k m) = (map_of m)(k := None)"
  by (simp add: map_erase_def map_of_distinct_filter lru_rep_def)

lemma lru_rep_member: "lru_rep nd m l \<Longrightarrow> (n, k) \<in> set l \<Longrightarrow> \<exists>e. map_of m k = Some e \<and> nd e = n"
  by (simp add: lru_rep_def pairs_of_map_of)

end
