(* ===== verification/Diod_PerIP.thy ===== *)
theory Diod_PerIP
  imports Diod_RateLimit Diod_Lru
begin

text \<open>
  The limiter per client address (\<open>rate_limiter_per_ip.hpp\<close>). The \<open>unordered_map\<close> is an
  association list (its order stands for the unspecified order of iteration), the \<open>std::list\<close> of
  addresses a list of nodes, where a node has an identity and an iterator is that identity; the
  limiters, which are shared pointers, live in a heap of their own, since a thread may still use one
  that was evicted. An iterator that is not in the list any more is undefined behaviour (\<open>None\<close>).

  \<open>acquire\<close> takes the mutex for \<open>get_or_create_limiter\<close>, works on the limiter without it, and takes
  it again to record a rejection: these parts are separate steps, so that any interleaving of
  threads is a sequence of them. One reading of the clock stands for the two that follow each other when an entry is made.
\<close>

record IPEntry =
  m_limiter :: nat
  m_last_seen :: int
  m_lru_it :: nat
  m_requests :: u64
  m_rejected :: u64

record PerIPRateLimiter =
  m_max_tokens_per_ip :: u64
  m_refill_tokens_per_second_per_ip :: u64
  m_max_ips :: nat
  m_cleanup_interval_seconds :: int
  m_ip_entries :: "(string \<times> IPEntry) list"
  m_lru_list :: "(nat \<times> string) list"
  m_counters :: RateLimiterCounters
  m_unique_ips :: u64
  m_evictions :: u64
  limiters :: "nat \<Rightarrow> RateLimiter"
  next_id :: nat

definition new_PerIPRateLimiter :: "u64 \<Rightarrow> u64 \<Rightarrow> nat \<Rightarrow> int \<Rightarrow> PerIPRateLimiter" where
  "new_PerIPRateLimiter burst rate max_ips interval =
     \<lparr>m_max_tokens_per_ip = burst, m_refill_tokens_per_second_per_ip = rate, m_max_ips = max_ips,
      m_cleanup_interval_seconds = interval, m_ip_entries = [], m_lru_list = [], m_counters = zero_counters,
      m_unique_ips = 0, m_evictions = 0, limiters = (\<lambda>_. new_RateLimiter burst rate 0), next_id = 0\<rparr>"

section \<open>Operations\<close>

fun evict_loop :: "nat \<Rightarrow> PerIPRateLimiter \<Rightarrow> nat \<times> PerIPRateLimiter" where
  "evict_loop 0 s = (0, s)"
| "evict_loop (Suc n) s =
     (case m_lru_list s of
        [] \<Rightarrow> (0, s)
      | (_, oldest_ip) # rest \<Rightarrow>
          (let (removed, s') = evict_loop n (s\<lparr>m_ip_entries := map_erase oldest_ip (m_ip_entries s), m_lru_list := rest\<rparr>)
           in (Suc removed, s')))"

definition evict_oldest_ips :: "nat \<Rightarrow> PerIPRateLimiter \<Rightarrow> PerIPRateLimiter" where
  "evict_oldest_ips n s =
     (let (removed, s') = evict_loop n s
      in if removed > 0 then s'\<lparr>m_evictions := m_evictions s' + of_nat removed\<rparr> else s')"

definition get_or_create_limiter ::
  "int \<Rightarrow> string \<Rightarrow> PerIPRateLimiter \<Rightarrow> (nat option \<times> PerIPRateLimiter) option" where
  "get_or_create_limiter now client_ip s =
     (case map_of (m_ip_entries s) client_ip of
        Some e \<Rightarrow>
          map_option (\<lambda>l. (Some (m_limiter e),
             s\<lparr>m_ip_entries := map_modify client_ip (\<lambda>e. e\<lparr>m_last_seen := now, m_requests := m_requests e + 1\<rparr>) (m_ip_entries s),
               m_lru_list := l\<rparr>))
           (splice_end (m_lru_it e) (m_lru_list s))
      | None \<Rightarrow>
         (let full = length (m_ip_entries s) \<ge> m_max_ips s;
              s1 = (if full then evict_oldest_ips 1 s else s)
          in if full \<and> length (m_ip_entries s1) \<ge> m_max_ips s1 then Some (None, s1)
             else let n = next_id s1 in
               Some (Some n, s1\<lparr>
                 m_ip_entries := m_ip_entries s1 @ [(client_ip,
                    \<lparr>m_limiter = n, m_last_seen = now, m_lru_it = n, m_requests = 1, m_rejected = 0\<rparr>)],
                 m_lru_list := m_lru_list s1 @ [(n, client_ip)],
                 m_unique_ips := m_unique_ips s1 + 1,
                 limiters := (limiters s1)(n := new_RateLimiter (m_max_tokens_per_ip s1) (m_refill_tokens_per_second_per_ip s1) now),
                 next_id := Suc n\<rparr>)))"

definition record_rejection :: "string \<Rightarrow> PerIPRateLimiter \<Rightarrow> PerIPRateLimiter" where
  "record_rejection client_ip s =
     (case map_of (m_ip_entries s) client_ip of
        Some e \<Rightarrow> s\<lparr>m_ip_entries := map_modify client_ip (\<lambda>e. e\<lparr>m_rejected := m_rejected e + 1\<rparr>) (m_ip_entries s)\<rparr>
      | None \<Rightarrow> s)"

definition acquire_from :: "int \<Rightarrow> nat \<Rightarrow> PerIPRateLimiter \<Rightarrow> bool \<times> PerIPRateLimiter" where
  "acquire_from now n s =
     (let (allowed, rl) = Diod_RateLimit.acquire now (limiters s n) in (allowed, s\<lparr>limiters := (limiters s)(n := rl)\<rparr>))"

abbreviation counting :: "(RateLimiterCounters \<Rightarrow> RateLimiterCounters) \<Rightarrow> PerIPRateLimiter \<Rightarrow> PerIPRateLimiter" where
  "counting f s \<equiv> s\<lparr>m_counters := f (m_counters s)\<rparr>"

text \<open>The clock is read again by the limiter: \<open>now\<close> and \<open>now'\<close>.\<close>

definition acquire_ip :: "int \<Rightarrow> int \<Rightarrow> string \<Rightarrow> PerIPRateLimiter \<Rightarrow> (bool \<times> PerIPRateLimiter) option" where
  "acquire_ip now now' client_ip s =
     (case get_or_create_limiter now client_ip (counting count_request s) of
        None \<Rightarrow> None
      | Some (None, s1) \<Rightarrow> Some (False, counting count_rejected s1)
      | Some (Some n, s1) \<Rightarrow>
          (let (allowed, s2) = acquire_from now' n s1
           in if allowed then Some (True, counting count_allowed s2)
              else Some (False, record_rejection client_ip (counting count_rejected s2))))"

text \<open>The loop over the map, which erases the entries that were not seen for the interval.\<close>

fun cleanup_loop ::
  "int \<Rightarrow> int \<Rightarrow> (string \<times> IPEntry) list \<Rightarrow> (nat \<times> string) list \<Rightarrow> (nat \<times> (string \<times> IPEntry) list \<times> (nat \<times> string) list) option" where
  "cleanup_loop now interval [] l = Some (0, [], l)"
| "cleanup_loop now interval ((ip, e) # m) l =
     (if duration_cast ns_per_s (now - m_last_seen e) \<ge> interval then
        (case list_erase (m_lru_it e) l of
           None \<Rightarrow> None
         | Some l' \<Rightarrow> map_option (\<lambda>(removed, r). (Suc removed, r)) (cleanup_loop now interval m l'))
      else map_option (\<lambda>(removed, m', r). (removed, (ip, e) # m', r)) (cleanup_loop now interval m l))"

definition do_cleanup_expired :: "int \<Rightarrow> PerIPRateLimiter \<Rightarrow> (nat \<times> PerIPRateLimiter) option" where
  "do_cleanup_expired now s =
     map_option (\<lambda>(removed, m, l).
        let s' = s\<lparr>m_ip_entries := m, m_lru_list := l\<rparr>
        in (removed, if removed > 0 then s'\<lparr>m_evictions := m_evictions s' + of_nat removed\<rparr> else s'))
      (cleanup_loop now (m_cleanup_interval_seconds s) (m_ip_entries s) (m_lru_list s))"

definition cleanup_expired_ips :: "int \<Rightarrow> PerIPRateLimiter \<Rightarrow> (nat \<times> PerIPRateLimiter) option" where
  "cleanup_expired_ips now s = do_cleanup_expired now s"

text \<open>The snapshot for the metrics: at most a thousand addresses, the most recent first.\<close>

fun stats_loop :: "nat \<Rightarrow> (string \<times> IPEntry) list \<Rightarrow> (nat \<times> string) list \<Rightarrow> (string \<times> u64 \<times> u64) list" where
  "stats_loop k m [] = []"
| "stats_loop k m ((_, ip) # l) =
     (if k \<ge> 1000 then []
      else case map_of m ip of
             Some e \<Rightarrow> (ip, m_requests e, m_rejected e) # stats_loop (Suc k) m l
           | None \<Rightarrow> stats_loop k m l)"

definition get_per_ip_stats :: "PerIPRateLimiter \<Rightarrow> (string \<times> u64 \<times> u64) list" where
  "get_per_ip_stats s = stats_loop 0 (m_ip_entries s) (rev (m_lru_list s))"

record Stats =
  st_total_requests :: u64
  st_allowed_requests :: u64
  st_rejected_requests :: u64
  st_unique_ips :: u64
  st_tracked_ips :: nat
  st_evictions :: u64

definition get_stats :: "PerIPRateLimiter \<Rightarrow> Stats" where
  "get_stats s = \<lparr>st_total_requests = m_total_requests (m_counters s),
     st_allowed_requests = m_allowed_requests (m_counters s),
     st_rejected_requests = m_rejected_requests (m_counters s),
     st_unique_ips = m_unique_ips s, st_tracked_ips = length (m_ip_entries s), st_evictions = m_evictions s\<rparr>"

section \<open>Invariant\<close>

text \<open>
  The list of nodes and the map are two views of the same set of addresses; every iterator is a
  node of the list and every limiter and node was made by this object. A limiter and the node made with
  it have the same identity, so no two entries share a limiter.
\<close>

definition ip_inv :: "PerIPRateLimiter \<Rightarrow> bool" where
  "ip_inv s \<longleftrightarrow>
     lru_rep m_lru_it (m_ip_entries s) (m_lru_list s) \<and> (\<forall>n \<in> fst ` set (m_lru_list s). n < next_id s)
   \<and> (\<forall>(ip, e) \<in> set (m_ip_entries s). m_limiter e = m_lru_it e)
   \<and> length (m_ip_entries s) \<le> m_max_ips s"

text \<open>The loop of the cleanup removes exactly the expired entries and their nodes.\<close>

abbreviation expired_ip :: "int \<Rightarrow> int \<Rightarrow> string \<times> IPEntry \<Rightarrow> bool" where
  "expired_ip now interval p \<equiv> duration_cast ns_per_s (now - m_last_seen (snd p)) \<ge> interval"

lemma cleanup_loop_eq:
  assumes "distinct (map fst l)" "distinct (map snd l)" "distinct (map fst m)" "pairs_of m_lru_it m \<subseteq> set l"
  shows "cleanup_loop now interval m l =
     Some (length (filter (expired_ip now interval) m), filter (\<lambda>p. \<not> expired_ip now interval p) m,
           filter (\<lambda>p. p \<notin> pairs_of m_lru_it (filter (expired_ip now interval) m)) l)"
  using assms
proof (induction now interval m l rule: cleanup_loop.induct)
  case (1 now interval l)
  then show ?case by (simp add: pairs_of_def)
next
  case (2 now interval ip e m l)
  note pairs = pairs_of_def
  show ?case
  proof (cases "expired_ip now interval (ip, e)")
    case True
    let ?l = "filter (\<lambda>p. fst p \<noteq> m_lru_it e) l"
    have n: "(m_lru_it e, ip) \<in> set l" using 2(6) by (simp add: pairs)
    have only: "p \<in> set l \<Longrightarrow> fst p \<noteq> m_lru_it e \<longleftrightarrow> p \<noteq> (m_lru_it e, ip)" for p
      using distinct_fst_unique [OF 2(3) n, of "snd p"] by (cases p) auto
    have e: "list_erase (m_lru_it e) l = Some ?l" using n by (force simp: list_erase_def has_node_def)
    have "p \<in> pairs_of m_lru_it m \<Longrightarrow> snd p \<noteq> ip" for p using 2(5) by (force simp: pairs)
    then have "pairs_of m_lru_it m \<subseteq> set ?l" using only 2(6) by (fastforce simp: pairs)
    then have ih: "cleanup_loop now interval m ?l =
       Some (length (filter (expired_ip now interval) m), filter (\<lambda>p. \<not> expired_ip now interval p) m,
             filter (\<lambda>p. p \<notin> pairs_of m_lru_it (filter (expired_ip now interval) m)) ?l)"
      using 2(1) [OF _ e] True 2(3-5) by (simp add: distinct_map_filter)
    have "filter (\<lambda>p. p \<notin> pairs_of m_lru_it (filter (expired_ip now interval) m)) ?l
        = filter (\<lambda>p. p \<notin> pairs_of m_lru_it (filter (expired_ip now interval) ((ip, e) # m))) l"
      using True only by (auto simp: pairs intro!: filter_cong)
    with True e ih show ?thesis by simp
  next
    case False
    then have "cleanup_loop now interval m l =
       Some (length (filter (expired_ip now interval) m), filter (\<lambda>p. \<not> expired_ip now interval p) m,
             filter (\<lambda>p. p \<notin> pairs_of m_lru_it (filter (expired_ip now interval) m)) l)"
      using 2(2) 2(3-6) by (simp add: pairs)
    with False show ?thesis by simp
  qed
qed

section \<open>Steps\<close>

datatype ip_call =
    CountRequest | CountAllowed | CountRejected
  | GetOrCreate int string | AcquireFrom int nat | RecordRejection string | Cleanup int

fun ip_step :: "ip_call \<Rightarrow> PerIPRateLimiter option \<Rightarrow> PerIPRateLimiter option" where
  "ip_step c None = None"
| "ip_step CountRequest (Some s) = Some (counting count_request s)"
| "ip_step CountAllowed (Some s) = Some (counting count_allowed s)"
| "ip_step CountRejected (Some s) = Some (counting count_rejected s)"
| "ip_step (GetOrCreate now ip) (Some s) = map_option snd (get_or_create_limiter now ip s)"
| "ip_step (AcquireFrom now n) (Some s) = Some (snd (acquire_from now n s))"
| "ip_step (RecordRejection ip) (Some s) = Some (record_rejection ip s)"
| "ip_step (Cleanup now) (Some s) = map_option snd (do_cleanup_expired now s)"

text \<open>The clock is read under the mutex, so the readings of \<open>get_or_create_limiter\<close> do not go back.\<close>

definition ip_fits :: "ip_call \<Rightarrow> PerIPRateLimiter option \<Rightarrow> bool" where
  "ip_fits c so \<longleftrightarrow>
     (case (c, so) of
        (GetOrCreate now ip, Some s) \<Rightarrow> (\<forall>(k, e) \<in> set (m_ip_entries s). m_last_seen e \<le> now)
      | _ \<Rightarrow> True)"

definition seen :: "PerIPRateLimiter \<Rightarrow> string \<Rightarrow> int" where
  "seen s ip = (case map_of (m_ip_entries s) ip of Some e \<Rightarrow> m_last_seen e | None \<Rightarrow> 0)"

text \<open>The list is in the order of the last requests.\<close>

definition lru_sorted :: "PerIPRateLimiter \<Rightarrow> bool" where
  "lru_sorted s \<longleftrightarrow> sorted (map (\<lambda>p. seen s (snd p)) (m_lru_list s))"

definition ip_ok :: "PerIPRateLimiter option \<Rightarrow> bool" where
  "ip_ok so \<longleftrightarrow> (case so of Some s \<Rightarrow> ip_inv s \<and> lru_sorted s \<and> 0 < m_max_ips s | None \<Rightarrow> False)"

lemma lru_in_map:
  assumes "ip_inv s" "p \<in> set (m_lru_list s)"
  shows "\<exists>e. map_of (m_ip_entries s) (snd p) = Some e \<and> (snd p, e) \<in> set (m_ip_entries s) \<and> seen s (snd p) = m_last_seen e"
proof -
  obtain n ip where p: "p = (n, ip)" by (cases p)
  with assms have "(n, ip) \<in> pairs_of m_lru_it (m_ip_entries s)" "distinct (map fst (m_ip_entries s))"
    by (auto simp: ip_inv_def lru_rep_def)
  then show ?thesis using p by (auto simp: pairs_of_map_of seen_def dest: map_of_SomeD)
qed

lemma evict_one:
  assumes "ip_inv s" "m_lru_list s = (n, ip) # rest"
  shows "evict_oldest_ips (Suc 0) s = s\<lparr>m_ip_entries := map_erase ip (m_ip_entries s), m_lru_list := rest, m_evictions := m_evictions s + 1\<rparr>"
  using assms by (simp add: evict_oldest_ips_def)

lemma lru_sortedI:
  assumes "\<And>p. p \<in> set (m_lru_list t) \<Longrightarrow> seen t (snd p) = g (snd p)" "sorted (map (\<lambda>p. g (snd p)) (m_lru_list t))"
  shows "lru_sorted t"
proof -
  have "map (\<lambda>p. seen t (snd p)) (m_lru_list t) = map (\<lambda>p. g (snd p)) (m_lru_list t)"
    using assms(1) by (rule map_cong [OF refl])
  with assms(2) show ?thesis by (simp only: lru_sorted_def)
qed

lemma evict_one_ok:
  assumes "ip_inv s" "lru_sorted s" "m_lru_list s = (n, ip) # rest"
  shows "ip_inv (evict_oldest_ips 1 s)" "lru_sorted (evict_oldest_ips 1 s)"
    and "Suc (length (m_ip_entries (evict_oldest_ips 1 s))) = length (m_ip_entries s)"
proof -
  let ?t = "evict_oldest_ips 1 s"
  note t = evict_one [OF assms(1,3)]
  have r: "lru_rep m_lru_it (m_ip_entries s) ((n, ip) # rest)" using assms(1,3) by (simp add: ip_inv_def)
  have rt: "lru_rep m_lru_it (map_erase ip (m_ip_entries s)) rest" by (rule lru_rep_pop [OF r])
  show len: "Suc (length (m_ip_entries ?t)) = length (m_ip_entries s)"
    using lru_rep_length [OF rt] lru_rep_length [OF r] by (simp add: t)
  show "ip_inv ?t" using rt assms(1,3) len by (auto simp: t ip_inv_def map_erase_def)
  have "ip \<notin> snd ` set rest" using r by (simp add: lru_rep_def)
  moreover have "map_of (map_erase ip (m_ip_entries s)) = (map_of (m_ip_entries s))(ip := None)"
    by (rule lru_rep_map_erase [OF r])
  ultimately have "p \<in> set rest \<Longrightarrow> seen ?t (snd p) = seen s (snd p)" for p
    by (auto simp: t seen_def)
  then show "lru_sorted ?t" using assms(2,3) by (intro lru_sortedI [of ?t "seen s"]) (simp_all add: lru_sorted_def t)
qed

lemma make_room:
  assumes "ip_inv s" "lru_sorted s" "0 < m_max_ips s"
  defines "s1 \<equiv> if length (m_ip_entries s) \<ge> m_max_ips s then evict_oldest_ips 1 s else s"
  shows "ip_inv s1 \<and> lru_sorted s1 \<and> length (m_ip_entries s1) < m_max_ips s1 \<and> m_max_ips s1 = m_max_ips s
       \<and> next_id s1 = next_id s \<and> set (m_ip_entries s1) \<subseteq> set (m_ip_entries s)"
proof (cases "length (m_ip_entries s) \<ge> m_max_ips s")
  case True
  with assms(1,3) obtain n ip rest where l: "m_lru_list s = (n, ip) # rest"
    using lru_rep_length [of m_lru_it "m_ip_entries s" "m_lru_list s"] by (cases "m_lru_list s") (auto simp: ip_inv_def)
  have "length (m_ip_entries s) = m_max_ips s" using True assms(1) by (simp add: ip_inv_def)
  with True evict_one_ok [OF assms(1,2) l] assms(3) show ?thesis
    by (auto simp: s1_def evict_one [OF assms(1) l] map_erase_def)
qed (use assms in auto)

lemma insert_ok:
  fixes u :: u64 and h :: "nat \<Rightarrow> RateLimiter"
  assumes "ip_inv s" "lru_sorted s" "length (m_ip_entries s) < m_max_ips s" "map_of (m_ip_entries s) ip = None"
    and "\<forall>(k, e) \<in> set (m_ip_entries s). m_last_seen e \<le> now" "m_lru_it e = next_id s" "m_last_seen e = now" "m_limiter e = next_id s"
  defines "t \<equiv> s\<lparr>m_ip_entries := m_ip_entries s @ [(ip, e)], m_lru_list := m_lru_list s @ [(next_id s, ip)],
     m_unique_ips := u, limiters := h, next_id := Suc (next_id s)\<rparr>"
  shows "ip_inv t \<and> lru_sorted t"
proof -
  have r: "lru_rep m_lru_it (m_ip_entries s) (m_lru_list s)" "\<forall>n \<in> fst ` set (m_lru_list s). n < next_id s"
    using assms(1) by (simp_all add: ip_inv_def)
  have "seen t (snd p) = seen s (snd p) \<and> seen s (snd p) \<le> now" if "p \<in> set (m_lru_list s)" for p
    using lru_in_map [OF assms(1) that] assms(5) by (auto simp: seen_def t_def map_add_def)
  moreover have "seen t ip = now" using assms(4,7) by (simp add: seen_def t_def map_add_def)
  ultimately have "lru_sorted t"
    using assms(2) by (auto simp: lru_sorted_def t_def sorted_append cong: map_cong)
  moreover have "ip_inv t"
    using lru_rep_append [OF r(1) assms(4) r(2) assms(6)] r(2) assms(1,3,6,8) by (auto simp: t_def ip_inv_def less_Suc_eq)
  ultimately show ?thesis by simp
qed

lemma touch_ok:
  fixes s :: PerIPRateLimiter
  assumes "ip_inv s" "lru_sorted s" "map_of (m_ip_entries s) ip = Some e"
    and "\<forall>(k, e) \<in> set (m_ip_entries s). m_last_seen e \<le> now"
    and f: "\<And>e. m_lru_it (f e) = m_lru_it e" "\<And>e. m_last_seen (f e) = now" "\<And>e. m_limiter (f e) = m_limiter e"
  shows "\<exists>l. splice_end (m_lru_it e) (m_lru_list s) = Some l
     \<and> ip_inv (s\<lparr>m_ip_entries := map_modify ip f (m_ip_entries s), m_lru_list := l\<rparr>)
     \<and> lru_sorted (s\<lparr>m_ip_entries := map_modify ip f (m_ip_entries s), m_lru_list := l\<rparr>)"
proof -
  have r: "lru_rep m_lru_it (m_ip_entries s) (m_lru_list s)" using assms(1) by (simp add: ip_inv_def)
  have n: "(m_lru_it e, ip) \<in> set (m_lru_list s)" by (rule lru_rep_find [OF r assms(3)])
  have d: "distinct (map fst (m_lru_list s))" "distinct (map snd (m_lru_list s))" using r by (simp_all add: lru_rep_def)
  let ?k = "filter (\<lambda>p. fst p \<noteq> m_lru_it e) (m_lru_list s)"
  let ?l = "?k @ [(m_lru_it e, ip)]"
  let ?t = "s\<lparr>m_ip_entries := map_modify ip f (m_ip_entries s), m_lru_list := ?l\<rparr>"
  have sp: "splice_end (m_lru_it e) (m_lru_list s) = Some ?l"
    using n filter_node [OF d(1) n] by (force simp: splice_end_def has_node_def)
  have "lru_rep m_lru_it (m_ip_entries s) ?l" using lru_rep_splice [OF r, of "m_lru_it e"] filter_node [OF d(1) n] by simp
  then have "lru_rep m_lru_it (map_modify ip f (m_ip_entries s)) ?l" using f(1) by (rule lru_rep_modify)
  then have inv: "ip_inv ?t" using assms(1) n f(1,3) by (auto simp: ip_inv_def map_modify_def)
  have k: "snd p \<noteq> ip \<and> seen ?t (snd p) = seen s (snd p) \<and> seen s (snd p) \<le> now" if "p \<in> set ?k" for p
  proof -
    have "p \<in> set (m_lru_list s)" "fst p \<noteq> m_lru_it e" using that by auto
    then have "snd p \<noteq> ip" using distinct_snd_unique [OF d(2) n, of "fst p"] prod.collapse [of p] by metis
    moreover have "seen s (snd p) \<le> now" using that lru_in_map [OF assms(1), of p] assms(4) by auto
    ultimately show ?thesis by (simp add: seen_def map_of_modify)
  qed
  have "seen ?t ip = now" using assms(3) f(2) by (simp add: seen_def map_of_modify)
  then have "seen ?t (snd p) = ((seen s)(ip := now)) (snd p)" if "p \<in> set ?l" for p
    using k [of p] that by auto
  moreover have "map (\<lambda>p. ((seen s)(ip := now)) (snd p)) ?k = map (\<lambda>p. seen s (snd p)) ?k"
    using k by (intro map_cong) simp_all
  then have "sorted (map (\<lambda>p. ((seen s)(ip := now)) (snd p)) ?l)"
    using assms(2) sorted_filter [of "\<lambda>p. seen s (snd p)"] k
    by (auto simp only: lru_sorted_def map_append sorted_append) auto
  ultimately have "lru_sorted ?t" by (intro lru_sortedI [of ?t "(seen s)(ip := now)"]) simp_all
  with sp inv show ?thesis by blast
qed

lemma get_or_create_ok:
  assumes "ip_inv s" "lru_sorted s" "0 < m_max_ips s" "ip_fits (GetOrCreate now ip) (Some s)"
  shows "\<exists>n t. get_or_create_limiter now ip s = Some (Some n, t) \<and> ip_inv t \<and> lru_sorted t \<and> m_max_ips t = m_max_ips s"
proof (cases "map_of (m_ip_entries s) ip")
  case (Some e)
  with touch_ok [OF assms(1,2) Some, of now "\<lambda>e. e\<lparr>m_last_seen := now, m_requests := m_requests e + 1\<rparr>"] assms(4)
  show ?thesis by (auto simp: get_or_create_limiter_def ip_fits_def)
next
  case None
  define s1 where "s1 = (if length (m_ip_entries s) \<ge> m_max_ips s then evict_oldest_ips 1 s else s)"
  have s1: "ip_inv s1" "lru_sorted s1" "length (m_ip_entries s1) < m_max_ips s1" "set (m_ip_entries s1) \<subseteq> set (m_ip_entries s)" "m_max_ips s1 = m_max_ips s"
    using make_room [OF assms(1-3)] by (simp_all add: s1_def)
  have n1: "map_of (m_ip_entries s1) ip = None" using None s1(4) by (auto simp: map_of_eq_None_iff)
  have f1: "\<forall>(k, e) \<in> set (m_ip_entries s1). m_last_seen e \<le> now" using assms(4) s1(4) by (auto simp: ip_fits_def)
  show ?thesis
    using None s1(3,5) insert_ok [OF s1(1-3) n1 f1]
    by (auto simp: get_or_create_limiter_def Let_def s1_def [symmetric])
qed

lemma record_rejection_ok:
  assumes "ip_inv s" "lru_sorted s"
  shows "ip_inv (record_rejection ip s) \<and> lru_sorted (record_rejection ip s)"
proof (cases "map_of (m_ip_entries s) ip")
  case (Some e)
  let ?f = "\<lambda>e :: IPEntry. e\<lparr>m_rejected := m_rejected e + 1\<rparr>"
  have "seen (s\<lparr>m_ip_entries := map_modify ip ?f (m_ip_entries s)\<rparr>) = seen s"
    by (auto simp: seen_def map_of_modify fun_eq_iff split: option.splits)
  moreover have "lru_rep m_lru_it (map_modify ip ?f (m_ip_entries s)) (m_lru_list s)"
    using assms(1) by (intro lru_rep_modify) (simp_all add: ip_inv_def)
  ultimately show ?thesis using assms Some
    by (auto simp: record_rejection_def ip_inv_def lru_sorted_def map_modify_def)
qed (use assms in \<open>simp add: record_rejection_def\<close>)

lemma cleanup_ok:
  assumes "ip_inv s" "lru_sorted s"
  shows "\<exists>t. do_cleanup_expired now s = Some (length (filter (expired_ip now (m_cleanup_interval_seconds s)) (m_ip_entries s)), t)
     \<and> ip_inv t \<and> lru_sorted t \<and> m_max_ips t = m_max_ips s
     \<and> m_ip_entries t = filter (\<lambda>p. \<not> expired_ip now (m_cleanup_interval_seconds s) p) (m_ip_entries s)"
proof -
  let ?P = "expired_ip now (m_cleanup_interval_seconds s)"
  let ?m = "filter (\<lambda>p. \<not> ?P p) (m_ip_entries s)"
  let ?l = "filter (\<lambda>p. p \<notin> pairs_of m_lru_it (filter ?P (m_ip_entries s))) (m_lru_list s)"
  have r: "lru_rep m_lru_it (m_ip_entries s) (m_lru_list s)" using assms(1) by (simp add: ip_inv_def)
  then have c: "cleanup_loop now (m_cleanup_interval_seconds s) (m_ip_entries s) (m_lru_list s)
      = Some (length (filter ?P (m_ip_entries s)), ?m, ?l)"
    by (intro cleanup_loop_eq) (simp_all add: lru_rep_def)
  have rt: "lru_rep m_lru_it ?m ?l" by (rule lru_rep_cleanup [OF r])
  then have i: "ip_inv (s\<lparr>m_ip_entries := ?m, m_lru_list := ?l\<rparr>)"
    using assms(1) length_filter_le [of "\<lambda>p. \<not> ?P p" "m_ip_entries s"] by (auto simp: ip_inv_def simp del: length_filter_le)
  let ?t = "s\<lparr>m_ip_entries := ?m, m_lru_list := ?l\<rparr>"
  have "seen ?t (snd p) = seen s (snd p)" if "p \<in> set (m_lru_list ?t)" for p
  proof -
    have ps: "p \<in> set (m_lru_list s)" using that by simp
    note pt = that
    obtain e where e: "(snd p, e) \<in> set (m_ip_entries ?t)" "seen ?t (snd p) = m_last_seen e"
      using lru_in_map [OF i pt] by auto
    obtain e' where e': "(snd p, e') \<in> set (m_ip_entries s)" "seen s (snd p) = m_last_seen e'"
      using lru_in_map [OF assms(1) ps] by auto
    have "e = e'" using e(1) e'(1) r distinct_fst_unique [of "m_ip_entries s"] by (auto simp: lru_rep_def)
    with e e' show ?thesis by simp
  qed
  moreover have "sorted (map (\<lambda>p. seen s (snd p)) (m_lru_list ?t))" using assms(2) sorted_filter by (simp add: lru_sorted_def)
  ultimately have "lru_sorted ?t" by (rule lru_sortedI)
  with i c show ?thesis
    by (auto simp: do_cleanup_expired_def Let_def ip_inv_def lru_sorted_def seen_def)
qed

lemma ip_ok_step:
  assumes "ip_ok so" "ip_fits c so" shows "ip_ok (ip_step c so)"
proof -
  obtain s where so: "so = Some s" and s: "ip_inv s" "lru_sorted s" "0 < m_max_ips s"
    using assms(1) by (auto simp: ip_ok_def split: option.splits)
  have keep: "ip_ok (Some (s\<lparr>m_counters := c\<rparr>))" "ip_ok (Some (s\<lparr>limiters := h\<rparr>))" for c h
    using s by (simp_all add: ip_ok_def ip_inv_def lru_sorted_def seen_def)
  show ?thesis
  proof (cases c)
    case (GetOrCreate now ip)
    with get_or_create_ok [OF s, of now ip] assms(2) so show ?thesis using s(3) by (auto simp: ip_ok_def)
  next
    case (RecordRejection ip)
    have "m_max_ips (record_rejection ip s) = m_max_ips s" by (simp add: record_rejection_def split: option.split)
    with RecordRejection record_rejection_ok [OF s(1,2), of ip] so s(3) show ?thesis by (simp add: ip_ok_def)
  next
    case (Cleanup now)
    with cleanup_ok [OF s(1,2), of now] so s(3) show ?thesis by (auto simp: ip_ok_def)
  next
    case (AcquireFrom now n)
    then show ?thesis using keep(2) so by (simp add: acquire_from_def split_beta)
  qed (use keep(1) so in simp_all)
qed

interpretation per_ip: machine ip_step ip_fits ip_ok
  by unfold_locales (rule ip_ok_step)

lemma ip_ok_new: "0 < max_ips \<Longrightarrow> ip_ok (Some (new_PerIPRateLimiter burst rate max_ips interval))"
  by (simp add: ip_ok_def ip_inv_def lru_rep_def pairs_of_def new_PerIPRateLimiter_def lru_sorted_def)

text \<open>The limiter a request of an address is measured by.\<close>

definition bucket_of :: "int \<Rightarrow> string \<Rightarrow> PerIPRateLimiter \<Rightarrow> RateLimiter" where
  "bucket_of now ip s =
     (case map_of (m_ip_entries s) ip of
        Some e \<Rightarrow> limiters s (m_limiter e)
      | None \<Rightarrow> new_RateLimiter (m_max_tokens_per_ip s) (m_refill_tokens_per_second_per_ip s) now)"

text \<open>What the table holds of an address: its entry and its bucket.\<close>

definition track :: "PerIPRateLimiter \<Rightarrow> string \<Rightarrow> (IPEntry \<times> RateLimiter) option" where
  "track s k = map_option (\<lambda>e. (e, limiters s (m_limiter e))) (map_of (m_ip_entries s) k)"

lemma track_fields [simp]: "track (counting f s) = track s"
  by (simp add: track_def fun_eq_iff)

text \<open>A full table has to lose an address for a new one: the one whose last request is the oldest.\<close>

definition oldest :: "PerIPRateLimiter \<Rightarrow> string \<Rightarrow> bool" where
  "oldest s old \<longleftrightarrow> track s old \<noteq> None \<and> (\<forall>k. track s k \<noteq> None \<longrightarrow> seen s old \<le> seen s k)"

definition others_after :: "string \<Rightarrow> PerIPRateLimiter \<Rightarrow> (string \<Rightarrow> (IPEntry \<times> RateLimiter) option) \<Rightarrow> bool" where
  "others_after ip s view \<longleftrightarrow>
     (if track s ip = None \<and> length (m_ip_entries s) \<ge> m_max_ips s
      then \<exists>old. oldest s old \<and> (\<forall>k. k \<noteq> ip \<longrightarrow> view k = (if k = old then None else track s k))
      else \<forall>k. k \<noteq> ip \<longrightarrow> view k = track s k)"

lemma others_after_cong:
  "others_after ip s view \<Longrightarrow> (\<And>k. k \<noteq> ip \<Longrightarrow> view' k = view k) \<Longrightarrow> others_after ip s view'"
  by (simp add: others_after_def split: if_splits)

lemma entry_node:
  assumes "ip_inv s" "map_of (m_ip_entries s) k = Some e"
  shows "(m_limiter e, k) \<in> set (m_lru_list s)" "m_limiter e < next_id s"
proof -
  have "m_limiter e = m_lru_it e" using assms map_of_SomeD [OF assms(2)] by (auto simp: ip_inv_def)
  then show "(m_limiter e, k) \<in> set (m_lru_list s)" using assms lru_rep_find [of m_lru_it "m_ip_entries s" "m_lru_list s"] by (simp add: ip_inv_def)
  then show "m_limiter e < next_id s" using assms(1) by (force simp: ip_inv_def)
qed

lemma others_limiter:
  assumes "ip_inv s" "map_of (m_ip_entries s) ip = Some e" "map_of (m_ip_entries s) k = Some e'" "k \<noteq> ip"
  shows "m_limiter e' \<noteq> m_limiter e"
  using entry_node(1) [OF assms(1,2)] entry_node(1) [OF assms(1,3)] assms(4)
    distinct_fst_unique [of "m_lru_list s" "m_limiter e" ip k] assms(1) by (auto simp: ip_inv_def lru_rep_def)

lemma evict_track:
  assumes "ip_inv s" "lru_sorted s" "0 < m_max_ips s" "length (m_ip_entries s) \<ge> m_max_ips s"
  shows "\<exists>old. oldest s old \<and> track (evict_oldest_ips 1 s) = (track s)(old := None)"
proof -
  have r: "lru_rep m_lru_it (m_ip_entries s) (m_lru_list s)" using assms(1) by (simp add: ip_inv_def)
  have "length (m_lru_list s) > 0" using lru_rep_length [OF r] assms(3,4) by linarith
  then obtain i old rest where l: "m_lru_list s = (i, old) # rest" by (cases "m_lru_list s") auto
  have "seen s old \<le> seen s k" if "track s k \<noteq> None" for k
  proof -
    from that obtain e where "map_of (m_ip_entries s) k = Some e" by (auto simp: track_def)
    from entry_node(1) [OF assms(1) this] have "k \<in> snd ` set ((i, old) # rest)" unfolding l by force
    moreover have "\<forall>p \<in> set rest. seen s old \<le> seen s (snd p)" using assms(2) by (simp add: lru_sorted_def l)
    ultimately show ?thesis by auto
  qed
  moreover have "track s old \<noteq> None" using lru_in_map [OF assms(1), of "(i, old)"] l by (auto simp: track_def)
  moreover have "track (evict_oldest_ips 1 s) = (track s)(old := None)"
    by (simp add: evict_one [OF assms(1) l] track_def fun_eq_iff lru_rep_map_erase [OF r])
  ultimately show ?thesis by (auto simp: oldest_def)
qed

lemma get_or_create_known:
  assumes "ip_inv s" "map_of (m_ip_entries s) ip = Some e" "get_or_create_limiter now ip s = Some (Some n, t)"
  shows "limiters t n = bucket_of now ip s" "\<exists>e'. map_of (m_ip_entries t) ip = Some e' \<and> m_limiter e' = n \<and> m_last_seen e' = now"
    "k \<noteq> ip \<Longrightarrow> track (t\<lparr>limiters := (limiters t)(n := r)\<rparr>) k = track s k"
proof -
  have n: "n = m_limiter e" "limiters t = limiters s"
    "map_of (m_ip_entries t) k = map_option (if k = ip then (\<lambda>e. e\<lparr>m_last_seen := now, m_requests := m_requests e + 1\<rparr>) else id) (map_of (m_ip_entries s) k)" for k
    using assms(2,3) by (auto simp: get_or_create_limiter_def map_of_modify option.map_id)
  show "limiters t n = bucket_of now ip s" "\<exists>e'. map_of (m_ip_entries t) ip = Some e' \<and> m_limiter e' = n \<and> m_last_seen e' = now"
    using assms(2) n by (simp_all add: bucket_of_def)
  show "track (t\<lparr>limiters := (limiters t)(n := r)\<rparr>) k = track s k" if "k \<noteq> ip"
    using that n others_limiter [OF assms(1,2)] by (cases "map_of (m_ip_entries s) k") (auto simp: track_def)
qed

lemma get_or_create_made:
  assumes inv: "ip_inv s" "lru_sorted s" "0 < m_max_ips s" and none: "map_of (m_ip_entries s) ip = None"
    and made: "get_or_create_limiter now ip s = Some (Some n, t)"
  shows "limiters t n = bucket_of now ip s" "\<exists>e'. map_of (m_ip_entries t) ip = Some e' \<and> m_limiter e' = n \<and> m_last_seen e' = now"
    "others_after ip s (track (t\<lparr>limiters := (limiters t)(n := r)\<rparr>))"
proof -
  define s1 where "s1 = (if length (m_ip_entries s) \<ge> m_max_ips s then evict_oldest_ips 1 s else s)"
  have s1: "ip_inv s1" "length (m_ip_entries s1) < m_max_ips s1" "next_id s1 = next_id s" "set (m_ip_entries s1) \<subseteq> set (m_ip_entries s)"
    using make_room [OF inv] by (simp_all add: s1_def)
  have e1: "limiters s1 = limiters s \<and> m_max_tokens_per_ip s1 = m_max_tokens_per_ip s
      \<and> m_refill_tokens_per_second_per_ip s1 = m_refill_tokens_per_second_per_ip s"
    by (simp add: s1_def evict_oldest_ips_def split_beta split: list.splits prod.splits)
  have n1: "map_of (m_ip_entries s1) ip = None" using none s1(4) by (auto simp: map_of_eq_None_iff)
  have t: "n = next_id s1" "limiters t = (limiters s1)(n := bucket_of now ip s)"
    "\<exists>e. m_ip_entries t = m_ip_entries s1 @ [(ip, e)] \<and> m_limiter e = n \<and> m_last_seen e = now"
    using made none s1(2) e1 by (auto simp: get_or_create_limiter_def bucket_of_def Let_def s1_def [symmetric])
  from t(3) obtain e where e: "m_ip_entries t = m_ip_entries s1 @ [(ip, e)]" "m_limiter e = n" "m_last_seen e = now" by blast
  show "limiters t n = bucket_of now ip s" "\<exists>e'. map_of (m_ip_entries t) ip = Some e' \<and> m_limiter e' = n \<and> m_last_seen e' = now"
    using t(2) e n1 by (simp_all add: map_add_def)
  have same: "track (t\<lparr>limiters := (limiters t)(n := r)\<rparr>) k = track s1 k" if "k \<noteq> ip" for k
    using that t(1,2) e(1) entry_node(2) [OF s1(1), of k] by (cases "map_of (m_ip_entries s1) k") (auto simp: track_def map_add_def)
  show "others_after ip s (track (t\<lparr>limiters := (limiters t)(n := r)\<rparr>))"
  proof (cases "length (m_ip_entries s) \<ge> m_max_ips s")
    case True
    then obtain old where "oldest s old" "track s1 = (track s)(old := None)" using evict_track [OF inv True] by (auto simp: s1_def)
    moreover have "track s ip = None" using none by (simp add: track_def)
    ultimately have "others_after ip s (track s1)" using True unfolding others_after_def by auto
    then show ?thesis using same by (rule others_after_cong)
  qed (use same in \<open>simp add: others_after_def s1_def\<close>)
qed

lemma get_or_create_view:
  assumes "ip_inv s" "lru_sorted s" "0 < m_max_ips s" "get_or_create_limiter now ip s = Some (Some n, t)"
  shows "limiters t n = bucket_of now ip s" "\<exists>e. map_of (m_ip_entries t) ip = Some e \<and> m_limiter e = n \<and> m_last_seen e = now"
    "others_after ip s (track (t\<lparr>limiters := (limiters t)(n := r)\<rparr>))"
proof -
  show "limiters t n = bucket_of now ip s" "\<exists>e. map_of (m_ip_entries t) ip = Some e \<and> m_limiter e = n \<and> m_last_seen e = now"
    using get_or_create_known(1,2) [OF assms(1) _ assms(4)] get_or_create_made(1,2) [OF assms(1-3) _ assms(4)]
    by (cases "map_of (m_ip_entries s) ip"; blast)+
  show "others_after ip s (track (t\<lparr>limiters := (limiters t)(n := r)\<rparr>))"
  proof (cases "map_of (m_ip_entries s) ip")
    case None
    then show ?thesis by (rule get_or_create_made(3) [OF assms(1-3) _ assms(4)])
  next
    case (Some e)
    then show ?thesis using get_or_create_known(3) [OF assms(1) Some assms(4)] by (simp add: others_after_def track_def [of s ip])
  qed
qed

section \<open>Properties\<close>

text \<open>
  Property C28. The table of addresses stays sound under any interleaving of the threads and the
  cleanup: no iterator into the list of addresses dangles, list and map hold the same addresses,
  each once, no two addresses share a limiter, there are never more than the configured number, and
  the list is in the order of the last requests.
\<close>

theorem per_ip_sound:
  assumes "0 < max_ips" "fits_all ip_step ip_fits calls (Some (new_PerIPRateLimiter burst rate max_ips interval))"
  shows "\<exists>s. fold ip_step calls (Some (new_PerIPRateLimiter burst rate max_ips interval)) = Some s \<and> ip_inv s \<and> lru_sorted s"
  using per_ip.inv_run [OF ip_ok_new [OF assms(1)] assms(2)] by (auto simp: ip_ok_def split: option.splits)

theorem per_ip_sound_witness:
  "\<exists>s. fold ip_step [GetOrCreate 1 ''a'', GetOrCreate 2 ''b'', RecordRejection ''a'', GetOrCreate 3 ''a'', GetOrCreate 4 ''c'', Cleanup 5]
     (Some (new_PerIPRateLimiter 5 1 2 10)) = Some s \<and> ip_inv s \<and> lru_sorted s"
  by (rule per_ip_sound)
     (simp_all add: new_PerIPRateLimiter_def ip_fits_def get_or_create_limiter_def evict_oldest_ips_def map_erase_def
        record_rejection_def map_modify_def splice_end_def has_node_def)

text \<open>
  Property C29. A request is measured by the bucket of its own address only: it is let through exactly
  when that bucket (a full one for an address not in the table) has a token, and it takes the token from that bucket; it is never refused for
  want of room in the table. The entries and buckets of the other addresses are as before, with one exception: when the table is full and the
  address is new, exactly one address leaves, the one whose last request is the oldest, and will start with a full bucket when it comes back.
\<close>

theorem per_ip_isolation:
  assumes "ip_ok (Some s)" "ip_fits (GetOrCreate now ip) (Some s)"
  shows "\<exists>allowed t. acquire_ip now now' ip s = Some (allowed, t)
     \<and> (allowed \<longleftrightarrow> fst (acquire now' (bucket_of now ip s)))
     \<and> (\<exists>e. track t ip = Some (e, snd (acquire now' (bucket_of now ip s))) \<and> m_last_seen e = now)
     \<and> (if track s ip = None \<and> length (m_ip_entries s) \<ge> m_max_ips s
        then \<exists>old. track s old \<noteq> None \<and> (\<forall>k. track s k \<noteq> None \<longrightarrow> seen s old \<le> seen s k)
           \<and> (\<forall>k. k \<noteq> ip \<longrightarrow> track t k = (if k = old then None else track s k))
        else \<forall>k. k \<noteq> ip \<longrightarrow> track t k = track s k)
     \<and> ip_ok (Some t)"
proof -
  let ?s = "counting count_request s"
  have s: "ip_inv ?s" "lru_sorted ?s" "0 < m_max_ips ?s" "ip_fits (GetOrCreate now ip) (Some ?s)"
    using assms by (simp_all add: ip_ok_def ip_inv_def lru_sorted_def seen_def ip_fits_def)
  obtain n t where t: "get_or_create_limiter now ip ?s = Some (Some n, t)" "ip_inv t" "lru_sorted t" "0 < m_max_ips t"
    using get_or_create_ok [OF s] s(3) by auto
  obtain allowed rl where a: "acquire now' (bucket_of now ip s) = (allowed, rl)" by fastforce
  note view = get_or_create_view [OF s(1-3) t(1)]
  have same: "bucket_of now ip ?s = bucket_of now ip s" "oldest ?s = oldest s" "others_after ip ?s = others_after ip s"
    by (simp_all add: bucket_of_def oldest_def others_after_def seen_def fun_eq_iff split: option.split)
  let ?t = "t\<lparr>limiters := (limiters t)(n := rl)\<rparr>"
  define u where "u = (if allowed then counting count_allowed ?t else record_rejection ip (counting count_rejected ?t))"
  have u: "acquire_ip now now' ip s = Some (allowed, u)"
    using t(1) a view(1) same(1) by (simp add: u_def acquire_ip_def acquire_from_def Let_def split_beta)
  have ok: "ip_ok (Some (counting f ?t))" for f using t by (simp add: ip_ok_def ip_inv_def lru_sorted_def seen_def)
  then have uok: "ip_ok (Some u)" using ip_ok_step [OF ok, of "RecordRejection ip" count_rejected] by (simp add: u_def ip_fits_def)
  obtain e where e: "map_of (m_ip_entries t) ip = Some e" "m_limiter e = n" "m_last_seen e = now" using view(2) by blast
  have tu: "track u k = track ?t k" if "k \<noteq> ip" for k
    using that by (simp add: u_def track_def record_rejection_def map_of_modify split: option.split)
  have "\<exists>e. track u ip = Some (e, rl) \<and> m_last_seen e = now"
    using e by (simp add: u_def track_def record_rejection_def map_of_modify)
  moreover have "others_after ip s (track u)" using view(3) [of rl] tu unfolding same(3) by (rule others_after_cong)
  ultimately show ?thesis using u a uok unfolding others_after_def oldest_def conj_assoc
    by (intro exI [of _ allowed] exI [of _ u] conjI) (simp_all only: fst_conv snd_conv)
qed

definition two_ips :: PerIPRateLimiter where
  "two_ips = the (fold ip_step [GetOrCreate 1 ''a'', GetOrCreate 2 ''b''] (Some (new_PerIPRateLimiter 1 1 2 10)))"

lemma two_ips_ok: "ip_ok (Some two_ips) \<and> ip_fits (GetOrCreate 3 ip) (Some two_ips) \<and> length (m_ip_entries two_ips) = m_max_ips two_ips
   \<and> dom (map_of (m_ip_entries two_ips)) = {''a'', ''b''}"
proof -
  have "fits_all ip_step ip_fits [GetOrCreate 1 ''a'', GetOrCreate 2 ''b''] (Some (new_PerIPRateLimiter 1 1 2 10))"
    and t: "fold ip_step [GetOrCreate 1 ''a'', GetOrCreate 2 ''b''] (Some (new_PerIPRateLimiter 1 1 2 10)) = Some two_ips"
    and r: "length (m_ip_entries two_ips) = m_max_ips two_ips \<and> dom (map_of (m_ip_entries two_ips)) = {''a'', ''b''}
      \<and> ip_fits (GetOrCreate 3 ip) (Some two_ips)"
    by (auto simp: two_ips_def new_PerIPRateLimiter_def ip_fits_def get_or_create_limiter_def Let_def dom_def)
  from per_ip.inv_run [OF ip_ok_new this(1)] t r show ?thesis by simp
qed

theorem per_ip_isolation_witness:
  "\<exists>allowed t old. acquire_ip 3 4 ''c'' two_ips = Some (allowed, t) \<and> track two_ips old \<noteq> None
     \<and> (\<forall>k. k \<noteq> ''c'' \<longrightarrow> track t k = (if k = old then None else track two_ips k)) \<and> ip_ok (Some t)"
proof -
  have "''c'' \<notin> dom (map_of (m_ip_entries two_ips))" "length (m_ip_entries two_ips) = m_max_ips two_ips"
    by (simp_all only: two_ips_ok) simp
  then have full: "track two_ips ''c'' = None \<and> length (m_ip_entries two_ips) \<ge> m_max_ips two_ips"
    by (simp only: track_def domIff not_not option.map order_refl simp_thms)
  note ok = two_ips_ok [of "''c''", THEN conjunct1] two_ips_ok [of "''c''", THEN conjunct2, THEN conjunct1]
  from per_ip_isolation [OF ok, of 4, unfolded if_P [OF full]] show ?thesis by (elim exE conjE) (intro exI conjI; assumption)
qed

end
