(* ===== verification/Diod_Duplicates.thy ===== *)
theory Diod_Duplicates
  imports Diod_Machine Diod_Lru "HOL-Library.List_Lexorder" "HOL-Library.Char_ord"
begin

text \<open>
  The detector of repeated POST bodies (\<open>duplicate_detector.hpp\<close>, \<open>duplicate_detector.cpp\<close>). Bodies
  are known by the hash that the caller computes. The two maps are association lists; a set of client
  ids is a sorted list without repetitions, as \<open>std::set\<close> iterates it. The sink of evictions, when it
  is set, is the list of what was reported to it. The report is a record with the fields of the JSON
  object; entries that compare equal may come in any order there, which the unspecified order of
  the map already covers.
\<close>

datatype EvictionReason = BODY_TTL | BODY_CAP | CLIENT_TTL | CLIENT_CAP

fun eviction_reason_name :: "EvictionReason \<Rightarrow> string" where
  "eviction_reason_name BODY_TTL = ''body_ttl''"
| "eviction_reason_name BODY_CAP = ''body_cap''"
| "eviction_reason_name CLIENT_TTL = ''client_ttl''"
| "eviction_reason_name CLIENT_CAP = ''client_cap''"

record Options =
  opt_enabled :: bool
  opt_top_n :: nat
  opt_max_entries :: nat
  opt_ttl_ms :: u64
  opt_max_body_bytes :: nat
  opt_duplicate_log_threshold :: nat
  opt_per_client_max_entries :: nat
  opt_per_client_ttl_ms :: u64

definition default_Options :: Options where
  "default_Options = \<lparr>opt_enabled = True, opt_top_n = 100, opt_max_entries = 1000, opt_ttl_ms = 60000,
     opt_max_body_bytes = 500, opt_duplicate_log_threshold = 5, opt_per_client_max_entries = 1000,
     opt_per_client_ttl_ms = 1800000\<rparr>"

record dup_Entry =
  de_body :: string
  de_client_ids :: "string list"
  de_first_seen_ms :: u64
  de_last_seen_ms :: u64
  de_count :: u64

record ClientCount =
  cc_count :: nat
  cc_last_seen_ms :: u64

record DuplicateDetector =
  d_options :: Options
  d_sink :: "(EvictionReason \<times> nat) list option"
  d_entries :: "(string \<times> dup_Entry) list"
  d_per_client_count :: "(string \<times> ClientCount) list"
  d_warnings :: nat

definition new_DuplicateDetector :: "Options \<Rightarrow> bool \<Rightarrow> DuplicateDetector" where
  "new_DuplicateDetector options sink =
     \<lparr>d_options = options, d_sink = (if sink then Some [] else None), d_entries = [], d_per_client_count = [], d_warnings = 0\<rparr>"

definition report_evictions :: "EvictionReason \<Rightarrow> nat \<Rightarrow> DuplicateDetector \<Rightarrow> DuplicateDetector" where
  "report_evictions reason n d =
     (if n = 0 then d else d\<lparr>d_sink := map_option (\<lambda>log. log @ [(reason, n)]) (d_sink d)\<rparr>)"

definition idle_longer :: "u64 \<Rightarrow> u64 \<Rightarrow> u64 \<Rightarrow> bool" where
  "idle_longer now last_seen ttl \<longleftrightarrow> now - last_seen > ttl"

definition evict_expired_clients :: "u64 \<Rightarrow> DuplicateDetector \<Rightarrow> DuplicateDetector" where
  "evict_expired_clients now_ms d =
     (let ttl = opt_per_client_ttl_ms (d_options d);
          gone = (\<lambda>p. idle_longer now_ms (cc_last_seen_ms (snd p)) ttl)
      in if ttl = 0 then d
         else report_evictions CLIENT_TTL (length (filter gone (d_per_client_count d)))
                (d\<lparr>d_per_client_count := filter (\<lambda>p. \<not> gone p) (d_per_client_count d)\<rparr>))"

definition evict_expired :: "u64 \<Rightarrow> DuplicateDetector \<Rightarrow> DuplicateDetector" where
  "evict_expired now_ms d =
     (let gone = (\<lambda>p. idle_longer now_ms (de_last_seen_ms (snd p)) (opt_ttl_ms (d_options d)))
      in evict_expired_clients now_ms
           (report_evictions BODY_TTL (length (filter gone (d_entries d)))
              (d\<lparr>d_entries := filter (\<lambda>p. \<not> gone p) (d_entries d)\<rparr>)))"

text \<open>\<open>std::ranges::min_element\<close>: the first element that no other is less than.\<close>

fun min_element :: "('a \<Rightarrow> 'a \<Rightarrow> bool) \<Rightarrow> 'a \<Rightarrow> 'a list \<Rightarrow> 'a" where
  "min_element lt best [] = best"
| "min_element lt best (x # xs) = min_element lt (if lt x best then x else best) xs"

definition older_client :: "string \<times> ClientCount \<Rightarrow> string \<times> ClientCount \<Rightarrow> bool" where
  "older_client a b \<longleftrightarrow> cc_last_seen_ms (snd a) < cc_last_seen_ms (snd b)"

definition evict_oldest_client :: "DuplicateDetector \<Rightarrow> DuplicateDetector" where
  "evict_oldest_client d =
     (case d_per_client_count d of
        [] \<Rightarrow> d
      | p # ps \<Rightarrow> report_evictions CLIENT_CAP 1
          (d\<lparr>d_per_client_count := map_erase (fst (min_element older_client p ps)) (d_per_client_count d)\<rparr>))"

definition lower_count :: "string \<times> dup_Entry \<Rightarrow> string \<times> dup_Entry \<Rightarrow> bool" where
  "lower_count a b \<longleftrightarrow>
     (if de_count (snd a) \<noteq> de_count (snd b) then de_count (snd a) < de_count (snd b)
      else de_first_seen_ms (snd a) < de_first_seen_ms (snd b))"

definition evict_lowest_count :: "DuplicateDetector \<Rightarrow> DuplicateDetector" where
  "evict_lowest_count d =
     (case d_entries d of
        [] \<Rightarrow> d
      | p # ps \<Rightarrow> report_evictions BODY_CAP 1
          (d\<lparr>d_entries := map_erase (fst (min_element lower_count p ps)) (d_entries d)\<rparr>))"

definition new_entry :: "u64 \<Rightarrow> string \<Rightarrow> string \<Rightarrow> Options \<Rightarrow> dup_Entry" where
  "new_entry now_ms client_id body opts =
     \<lparr>de_body = (if length body \<le> opt_max_body_bytes opts then body else []), de_client_ids = [client_id],
      de_first_seen_ms = now_ms, de_last_seen_ms = now_ms, de_count = 1\<rparr>"

definition seen_again :: "u64 \<Rightarrow> string \<Rightarrow> string \<Rightarrow> Options \<Rightarrow> dup_Entry \<Rightarrow> dup_Entry" where
  "seen_again now_ms client_id body opts e =
     e\<lparr>de_count := de_count e + 1, de_last_seen_ms := now_ms, de_client_ids := insort_insert client_id (de_client_ids e),
       de_body := (if de_body e = [] \<and> length body \<le> opt_max_body_bytes opts then body else de_body e)\<rparr>"

text \<open>The second half of \<open>record\<close>: the counter of the client, which is entered when it is not there.\<close>

definition emplace_client :: "string \<Rightarrow> DuplicateDetector \<Rightarrow> DuplicateDetector" where
  "emplace_client client_id d =
     (case map_of (d_per_client_count d) client_id of
        Some c \<Rightarrow> d
      | None \<Rightarrow>
         (let cap = opt_per_client_max_entries (d_options d);
              d0 = (if cap > 0 \<and> length (d_per_client_count d) \<ge> cap then evict_oldest_client d else d)
          in d0\<lparr>d_per_client_count := d_per_client_count d0 @ [(client_id, \<lparr>cc_count = 0, cc_last_seen_ms = 0\<rparr>)]\<rparr>))"

definition bump_client :: "u64 \<Rightarrow> string \<Rightarrow> DuplicateDetector \<Rightarrow> DuplicateDetector" where
  "bump_client now_ms client_id d =
     d\<lparr>d_per_client_count := map_modify client_id
         (\<lambda>c. c\<lparr>cc_count := Suc (cc_count c), cc_last_seen_ms := now_ms\<rparr>) (d_per_client_count d)\<rparr>"

definition client_total :: "string \<Rightarrow> DuplicateDetector \<Rightarrow> nat" where
  "client_total client_id d =
     (case map_of (d_per_client_count d) client_id of Some c \<Rightarrow> cc_count c | None \<Rightarrow> 0)"

definition count_client :: "u64 \<Rightarrow> string \<Rightarrow> DuplicateDetector \<Rightarrow> nat \<times> DuplicateDetector" where
  "count_client now_ms client_id d =
     (let d2 = bump_client now_ms client_id (emplace_client client_id d);
          client_count = client_total client_id d2;
          threshold = opt_duplicate_log_threshold (d_options d2)
      in (client_count, if threshold > 0 \<and> client_count mod threshold = 0 then d2\<lparr>d_warnings := Suc (d_warnings d2)\<rparr> else d2))"

definition record_body :: "u64 \<Rightarrow> string \<Rightarrow> string \<Rightarrow> string \<Rightarrow> DuplicateDetector \<Rightarrow> (bool \<times> nat) \<times> DuplicateDetector" where
  "record_body now_ms client_id body_hash body d =
     (if \<not> opt_enabled (d_options d) then ((False, 0), d)
      else let d1 = evict_expired now_ms d
           in case map_of (d_entries d1) body_hash of
                None \<Rightarrow>
                 (let d2 = (if length (d_entries d1) \<ge> opt_max_entries (d_options d1) then evict_lowest_count d1 else d1)
                  in ((False, 0), d2\<lparr>d_entries := d_entries d2 @ [(body_hash, new_entry now_ms client_id body (d_options d))]\<rparr>))
              | Some e \<Rightarrow>
                 (let (n, d2) = count_client now_ms client_id
                        (d1\<lparr>d_entries := map_modify body_hash (seen_again now_ms client_id body (d_options d)) (d_entries d1)\<rparr>)
                  in ((True, n), d2)))"

definition duplicate_bodies :: "DuplicateDetector \<Rightarrow> nat" where
  "duplicate_bodies d = length (filter (\<lambda>p. de_count (snd p) \<ge> 2) (d_entries d))"

definition per_client_count_size :: "DuplicateDetector \<Rightarrow> nat" where
  "per_client_count_size d = length (d_per_client_count d)"

section \<open>The report\<close>

definition more_frequent :: "dup_Entry \<Rightarrow> dup_Entry \<Rightarrow> bool" where
  "more_frequent a b \<longleftrightarrow>
     (if de_count a \<noteq> de_count b then de_count a > de_count b else de_first_seen_ms a < de_first_seen_ms b)"

fun insert_dup :: "dup_Entry \<Rightarrow> dup_Entry list \<Rightarrow> dup_Entry list" where
  "insert_dup x [] = [x]"
| "insert_dup x (y # ys) = (if more_frequent y x then y # insert_dup x ys else x # y # ys)"

definition sort_dups :: "dup_Entry list \<Rightarrow> dup_Entry list" where
  "sort_dups xs = foldr insert_dup xs []"

record report_item =
  ri_count :: u64
  ri_type :: string
  ri_clients :: "string list"
  ri_first_seen_ms :: u64
  ri_last_seen_ms :: u64
  ri_body :: string

record dup_report =
  dr_enabled :: bool
  dr_duplicate_bodies :: nat
  dr_duplicate_occurrences :: u64
  dr_same_client :: nat
  dr_cross_client :: nat
  dr_top :: "report_item list"

definition dup_type :: "dup_Entry \<Rightarrow> string" where
  "dup_type e = (if length (de_client_ids e) \<le> 1 then ''same_client'' else ''cross_client'')"

definition report_item_of :: "dup_Entry \<Rightarrow> report_item" where
  "report_item_of e = \<lparr>ri_count = de_count e, ri_type = dup_type e, ri_clients = de_client_ids e,
     ri_first_seen_ms = de_first_seen_ms e, ri_last_seen_ms = de_last_seen_ms e, ri_body = de_body e\<rparr>"

definition dup_list :: "DuplicateDetector \<Rightarrow> dup_Entry list" where
  "dup_list d = map snd (filter (\<lambda>p. de_count (snd p) \<ge> 2) (d_entries d))"

definition report :: "DuplicateDetector \<Rightarrow> dup_report" where
  "report d =
     (let ds = dup_list d
      in \<lparr>dr_enabled = opt_enabled (d_options d), dr_duplicate_bodies = length ds,
          dr_duplicate_occurrences = sum_list (map (\<lambda>e. de_count e - 1) ds),
          dr_same_client = length (filter (\<lambda>e. length (de_client_ids e) \<le> 1) ds),
          dr_cross_client = length (filter (\<lambda>e. \<not> length (de_client_ids e) \<le> 1) ds),
          dr_top = map report_item_of (take (min (length ds) (opt_top_n (d_options d))) (sort_dups ds))\<rparr>)"

section \<open>Invariant\<close>

lemma min_element_in: "min_element lt b xs \<in> set (b # xs)"
proof (induction xs arbitrary: b)
  case (Cons a xs)
  then show ?case using Cons [of "if lt a b then a else b"] by (auto split: if_splits)
qed simp

lemma map_erase_length:
  "distinct (map fst m) \<Longrightarrow> k \<in> fst ` set m \<Longrightarrow> Suc (length (map_erase k m)) = length m"
proof (induction m)
  case (Cons p m)
  show ?case
  proof (cases "fst p = k")
    case True
    then have "filter (\<lambda>p. fst p \<noteq> k) m = m" using Cons(2) by (auto simp: filter_id_conv image_iff)
    with True show ?thesis by (simp add: map_erase_def)
  next
    case False
    with Cons show ?thesis by (auto simp: map_erase_def)
  qed
qed simp

lemma report_evictions_simps [simp]:
  "d_options (report_evictions r n d) = d_options d" "d_entries (report_evictions r n d) = d_entries d"
  "d_per_client_count (report_evictions r n d) = d_per_client_count d"
  by (simp_all add: report_evictions_def)

lemma evict_expired_simps [simp]:
  "d_options (evict_expired now d) = d_options d"
  "d_entries (evict_expired now d) = filter (\<lambda>p. \<not> idle_longer now (de_last_seen_ms (snd p)) (opt_ttl_ms (d_options d))) (d_entries d)"
  by (simp_all add: evict_expired_def evict_expired_clients_def Let_def)

lemma evict_expired_clients_sub:
  "\<exists>P. d_per_client_count (evict_expired now d) = filter P (d_per_client_count d)"
proof (cases "opt_per_client_ttl_ms (d_options d) = 0")
  case True
  then show ?thesis by (intro exI [of _ "\<lambda>_. True"]) (simp add: evict_expired_def evict_expired_clients_def Let_def)
next
  case False
  then show ?thesis by (intro exI) (simp add: evict_expired_def evict_expired_clients_def Let_def)
qed

lemma evict_lowest_count_simps [simp]:
  "d_options (evict_lowest_count d) = d_options d" "d_per_client_count (evict_lowest_count d) = d_per_client_count d"
  by (simp_all add: evict_lowest_count_def split: list.split)

lemma evict_lowest_count_entries:
  assumes "distinct (map fst (d_entries d))" "d_entries d \<noteq> []"
  shows "\<exists>k. d_entries (evict_lowest_count d) = map_erase k (d_entries d) \<and> Suc (length (map_erase k (d_entries d))) = length (d_entries d)"
proof -
  obtain p ps where l: "d_entries d = p # ps" using assms(2) by (cases "d_entries d") auto
  have "fst (min_element lower_count p ps) \<in> fst ` set (d_entries d)" using min_element_in [of lower_count p ps] l by auto
  from map_erase_length [OF assms(1) this] l show ?thesis by (auto simp: evict_lowest_count_def)
qed

lemma evict_oldest_client_simps [simp]:
  "d_options (evict_oldest_client d) = d_options d" "d_entries (evict_oldest_client d) = d_entries d"
  by (simp_all add: evict_oldest_client_def split: list.split)

lemma evict_oldest_client_counts:
  assumes "distinct (map fst (d_per_client_count d))" "d_per_client_count d \<noteq> []"
  shows "\<exists>k. d_per_client_count (evict_oldest_client d) = map_erase k (d_per_client_count d)
     \<and> Suc (length (map_erase k (d_per_client_count d))) = length (d_per_client_count d)"
proof -
  obtain p ps where l: "d_per_client_count d = p # ps" using assms(2) by (cases "d_per_client_count d") auto
  have "fst (min_element older_client p ps) \<in> fst ` set (d_per_client_count d)" using min_element_in [of older_client p ps] l by auto
  from map_erase_length [OF assms(1) this] l show ?thesis by (auto simp: evict_oldest_client_def)
qed

lemma map_modify_keys [simp]: "map fst (map_modify k f m) = map fst m" "length (map_modify k f m) = length m"
  by (auto simp: map_modify_def)

definition dup_inv :: "DuplicateDetector \<Rightarrow> bool" where
  "dup_inv d \<longleftrightarrow>
     distinct (map fst (d_entries d)) \<and> distinct (map fst (d_per_client_count d))
   \<and> length (d_entries d) \<le> max 1 (opt_max_entries (d_options d))
   \<and> (opt_per_client_max_entries (d_options d) > 0 \<longrightarrow> length (d_per_client_count d) \<le> opt_per_client_max_entries (d_options d))"

lemma emplace_client_simps [simp]:
  "d_options (emplace_client c d) = d_options d" "d_entries (emplace_client c d) = d_entries d"
  by (simp_all add: emplace_client_def Let_def split: option.split)

lemma count_client_simps [simp]:
  "d_options (snd (count_client now c d)) = d_options d" "d_entries (snd (count_client now c d)) = d_entries d"
  "d_per_client_count (snd (count_client now c d)) = d_per_client_count (bump_client now c (emplace_client c d))"
  by (simp_all add: count_client_def Let_def bump_client_def)

lemma count_client_inv:
  assumes "dup_inv d" shows "dup_inv (snd (count_client now c d))"
proof -
  have bound: "distinct (map fst cl) \<and> (cap > 0 \<longrightarrow> length cl \<le> cap)"
    if "cl = d_per_client_count (snd (count_client now c d))" "cap = opt_per_client_max_entries (d_options d)" for cl cap
  proof (cases "map_of (d_per_client_count d) c")
    case (Some x)
    then show ?thesis using that assms by (simp add: bump_client_def emplace_client_def dup_inv_def)
  next
    case None
    define d0 where "d0 = (if cap > 0 \<and> length (d_per_client_count d) \<ge> cap then evict_oldest_client d else d)"
    have cl: "map fst cl = map fst (d_per_client_count d0) @ [c]" "length cl = Suc (length (d_per_client_count d0))"
      using that None by (simp_all add: bump_client_def emplace_client_def Let_def d0_def)
    have dist: "distinct (map fst (d_per_client_count d))" using assms by (simp add: dup_inv_def)
    have nc: "c \<notin> fst ` set (d_per_client_count d)" using None by (simp add: map_of_eq_None_iff)
    have "distinct (map fst (d_per_client_count d0)) \<and> c \<notin> fst ` set (d_per_client_count d0) \<and> (cap > 0 \<longrightarrow> length (d_per_client_count d0) < cap)"
    proof (cases "cap > 0 \<and> length (d_per_client_count d) \<ge> cap")
      case True
      then have ne: "d_per_client_count d \<noteq> []" by auto
      obtain k where k: "d_per_client_count d0 = map_erase k (d_per_client_count d)"
        "Suc (length (map_erase k (d_per_client_count d))) = length (d_per_client_count d)"
        using evict_oldest_client_counts [OF dist ne] True by (auto simp: d0_def)
      have "length (d_per_client_count d) \<le> cap" using assms True that(2) by (simp add: dup_inv_def)
      then show ?thesis using k dist nc by (auto simp: map_erase_def distinct_map_filter)
    next
      case False
      then show ?thesis using dist nc by (auto simp: d0_def)
    qed
    then show ?thesis using cl by (simp add: Suc_le_eq)
  qed
  show ?thesis using assms bound by (simp add: dup_inv_def)
qed

lemma record_body_inv:
  assumes "dup_inv d" shows "dup_inv (snd (record_body now c k b d))"
proof (cases "opt_enabled (d_options d)")
  case True
  define d1 where "d1 = evict_expired now d"
  obtain P where P: "d_per_client_count d1 = filter P (d_per_client_count d)"
    using evict_expired_clients_sub [of now d] by (auto simp: d1_def)
  have len: "length (d_per_client_count d1) \<le> length (d_per_client_count d)" "length (d_entries d1) \<le> length (d_entries d)"
    by (simp add: P, simp add: d1_def)
  have i1: "dup_inv d1"
    using assms P len unfolding dup_inv_def d1_def by (auto simp: distinct_map_filter simp del: length_filter_le)
  show ?thesis
  proof (cases "map_of (d_entries d1) k")
    case (Some e)
    let ?d = "d1\<lparr>d_entries := map_modify k (seen_again now c b (d_options d)) (d_entries d1)\<rparr>"
    have "dup_inv ?d" using i1 by (simp add: dup_inv_def)
    then show ?thesis using count_client_inv [of ?d now c] Some True
      by (simp add: record_body_def Let_def d1_def [symmetric] split_beta)
  next
    case None
    define d2 where "d2 = (if length (d_entries d1) \<ge> opt_max_entries (d_options d1) then evict_lowest_count d1 else d1)"
    have dist: "distinct (map fst (d_entries d1))" using i1 by (simp add: dup_inv_def)
    have nk: "k \<notin> fst ` set (d_entries d1)" using None by (simp add: map_of_eq_None_iff)
    have o: "d_options d2 = d_options d1" "d_per_client_count d2 = d_per_client_count d1" by (simp_all add: d2_def)
    have "distinct (map fst (d_entries d2)) \<and> k \<notin> fst ` set (d_entries d2) \<and> length (d_entries d2) < max 1 (opt_max_entries (d_options d1))"
    proof (cases "length (d_entries d1) \<ge> opt_max_entries (d_options d1) \<and> d_entries d1 \<noteq> []")
      case True
      then obtain k' where "d_entries d2 = map_erase k' (d_entries d1)" "Suc (length (map_erase k' (d_entries d1))) = length (d_entries d1)"
        using evict_lowest_count_entries [OF dist] by (auto simp: d2_def)
      then show ?thesis using dist nk i1 by (auto simp: map_erase_def distinct_map_filter dup_inv_def)
    next
      case False
      then have "d_entries d2 = d_entries d1" by (auto simp: d2_def evict_lowest_count_def)
      then show ?thesis using dist nk False by auto
    qed
    moreover have "snd (record_body now c k b d) = d2\<lparr>d_entries := d_entries d2 @ [(k, new_entry now c b (d_options d))]\<rparr>"
      using True None by (simp add: record_body_def Let_def d1_def [symmetric] d2_def [symmetric])
    ultimately show ?thesis using i1 o by (simp add: dup_inv_def)
  qed
qed (use assms in \<open>simp add: record_body_def\<close>)

section \<open>Histories\<close>

text \<open>
  A call with the clock reading, client, hash and body; the specification keeps the time of the last
  delivery of every body.
\<close>

record delivery =
  dl_now :: u64
  dl_client :: string
  dl_hash :: string
  dl_body :: string

definition dup_step :: "delivery \<Rightarrow> DuplicateDetector \<Rightarrow> DuplicateDetector" where
  "dup_step c d = snd (record_body (dl_now c) (dl_client c) (dl_hash c) (dl_body c) d)"

definition note_delivery :: "delivery \<Rightarrow> (string \<rightharpoonup> u64) \<Rightarrow> (string \<rightharpoonup> u64)" where
  "note_delivery c h = h(dl_hash c \<mapsto> dl_now c)"

definition last_delivery :: "delivery list \<Rightarrow> string \<rightharpoonup> u64" where
  "last_delivery cs = fold note_delivery cs Map.empty"

text \<open>What one call does to the bodies it knows: the expired go, then the body is counted or entered.\<close>

abbreviation bodies :: "DuplicateDetector \<Rightarrow> string \<rightharpoonup> dup_Entry" where
  "bodies d \<equiv> map_of (d_entries d)"

lemma evict_expired_map:
  assumes "dup_inv d"
  shows "bodies (evict_expired now d) k = Some e
     \<longleftrightarrow> bodies d k = Some e \<and> \<not> idle_longer now (de_last_seen_ms e) (opt_ttl_ms (d_options d))"
proof -
  have d: "distinct (map fst (d_entries d))" using assms by (simp add: dup_inv_def)
  then have "distinct (map fst (d_entries (evict_expired now d)))" by (simp add: distinct_map_filter)
  then show ?thesis using d by simp
qed

lemma record_hit:
  assumes "opt_enabled (d_options d)" "bodies (evict_expired now d) k = Some e"
  shows "fst (fst (record_body now c k b d))"
    and "bodies (snd (record_body now c k b d)) = (bodies (evict_expired now d))(k \<mapsto> seen_again now c b (d_options d) e)"
    and "d_options (snd (record_body now c k b d)) = d_options d"
proof -
  define d1 where "d1 = evict_expired now d"
  have r: "record_body now c k b d = ((True, fst (count_client now c (d1\<lparr>d_entries := map_modify k (seen_again now c b (d_options d)) (d_entries d1)\<rparr>))),
     snd (count_client now c (d1\<lparr>d_entries := map_modify k (seen_again now c b (d_options d)) (d_entries d1)\<rparr>)))"
    using assms unfolding record_body_def d1_def [symmetric] by (simp add: Let_def split_beta)
  show "fst (fst (record_body now c k b d))" by (simp add: r)
  show "bodies (snd (record_body now c k b d)) = (bodies (evict_expired now d))(k \<mapsto> seen_again now c b (d_options d) e)"
    using assms(2) unfolding r d1_def [symmetric] by (simp add: map_of_modify)
  show "d_options (snd (record_body now c k b d)) = d_options d" unfolding r by (simp add: d1_def)
qed

lemma make_room_bodies:
  assumes "distinct (map fst (d_entries d))"
  defines "d2 \<equiv> if length (d_entries d) \<ge> opt_max_entries (d_options d) then evict_lowest_count d else d"
  shows "bodies d2 \<subseteq>\<^sub>m bodies d" "length (d_entries d) < opt_max_entries (d_options d) \<Longrightarrow> d2 = d"
proof -
  show "bodies d2 \<subseteq>\<^sub>m bodies d"
  proof (cases "length (d_entries d) \<ge> opt_max_entries (d_options d) \<and> d_entries d \<noteq> []")
    case True
    then obtain k where "d_entries d2 = map_erase k (d_entries d)"
      using evict_lowest_count_entries [OF assms(1)] by (auto simp: d2_def)
    then show ?thesis using map_of_distinct_filter [OF assms(1), of k] by (simp add: map_erase_def map_le_def)
  next
    case False
    then have "d2 = d" by (auto simp: d2_def evict_lowest_count_def)
    then show ?thesis by simp
  qed
qed (simp add: d2_def)

lemma record_miss:
  assumes "opt_enabled (d_options d)" "dup_inv d" "bodies (evict_expired now d) k = None"
  shows "\<exists>m. m \<subseteq>\<^sub>m bodies (evict_expired now d)
      \<and> (Suc (length (d_entries (evict_expired now d))) \<le> opt_max_entries (d_options d) \<longrightarrow> m = bodies (evict_expired now d))
      \<and> bodies (snd (record_body now c k b d)) = m(k \<mapsto> new_entry now c b (d_options d))
      \<and> \<not> fst (fst (record_body now c k b d)) \<and> d_options (snd (record_body now c k b d)) = d_options d"
proof -
  define d1 where "d1 = evict_expired now d"
  define d2 where "d2 = (if length (d_entries d1) \<ge> opt_max_entries (d_options d1) then evict_lowest_count d1 else d1)"
  have o: "d_options d1 = d_options d" "d_options d2 = d_options d" by (simp_all add: d1_def d2_def)
  have "distinct (map fst (d_entries d1))" using assms(2) by (simp add: d1_def dup_inv_def distinct_map_filter)
  then have m: "bodies d2 \<subseteq>\<^sub>m bodies d1" "length (d_entries d1) < opt_max_entries (d_options d1) \<Longrightarrow> d2 = d1"
    unfolding d2_def by (rule make_room_bodies)+
  have "k \<notin> dom (bodies d2)" using m(1) assms(3) map_le_implies_dom_le by (fastforce simp: d1_def)
  then have a: "map_of (d_entries d2 @ [(k, x)]) = (bodies d2)(k \<mapsto> x)" for x
    by (auto simp: map_add_def fun_eq_iff domIff split: option.splits)
  have r: "record_body now c k b d = ((False, 0), d2\<lparr>d_entries := d_entries d2 @ [(k, new_entry now c b (d_options d))]\<rparr>)"
    using assms(1,3) unfolding record_body_def d1_def [symmetric] d2_def by (simp add: Let_def)
  show ?thesis unfolding r d1_def [symmetric]
    using m o a by (intro exI [of _ "bodies d2"]) (simp add: Suc_le_eq)
qed

text \<open>A body that the detector still holds, and what a delivery reports and leaves behind.\<close>

definition delivered_lately :: "u64 \<Rightarrow> string \<Rightarrow> DuplicateDetector \<Rightarrow> bool" where
  "delivered_lately now k d \<longleftrightarrow> opt_enabled (d_options d)
     \<and> (\<exists>e. bodies d k = Some e \<and> \<not> idle_longer now (de_last_seen_ms e) (opt_ttl_ms (d_options d)))"

lemma record_body_reports:
  assumes "dup_inv d"
  shows "fst (fst (record_body now c k b d)) \<longleftrightarrow> delivered_lately now k d"
    and "opt_enabled (d_options d) \<Longrightarrow> \<exists>e. bodies (snd (record_body now c k b d)) k = Some e \<and> de_last_seen_ms e = now"
    and "d_options (snd (record_body now c k b d)) = d_options d"
proof -
  have en: "(fst (fst (record_body now c k b d)) \<longleftrightarrow> delivered_lately now k d)
      \<and> (\<exists>e. bodies (snd (record_body now c k b d)) k = Some e \<and> de_last_seen_ms e = now)
      \<and> d_options (snd (record_body now c k b d)) = d_options d" if en: "opt_enabled (d_options d)"
  proof (cases "bodies (evict_expired now d) k")
    case None
    then have "\<not> delivered_lately now k d" using evict_expired_map [OF assms, of now k] by (auto simp: delivered_lately_def)
    then show ?thesis using record_miss [OF en assms None, of c b] by (auto simp: new_entry_def)
  next
    case (Some e)
    then have "delivered_lately now k d" using evict_expired_map [OF assms, of now k e] en by (auto simp: delivered_lately_def)
    then show ?thesis using record_hit [OF en Some, of c b] by (simp add: seen_again_def Let_def)
  qed
  have off: "record_body now c k b d = ((False, 0), d)" if "\<not> opt_enabled (d_options d)" using that by (simp add: record_body_def)
  show "fst (fst (record_body now c k b d)) \<longleftrightarrow> delivered_lately now k d"
    using en off by (cases "opt_enabled (d_options d)") (auto simp: delivered_lately_def)
  show "\<exists>e. bodies (snd (record_body now c k b d)) k = Some e \<and> de_last_seen_ms e = now" if "opt_enabled (d_options d)" using en that by blast
  show "d_options (snd (record_body now c k b d)) = d_options d" using en off by (cases "opt_enabled (d_options d)") auto
qed

text \<open>
  The detector next to the specification: every body it knows was last delivered when it thinks, and
  what it does not know was delivered too long ago. \<open>D\<close> are the bodies that are delivered at all.
\<close>

definition known :: "(string \<rightharpoonup> u64) \<Rightarrow> DuplicateDetector \<Rightarrow> bool" where
  "known h d \<longleftrightarrow> (\<forall>k e. bodies d k = Some e \<longrightarrow> h k = Some (de_last_seen_ms e))"

definition remembers :: "u64 \<Rightarrow> (string \<rightharpoonup> u64) \<Rightarrow> DuplicateDetector \<Rightarrow> bool" where
  "remembers cur h d \<longleftrightarrow>
     (\<forall>k t. h k = Some t \<longrightarrow> t \<le> cur \<and> (k \<in> dom (bodies d) \<or> idle_longer cur t (opt_ttl_ms (d_options d))))"

lemma idle_longer_mono: "t \<le> cur \<Longrightarrow> cur \<le> now \<Longrightarrow> idle_longer cur t ttl \<Longrightarrow> idle_longer now t ttl"
  using unat_elapsed [of t cur] unat_elapsed [of t now]
  by (simp add: idle_longer_def word_less_nat_alt word_le_nat_alt)

lemma known_step:
  assumes "known h d" "dup_inv d" "opt_enabled (d_options d)"
  shows "known (note_delivery c h) (dup_step c d)"
proof -
  let ?d1 = "evict_expired (dl_now c) d"
  have k1: "known h ?d1" using assms(1) evict_expired_map [OF assms(2)] unfolding known_def by blast
  show ?thesis
  proof (cases "bodies ?d1 (dl_hash c)")
    case (Some e)
    then show ?thesis using record_hit(2) [OF assms(3) Some, of "dl_client c" "dl_body c"] k1
      by (simp add: known_def dup_step_def note_delivery_def seen_again_def)
  next
    case None
    obtain m where m: "m \<subseteq>\<^sub>m bodies ?d1" "bodies (dup_step c d) = m(dl_hash c \<mapsto> new_entry (dl_now c) (dl_client c) (dl_body c) (d_options d))"
      using record_miss [OF assms(3,2) None, of "dl_client c" "dl_body c"] by (auto simp: dup_step_def)
    have "m k = Some e \<Longrightarrow> h k = Some (de_last_seen_ms e)" for k e
      using m(1) k1 unfolding known_def map_le_def by (metis domI)
    then show ?thesis using m(2) by (simp add: known_def note_delivery_def new_entry_def)
  qed
qed

lemma remembers_step:
  assumes "remembers cur h d" "known h d" "dup_inv d" "opt_enabled (d_options d)" "cur \<le> dl_now c"
    and D: "finite D" "dom h \<subseteq> D" "dl_hash c \<in> D" "card D \<le> opt_max_entries (d_options d)"
  shows "remembers (dl_now c) (note_delivery c h) (dup_step c d)"
proof -
  let ?d1 = "evict_expired (dl_now c) d" let ?ttl = "opt_ttl_ms (d_options d)"
  have opt: "d_options (dup_step c d) = d_options d"
    using record_hit(3) [OF assms(4), of "dl_now c" "dl_hash c"] record_miss [OF assms(4,3), of "dl_now c" "dl_hash c" "dl_client c" "dl_body c"]
    unfolding dup_step_def by (cases "bodies ?d1 (dl_hash c)") auto
  have old: "t \<le> dl_now c \<and> (k \<in> dom (bodies ?d1) \<or> idle_longer (dl_now c) t ?ttl)" if "h k = Some t" for k t
  proof -
    have t: "t \<le> cur" "k \<in> dom (bodies d) \<or> idle_longer cur t ?ttl" using assms(1) that by (auto simp: remembers_def)
    have "k \<in> dom (bodies ?d1) \<or> idle_longer (dl_now c) t ?ttl"
    proof (cases "bodies d k")
      case None
      then show ?thesis using t idle_longer_mono [OF t(1) assms(5)] by auto
    next
      case (Some e)
      then have "de_last_seen_ms e = t" using assms(2) that by (simp add: known_def)
      then show ?thesis using evict_expired_map [OF assms(3), of "dl_now c" k e] Some by auto
    qed
    with t(1) assms(5) show ?thesis by simp
  qed
  have "dom (bodies ?d1) \<subseteq> dom (bodies (dup_step c d)) \<and> dl_hash c \<in> dom (bodies (dup_step c d))"
  proof (cases "bodies ?d1 (dl_hash c)")
    case (Some e)
    then show ?thesis using record_hit(2) [OF assms(4) Some, of "dl_client c" "dl_body c"] by (auto simp: dup_step_def)
  next
    case None
    have "fst ` set (d_entries ?d1) = dom (bodies ?d1)" by (simp add: dom_map_of_conv_image_fst)
    moreover have "dom (bodies ?d1) \<subseteq> dom h"
      using assms(2) evict_expired_map [OF assms(3)] unfolding known_def by blast
    ultimately have "insert (dl_hash c) (fst ` set (d_entries ?d1)) \<subseteq> D" using D by auto
    then have "card (insert (dl_hash c) (fst ` set (d_entries ?d1))) \<le> card D" using D(1) by (intro card_mono)
    moreover have "dl_hash c \<notin> fst ` set (d_entries ?d1)" using None unfolding map_of_eq_None_iff .
    moreover have "distinct (map fst (d_entries ?d1))" using assms(3) by (simp add: dup_inv_def distinct_map_filter)
    ultimately have "Suc (length (d_entries ?d1)) \<le> opt_max_entries (d_options d)"
      using D(4) distinct_card [of "map fst (d_entries ?d1)"] by (simp del: evict_expired_simps)
    then show ?thesis using record_miss [OF assms(4,3) None, of "dl_client c" "dl_body c"] by (auto simp: dup_step_def)
  qed
  then have "t \<le> dl_now c \<and> (k \<in> dom (bodies (dup_step c d)) \<or> idle_longer (dl_now c) t ?ttl)"
    if "note_delivery c h k = Some t" for k t
    using that old [of k t] by (cases "k = dl_hash c") (auto simp: note_delivery_def simp del: evict_expired_simps)
  then show ?thesis unfolding remembers_def opt by blast
qed

definition dup_fits :: "string set \<Rightarrow> delivery \<Rightarrow> DuplicateDetector \<times> (string \<rightharpoonup> u64) \<times> u64 \<Rightarrow> bool" where
  "dup_fits D c s \<longleftrightarrow> snd (snd s) \<le> dl_now c \<and> dl_hash c \<in> D"

definition dup_ok :: "Options \<Rightarrow> string set \<Rightarrow> DuplicateDetector \<times> (string \<rightharpoonup> u64) \<times> u64 \<Rightarrow> bool" where
  "dup_ok opts D s \<longleftrightarrow>
     (case s of (d, h, cur) \<Rightarrow>
        dup_inv d \<and> d_options d = opts \<and> opt_enabled opts \<and> known h d \<and> dom h \<subseteq> D
      \<and> (finite D \<and> card D \<le> opt_max_entries opts \<longrightarrow> remembers cur h d))"

definition dup_run_step :: "delivery \<Rightarrow> DuplicateDetector \<times> (string \<rightharpoonup> u64) \<times> u64 \<Rightarrow> DuplicateDetector \<times> (string \<rightharpoonup> u64) \<times> u64" where
  "dup_run_step c s = (dup_step c (fst s), note_delivery c (fst (snd s)), dl_now c)"

lemma dup_step_options: "dup_inv d \<Longrightarrow> opt_enabled (d_options d) \<Longrightarrow> d_options (dup_step c d) = d_options d"
  using record_hit(3) [of d "dl_now c" "dl_hash c"] record_miss [of d "dl_now c" "dl_hash c" "dl_client c" "dl_body c"]
  unfolding dup_step_def by (cases "bodies (evict_expired (dl_now c) d) (dl_hash c)") blast+

interpretation dup: machine dup_run_step "dup_fits D" "dup_ok opts D" for opts D
proof
  fix s c
  assume ok: "dup_ok opts D s" and fits: "dup_fits D c s"
  obtain d h cur where s: "s = (d, h, cur)" by (cases s)
  have i: "dup_inv d" "d_options d = opts" "known h d" "dom h \<subseteq> D"
    "finite D \<and> card D \<le> opt_max_entries opts \<longrightarrow> remembers cur h d"
    using ok by (simp_all add: s dup_ok_def)
  have en: "opt_enabled (d_options d)" using ok by (simp add: s dup_ok_def)
  have "dup_inv (dup_step c d)" unfolding dup_step_def by (rule record_body_inv [OF i(1)])
  moreover have "dom (note_delivery c h) \<subseteq> D" using i(4) fits by (auto simp: note_delivery_def dup_fits_def)
  moreover have "finite D \<and> card D \<le> opt_max_entries opts \<longrightarrow> remembers (dl_now c) (note_delivery c h) (dup_step c d)"
    using remembers_step [OF _ i(3,1) en, of cur c D] fits i(2,4,5) by (auto simp: dup_fits_def s)
  ultimately show "dup_ok opts D (dup_run_step c s)"
    using known_step [OF i(3,1) en] dup_step_options [OF i(1) en] i(2) en by (simp add: dup_ok_def dup_run_step_def s)
qed

lemma fold_dup_run_step:
  "fold dup_run_step cs (d, h, cur) = (fold dup_step cs d, fold note_delivery cs h, fold (\<lambda>c _. dl_now c) cs cur)"
  by (induction cs arbitrary: d h cur) (simp_all add: dup_run_step_def)

lemma dup_ok_new: "opt_enabled opts \<Longrightarrow> dup_ok opts D (new_DuplicateDetector opts sink, Map.empty, 0)"
  by (simp add: dup_ok_def dup_inv_def new_DuplicateDetector_def known_def remembers_def)

lemma dup_fits_sorted:
  "sorted (map dl_now cs) \<Longrightarrow> list_all (\<lambda>c. cur \<le> dl_now c) cs \<Longrightarrow> dl_hash ` set cs \<subseteq> D \<Longrightarrow>
   fits_all dup_run_step (dup_fits D) cs (d, h, cur)"
proof (induction cs arbitrary: d h cur)
  case (Cons c cs)
  have "list_all (\<lambda>c'. dl_now c \<le> dl_now c') cs" using Cons(2) by (simp add: list_all_iff)
  from Cons(1) [OF _ this] Cons(2,4) have "fits_all dup_run_step (dup_fits D) cs (dup_step c d, note_delivery c h, dl_now c)" by simp
  moreover have "dup_run_step c (d, h, cur) = (dup_step c d, note_delivery c h, dl_now c)" by (simp add: dup_run_step_def)
  moreover have "dup_fits D c (d, h, cur)" using Cons(3,4) by (simp add: dup_fits_def)
  ultimately show ?case by simp
qed simp

lemma last_now_le: "list_all (\<lambda>c. dl_now c \<le> now) cs \<Longrightarrow> cur \<le> now \<Longrightarrow> fold (\<lambda>c _. dl_now c) cs cur \<le> now"
  by (induction cs arbitrary: cur) auto

lemma dup_reachable:
  assumes "opt_enabled opts" "sorted (map dl_now cs @ [now])" "card (insert k (dl_hash ` set cs)) \<le> opt_max_entries opts"
  shows "\<exists>cur \<le> now. dup_inv (fold dup_step cs (new_DuplicateDetector opts sink)) \<and> d_options (fold dup_step cs (new_DuplicateDetector opts sink)) = opts
     \<and> known (last_delivery cs) (fold dup_step cs (new_DuplicateDetector opts sink))
     \<and> remembers cur (last_delivery cs) (fold dup_step cs (new_DuplicateDetector opts sink))"
proof -
  let ?D = "insert k (dl_hash ` set cs)" and ?cur = "fold (\<lambda>c _. dl_now c) cs 0"
  have "fits_all dup_run_step (dup_fits ?D) cs (new_DuplicateDetector opts sink, Map.empty, 0)"
    using assms(2) by (intro dup_fits_sorted) (auto simp: sorted_append list_all_iff)
  from dup.inv_run [OF dup_ok_new [OF assms(1)] this]
  have "dup_ok opts ?D (fold dup_step cs (new_DuplicateDetector opts sink), last_delivery cs, ?cur)"
    by (simp add: fold_dup_run_step last_delivery_def)
  moreover have "?cur \<le> now" using assms(2) by (intro last_now_le) (auto simp: sorted_append list_all_iff)
  ultimately show ?thesis using assms(3) by (intro exI [of _ ?cur]) (auto simp: dup_ok_def)
qed

text \<open>The order of the report.\<close>

lemma more_frequent_trans: "\<not> more_frequent b a \<Longrightarrow> \<not> more_frequent c b \<Longrightarrow> \<not> more_frequent c a"
  by (auto simp: more_frequent_def split: if_splits)

lemma insert_dup_mset: "mset (insert_dup x ys) = add_mset x (mset ys)"
  by (induction ys) auto

lemma insert_dup_sorted:
  "sorted_wrt (\<lambda>a b. \<not> more_frequent b a) ys \<Longrightarrow> sorted_wrt (\<lambda>a b. \<not> more_frequent b a) (insert_dup x ys)"
proof (induction ys)
  case (Cons y ys)
  have s: "set (insert_dup x ys) = insert x (set ys)"
    using arg_cong [OF insert_dup_mset [of x ys], of set_mset] by simp
  show ?case
  proof (cases "more_frequent y x")
    case True
    then have "\<not> more_frequent x y" by (auto simp: more_frequent_def split: if_splits)
    with True Cons s show ?thesis by auto
  next
    case False
    then show ?thesis using Cons(2) more_frequent_trans [OF False] by auto
  qed
qed simp

lemma sort_dups_correct: "mset (sort_dups xs) = mset xs" "sorted_wrt (\<lambda>a b. \<not> more_frequent b a) (sort_dups xs)"
  by (induction xs) (simp_all add: sort_dups_def insert_dup_mset insert_dup_sorted)

section \<open>Properties\<close>

text \<open>
  Property C39. The detector is exact when clock readings come in the order of the calls and it has
  room for the bodies that are delivered: a delivery is reported as a duplicate exactly when the same
  body was delivered before and the last delivery is no longer ago than the time to live.
\<close>

theorem duplicates_exact:
  assumes "opt_enabled opts" "sorted (map dl_now cs @ [now])" "card (insert k (dl_hash ` set cs)) \<le> opt_max_entries opts"
  shows "fst (fst (record_body now client k body (fold dup_step cs (new_DuplicateDetector opts sink)))) \<longleftrightarrow>
     (\<exists>t. last_delivery cs k = Some t \<and> unat now - unat t \<le> unat (opt_ttl_ms opts))"
proof -
  let ?d = "fold dup_step cs (new_DuplicateDetector opts sink)" let ?d1 = "evict_expired now ?d"
  obtain cur where c: "cur \<le> now" "dup_inv ?d" "d_options ?d = opts" "known (last_delivery cs) ?d" "remembers cur (last_delivery cs) ?d"
    using dup_reachable [OF assms] by blast
  have en: "opt_enabled (d_options ?d)" using assms(1) c(3) by simp
  have idle: "\<not> idle_longer now t (opt_ttl_ms opts) \<longleftrightarrow> unat now - unat t \<le> unat (opt_ttl_ms opts)" if "t \<le> now" for t
    using unat_elapsed [OF that] by (simp add: idle_longer_def word_less_nat_alt not_less)
  have "(\<exists>e. bodies ?d1 k = Some e) \<longleftrightarrow> (\<exists>t. last_delivery cs k = Some t \<and> \<not> idle_longer now t (opt_ttl_ms opts))"
  proof
    assume "\<exists>e. bodies ?d1 k = Some e"
    then show "\<exists>t. last_delivery cs k = Some t \<and> \<not> idle_longer now t (opt_ttl_ms opts)"
      using evict_expired_map [OF c(2), of now k] c(3,4) by (auto simp: known_def simp del: evict_expired_simps)
  next
    assume "\<exists>t. last_delivery cs k = Some t \<and> \<not> idle_longer now t (opt_ttl_ms opts)"
    then obtain t where t: "last_delivery cs k = Some t" "\<not> idle_longer now t (opt_ttl_ms opts)" by blast
    have "t \<le> cur" "k \<in> dom (bodies ?d) \<or> idle_longer cur t (opt_ttl_ms opts)" using c(3,5) t(1) by (auto simp: remembers_def)
    then obtain e where "bodies ?d k = Some e" using idle_longer_mono [of t cur now] c(1) t(2) by auto
    moreover from this have "de_last_seen_ms e = t" using c(4) t(1) by (simp add: known_def)
    ultimately show "\<exists>e. bodies ?d1 k = Some e" using evict_expired_map [OF c(2), of now k e] t(2) c(3) by auto
  qed
  moreover have "last_delivery cs k = Some t \<Longrightarrow> t \<le> now" for t
    using c(5) order_trans [OF _ c(1)] unfolding remembers_def by blast
  moreover have "fst (fst (record_body now client k body ?d)) \<longleftrightarrow> (\<exists>e. bodies ?d1 k = Some e)"
    using record_hit(1) [OF en, of now k _ client body] record_miss [OF en c(2), of now k client body] by (cases "bodies ?d1 k") blast+
  ultimately show ?thesis using idle by blast
qed

theorem duplicates_exact_witness:
  "fst (fst (record_body 70000 ''c2'' ''h'' ''body'' (fold dup_step [\<lparr>dl_now = 5, dl_client = ''c1'', dl_hash = ''h'', dl_body = ''body''\<rparr>,
       \<lparr>dl_now = 10000, dl_client = ''c1'', dl_hash = ''h'', dl_body = ''body''\<rparr>] (new_DuplicateDetector default_Options False)))) = True"
proof -
  let ?cs = "[\<lparr>dl_now = 5, dl_client = ''c1'', dl_hash = ''h'', dl_body = ''body''\<rparr>,
       \<lparr>dl_now = 10000, dl_client = ''c1'', dl_hash = ''h'', dl_body = ''body''\<rparr>]"
  have "last_delivery ?cs ''h'' = Some 10000" by (simp add: last_delivery_def note_delivery_def)
  then show ?thesis
    using duplicates_exact [of default_Options ?cs 70000 "''h''" "''c2''" "''body''" False] by (simp add: default_Options_def)
qed

text \<open>
  The clock is read before the mutex is taken, and the age of an entry is an unsigned
  difference. A delivery whose reading is older than the last one recorded for the same body (two
  threads that read the clock in one order and took the mutex in the other) drops that entry as
  expired and is not reported as a duplicate.
\<close>

theorem duplicates_stale_reading:
  assumes "dup_inv d" "opt_enabled (d_options d)" "bodies d k = Some e" "now < de_last_seen_ms e"
    and "unat (opt_ttl_ms (d_options d)) + unat (de_last_seen_ms e) < 2 ^ 64 + unat now"
  shows "fst (record_body now client k body d) = (False, 0)"
proof -
  have "unat (now - de_last_seen_ms e) = 2 ^ 64 + unat now - unat (de_last_seen_ms e)"
    using assms(4) unat_sub_if_size [of now "de_last_seen_ms e"] by (simp add: word_size word_less_nat_alt)
  then have "idle_longer now (de_last_seen_ms e) (opt_ttl_ms (d_options d))"
    using assms(4,5) by (simp add: idle_longer_def word_less_nat_alt)
  then have n: "bodies (evict_expired now d) k = None"
    using evict_expired_map [OF assms(1), of now k] assms(3) by (cases "bodies (evict_expired now d) k") auto
  then show ?thesis using assms(2) unfolding record_body_def by (simp add: Let_def del: evict_expired_simps)
qed

theorem duplicates_stale_reading_witness:
  "fst (record_body 1000 ''c2'' ''h'' ''body'' (dup_step \<lparr>dl_now = 1001, dl_client = ''c1'', dl_hash = ''h'', dl_body = ''body''\<rparr>
       (new_DuplicateDetector default_Options False))) = (False, 0)"
proof -
  let ?d = "dup_step \<lparr>dl_now = 1001, dl_client = ''c1'', dl_hash = ''h'', dl_body = ''body''\<rparr> (new_DuplicateDetector default_Options False)"
  have "dup_inv (new_DuplicateDetector default_Options False)" by (simp add: dup_inv_def new_DuplicateDetector_def)
  then have "dup_inv ?d" unfolding dup_step_def by (rule record_body_inv)
  moreover have "bodies ?d ''h'' = Some (new_entry 1001 ''c1'' ''body'' default_Options)" "d_options ?d = default_Options"
    by (simp_all add: dup_step_def record_body_def new_DuplicateDetector_def default_Options_def)
  ultimately show ?thesis
    using duplicates_stale_reading [of ?d "''h''" "new_entry 1001 ''c1'' ''body'' default_Options" 1000]
    by (simp add: new_entry_def default_Options_def)
qed

text \<open>
  The report: the two classes partition the bodies seen more than once, the list has as
  many of them as fit, in the order of their counts and, for equal counts, of their first delivery,
  and no body that is left out is more frequent than one that is listed.
\<close>

theorem duplicates_report:
  "let r = report d; ds = dup_list d; n = min (length ds) (opt_top_n (d_options d))
   in dr_duplicate_bodies r = duplicate_bodies d
    \<and> dr_same_client r + dr_cross_client r = dr_duplicate_bodies r
    \<and> (\<exists>top rest. dr_top r = map report_item_of top \<and> length top = n \<and> mset top + mset rest = mset ds
         \<and> sorted_wrt (\<lambda>a b. \<not> more_frequent b a) top
         \<and> list_all (\<lambda>a. list_all (\<lambda>b. \<not> more_frequent b a) rest) top)"
proof -
  let ?ds = "dup_list d" and ?n = "min (length (dup_list d)) (opt_top_n (d_options d))"
  let ?top = "take ?n (sort_dups ?ds)" and ?rest = "drop ?n (sort_dups ?ds)"
  have e: "?top @ ?rest = sort_dups ?ds" by (rule append_take_drop_id)
  have "sorted_wrt (\<lambda>a b. \<not> more_frequent b a) (?top @ ?rest)" unfolding e by (rule sort_dups_correct(2))
  then have s: "sorted_wrt (\<lambda>a b. \<not> more_frequent b a) ?top" "list_all (\<lambda>a. list_all (\<lambda>b. \<not> more_frequent b a) ?rest) ?top"
    unfolding sorted_wrt_append list_all_iff by blast+
  have "mset (?top @ ?rest) = mset ?ds" unfolding e by (rule sort_dups_correct(1))
  then have m: "mset ?top + mset ?rest = mset ?ds" by (simp only: mset_append)
  have "length ?top = ?n" using arg_cong [OF sort_dups_correct(1) [of ?ds], of size] by simp
  moreover have "dr_top (report d) = map report_item_of ?top" by (simp only: report_def Let_def dup_report.simps)
  ultimately have "\<exists>top rest. dr_top (report d) = map report_item_of top \<and> length top = ?n \<and> mset top + mset rest = mset ?ds
         \<and> sorted_wrt (\<lambda>a b. \<not> more_frequent b a) top \<and> list_all (\<lambda>a. list_all (\<lambda>b. \<not> more_frequent b a) rest) top"
    using s m by blast
  moreover have "dr_same_client (report d) + dr_cross_client (report d) = dr_duplicate_bodies (report d)"
    by (simp add: report_def Let_def sum_length_filter_compl del: linorder_not_le)
  moreover have "dr_duplicate_bodies (report d) = duplicate_bodies d" by (simp add: report_def Let_def dup_list_def duplicate_bodies_def)
  ultimately show ?thesis by (simp only: Let_def)
qed

end
