(* ===== verification/Diod_Messages.thy ===== *)
theory Diod_Messages
  imports Diod_Json Diod_Routing
begin

text \<open>
  What the proxy and the worker send each other over NATS: the request
  (\<open>request_data_preparer.cpp\<close>, \<open>nats_push_service.cpp\<close>, \<open>json_schema_validator.hpp\<close>, \<open>worker_request_parser.hpp\<close>)
  and the response (\<open>l2_worker_nats.cpp\<close>, \<open>l2_worker.cpp\<close>, \<open>response_builder.cpp\<close>). The JSON library,
  its syntax check, the base64 codec, clock readings and the identifiers of the tracer are parameters. Logging, spans and
  metrics are left out.
\<close>

record http_request =
  rq_path :: string
  rq_target :: string
  rq_headers :: headers
  rq_remote_addr :: string
  rq_local_addr :: string
  rq_body :: string

record http_response =
  rs_status :: int
  rs_body :: string
  rs_content_type :: string
  rs_headers :: headers

section \<open>The request\<close>

definition extract_proxy_ip :: "http_request \<Rightarrow> string" where
  "extract_proxy_ip req = rq_local_addr req"

definition request_client_ip :: "http_request \<Rightarrow> string" where
  "request_client_ip req = extract_client_ip (header_find (rq_headers req)) (rq_remote_addr req)"

definition prepare_request_data ::
  "(string \<Rightarrow> bool) \<Rightarrow> (string \<Rightarrow> string) \<Rightarrow> string \<Rightarrow> string \<Rightarrow> string \<Rightarrow> string \<Rightarrow> http_request \<Rightarrow> string \<Rightarrow> json" where
  "prepare_request_data accept to_base64 request_id req_method path body req traceparent_for_backend =
     (let d = json_object [(''request_id'', JString request_id), (''method'', JString req_method), (''path'', JString path),
            (''query'', JString (extract_query_string (rq_target req))), (''traceparent'', JString traceparent_for_backend),
            (''client_ip'', JString (request_client_ip req)), (''proxy_ip'', JString (extract_proxy_ip req))];
          d1 = (if body \<noteq> [] \<and> \<not> accept body
                then json_set ''body_is_binary'' (JBool True) (json_set ''body'' (JString (to_base64 body)) d)
                else json_set ''body'' (JString body) d);
          headers_json = filter_headers_to_json (rq_headers req) g_default_skip_headers
      in if headers_json \<noteq> JObject [] then json_set ''headers'' headers_json d1 else d1)"

text \<open>The identifiers the tracer chose for a request; without a tracer the fields are not added.\<close>

record trace_fields =
  t_trace_id :: string
  t_span_id :: string
  t_inlet_span_id :: string
  t_traceparent :: string

definition add_proxy_trace_fields :: "trace_fields option \<Rightarrow> json \<Rightarrow> json" where
  "add_proxy_trace_fields tracer data =
     (case tracer of
        None \<Rightarrow> data
      | Some t \<Rightarrow> json_set ''proxy_traceparent'' (JString (t_traceparent t))
          (json_set ''proxy_inlet_span_id'' (JString (t_inlet_span_id t))
            (json_set ''proxy_span_id'' (JString (t_span_id t))
              (json_set ''proxy_trace_id'' (JString (t_trace_id t)) data))))"

definition push_span_id :: "string \<Rightarrow> string \<Rightarrow> json \<Rightarrow> fault + string" where
  "push_span_id generated span_id data =
     (if json_contains data ''proxy_span_id'' then get_string data ''proxy_span_id''
      else Inr (if span_id = [] then generated else span_id))"

definition push_request ::
  "(json \<Rightarrow> string option) \<Rightarrow> int \<Rightarrow> (string \<Rightarrow> string \<Rightarrow> string) option \<Rightarrow> string \<Rightarrow> string \<Rightarrow> string \<Rightarrow> json \<Rightarrow> fault + string" where
  "push_request dump now_ms tracer generated trace_id span_id data =
     and_then (push_span_id generated span_id data) (\<lambda>op_span_id.
     and_then (get_string data ''request_id'') (\<lambda>request_id.
       let d1 = json_set ''proxy_trace_id'' (JString trace_id)
             (json_set ''proxy_span_id'' (JString op_span_id) (json_set ''timestamp'' (JInt now_ms) data));
           d2 = (case tracer of
                   Some generate_traceparent \<Rightarrow>
                     if trace_id \<noteq> [] \<and> op_span_id \<noteq> []
                     then json_set ''proxy_traceparent'' (JString (generate_traceparent trace_id op_span_id)) d1 else d1
                 | None \<Rightarrow> d1)
       in (case dump d2 of Some text \<Rightarrow> Inr text | None \<Rightarrow> Inl Thrown)))"

section \<open>The worker reads it\<close>

record RequestValidator =
  v_required_fields :: "string list"
  v_allowed_methods :: "string list"
  v_allowed_paths :: "string list"
  v_max_body_size :: nat
  v_max_path_length :: nat

definition create_standard_request_validator :: RequestValidator where
  "create_standard_request_validator =
     \<lparr>v_required_fields = [''method'', ''path'', ''request_id''], v_allowed_methods = [''GET'', ''POST''],
      v_allowed_paths = [], v_max_body_size = 10 * 1024 * 1024, v_max_path_length = 2048\<rparr>"

text \<open>The checks of one member, if it is there: the name of the refused field, or none.\<close>

definition check_member :: "json \<Rightarrow> string \<Rightarrow> (string \<Rightarrow> bool) \<Rightarrow> fault + string option" where
  "check_member request field ok =
     (if json_contains request field
      then and_then (get_string request field) (\<lambda>v. Inr (if ok v then None else Some field))
      else Inr None)"

definition validate_request :: "RequestValidator \<Rightarrow> json \<Rightarrow> fault + string option" where
  "validate_request v request =
     (case List.find (\<lambda>field. \<not> json_contains request field) (v_required_fields v) of
        Some field \<Rightarrow> Inr (Some field)
      | None \<Rightarrow>
          and_then (check_member request ''method'' (\<lambda>m. v_allowed_methods v = [] \<or> m \<in> set (v_allowed_methods v)))
            (\<lambda>r. if r \<noteq> None then Inr r
             else and_then (check_member request ''path''
                    (\<lambda>p. length p \<le> v_max_path_length v
                       \<and> (v_allowed_paths v = [] \<or> list_ex (\<lambda>prefix. starts_with prefix p) (v_allowed_paths v))))
            (\<lambda>r. if r \<noteq> None then Inr r
             else check_member request ''body'' (\<lambda>b. length b \<le> v_max_body_size v))))"

text \<open>\<open>Inr None\<close>: the message is refused and answered with an error.\<close>

definition parse_request_data :: "(string \<Rightarrow> json option) \<Rightarrow> string \<Rightarrow> fault + json option" where
  "parse_request_data parse request_json =
     (case parse request_json of
        None \<Rightarrow> Inr None
      | Some j \<Rightarrow>
          and_then (validate_request create_standard_request_validator j) (\<lambda>r.
            if r \<noteq> None then Inr None
            else and_then (get_string j ''method'') (\<lambda>m.
              Inr (if m \<noteq> ''POST'' \<and> m \<noteq> ''GET'' then None else Some j))))"

record WorkerRequestData =
  wr_request_id :: string
  wr_path :: string
  wr_query :: string
  wr_method :: string
  wr_body :: string
  wr_client_ip :: string
  wr_proxy_ip :: string
  wr_traceparent :: string
  wr_proxy_traceparent :: string
  wr_proxy_span_id :: string
  wr_forwarded_headers :: headers

definition decode_body :: "(string \<Rightarrow> string option) \<Rightarrow> json \<Rightarrow> fault + string" where
  "decode_body from_base64 data =
     and_then (get_string data ''body'') (\<lambda>body.
     and_then (value_bool data ''body_is_binary'' False) (\<lambda>binary.
       if binary then (case from_base64 body of Some b \<Rightarrow> Inr b | None \<Rightarrow> Inl Thrown) else Inr body))"

definition decode_nats_request :: "(string \<Rightarrow> string option) \<Rightarrow> json \<Rightarrow> fault + WorkerRequestData" where
  "decode_nats_request from_base64 data =
     and_then (get_string data ''request_id'') (\<lambda>request_id.
     and_then (get_string data ''path'') (\<lambda>path.
     and_then (value_string data ''query'' []) (\<lambda>query.
     and_then (get_string data ''method'') (\<lambda>req_method.
     and_then (decode_body from_base64 data) (\<lambda>body.
     and_then (value_string data ''client_ip'' ''unknown'') (\<lambda>client_ip.
     and_then (value_string data ''proxy_ip'' ''unknown'') (\<lambda>proxy_ip.
     and_then (value_string data ''proxy_traceparent'' []) (\<lambda>proxy_traceparent.
     and_then (value_string data ''proxy_span_id'' []) (\<lambda>proxy_span_id.
     and_then (value_string data ''traceparent'' []) (\<lambda>traceparent.
       Inr \<lparr>wr_request_id = request_id, wr_path = path, wr_query = query, wr_method = req_method, wr_body = body,
            wr_client_ip = client_ip, wr_proxy_ip = proxy_ip, wr_traceparent = traceparent,
            wr_proxy_traceparent = proxy_traceparent, wr_proxy_span_id = proxy_span_id,
            wr_forwarded_headers =
              (case json_find data ''headers'' of
                 Some h \<Rightarrow> filter_headers_from_json h g_default_skip_headers | None \<Rightarrow> [])\<rparr>))))))))))"

text \<open>The two ends of the NATS connection: what the proxy publishes and what the worker makes of it.\<close>

definition proxy_message ::
  "(string \<Rightarrow> bool) \<Rightarrow> (string \<Rightarrow> string) \<Rightarrow> (json \<Rightarrow> string option) \<Rightarrow> int \<Rightarrow> trace_fields option
   \<Rightarrow> (string \<Rightarrow> string \<Rightarrow> string) option \<Rightarrow> string \<Rightarrow> string \<Rightarrow> string \<Rightarrow> string \<Rightarrow> string \<Rightarrow> string \<Rightarrow> http_request \<Rightarrow> string
   \<Rightarrow> fault + string" where
  "proxy_message accept to_base64 dump now_ms tf tracer generated trace_id span_id request_id req_method body req traceparent =
     push_request dump now_ms tracer generated trace_id span_id
       (add_proxy_trace_fields tf
         (prepare_request_data accept to_base64 request_id req_method (rq_path req) body req traceparent))"

definition worker_receive :: "(string \<Rightarrow> json option) \<Rightarrow> (string \<Rightarrow> string option) \<Rightarrow> string \<Rightarrow> fault + WorkerRequestData option" where
  "worker_receive parse from_base64 request_json =
     and_then (parse_request_data parse request_json) (\<lambda>r.
       case r of None \<Rightarrow> Inr None
       | Some j \<Rightarrow> and_then (decode_nats_request from_base64 j) (\<lambda>d. Inr (Some d)))"

section \<open>The response\<close>

text \<open>What the worker got from the level 2 server, and the message it makes of it.\<close>

record L2Response =
  l2_status_code :: int
  l2_body :: string
  l2_headers :: headers

definition response_content_type :: "L2Response \<Rightarrow> string" where
  "response_content_type r = (case header_find (l2_headers r) ''Content-Type'' of Some v \<Rightarrow> sanitize_invalid v | None \<Rightarrow> [])"

definition response_is_binary :: "L2Response \<Rightarrow> bool" where
  "response_is_binary r \<longleftrightarrow> is_binary_content_type (response_content_type r) \<or> \<not> is_valid_utf8 (l2_body r)"

definition response_message :: "(string \<Rightarrow> string) \<Rightarrow> int \<Rightarrow> string \<Rightarrow> string \<Rightarrow> L2Response \<Rightarrow> json" where
  "response_message to_base64 timestamp_us request_id traceparent_header r =
     build_nats_response_envelope (l2_status_code r) request_id
       (if response_is_binary r then to_base64 (l2_body r) else l2_body r)
       timestamp_us (response_is_binary r) (response_content_type r) (headers_to_json (l2_headers r)) traceparent_header"

text \<open>What the proxy makes of it; \<open>None\<close> is the exception of the base64 decoder.\<close>

definition json_error_response :: "(json \<Rightarrow> string option) \<Rightarrow> int \<Rightarrow> string \<Rightarrow> string \<Rightarrow> http_response option" where
  "json_error_response dump status message request_id =
     map_option (\<lambda>text. \<lparr>rs_status = status, rs_body = text, rs_content_type = ''application/json'', rs_headers = []\<rparr>)
       (dump (json_object ([(''error'', JString message)] @ (if request_id \<noteq> [] then [(''request_id'', JString request_id)] else []))))"

definition set_response_content ::
  "(json \<Rightarrow> string option) \<Rightarrow> (string \<Rightarrow> string option) \<Rightarrow> string \<Rightarrow> string \<Rightarrow> json \<Rightarrow> http_response option" where
  "set_response_content dump from_base64 request_id traceparent_header data =
     (if \<not> is_object data then json_error_response dump 500 ''Invalid response format'' request_id
      else let l2_response = get_body_response data;
               status_code = safe_get_int data ''status_code'' 500;
               content_type = get_body_string data ''content_type'' ''application/json'';
               content = (if get_body_bool data ''is_binary'' False then from_base64 l2_response else Some l2_response)
           in map_option (\<lambda>b. \<lparr>rs_status = status_code, rs_body = b, rs_content_type = content_type,
                rs_headers = (if traceparent_header \<noteq> [] then [(''traceparent'', traceparent_header)] else [])\<rparr>) content)"

section \<open>Round trip of the response\<close>

lemma ascii_names [simp]:
  "is_valid_utf8 ''request_id''" "is_valid_utf8 ''response''" "is_valid_utf8 ''timestamp''" "is_valid_utf8 ''is_binary''"
  "is_valid_utf8 ''content_type''" "is_valid_utf8 ''traceparent''" "is_valid_utf8 ''status_code''" "is_valid_utf8 ''headers''"
  "is_valid_utf8 ''body''" "is_valid_utf8 ''method''" "is_valid_utf8 ''path''" "is_valid_utf8 ''query''"
  "is_valid_utf8 ''client_ip''" "is_valid_utf8 ''proxy_ip''" "is_valid_utf8 ''body_is_binary''" "is_valid_utf8 ''proxy_trace_id''"
  "is_valid_utf8 ''proxy_span_id''" "is_valid_utf8 ''proxy_inlet_span_id''" "is_valid_utf8 ''proxy_traceparent''" "is_valid_utf8 []"
  by (rule ascii_valid, simp)+

lemma serialisesD:
  assumes "serialises dump parse" "json_wf j" "json_utf8 j"
  obtains msg where "dump j = Some msg" "msg \<noteq> []" "parse msg = Some j"
proof -
  from assms have "\<exists>text. dump j = Some text \<and> text \<noteq> [] \<and> parse text = Some j"
    unfolding serialises_def by metis
  with that show thesis by blast
qed

lemma headers_to_json_ok:
  "json_wf (headers_to_json hs)" "list_all (\<lambda>(n, _). is_valid_utf8 n) hs \<Longrightarrow> json_utf8 (headers_to_json hs)"
  unfolding headers_to_json_def
  by (rule json_object_wf, auto simp: list_all_iff) (rule json_object_utf8, auto simp: list_all_iff)

lemma envelope_ok:
  assumes "c_int_ok status" "- (2 ^ 63) \<le> timestamp" "timestamp < 2 ^ 64" "json_wf hs"
    "is_valid_utf8 request_id" "is_valid_utf8 response" "is_valid_utf8 content_type" "json_utf8 hs" "is_valid_utf8 traceparent"
  shows "json_wf (build_nats_response_envelope status request_id response timestamp binary content_type hs traceparent)"
    and "json_utf8 (build_nats_response_envelope status request_id response timestamp binary content_type hs traceparent)"
proof -
  have "- (2 ^ 63) \<le> status" "status < 2 ^ 64" using assms(1) by (auto simp: c_int_ok_def)
  then show "json_wf (build_nats_response_envelope status request_id response timestamp binary content_type hs traceparent)"
    using assms unfolding build_nats_response_envelope_def Let_def
    by (intro json_set_wf json_object_wf) auto
  show "json_utf8 (build_nats_response_envelope status request_id response timestamp binary content_type hs traceparent)"
    using assms unfolding build_nats_response_envelope_def Let_def
    by (intro json_set_utf8 json_object_utf8) auto
qed

lemma envelope_read:
  fixes status timestamp binary response content_type hs traceparent request_id
  defines "j \<equiv> build_nats_response_envelope status request_id response timestamp binary content_type hs traceparent"
  shows "is_object j" "safe_get_int j ''status_code'' fallback = to_c_int status"
    "get_body_response j = response" "get_body_bool j ''is_binary'' b = binary"
    "get_body_string j ''content_type'' c = content_type"
  by (simp_all add: j_def build_nats_response_envelope_def Let_def safe_get_int_def get_body_response_def get_body_bool_def
    get_body_string_def safe_get_string_def safe_get_bool_def get_response_body_def json_find_set)

section \<open>Concrete codecs\<close>

text \<open>A serialiser and a codec with the properties that are assumed of the libraries, for the witnesses.\<close>

definition demo_dump :: "json \<Rightarrow> string option" where
  "demo_dump j = (if json_utf8 j then Some (replicate (Suc (to_nat j)) (CHR ''x'')) else None)"

definition demo_parse :: "string \<Rightarrow> json option" where
  "demo_parse t = (if t = [] then None else Some (from_nat (length t - 1)))"

lemma demo_serialises: "serialises demo_dump demo_parse"
  by (simp add: serialises_def demo_dump_def demo_parse_def)

definition demo_encode :: "string \<Rightarrow> string" where
  "demo_encode s = concat (map (\<lambda>c. [char_of (97 + of_char c div 16 :: nat), char_of (97 + of_char c mod 16 :: nat)]) s)"

fun demo_decode :: "string \<Rightarrow> string option" where
  "demo_decode [] = Some []"
| "demo_decode [_] = None"
| "demo_decode (a # b # s) = map_option (\<lambda>t. char_of ((of_char a - 97) * 16 + (of_char b - 97) :: nat) # t) (demo_decode s)"

lemma nibbles:
  fixes c :: char
  defines "n \<equiv> of_char c :: nat"
  shows "(97 + n div 16) mod 256 = 97 + n div 16" "(97 + n mod 16) mod 256 = 97 + n mod 16"
    "97 + n div 16 < 128" "97 + n mod 16 < 128" "n div 16 * 16 + n mod 16 = n"
proof -
  have "n < 256" by (simp add: n_def)
  then show "(97 + n div 16) mod 256 = 97 + n div 16" "(97 + n mod 16) mod 256 = 97 + n mod 16"
    "97 + n div 16 < 128" "97 + n mod 16 < 128" "n div 16 * 16 + n mod 16 = n"
    using mod_less_divisor [of 16 n] by (simp_all del: mod_less_divisor)
qed

lemma demo_codec: "base64_codec demo_encode demo_decode"
proof -
  have "demo_decode (demo_encode s) = Some s" for s
    by (induction s) (simp_all add: demo_encode_def nibbles)
  moreover have "is_valid_utf8 (demo_encode s)" for s
  proof (rule ascii_valid)
    show "list_all (\<lambda>c. of_char c < (128 :: nat)) (demo_encode s)"
      by (induction s) (simp_all add: demo_encode_def nibbles)
  qed
  ultimately show ?thesis by (simp add: base64_codec_def)
qed

lemma response_delivered:
  assumes "serialises dump parse" "base64_codec to_base64 from_base64"
    and "is_valid_utf8 request_id" "is_valid_utf8 traceparent" "list_all (\<lambda>(name, _). is_valid_utf8 name) (l2_headers r)"
    and "c_int_ok (l2_status_code r)" "0 \<le> timestamp_us" "timestamp_us < 2 ^ 63"
  shows "\<exists>text j. dump (response_message to_base64 timestamp_us request_id traceparent r) = Some text \<and> text \<noteq> [] \<and> parse text = Some j
    \<and> set_response_content dump from_base64 request_id traceparent' j =
        Some \<lparr>rs_status = l2_status_code r, rs_body = l2_body r, rs_content_type = response_content_type r,
              rs_headers = (if traceparent' \<noteq> [] then [(''traceparent'', traceparent')] else [])\<rparr>"
proof -
  let ?stored = "if response_is_binary r then to_base64 (l2_body r) else l2_body r"
  let ?j = "response_message to_base64 timestamp_us request_id traceparent r"
  have codec: "from_base64 (to_base64 s) = Some s" "is_valid_utf8 (to_base64 s)" for s
    using assms(2) by (simp_all add: base64_codec_def)
  have "is_valid_utf8 ?stored" using codec by (simp add: response_is_binary_def)
  moreover have "is_valid_utf8 (response_content_type r)" by (simp add: response_content_type_def split: option.split)
  ultimately have "json_wf ?j" "json_utf8 ?j" using assms headers_to_json_ok
    by (auto simp: response_message_def intro!: envelope_ok)
  then obtain msg where "dump ?j = Some msg" "msg \<noteq> []" "parse msg = Some ?j" by (rule serialisesD [OF assms(1)])
  moreover have "set_response_content dump from_base64 request_id traceparent' ?j =
      Some \<lparr>rs_status = l2_status_code r, rs_body = l2_body r, rs_content_type = response_content_type r,
            rs_headers = (if traceparent' \<noteq> [] then [(''traceparent'', traceparent')] else [])\<rparr>"
    using assms(6) codec(1) by (simp add: set_response_content_def response_message_def envelope_read Let_def)
  ultimately show ?thesis by blast
qed

text \<open>
  Property C16. What the level 2 server answered is what the client gets: the message of the worker
  can always be serialised, and the proxy makes of it a response with the same status and the same bytes,
  text or not, and the content type of the server with its invalid bytes replaced.
\<close>
theorem response_roundtrip:
  assumes "serialises dump parse" "base64_codec to_base64 from_base64"
    and "is_valid_utf8 request_id" "is_valid_utf8 traceparent" "list_all (\<lambda>(name, _). is_valid_utf8 name) (l2_headers r)"
    and "c_int_ok (l2_status_code r)" "0 \<le> timestamp_us" "timestamp_us < 2 ^ 63"
  shows "\<exists>text j. dump (response_message to_base64 timestamp_us request_id traceparent r) = Some text \<and> parse text = Some j
    \<and> set_response_content dump from_base64 request_id traceparent' j =
        Some \<lparr>rs_status = l2_status_code r, rs_body = l2_body r, rs_content_type = response_content_type r,
              rs_headers = (if traceparent' \<noteq> [] then [(''traceparent'', traceparent')] else [])\<rparr>"
  using response_delivered [OF assms, of traceparent'] by blast

theorem response_roundtrip_witness:
  "\<exists>msg j. demo_dump (response_message demo_encode 1 ''r'' [] \<lparr>l2_status_code = 404, l2_body = [CHR 0xFF], l2_headers = []\<rparr>) = Some msg
     \<and> demo_parse msg = Some j
     \<and> set_response_content demo_dump demo_decode ''r'' [] j =
         Some \<lparr>rs_status = 404, rs_body = [CHR 0xFF], rs_content_type = [], rs_headers = []\<rparr>"
proof -
  let ?r = "\<lparr>l2_status_code = 404, l2_body = [CHR 0xFF], l2_headers = []\<rparr>"
  have "is_valid_utf8 ''r''" by (rule ascii_valid) simp
  moreover have "response_content_type ?r = []" by (simp add: response_content_type_def header_find_def)
  ultimately show ?thesis
    using response_roundtrip [OF demo_serialises demo_codec, where request_id = "''r''" and traceparent = "[]" and r = ?r
        and timestamp_us = 1 and traceparent' = "[]"]
    by (simp add: c_int_ok_def)
qed

text \<open>
  The default content type of the proxy is never used: the worker always names one, the empty one
  when the level 2 server sent none.
\<close>

lemma content_type_default_unused:
  "get_body_string (response_message to_base64 timestamp_us request_id traceparent r) ''content_type'' ''application/json''
     = response_content_type r"
  "header_find (l2_headers r) ''Content-Type'' = None \<Longrightarrow> response_content_type r = []"
  by (simp_all add: response_message_def envelope_read response_content_type_def)

section \<open>Round trip of the request\<close>

lemma sorted_distinct: "sorted_wrt str_less ks \<Longrightarrow> distinct ks"
  by (induction ks) auto

lemma string_members_iff:
  "distinct (map fst m) \<Longrightarrow> (n, v) \<in> set (string_members m) \<longleftrightarrow> map_of m n = Some (JString v)"
proof (induction m)
  case (Cons p m)
  then show ?case by (cases p; cases "snd p") (auto simp: weak_map_of_SomeI dest: map_of_SomeD intro: rev_image_eqI)
qed simp

lemma json_object_members:
  assumes "list_all (\<lambda>(k, v). json_wf v) ms"
  obtains m where "json_object ms = JObject m" "distinct (map fst m)" "map_of m = map_of (rev ms)"
proof -
  obtain m where m: "json_object ms = JObject m" using json_object_is_object [of ms] by (cases "json_object ms") auto
  then have "distinct (map fst m)" using json_object_wf [OF assms] by (simp add: sorted_distinct)
  moreover have "map_of m x = map_of (rev ms) x" for x using json_object_find [of ms x] m by simp
  ultimately show thesis using that [OF m] by blast
qed

text \<open>What becomes of the headers of a request on their way to the worker.\<close>

lemma forwarded_headers:
  fixes hs :: headers
  defines "skip \<equiv> g_default_skip_headers"
  defines "h \<equiv> filter_headers_from_json (filter_headers_to_json hs skip) skip"
  shows "(n, v) \<in> set h \<Longrightarrow> \<exists>v'. (n, v') \<in> set hs \<and> v = sanitize_invalid v' \<and> \<not> should_skip_header n skip"
    and "(n, v') \<in> set hs \<Longrightarrow> \<not> should_skip_header n skip \<Longrightarrow> \<exists>v. (n, v) \<in> set h"
proof -
  let ?ms = "map (\<lambda>(name, v). (name, JString (sanitize_invalid v))) (filter_headers hs skip)"
  obtain m where m: "json_object ?ms = JObject m" "distinct (map fst m)" "map_of m = map_of (rev ?ms)"
    by (rule json_object_members [of ?ms]) (auto simp: list_all_iff)
  have h: "h = filter_headers (string_members m) skip"
    by (simp add: h_def filter_headers_to_json_def filter_headers_from_json_def m)
  show "\<exists>v'. (n, v') \<in> set hs \<and> v = sanitize_invalid v' \<and> \<not> should_skip_header n skip" if "(n, v) \<in> set h"
  proof -
    have "map_of (rev ?ms) n = Some (JString v)" and skip: "\<not> should_skip_header n skip"
      using that string_members_iff [OF m(2)] m(3) by (auto simp: h filter_headers_def)
    then have "(n, JString v) \<in> set ?ms" using map_of_SomeD by fastforce
    then show ?thesis using skip by (auto simp: filter_headers_def)
  qed
  show "\<exists>v. (n, v) \<in> set h" if "(n, v') \<in> set hs" "\<not> should_skip_header n skip"
  proof -
    have "n \<in> fst ` set (rev ?ms)" using that by (force simp: filter_headers_def)
    then obtain j where j: "map_of (rev ?ms) n = Some j" by (metis map_of_eq_None_iff not_None_eq)
    then have "(n, j) \<in> set ?ms" using map_of_SomeD by fastforce
    then obtain v where "j = JString v" by auto
    then have "(n, v) \<in> set (string_members m)" using j m(3) string_members_iff [OF m(2)] by simp
    then show ?thesis using that(2) by (auto simp: h filter_headers_def)
  qed
qed

lemma filtered_headers_ok:
  "json_wf (filter_headers_to_json hs skip)"
  "list_all (\<lambda>(name, _). is_valid_utf8 name) hs \<Longrightarrow> json_utf8 (filter_headers_to_json hs skip)"
  unfolding filter_headers_to_json_def
  by (rule json_object_wf, auto simp: list_all_iff) (rule json_object_utf8, auto simp: list_all_iff filter_headers_def)

lemma prepared_find:
  fixes accept to_base64 request_id req_method path body req traceparent
  defines "d \<equiv> prepare_request_data accept to_base64 request_id req_method path body req traceparent"
  defines "binary \<equiv> body \<noteq> [] \<and> \<not> accept body"
  defines "h \<equiv> filter_headers_to_json (rq_headers req) g_default_skip_headers"
  shows "is_object d" "json_find d ''request_id'' = Some (JString request_id)" "json_find d ''method'' = Some (JString req_method)"
    "json_find d ''path'' = Some (JString path)" "json_find d ''query'' = Some (JString (extract_query_string (rq_target req)))"
    "json_find d ''traceparent'' = Some (JString traceparent)" "json_find d ''client_ip'' = Some (JString (request_client_ip req))"
    "json_find d ''proxy_ip'' = Some (JString (rq_local_addr req))"
    "json_find d ''body'' = Some (JString (if binary then to_base64 body else body))"
    "json_find d ''body_is_binary'' = (if binary then Some (JBool True) else None)"
    "json_find d ''headers'' = (if h \<noteq> JObject [] then Some h else None)"
    "json_find d ''proxy_span_id'' = None" "json_find d ''proxy_traceparent'' = None"
  by (simp_all add: d_def prepare_request_data_def Let_def binary_def h_def json_find_set extract_proxy_ip_def)

lemma prepared_ok:
  fixes accept to_base64 request_id req_method path body req traceparent
  defines "d \<equiv> prepare_request_data accept to_base64 request_id req_method path body req traceparent"
  shows "json_wf d"
    and "list_all is_valid_utf8 [request_id, req_method, path, extract_query_string (rq_target req), traceparent,
           request_client_ip req, rq_local_addr req] \<Longrightarrow> list_all (\<lambda>(name, _). is_valid_utf8 name) (rq_headers req) \<Longrightarrow>
         is_valid_utf8 (if body \<noteq> [] \<and> \<not> accept body then to_base64 body else body) \<Longrightarrow> json_utf8 d"
  unfolding d_def prepare_request_data_def Let_def extract_proxy_ip_def
  using filtered_headers_ok [where hs = "rq_headers req"]
  by (auto intro!: json_set_wf json_object_wf json_set_utf8 json_object_utf8)

lemma json_utf8_find:
  assumes "json_utf8 j" "json_find j key = Some v"
  shows "is_valid_utf8 key" "json_utf8 v"
  using assms by (cases j; auto simp: json_find_def list_all_iff dest!: map_of_SomeD)+

lemma json_object_names:
  assumes "json_utf8 (json_object ms)" shows "list_all (\<lambda>(name, _). is_valid_utf8 name) ms"
proof -
  have "is_valid_utf8 name" if "(name, v) \<in> set ms" for name v
  proof -
    have "name \<in> fst ` set (rev ms)" using that by force
    then obtain v' where "map_of (rev ms) name = Some v'" by (metis map_of_eq_None_iff not_None_eq)
    then show ?thesis using json_utf8_find(1) [OF assms, of name v'] by simp
  qed
  then show ?thesis by (auto simp: list_all_iff)
qed

lemma filtered_headers_utf8:
  "json_utf8 (filter_headers_to_json hs skip) \<longleftrightarrow> list_all (\<lambda>(name, _). is_valid_utf8 name) (filter_headers hs skip)"
proof
  assume "json_utf8 (filter_headers_to_json hs skip)"
  from json_object_names [OF this [unfolded filter_headers_to_json_def]]
  show "list_all (\<lambda>(name, _). is_valid_utf8 name) (filter_headers hs skip)" by (auto simp: list_all_iff)
next
  assume "list_all (\<lambda>(name, _). is_valid_utf8 name) (filter_headers hs skip)"
  then show "json_utf8 (filter_headers_to_json hs skip)"
    unfolding filter_headers_to_json_def by (intro json_object_utf8) (auto simp: list_all_iff)
qed

text \<open>The members the trace fields are written to; they are texts of the tracer.\<close>

definition trace_utf8 :: "trace_fields option \<Rightarrow> (string \<Rightarrow> string \<Rightarrow> string) option \<Rightarrow> string \<Rightarrow> string \<Rightarrow> string \<Rightarrow> bool" where
  "trace_utf8 tf tracer generated trace_id span_id \<longleftrightarrow>
     (\<forall>t. tf = Some t \<longrightarrow> list_all is_valid_utf8 [t_trace_id t, t_span_id t, t_inlet_span_id t, t_traceparent t])
   \<and> (\<forall>g x y. tracer = Some g \<longrightarrow> is_valid_utf8 (g x y))
   \<and> list_all is_valid_utf8 [generated, trace_id, span_id]"

abbreviation trace_keys :: "string set" where
  "trace_keys \<equiv> {''timestamp'', ''proxy_trace_id'', ''proxy_span_id'', ''proxy_inlet_span_id'', ''proxy_traceparent''}"

text \<open>The texts of a request that its message carries as they are.\<close>

definition request_utf8 :: "string \<Rightarrow> http_request \<Rightarrow> string \<Rightarrow> bool" where
  "request_utf8 request_id req traceparent \<longleftrightarrow>
     list_all is_valid_utf8 [request_id, rq_path req, extract_query_string (rq_target req), traceparent, request_client_ip req, rq_local_addr req]
   \<and> list_all (\<lambda>(name, _). is_valid_utf8 name) (filter_headers (rq_headers req) g_default_skip_headers)"

lemma prepared_utf8:
  assumes "request_utf8 request_id req traceparent" "is_valid_utf8 req_method"
    and "is_valid_utf8 (if body \<noteq> [] \<and> \<not> accept body then to_base64 body else body)"
  shows "json_utf8 (prepare_request_data accept to_base64 request_id req_method (rq_path req) body req traceparent)"
proof -
  have "json_utf8 (filter_headers_to_json (rq_headers req) g_default_skip_headers)"
    using assms(1) unfolding filtered_headers_utf8 by (simp add: request_utf8_def)
  then show ?thesis using assms unfolding prepare_request_data_def Let_def extract_proxy_ip_def request_utf8_def
    by (auto intro!: json_set_utf8 json_object_utf8)
qed

lemma carried_utf8:
  assumes u: "json_utf8 j" and same: "\<And>key. key \<notin> trace_keys \<Longrightarrow>
      json_find j key = json_find (prepare_request_data accept to_base64 request_id req_method (rq_path req) body req traceparent) key"
  shows "request_utf8 request_id req traceparent"
proof -
  let ?h = "filter_headers_to_json (rq_headers req) g_default_skip_headers"
  note find = prepared_find [of accept to_base64 request_id req_method "rq_path req" body req traceparent]
  have f: "json_find j ''request_id'' = Some (JString request_id)" "json_find j ''path'' = Some (JString (rq_path req))"
    "json_find j ''query'' = Some (JString (extract_query_string (rq_target req)))" "json_find j ''traceparent'' = Some (JString traceparent)"
    "json_find j ''client_ip'' = Some (JString (request_client_ip req))" "json_find j ''proxy_ip'' = Some (JString (rq_local_addr req))"
    "json_find j ''headers'' = (if ?h \<noteq> JObject [] then Some ?h else None)"
    by (simp_all add: same find)
  have "json_utf8 ?h" using json_utf8_find(2) [OF u f(7) [THEN trans]] by (cases "?h = JObject []") simp_all
  then have "list_all (\<lambda>(name, _). is_valid_utf8 name) (filter_headers (rq_headers req) g_default_skip_headers)" unfolding filtered_headers_utf8 .
  then show ?thesis unfolding request_utf8_def
    using json_utf8_find(2) [OF u f(1)] json_utf8_find(2) [OF u f(2)] json_utf8_find(2) [OF u f(3)] json_utf8_find(2) [OF u f(4)]
      json_utf8_find(2) [OF u f(5)] json_utf8_find(2) [OF u f(6)] by simp
qed

lemma traced_find:
  "is_object d \<Longrightarrow> key \<notin> trace_keys \<Longrightarrow> json_find (add_proxy_trace_fields tf d) key = json_find d key"
  "is_object d \<Longrightarrow> is_object (add_proxy_trace_fields tf d)"
  by (simp_all add: add_proxy_trace_fields_def json_find_set split: option.split)

lemma traced_request:
  assumes d: "is_object d" "json_wf d" "json_find d ''proxy_span_id'' = None" "json_find d ''proxy_traceparent'' = None"
    and tr: "trace_utf8 tf tracer generated trace_id span_id"
  shows "json_wf (add_proxy_trace_fields tf d)" "json_utf8 d \<Longrightarrow> json_utf8 (add_proxy_trace_fields tf d)"
    "\<exists>op. push_span_id generated span_id (add_proxy_trace_fields tf d) = Inr op \<and> is_valid_utf8 op"
    "json_find (add_proxy_trace_fields tf d) ''proxy_traceparent'' \<in> insert None (range (Some \<circ> JString))"
proof -
  show "json_wf (add_proxy_trace_fields tf d)" using d
    by (auto simp: add_proxy_trace_fields_def intro!: json_set_wf split: option.split)
  show "json_utf8 (add_proxy_trace_fields tf d)" if "json_utf8 d" using that tr
    by (auto simp: add_proxy_trace_fields_def trace_utf8_def intro!: json_set_utf8 split: option.split)
  show "\<exists>op. push_span_id generated span_id (add_proxy_trace_fields tf d) = Inr op \<and> is_valid_utf8 op" using d tr
    by (cases tf) (simp_all add: push_span_id_def json_contains_def get_string_def add_proxy_trace_fields_def json_find_set trace_utf8_def)
  show "json_find (add_proxy_trace_fields tf d) ''proxy_traceparent'' \<in> insert None (range (Some \<circ> JString))" using d
    by (cases tf) (simp_all add: add_proxy_trace_fields_def json_find_set)
qed

lemma pushed_json:
  assumes d: "is_object d" "json_wf d" "json_find d ''request_id'' = Some (JString request_id)"
    "json_find d ''proxy_span_id'' = None" "json_find d ''proxy_traceparent'' = None"
    and tr: "trace_utf8 tf tracer generated trace_id span_id" and now: "0 \<le> now_ms" "now_ms < 2 ^ 63"
  shows "\<exists>j. push_request dump now_ms tracer generated trace_id span_id (add_proxy_trace_fields tf d)
        = (case dump j of Some text \<Rightarrow> Inr text | None \<Rightarrow> Inl Thrown)
    \<and> json_wf j \<and> (json_utf8 d \<longrightarrow> json_utf8 j) \<and> (\<forall>key. key \<notin> trace_keys \<longrightarrow> json_find j key = json_find d key)
    \<and> json_find j ''proxy_span_id'' \<in> range (Some \<circ> JString)
    \<and> json_find j ''proxy_traceparent'' \<in> insert None (range (Some \<circ> JString))"
proof -
  let ?d1 = "add_proxy_trace_fields tf d"
  note d1 = traced_request [OF d(1,2,4,5) tr] and o1 = traced_find(2) [OF d(1)] and f1 = traced_find(1) [OF d(1)]
  obtain op where op: "push_span_id generated span_id ?d1 = Inr op" "is_valid_utf8 op" using d1(3) by blast
  define d2 where "d2 = json_set ''proxy_trace_id'' (JString trace_id)
    (json_set ''proxy_span_id'' (JString op) (json_set ''timestamp'' (JInt now_ms) ?d1))"
  define d3 where "d3 = (case tracer of Some g \<Rightarrow>
      if trace_id \<noteq> [] \<and> op \<noteq> [] then json_set ''proxy_traceparent'' (JString (g trace_id op)) d2 else d2 | None \<Rightarrow> d2)"
  have d2: "is_object d2" "json_wf d2" "json_utf8 d \<Longrightarrow> json_utf8 d2" using d1(1,2) o1 op(2) tr now
    by (auto simp: d2_def trace_utf8_def intro!: json_set_wf json_set_utf8)
  have f2: "json_find d2 key = (if key = ''proxy_trace_id'' then Some (JString trace_id)
      else if key = ''proxy_span_id'' then Some (JString op) else if key = ''timestamp'' then Some (JInt now_ms) else json_find ?d1 key)" for key
    unfolding d2_def using o1 by (simp add: json_find_set)
  have d3: "json_wf d3" "json_utf8 d \<Longrightarrow> json_utf8 d3" using d2 tr
    by (auto simp: d3_def trace_utf8_def intro!: json_set_wf json_set_utf8 split: option.split)
  have f3: "json_find d3 key = json_find d2 key" if "key \<noteq> ''proxy_traceparent''" for key
    using that d2(1) by (simp add: d3_def json_find_set split: option.split)
  have f3': "json_find d3 ''proxy_traceparent'' \<in> insert (json_find d2 ''proxy_traceparent'') (range (Some \<circ> JString))"
    using d2(1) by (simp add: d3_def json_find_set split: option.split)
  have "json_find ?d1 ''request_id'' = Some (JString request_id)" using f1 [of "''request_id''"] d(3) by simp
  then have "push_request dump now_ms tracer generated trace_id span_id ?d1 = (case dump d3 of Some text \<Rightarrow> Inr text | None \<Rightarrow> Inl Thrown)"
    using op(1) unfolding d3_def d2_def by (simp add: push_request_def get_string_def Let_def)
  moreover have "json_find d3 key = json_find d key" if "key \<notin> trace_keys" for key
    using that f3 [of key] f2 [of key] f1 [of key] by simp
  moreover have "json_find d3 ''proxy_span_id'' \<in> range (Some \<circ> JString)" using f3 [of "''proxy_span_id''"] f2 [of "''proxy_span_id''"] by simp
  moreover have "json_find d3 ''proxy_traceparent'' \<in> insert None (range (Some \<circ> JString))"
    using f3' f2 [of "''proxy_traceparent''"] d1(4) by auto
  ultimately show ?thesis using d3 by (intro exI [of _ d3]) blast
qed

lemma decode_body_ok:
  assumes "json_find j ''body'' = Some (JString (if binary then to_base64 body else body))"
    "json_find j ''body_is_binary'' = (if binary then Some (JBool True) else None)" "base64_codec to_base64 from_base64"
  shows "decode_body from_base64 j = Inr body"
  using assms by (simp add: decode_body_def get_string_def value_bool_def base64_codec_def split: if_splits)

lemma parse_request_ok:
  assumes "parse msg = Some j" "json_find j ''method'' = Some (JString m)" "m \<in> {''GET'', ''POST''}"
    "json_find j ''path'' = Some (JString path)" "length path \<le> 2048" "json_find j ''request_id'' = Some (JString rid)"
    "json_find j ''body'' = Some (JString stored)" "length stored \<le> 10485760"
  shows "parse_request_data parse msg = Inr (Some j)"
  using assms by (auto simp: parse_request_data_def validate_request_def create_standard_request_validator_def
    check_member_def json_contains_def get_string_def)

text \<open>The message as JSON: it can be written exactly when the request is UTF-8, and has the members of \<open>prepare_request_data\<close>.\<close>

lemma proxy_message_json:
  assumes "base64_codec to_base64 from_base64" "\<forall>b. accept b \<longrightarrow> is_valid_utf8 b" "trace_utf8 tf tracer generated trace_id span_id"
    "0 \<le> now_ms" "now_ms < 2 ^ 63" "req_method \<in> {''GET'', ''POST''}"
  obtains j where "proxy_message accept to_base64 dump now_ms tf tracer generated trace_id span_id request_id req_method body req traceparent
      = (case dump j of Some text \<Rightarrow> Inr text | None \<Rightarrow> Inl Thrown)"
    "json_wf j" "json_utf8 j \<longleftrightarrow> request_utf8 request_id req traceparent"
    "\<And>key. key \<notin> trace_keys \<Longrightarrow> json_find j key = json_find (prepare_request_data accept to_base64 request_id req_method (rq_path req) body req traceparent) key"
    "json_find j ''proxy_span_id'' \<in> range (Some \<circ> JString)" "json_find j ''proxy_traceparent'' \<in> insert None (range (Some \<circ> JString))"
proof -
  let ?d = "prepare_request_data accept to_base64 request_id req_method (rq_path req) body req traceparent"
  obtain j where j: "proxy_message accept to_base64 dump now_ms tf tracer generated trace_id span_id request_id req_method body req traceparent
      = (case dump j of Some text \<Rightarrow> Inr text | None \<Rightarrow> Inl Thrown)" "json_wf j" "json_utf8 ?d \<longrightarrow> json_utf8 j"
      "\<forall>key. key \<notin> trace_keys \<longrightarrow> json_find j key = json_find ?d key" "json_find j ''proxy_span_id'' \<in> range (Some \<circ> JString)"
      "json_find j ''proxy_traceparent'' \<in> insert None (range (Some \<circ> JString))"
    using pushed_json [where d = ?d and dump = dump, OF prepared_find(1) prepared_ok(1) prepared_find(2) prepared_find(12,13) assms(3-5)]
    unfolding proxy_message_def by (elim exE conjE) blast
  have stored: "is_valid_utf8 (if body \<noteq> [] \<and> \<not> accept body then to_base64 body else body)"
    using assms(1,2) by (cases "body = []") (auto simp: base64_codec_def)
  have m: "is_valid_utf8 req_method" using assms(6) by (auto intro: ascii_valid)
  have "json_utf8 j \<longleftrightarrow> request_utf8 request_id req traceparent"
  proof
    assume "json_utf8 j"
    then show "request_utf8 request_id req traceparent"
      by (rule carried_utf8 [of j accept to_base64 request_id req_method req body traceparent]) (simp add: j(4))
  next
    assume "request_utf8 request_id req traceparent"
    then have "json_utf8 ?d" using m stored by (rule prepared_utf8)
    then show "json_utf8 j" using j(3) by blast
  qed
  with j that show thesis by blast
qed

lemma request_decoded:
  assumes "serialises dump parse" "base64_codec to_base64 from_base64" "\<forall>b. accept b \<longrightarrow> is_valid_utf8 b"
    and "list_all is_valid_utf8 [request_id, rq_path req, extract_query_string (rq_target req), traceparent,
           request_client_ip req, rq_local_addr req]"
    and "list_all (\<lambda>(name, _). is_valid_utf8 name) (rq_headers req)"
    and "trace_utf8 tf tracer generated trace_id span_id" "0 \<le> now_ms" "now_ms < 2 ^ 63"
    and "req_method \<in> {''GET'', ''POST''}" "length (rq_path req) \<le> 2048"
    and "length (if body \<noteq> [] \<and> \<not> accept body then to_base64 body else body) \<le> 10485760"
  shows "\<exists>msg d. proxy_message accept to_base64 dump now_ms tf tracer generated trace_id span_id request_id req_method body req traceparent
      = Inr msg \<and> msg \<noteq> [] \<and> worker_receive parse from_base64 msg = Inr (Some d)
    \<and> wr_request_id d = request_id \<and> wr_method d = req_method \<and> wr_path d = rq_path req
    \<and> wr_query d = extract_query_string (rq_target req) \<and> wr_body d = body
    \<and> wr_client_ip d = request_client_ip req \<and> wr_proxy_ip d = rq_local_addr req \<and> wr_traceparent d = traceparent
    \<and> (\<forall>n v. (n, v) \<in> set (wr_forwarded_headers d) \<longrightarrow>
         (\<exists>v'. (n, v') \<in> set (rq_headers req) \<and> v = sanitize_invalid v' \<and> \<not> should_skip_header n g_default_skip_headers))
    \<and> (\<forall>n v. (n, v) \<in> set (rq_headers req) \<longrightarrow> \<not> should_skip_header n g_default_skip_headers \<longrightarrow>
         (\<exists>v'. (n, v') \<in> set (wr_forwarded_headers d)))"
proof -
  let ?d = "prepare_request_data accept to_base64 request_id req_method (rq_path req) body req traceparent"
  let ?h = "filter_headers_to_json (rq_headers req) g_default_skip_headers"
  define stored where "stored = (if body \<noteq> [] \<and> \<not> accept body then to_base64 body else body)"
  have u: "request_utf8 request_id req traceparent" using assms(4,5) by (auto simp: request_utf8_def filter_headers_def list_all_iff)
  obtain j where j0: "proxy_message accept to_base64 dump now_ms tf tracer generated trace_id span_id request_id req_method body req traceparent
        = (case dump j of Some text \<Rightarrow> Inr text | None \<Rightarrow> Inl Thrown)" "json_wf j" "json_utf8 j"
      "\<And>key. key \<notin> trace_keys \<Longrightarrow> json_find j key = json_find ?d key"
      "json_find j ''proxy_span_id'' \<in> range (Some \<circ> JString)"
      "json_find j ''proxy_traceparent'' \<in> insert None (range (Some \<circ> JString))"
    using proxy_message_json [OF assms(2,3,6-9), where dump = dump and request_id = request_id and body = body and req = req and traceparent = traceparent] u
    by (metis (no_types, lifting))
  obtain msg where msg: "dump j = Some msg" "msg \<noteq> []" "parse msg = Some j" by (rule serialisesD [OF assms(1) j0(2,3)])
  have j: "proxy_message accept to_base64 dump now_ms tf tracer generated trace_id span_id request_id req_method body req traceparent = Inr msg"
    using j0(1) msg(1) by simp
  have f: "json_find j ''request_id'' = Some (JString request_id)" "json_find j ''method'' = Some (JString req_method)"
    "json_find j ''path'' = Some (JString (rq_path req))" "json_find j ''query'' = Some (JString (extract_query_string (rq_target req)))"
    "json_find j ''traceparent'' = Some (JString traceparent)" "json_find j ''client_ip'' = Some (JString (request_client_ip req))"
    "json_find j ''proxy_ip'' = Some (JString (rq_local_addr req))" "json_find j ''body'' = Some (JString stored)"
    "json_find j ''body_is_binary'' = (if body \<noteq> [] \<and> \<not> accept body then Some (JBool True) else None)"
    "json_find j ''headers'' = (if ?h \<noteq> JObject [] then Some ?h else None)"
    by (simp_all add: j0(4) prepared_find stored_def)
  obtain ps where ps: "json_find j ''proxy_span_id'' = Some (JString ps)" using j0(5) by auto
  have "value_string j ''proxy_traceparent'' [] \<in> range Inr" using j0(6) by (auto simp: value_string_def)
  then obtain pt where pt: "value_string j ''proxy_traceparent'' [] = Inr pt" by auto
  have body: "decode_body from_base64 j = Inr body" using f(8,9) assms(2) unfolding stored_def by (rule decode_body_ok)
  define hs where "hs = filter_headers_from_json ?h g_default_skip_headers"
  have fh: "(case json_find j ''headers'' of Some h \<Rightarrow> filter_headers_from_json h g_default_skip_headers | None \<Rightarrow> []) = hs"
    using f(10) by (auto simp: hs_def filter_headers_from_json_def filter_headers_def)
  have acc: "parse_request_data parse msg = Inr (Some j)"
    by (rule parse_request_ok [where parse = parse, OF msg(3) f(2) assms(9) f(3) assms(10) f(1) f(8) assms(11) [folded stored_def]])
  then obtain d where d: "worker_receive parse from_base64 msg = Inr (Some d)" "wr_request_id d = request_id" "wr_method d = req_method"
      "wr_path d = rq_path req" "wr_query d = extract_query_string (rq_target req)" "wr_body d = body"
      "wr_client_ip d = request_client_ip req" "wr_proxy_ip d = rq_local_addr req" "wr_traceparent d = traceparent" "wr_forwarded_headers d = hs"
    using f(1-7) ps pt body fh
    by (simp add: worker_receive_def decode_nats_request_def get_string_def value_string_def)
  show ?thesis
    using j msg(2) d forwarded_headers [where hs = "rq_headers req", folded hs_def] by (intro exI [of _ msg] exI [of _ d]) blast
qed

text \<open>
  Property C15. What the client asked is what the worker acts on: when the parts of the request
  that are sent as text are UTF-8 and within the limits of the validator, the message of the proxy
  can be serialised, the worker accepts it and decodes the same method, path, query, addresses and body,
  byte for byte whether the body is JSON or not; the headers are those of the request
  without the connection headers, their values with invalid bytes replaced.
\<close>
theorem request_roundtrip:
  assumes "serialises dump parse" "base64_codec to_base64 from_base64" "\<forall>b. accept b \<longrightarrow> is_valid_utf8 b"
    and "list_all is_valid_utf8 [request_id, rq_path req, extract_query_string (rq_target req), traceparent,
           request_client_ip req, rq_local_addr req]"
    and "list_all (\<lambda>(name, _). is_valid_utf8 name) (rq_headers req)"
    and "trace_utf8 tf tracer generated trace_id span_id" "0 \<le> now_ms" "now_ms < 2 ^ 63"
    and "req_method \<in> {''GET'', ''POST''}" "length (rq_path req) \<le> 2048"
    and "length (if body \<noteq> [] \<and> \<not> accept body then to_base64 body else body) \<le> 10485760"
  shows "\<exists>msg d. proxy_message accept to_base64 dump now_ms tf tracer generated trace_id span_id request_id req_method body req traceparent
      = Inr msg \<and> worker_receive parse from_base64 msg = Inr (Some d)
    \<and> wr_request_id d = request_id \<and> wr_method d = req_method \<and> wr_path d = rq_path req
    \<and> wr_query d = extract_query_string (rq_target req) \<and> wr_body d = body
    \<and> wr_client_ip d = request_client_ip req \<and> wr_proxy_ip d = rq_local_addr req \<and> wr_traceparent d = traceparent
    \<and> (\<forall>n v. (n, v) \<in> set (wr_forwarded_headers d) \<longrightarrow>
         (\<exists>v'. (n, v') \<in> set (rq_headers req) \<and> v = sanitize_invalid v' \<and> \<not> should_skip_header n g_default_skip_headers))
    \<and> (\<forall>n v. (n, v) \<in> set (rq_headers req) \<longrightarrow> \<not> should_skip_header n g_default_skip_headers \<longrightarrow>
         (\<exists>v'. (n, v') \<in> set (wr_forwarded_headers d)))"
  using request_decoded [OF assms] by blast

theorem request_roundtrip_witness:
  "\<exists>msg d. proxy_message (\<lambda>_. False) demo_encode demo_dump 1 None None ''s'' [] [] ''r'' ''POST'' [CHR 0xFF]
        \<lparr>rq_path = ''/a'', rq_target = ''/a'', rq_headers = [], rq_remote_addr = ''1'', rq_local_addr = ''2'', rq_body = [CHR 0xFF]\<rparr> [] = Inr msg
     \<and> worker_receive demo_parse demo_decode msg = Inr (Some d) \<and> wr_body d = [CHR 0xFF] \<and> wr_path d = ''/a''"
proof -
  let ?req = "\<lparr>rq_path = ''/a'', rq_target = ''/a'', rq_headers = [], rq_remote_addr = ''1'', rq_local_addr = ''2'', rq_body = [CHR 0xFF]\<rparr>"
  have v: "is_valid_utf8 ''r''" "is_valid_utf8 ''s''" "is_valid_utf8 ''/a''" "is_valid_utf8 ''1''" "is_valid_utf8 ''2''"
    by (rule ascii_valid, simp)+
  have "request_client_ip ?req = ''1''" "extract_query_string (rq_target ?req) = []"
    by (simp_all add: request_client_ip_def extract_client_ip_def header_find_def extract_query_string_def)
  moreover have "length (demo_encode [CHR 0xFF]) \<le> 10485760" by (simp add: demo_encode_def)
  ultimately have "\<exists>msg d. proxy_message (\<lambda>_. False) demo_encode demo_dump 1 None None ''s'' [] [] ''r'' ''POST'' [CHR 0xFF] ?req [] = Inr msg
      \<and> worker_receive demo_parse demo_decode msg = Inr (Some d) \<and> wr_request_id d = ''r'' \<and> wr_method d = ''POST''
      \<and> wr_path d = rq_path ?req \<and> wr_query d = extract_query_string (rq_target ?req) \<and> wr_body d = [CHR 0xFF]"
    using request_roundtrip [OF demo_serialises demo_codec, where accept = "\<lambda>_. False" and request_id = "''r''" and req = ?req
        and traceparent = "[]" and tf = None and tracer = None and generated = "''s''" and trace_id = "[]" and span_id = "[]"
        and now_ms = 1 and req_method = "''POST''" and body = "[CHR 0xFF]"] v
    by (simp add: trace_utf8_def) blast
  then show ?thesis by auto
qed

lemma parse_request_refused:
  assumes "parse msg = Some j" "json_find j ''method'' = Some (JString m)" "m \<in> {''GET'', ''POST''}"
    "json_find j ''path'' = Some (JString path)" "json_find j ''request_id'' = Some (JString rid)"
    "json_find j ''body'' = Some (JString stored)" "length path > 2048 \<or> length stored > 10485760"
  shows "parse_request_data parse msg = Inr None"
  using assms by (auto simp: parse_request_data_def validate_request_def create_standard_request_validator_def
    check_member_def json_contains_def get_string_def)

text \<open>
  Property C14. Which requests the worker gets and accepts, exactly. The proxy can write the message of a request if and only if the texts
  that travel as they are, the path, the query, the addresses, the trace context and the names of the forwarded headers, are UTF-8; otherwise the serialiser throws and
  nothing is sent, and nothing checks this before. A message that was written has the members and types that the worker asks for: it is refused if and only
  if the path has more than 2048 bytes or the body, in base64 when it is not JSON, more than ten megabytes, and it is decoded otherwise.
\<close>
theorem request_acceptance:
  assumes "serialises dump parse" "base64_codec to_base64 from_base64" "\<forall>b. accept b \<longrightarrow> is_valid_utf8 b"
    and "trace_utf8 tf tracer generated trace_id span_id" "0 \<le> now_ms" "now_ms < 2 ^ 63" "req_method \<in> {''GET'', ''POST''}"
  shows "case proxy_message accept to_base64 dump now_ms tf tracer generated trace_id span_id request_id req_method body req traceparent of
      Inl f \<Rightarrow> f = Thrown \<and> \<not> request_utf8 request_id req traceparent
    | Inr msg \<Rightarrow> request_utf8 request_id req traceparent \<and>
        (if length (rq_path req) \<le> 2048 \<and> length (if body \<noteq> [] \<and> \<not> accept body then to_base64 body else body) \<le> 10485760
         then \<exists>d. worker_receive parse from_base64 msg = Inr (Some d) else worker_receive parse from_base64 msg = Inr None)"
proof -
  let ?d = "prepare_request_data accept to_base64 request_id req_method (rq_path req) body req traceparent"
  let ?pm = "proxy_message accept to_base64 dump now_ms tf tracer generated trace_id span_id request_id req_method body req traceparent"
  obtain j where j: "?pm = (case dump j of Some text \<Rightarrow> Inr text | None \<Rightarrow> Inl Thrown)" "json_wf j"
      "json_utf8 j \<longleftrightarrow> request_utf8 request_id req traceparent" "\<And>key. key \<notin> trace_keys \<Longrightarrow> json_find j key = json_find ?d key"
      "json_find j ''proxy_span_id'' \<in> range (Some \<circ> JString)" "json_find j ''proxy_traceparent'' \<in> insert None (range (Some \<circ> JString))"
    by (rule proxy_message_json [OF assms(2-7), where dump = dump and request_id = request_id and body = body and req = req
        and traceparent = traceparent]) blast
  show ?thesis
  proof (cases "json_utf8 j")
    case False
    then have "dump j = None" using assms(1) j(2) unfolding serialises_def by metis
    then show ?thesis using False j(1,3) by simp
  next
    case True
    obtain msg where msg: "dump j = Some msg" "parse msg = Some j" using serialisesD [OF assms(1) j(2) True] by metis
    define stored where "stored = (if body \<noteq> [] \<and> \<not> accept body then to_base64 body else body)"
    have f: "json_find j ''request_id'' = Some (JString request_id)" "json_find j ''method'' = Some (JString req_method)"
      "json_find j ''path'' = Some (JString (rq_path req))" "json_find j ''body'' = Some (JString stored)"
      "json_find j ''query'' = Some (JString (extract_query_string (rq_target req)))" "json_find j ''traceparent'' = Some (JString traceparent)"
      "json_find j ''client_ip'' = Some (JString (request_client_ip req))" "json_find j ''proxy_ip'' = Some (JString (rq_local_addr req))"
      "json_find j ''body_is_binary'' = (if body \<noteq> [] \<and> \<not> accept body then Some (JBool True) else None)"
      by (simp_all add: j(4) prepared_find stored_def)
    have "worker_receive parse from_base64 msg = Inr None" if "length (rq_path req) > 2048 \<or> length stored > 10485760"
      using parse_request_refused [where parse = parse, OF msg(2) f(2) assms(7) f(3,1,4) that] by (simp add: worker_receive_def)
    moreover have "\<exists>d. worker_receive parse from_base64 msg = Inr (Some d)" if fits: "length (rq_path req) \<le> 2048" "length stored \<le> 10485760"
    proof -
      have "decode_body from_base64 j = Inr body" using f(4,9) assms(2) unfolding stored_def by (rule decode_body_ok)
      moreover have "value_string j ''proxy_traceparent'' [] \<in> range Inr" using j(6) by (auto simp: value_string_def)
      moreover obtain ps where "json_find j ''proxy_span_id'' = Some (JString ps)" using j(5) by auto
      ultimately show ?thesis
        using parse_request_ok [where parse = parse, OF msg(2) f(2) assms(7) f(3) fits(1) f(1,4) fits(2)] f
        by (auto simp: worker_receive_def decode_nats_request_def get_string_def value_string_def)
    qed
    ultimately show ?thesis using True j(1,3) msg(1) unfolding stored_def [symmetric] by (simp add: linorder_not_le)
  qed
qed

theorem request_acceptance_witness:
  "proxy_message (\<lambda>_. False) demo_encode demo_dump 1 None None ''s'' [] [] ''r'' ''GET'' []
      \<lparr>rq_path = [CHR 0x2F, CHR 0xFF], rq_target = ''/'', rq_headers = [], rq_remote_addr = ''1'', rq_local_addr = ''2'', rq_body = []\<rparr> [] = Inl Thrown"
proof -
  let ?req = "\<lparr>rq_path = [CHR 0x2F, CHR 0xFF], rq_target = ''/'', rq_headers = [], rq_remote_addr = ''1'', rq_local_addr = ''2'', rq_body = []\<rparr>"
  have "is_valid_utf8 ''s''" by (rule ascii_valid) simp
  then have t: "trace_utf8 None None ''s'' [] []" by (simp add: trace_utf8_def)
  have "\<not> is_valid_utf8 [CHR 0x2F, CHR 0xFF]" by code_simp
  then have n: "\<not> request_utf8 ''r'' ?req []" by (simp add: request_utf8_def)
  show ?thesis using request_acceptance [OF demo_serialises demo_codec _ t, where accept = "\<lambda>_. False" and request_id = "''r''" and req = ?req
        and traceparent = "[]" and now_ms = 1 and req_method = "''GET''" and body = "[]"] n
    by (simp split: sum.splits)
qed

text \<open>
  A message that the validator of the worker accepts but that has no body is decoded with
  the subscript operator of a constant object on a missing name, whose behaviour is not defined.
\<close>
theorem worker_missing_body:
  "parse msg = Some (json_object [(''method'', JString ''GET''), (''path'', JString ''/''), (''request_id'', JString ''1'')]) \<Longrightarrow>
   parse_request_data parse msg \<noteq> Inr None \<and> worker_receive parse from_base64 msg = Inl Undefined"
  by (simp add: worker_receive_def parse_request_data_def validate_request_def create_standard_request_validator_def
    check_member_def json_contains_def get_string_def decode_nats_request_def decode_body_def value_string_def)

end
