(* ===== verification/Diod_Gateway.thy ===== *)
theory Diod_Gateway
  imports Diod_Sql Diod_Messages
begin

text \<open>
  The database gateway from the HTTP request to the executor and back: the handler of the proxy
  (\<open>request_handler_db_gateway.cpp\<close>), the NATS request, the task of the worker
  (\<open>l2_worker_nats.cpp\<close>, \<open>process_db_query_from_nats\<close>) and the dispatch to the executor of a database
  (\<open>db_query_handler.cpp\<close>). The JSON library, the NATS request and the virtual methods of an executor are
  parameters; an exception of an executor is a left value with its text, and \<open>None\<close> is an exception
  that leaves the function. An executor is a function of its arguments: what it does shows in its result only. Tracing, metrics and logging are left out.
\<close>

section \<open>The worker\<close>

record DbQueryExecutor =
  ex_db_name :: string
  ex_default_timeout_ms :: int
  ex_default_max_rows :: int
  ex_ping :: "int \<Rightarrow> string + bool \<times> int"
  ex_execute_query :: "string \<Rightarrow> json \<Rightarrow> int \<Rightarrow> int \<Rightarrow> string + int \<times> json"

record DbQueryHandler =
  dh_executors :: "(string \<times> DbQueryExecutor) list"
  dh_expected_count :: nat
  dh_configured_names :: "string list"

definition new_DbQueryHandler :: DbQueryHandler where
  "new_DbQueryHandler = \<lparr>dh_executors = [], dh_expected_count = 0, dh_configured_names = []\<rparr>"

text \<open>
  Creating and connecting an executor is a parameter; \<open>None\<close> means that it failed. Only the main loop of
  the worker initialises, so that the second look at the map under the lock finds what the first one did.
\<close>

definition init_one :: "(string \<Rightarrow> DbQueryExecutor option) \<Rightarrow> string \<Rightarrow> DbQueryHandler \<Rightarrow> DbQueryHandler" where
  "init_one create db h =
     (if map_of (dh_executors h) db \<noteq> None then h
      else case create db of
             None \<Rightarrow> h
           | Some executor \<Rightarrow> h\<lparr>dh_executors := dh_executors h @ [(db, executor)]\<rparr>)"

definition init_handler :: "(string \<Rightarrow> DbQueryExecutor option) \<Rightarrow> string list \<Rightarrow> DbQueryHandler \<Rightarrow> bool \<times> DbQueryHandler" where
  "init_handler create databases h =
     (let h1 = fold (init_one create) databases
            (h\<lparr>dh_expected_count := length databases, dh_configured_names := databases\<rparr>)
      in (dh_executors h1 \<noteq> [], h1))"

definition handler_enabled :: "DbQueryHandler \<Rightarrow> bool" where
  "handler_enabled h \<longleftrightarrow> dh_executors h \<noteq> []"

definition all_configured :: "DbQueryHandler \<Rightarrow> bool" where
  "all_configured h \<longleftrightarrow> dh_expected_count h > 0 \<and> length (dh_executors h) \<ge> dh_expected_count h"

definition configured_databases :: "DbQueryHandler \<Rightarrow> string list" where
  "configured_databases h = dh_configured_names h"

definition ready_databases :: "DbQueryHandler \<Rightarrow> string list" where
  "ready_databases h = map fst (dh_executors h)"

definition choose_executor :: "DbQueryHandler \<Rightarrow> string \<Rightarrow> DbQueryExecutor option" where
  "choose_executor h db =
     (if db = [] \<and> length (dh_executors h) = 1 then Some (snd (hd (dh_executors h))) else map_of (dh_executors h) db)"

definition unknown_database :: "string \<Rightarrow> string" where
  "unknown_database db = ''Unknown database '' @ [CHR 0x27] @ db @ [CHR 0x27]"

definition handle_request :: "DbQueryHandler \<Rightarrow> json \<Rightarrow> string + int \<times> json" where
  "handle_request h request =
     (case parse_db_query_request request of
        Inl e \<Rightarrow> Inr (400, make_db_error_body ''BAD_REQUEST'' e)
      | Inr req \<Rightarrow>
         (case choose_executor h (dq_db req) of
            None \<Rightarrow> Inr (404, make_db_error_body ''UNKNOWN_DATABASE'' (unknown_database (dq_db req)))
          | Some ex \<Rightarrow>
              if dq_type req = ''ping'' then
                (case ex_ping ex (dq_timeout_ms req) of
                   Inl what \<Rightarrow> Inl what
                 | Inr (True, latency_ms) \<Rightarrow> Inr (200, make_db_ping_response (ex_db_name ex) latency_ms)
                 | Inr (False, _) \<Rightarrow> Inr (503, make_db_error_body ''DB_UNAVAILABLE'' ''Database ping failed''))
              else ex_execute_query ex (dq_sql req) (dq_params req)
                (resolve_positive_or (dq_timeout_ms req) (ex_default_timeout_ms ex))
                (resolve_positive_or (dq_max_rows req) (ex_default_max_rows ex))))"

text \<open>The reply that the task publishes, or none when the envelope cannot be serialised.\<close>

definition process_db_query ::
  "(json \<Rightarrow> string option) \<Rightarrow> (string \<Rightarrow> json option) \<Rightarrow> DbQueryHandler option \<Rightarrow> string \<Rightarrow> string option" where
  "process_db_query dump parse handler request_json =
     (let (status, body) =
        (case parse request_json of
           None \<Rightarrow> (400, make_db_error_body ''BAD_REQUEST'' ''Invalid JSON body'')
         | Some request \<Rightarrow>
            (case handler of
               None \<Rightarrow> (503, make_db_error_body ''DB_UNAVAILABLE'' ''DB gateway is not initialized'')
             | Some h \<Rightarrow>
                (case handle_request h request of
                   Inl what \<Rightarrow> (500, make_db_error_body ''INTERNAL_ERROR'' what)
                 | Inr r \<Rightarrow> r)))
      in dump (make_db_response_envelope status body))"

section \<open>The proxy\<close>

text \<open>A NATS request gives the reply, empty when there was none; the connection is asked for after a failure.\<close>

record nats_client =
  nc_request :: "string \<Rightarrow> string"
  nc_connected :: bool

definition send_json_response :: "(json \<Rightarrow> string option) \<Rightarrow> int \<Rightarrow> json \<Rightarrow> http_response option" where
  "send_json_response dump status body =
     map_option (\<lambda>msg. \<lparr>rs_status = status, rs_body = msg, rs_content_type = ''application/json'', rs_headers = []\<rparr>) (dump body)"

definition send_db_error :: "(json \<Rightarrow> string option) \<Rightarrow> int \<Rightarrow> string \<Rightarrow> string \<Rightarrow> http_response option" where
  "send_db_error dump status code message = send_json_response dump status (make_db_error_body code message)"

definition reject_db_request :: "(json \<Rightarrow> string option) \<Rightarrow> int \<Rightarrow> string \<Rightarrow> http_response option" where
  "reject_db_request dump status message =
     send_db_error dump status
       (if status = 503 then ''DB_UNAVAILABLE'' else if status = 504 then ''TIMEOUT'' else ''BAD_GATEWAY'') message"

definition route_db_request ::
  "(json \<Rightarrow> string option) \<Rightarrow> (string \<Rightarrow> json option) \<Rightarrow> nats_client option \<Rightarrow> json \<Rightarrow> http_response option" where
  "route_db_request dump parse client request =
     (case client of
        None \<Rightarrow> reject_db_request dump 503 ''NATS client is not available''
      | Some nc \<Rightarrow>
         (case dump request of
            None \<Rightarrow> None
          | Some request_json \<Rightarrow>
              let reply = nc_request nc request_json in
              if reply = [] then
                (if \<not> nc_connected nc then reject_db_request dump 503 ''NATS connection is not available''
                 else reject_db_request dump 504 ''DB worker did not respond in time'')
              else (case parse reply of
                      None \<Rightarrow> reject_db_request dump 502 ''Invalid response envelope from DB worker''
                    | Some envelope \<Rightarrow>
                        if \<not> is_object envelope then reject_db_request dump 502 ''Invalid response envelope from DB worker''
                        else send_json_response dump (safe_get_int envelope ''status'' 502)
                          (case json_find envelope ''body'' of Some b \<Rightarrow> b | None \<Rightarrow> JObject []))))"

record DbConfig =
  db_name :: string
  db_driver :: string

definition databases_list_json :: "DbConfig list \<Rightarrow> json" where
  "databases_list_json dbs =
     JArray (map (\<lambda>db. json_object [(''name'', JString (db_name db)), (''driver'', JString (db_driver db)), (''enabled'', JBool True)]) dbs)"

definition handle_db_gateway_list :: "(json \<Rightarrow> string option) \<Rightarrow> DbConfig list \<Rightarrow> string \<Rightarrow> http_response option" where
  "handle_db_gateway_list dump dbs req_method =
     (if req_method \<noteq> ''GET'' then send_db_error dump 405 ''METHOD_NOT_ALLOWED'' ''Use GET''
      else send_json_response dump 200 (json_object [(''databases'', databases_list_json dbs)]))"

definition kDbGatewayPath :: string where
  "kDbGatewayPath = ''/v1/sql''"

definition query_action ::
  "(json \<Rightarrow> string option) \<Rightarrow> (string \<Rightarrow> json option) \<Rightarrow> nats_client option \<Rightarrow> trace_fields option \<Rightarrow> string
   \<Rightarrow> string \<Rightarrow> string \<Rightarrow> http_response option" where
  "query_action dump parse client tf request_id db body =
     (case parse body of
        None \<Rightarrow> send_db_error dump 400 ''BAD_REQUEST'' ''Invalid JSON body''
      | Some payload \<Rightarrow>
          let request = add_proxy_trace_fields tf (build_db_query_request ''query'' request_id db payload) in
          (case parse_db_query_request request of
             Inl e \<Rightarrow> send_db_error dump 400 ''BAD_REQUEST'' e
           | Inr _ \<Rightarrow> route_db_request dump parse client request))"

definition handle_db_gateway ::
  "(json \<Rightarrow> string option) \<Rightarrow> (string \<Rightarrow> json option) \<Rightarrow> nats_client option \<Rightarrow> trace_fields option \<Rightarrow> bool \<Rightarrow> DbConfig list
   \<Rightarrow> string \<Rightarrow> string \<Rightarrow> string \<Rightarrow> string \<Rightarrow> http_response option" where
  "handle_db_gateway dump parse client tf enabled dbs request_id path req_method body =
     (if \<not> enabled then send_db_error dump 404 ''NOT_FOUND'' ''DB gateway is disabled''
      else let parsed = parse_path (normalize_path_rest (drop (length kDbGatewayPath) path));
               db = m_db_name parsed; action = m_action parsed in
        if m_is_list parsed then handle_db_gateway_list dump dbs req_method
        else if \<not> m_valid parsed then send_db_error dump 404 ''NOT_FOUND'' ''Unknown DB gateway path''
        else if \<not> list_ex (\<lambda>d. db_name d = db) dbs then send_db_error dump 404 ''UNKNOWN_DATABASE'' (unknown_database db)
        else if action = ''query'' \<and> req_method = ''POST'' then query_action dump parse client tf request_id db body
        else if action = ''ping'' \<and> req_method = ''GET'' then
          route_db_request dump parse client
            (add_proxy_trace_fields tf (build_db_query_request ''ping'' request_id db (JObject [])))
        else let decision = classify_method action req_method in
          if m_is_error decision then send_db_error dump (m_status decision) (m_code decision) (m_message decision)
          else Some \<lparr>rs_status = - 1, rs_body = [], rs_content_type = [], rs_headers = []\<rparr>)"

section \<open>Validation\<close>

text \<open>The validation reads seven members only; the fields of the tracer do not matter to it.\<close>

abbreviation contract_keys :: "string set" where
  "contract_keys \<equiv> {''type'', ''request_id'', ''db'', ''sql'', ''params'', ''timeout_ms'', ''max_rows''}"

lemma parse_db_cong:
  assumes "\<And>key. key \<in> contract_keys \<Longrightarrow> json_find j key = json_find j' key" "is_object j = is_object j'"
  shows "parse_db_query_request j = parse_db_query_request j'"
proof -
  have "json_find j ''type'' = json_find j' ''type''" "json_find j ''sql'' = json_find j' ''sql''" "json_find j ''params'' = json_find j' ''params''"
    "json_find j ''timeout_ms'' = json_find j' ''timeout_ms''" "json_find j ''max_rows'' = json_find j' ''max_rows''"
    "json_find j ''request_id'' = json_find j' ''request_id''" "json_find j ''db'' = json_find j' ''db''" by (rule assms(1); simp)+
  then have "safe_get_string j ''type'' [] = safe_get_string j' ''type'' []" "safe_get_string j ''sql'' [] = safe_get_string j' ''sql'' []"
    "safe_get_string j ''request_id'' [] = safe_get_string j' ''request_id'' []" "safe_get_string j ''db'' [] = safe_get_string j' ''db'' []"
    "safe_get_int j ''timeout_ms'' (-1) = safe_get_int j' ''timeout_ms'' (-1)" "safe_get_int j ''max_rows'' (-1) = safe_get_int j' ''max_rows'' (-1)"
    "request_params j = request_params j'"
    unfolding safe_get_string_def safe_get_int_def request_params_def by simp_all
  then show ?thesis unfolding parse_db_query_request_def by (simp only: assms(2))
qed

lemma copy_params_scalar: "copy_params m acc = Some p \<Longrightarrow> list_all (is_scalar_value \<circ> snd) m"
  by (induction m acc rule: copy_params.induct) (auto split: if_splits)

lemma member_set_greatest:
  "list_all (\<lambda>x. str_less (fst x) key) m \<Longrightarrow> member_set key v m = m @ [(key, v)]"
proof (induction key v m rule: member_set.induct)
  case (2 key v k w m)
  then have "k \<noteq> key" "\<not> str_less key k" using str_less_trans [of key k key] by auto
  then show ?case using 2 by simp
qed simp

lemma copy_params_same:
  assumes "sorted_wrt str_less (map fst (done_part @ m))" "copy_params m (JObject done_part) = Some p"
  shows "p = JObject (done_part @ m)"
  using assms
proof (induction m "JObject done_part" arbitrary: done_part rule: copy_params.induct)
  case (2 name v m)
  have "member_set name v done_part = done_part @ [(name, v)]"
    using 2(2) by (intro member_set_greatest) (auto simp: sorted_wrt_append list_all_iff)
  then show ?case using 2(1) [of "done_part @ [(name, v)]"] 2(2,3) by (simp split: if_splits)
qed simp

lemma parse_db_ok:
  assumes "parse_db_query_request j = Inr req"
  shows "is_object j" "dq_type req = safe_get_string j ''type'' []" "dq_type req \<in> {''query'', ''ping''}"
    "dq_db req = safe_get_string j ''db'' []" "dq_sql req = safe_get_string j ''sql'' []"
    "dq_type req = ''query'' \<Longrightarrow> is_read_only_sql (dq_sql req)" "request_params j = Inr (dq_params req)"
    "dq_timeout_ms req = safe_get_int j ''timeout_ms'' (-1)" "dq_timeout_ms req = -1 \<or> dq_timeout_ms req > 0"
    "dq_max_rows req = safe_get_int j ''max_rows'' (-1)" "dq_max_rows req = -1 \<or> dq_max_rows req > 0"
  using assms by (auto simp: parse_db_query_request_def Let_def split: if_splits sum.splits)

lemma request_params_value:
  assumes "request_params j = Inr p"
  shows "\<exists>m. p = JObject m \<and> list_all (is_scalar_value \<circ> snd) m"
proof (cases "\<exists>m. json_find j ''params'' = Some (JObject m)")
  case True
  then obtain m where m: "json_find j ''params'' = Some (JObject m)" by blast
  then have c: "copy_params m (JObject []) = Some p" using assms by (auto simp: request_params_def split: option.splits)
  have "copy_params m' (JObject acc) = Some p \<Longrightarrow> list_all (is_scalar_value \<circ> snd) acc \<Longrightarrow>
      \<exists>m. p = JObject m \<and> list_all (is_scalar_value \<circ> snd) m" for m' acc
  proof (induction m' "JObject acc" arbitrary: acc rule: copy_params.induct)
    case (2 name v m')
    then show ?case using 2(1) [of "member_set name v acc"] list_all_member_set [of "is_scalar_value \<circ> snd" acc name v]
      by (auto split: if_splits)
  qed auto
  then show ?thesis using c by simp
next
  case False
  then show ?thesis using assms by (auto simp: request_params_def split: option.splits json.splits)
qed

lemma find_optional:
  "is_object r \<Longrightarrow> json_find (case json_find payload key of Some v \<Rightarrow> json_set key v r | None \<Rightarrow> r) x
     = (if x = key \<and> json_find payload key \<noteq> None then json_find payload key else json_find r x)"
  "is_object (case json_find payload key of Some v \<Rightarrow> json_set key v r | None \<Rightarrow> r) = is_object r"
  by (auto simp: json_find_set split: option.splits)

lemma build_object: "is_object (build_db_query_request type request_id db payload)"
  by (simp add: build_db_query_request_def Let_def find_optional(2))

lemma build_find:
  defines "request type request_id db payload \<equiv> build_db_query_request type request_id db payload"
  shows "json_find (request type request_id db payload) ''type'' = Some (JString type)"
    "json_find (request type request_id db payload) ''request_id'' = Some (JString request_id)"
    "json_find (request type request_id db payload) ''db'' = Some (JString db)"
    "json_find (request ''query'' request_id db payload) ''sql'' = Some (JString (safe_get_string payload ''sql'' []))"
    "json_find (request type request_id db payload) ''params'' = json_find payload ''params''"
    "json_find (request type request_id db payload) ''timeout_ms'' = json_find payload ''timeout_ms''"
    "json_find (request type request_id db payload) ''max_rows'' = json_find payload ''max_rows''"
  by (simp_all add: request_def build_db_query_request_def Let_def find_optional json_find_set)

lemma build_json_ok:
  assumes "json_wf payload" "json_utf8 payload" "is_valid_utf8 request_id" "is_valid_utf8 db" "is_valid_utf8 type"
  shows "json_wf (build_db_query_request type request_id db payload)" "json_utf8 (build_db_query_request type request_id db payload)"
proof -
  have members: "json_wf v \<and> json_utf8 v" if "json_find payload key = Some v" for key v
    using that assms(1,2) by (cases payload) (auto simp: json_find_def list_all_iff dest!: map_of_SomeD)
  have sql: "is_valid_utf8 (safe_get_string payload ''sql'' [])"
    using members [of "''sql''"] by (auto simp: safe_get_string_def split: option.splits json.splits)
  have names: "is_valid_utf8 ''type''" "is_valid_utf8 ''db''" "is_valid_utf8 ''sql''" "is_valid_utf8 ''params''"
    "is_valid_utf8 ''timeout_ms''" "is_valid_utf8 ''max_rows''" by (rule ascii_valid, simp)+
  show "json_wf (build_db_query_request type request_id db payload)"
    using members by (auto simp: build_db_query_request_def Let_def intro!: json_set_wf json_object_wf split: option.splits)
  show "json_utf8 (build_db_query_request type request_id db payload)"
    using members sql names assms(3-5)
    by (auto simp: build_db_query_request_def Let_def intro!: json_set_utf8 json_object_utf8 split: option.splits)
qed

section \<open>From the client to the database and back\<close>

lemma envelope_back:
  assumes "serialises dump parse" "json_wf body" "json_utf8 body" "c_int_ok status"
  obtains msg where "dump (make_db_response_envelope status body) = Some msg" "msg \<noteq> []"
    "parse msg = Some (make_db_response_envelope status body)"
proof -
  have "is_valid_utf8 ''status''" by (rule ascii_valid) simp
  then have "json_wf (make_db_response_envelope status body)" "json_utf8 (make_db_response_envelope status body)"
    using assms(2-4) by (auto simp: make_db_response_envelope_def c_int_ok_def intro!: json_object_wf json_object_utf8)
  with assms(1) show thesis by (rule serialisesD) (rule that)
qed

lemma routed:
  assumes "serialises dump parse" "json_wf request" "json_utf8 request" "handle_request h request = Inr (status, result)"
    and "json_wf result" "c_int_ok status"
    and client: "client = Some \<lparr>nc_request = (\<lambda>msg. case process_db_query dump parse (Some h) msg of Some r \<Rightarrow> r | None \<Rightarrow> []), nc_connected = True\<rparr>"
  shows "route_db_request dump parse client request =
    (if json_utf8 result then send_json_response dump status result
     else reject_db_request dump 504 ''DB worker did not respond in time'')"
proof -
  obtain msg where msg: "dump request = Some msg" "parse msg = Some request" using serialisesD [OF assms(1-3)] by blast
  have proc: "process_db_query dump parse (Some h) msg = dump (make_db_response_envelope status result)"
    using msg(2) assms(4) by (simp add: process_db_query_def)
  show ?thesis
  proof (cases "json_utf8 result")
    case True
    then obtain reply where "dump (make_db_response_envelope status result) = Some reply" "reply \<noteq> []"
        "parse reply = Some (make_db_response_envelope status result)" using envelope_back [OF assms(1,5) _ assms(6)] by blast
    then show ?thesis using True msg(1) proc assms(6)
      by (simp add: route_db_request_def client make_db_response_envelope_def safe_get_int_def)
  next
    case False
    have "json_wf (make_db_response_envelope status result)" "\<not> json_utf8 (make_db_response_envelope status result)"
      using False assms(5,6)
      by (auto simp: make_db_response_envelope_def c_int_ok_def json_object_def ord_def intro!: json_set_wf)
    then have "dump (make_db_response_envelope status result) = None" using assms(1) unfolding serialises_def by metis
    then show ?thesis using False msg(1) proc by (simp add: route_db_request_def client)
  qed
qed

lemma gateway_query_path:
  assumes "db \<noteq> []" "SLASH \<notin> set db"
  shows "parse_path (normalize_path_rest (drop (length kDbGatewayPath) (''/v1/sql/'' @ db @ ''/query'')))
    = \<lparr>m_db_name = db, m_action = ''query'', m_is_list = False, m_valid = True\<rparr>"
proof -
  have n: "normalize_path_rest (SLASH # db @ SLASH # ''query'') = db @ SLASH # ''query''"
    using assms by (cases db) (auto simp: normalize_path_rest_def)
  have "c_strchr (db @ SLASH # ''query'') SLASH = Some (length db)" using assms(2) by (induction db) auto
  moreover have "c_strchr ''query'' SLASH = None" by simp
  ultimately show ?thesis using n by (simp add: kDbGatewayPath_def parse_path_def assms(1))
qed

lemma gateway_dispatch:
  assumes "db \<in> db_name ` set dbs" "db \<noteq> []" "SLASH \<notin> set db" "parse body = Some payload"
    and "parse_db_query_request (add_proxy_trace_fields tf (build_db_query_request ''query'' request_id db payload)) = Inr req"
  shows "handle_db_gateway dump parse client tf True dbs request_id (''/v1/sql/'' @ db @ ''/query'') ''POST'' body
    = route_db_request dump parse client (add_proxy_trace_fields tf (build_db_query_request ''query'' request_id db payload))"
proof -
  have "list_ex (\<lambda>d. db_name d = db) dbs" using assms(1) by (auto simp: list_ex_iff)
  then show ?thesis unfolding handle_db_gateway_def gateway_query_path [OF assms(2,3)] query_action_def assms(4)
    by (simp add: assms(5) Let_def)
qed

lemma handle_query:
  assumes "parse_db_query_request request = Inr req" "dq_type req = ''query''" "choose_executor h (dq_db req) = Some ex"
  shows "handle_request h request = ex_execute_query ex (dq_sql req) (dq_params req)
      (resolve_positive_or (dq_timeout_ms req) (ex_default_timeout_ms ex)) (resolve_positive_or (dq_max_rows req) (ex_default_max_rows ex))"
  using assms by (simp add: handle_request_def)

text \<open>What the payload of a client asks for: a limit that is a number is meant as it is, anything else leaves the default.\<close>

definition asked_limit :: "json \<Rightarrow> string \<Rightarrow> int \<Rightarrow> int" where
  "asked_limit payload key fallback = (case json_find payload key of Some (JInt n) \<Rightarrow> n | _ \<Rightarrow> fallback)"

definition limit_valid :: "json \<Rightarrow> string \<Rightarrow> bool" where
  "limit_valid payload key \<longleftrightarrow> (case json_find payload key of Some (JInt n) \<Rightarrow> 0 < n \<and> n < 2 ^ 31 | _ \<Rightarrow> True)"

definition asked_params :: "json \<Rightarrow> json" where
  "asked_params payload = (case json_find payload ''params'' of Some (JObject m) \<Rightarrow> JObject m | _ \<Rightarrow> JObject [])"

definition params_valid :: "json \<Rightarrow> bool" where
  "params_valid payload \<longleftrightarrow> (case json_find payload ''params'' of
     None \<Rightarrow> True | Some JNull \<Rightarrow> True | Some (JObject m) \<Rightarrow> list_all (is_scalar_value \<circ> snd) m | Some _ \<Rightarrow> False)"

lemma copy_params_total: "list_all (is_scalar_value \<circ> snd) m \<Longrightarrow> \<exists>p. copy_params m acc = Some p"
  by (induction m acc rule: copy_params.induct) auto

lemma query_params:
  assumes "json_wf payload" "params_valid payload"
  shows "request_params (build_db_query_request type request_id db payload) = Inr (asked_params payload)"
proof (cases "\<exists>m. json_find payload ''params'' = Some (JObject m)")
  case True
  then obtain m where m: "json_find payload ''params'' = Some (JObject m)" by blast
  then have "sorted_wrt str_less (map fst m)" using assms(1) by (cases payload) (auto simp: json_find_def list_all_iff dest!: map_of_SomeD)
  moreover obtain p where "copy_params m (JObject []) = Some p" using copy_params_total [of m "JObject []"] assms(2) m by (auto simp: params_valid_def)
  ultimately show ?thesis using copy_params_same [of "[]" m p] m by (simp add: request_params_def build_find asked_params_def)
next
  case False
  then show ?thesis using assms(2) by (auto simp: request_params_def build_find asked_params_def params_valid_def split: option.splits json.splits)
qed

lemma query_limit:
  assumes "limit_valid payload key"
  shows "safe_get_int payload key (-1) = -1 \<or> 0 < safe_get_int payload key (-1)"
    and "resolve_positive_or (safe_get_int payload key (-1)) fallback = asked_limit payload key fallback"
proof -
  have "to_c_int n = n \<and> 0 < n" if "json_find payload key = Some (JInt n)" for n
    using assms that by (auto simp: limit_valid_def c_int_ok_def intro!: to_c_int_id)
  then show "safe_get_int payload key (-1) = -1 \<or> 0 < safe_get_int payload key (-1)"
    "resolve_positive_or (safe_get_int payload key (-1)) fallback = asked_limit payload key fallback"
    by (auto simp: safe_get_int_def resolve_positive_or_def asked_limit_def split: option.splits json.splits)
qed

lemma valid_query_parsed:
  assumes "json_wf payload" "json_find payload ''sql'' = Some (JString sql)" "sql \<noteq> []" "is_read_only_sql sql"
    and "params_valid payload" "limit_valid payload ''timeout_ms''" "limit_valid payload ''max_rows''"
  shows "parse_db_query_request (build_db_query_request ''query'' request_id db payload) = Inr \<lparr>dq_type = ''query'', dq_request_id = request_id,
      dq_db = db, dq_sql = sql, dq_params = asked_params payload,
      dq_timeout_ms = safe_get_int payload ''timeout_ms'' (-1), dq_max_rows = safe_get_int payload ''max_rows'' (-1)\<rparr>"
proof -
  let ?j = "build_db_query_request ''query'' request_id db payload"
  have "safe_get_int ?j ''timeout_ms'' (-1) = safe_get_int payload ''timeout_ms'' (-1)" "safe_get_int ?j ''max_rows'' (-1) = safe_get_int payload ''max_rows'' (-1)"
    "safe_get_string ?j ''sql'' [] = sql" "safe_get_string ?j ''type'' [] = ''query''" "safe_get_string ?j ''db'' [] = db" "safe_get_string ?j ''request_id'' [] = request_id"
    using assms(2) by (simp_all add: safe_get_int_def safe_get_string_def build_find)
  then show ?thesis using query_limit(1) [OF assms(6)] query_limit(1) [OF assms(7)] assms(3,4) query_params [OF assms(1,5)]
    by (auto simp: parse_db_query_request_def Let_def build_object)
qed

lemma traced_parsed:
  "parse_db_query_request (add_proxy_trace_fields tf (build_db_query_request type request_id db payload))
     = parse_db_query_request (build_db_query_request type request_id db payload)"
proof (rule parse_db_cong)
  fix key assume "key \<in> contract_keys"
  then have "key \<notin> trace_keys" by auto
  then show "json_find (add_proxy_trace_fields tf (build_db_query_request type request_id db payload)) key
      = json_find (build_db_query_request type request_id db payload) key" by (rule traced_find(1) [OF build_object])
qed (simp add: traced_find(2) build_object)

lemma gateway_refuses:
  assumes "db \<in> db_name ` set dbs" "db \<noteq> []" "SLASH \<notin> set db" "parse body = Some payload" "\<not> is_read_only_sql (safe_get_string payload ''sql'' [])"
  shows "\<exists>e. handle_db_gateway dump parse client tf True dbs request_id (''/v1/sql/'' @ db @ ''/query'') ''POST'' body = send_db_error dump 400 ''BAD_REQUEST'' e"
proof -
  let ?j = "build_db_query_request ''query'' request_id db payload"
  have "\<exists>e. parse_db_query_request ?j = Inl e"
  proof (cases "parse_db_query_request ?j")
    case (Inr req)
    note ok = parse_db_ok [OF Inr]
    have "dq_type req = ''query''" "dq_sql req = safe_get_string payload ''sql'' []" using ok(2,5) by (simp_all add: safe_get_string_def build_find)
    then show ?thesis using ok(6) assms(5) by simp
  qed auto
  moreover have "list_ex (\<lambda>d. db_name d = db) dbs" using assms(1) by (auto simp: list_ex_iff)
  ultimately show ?thesis unfolding handle_db_gateway_def gateway_query_path [OF assms(2,3)] query_action_def assms(4)
    by (auto simp: traced_parsed Let_def)
qed

text \<open>
  Property C6. A query runs end to end. For a configured database that the worker serves, the executor is called with the statement, the bind
  parameters, the timeout and the row limit that the client asked for, where it asked for them, and the configured limits otherwise; and
  the client gets the status and the JSON body that the executor returned. The only
  exception is a result that holds text which is not UTF-8: the envelope cannot be serialised, nobody answers,
  and the client is told after the timeout that the worker did not respond. A statement that is not read-only is refused by the proxy with 400.
\<close>
theorem db_gateway_end_to_end:
  assumes "serialises dump parse"
    and client: "client = Some \<lparr>nc_request = (\<lambda>msg. case process_db_query dump parse (Some h) msg of Some r \<Rightarrow> r | None \<Rightarrow> []), nc_connected = True\<rparr>"
    and db: "db \<in> db_name ` set dbs" "db \<noteq> []" "SLASH \<notin> set db"
    and utf8: "is_valid_utf8 request_id" "is_valid_utf8 db" "trace_utf8 tf None [] [] []"
    and payload: "parse body = Some payload" "json_wf payload" "json_utf8 payload"
    and asked: "json_find payload ''sql'' = Some (JString sql)" "sql \<noteq> []" "is_read_only_sql sql"
      "params_valid payload" "limit_valid payload ''timeout_ms''" "limit_valid payload ''max_rows''"
    and ex: "map_of (dh_executors h) db = Some ex"
    and result: "ex_execute_query ex sql (asked_params payload) (asked_limit payload ''timeout_ms'' (ex_default_timeout_ms ex))
          (asked_limit payload ''max_rows'' (ex_default_max_rows ex)) = Inr (status, result)" "json_wf result" "c_int_ok status"
  shows "handle_db_gateway dump parse client tf True dbs request_id (''/v1/sql/'' @ db @ ''/query'') ''POST'' body
      = (if json_utf8 result then send_json_response dump status result
         else reject_db_request dump 504 ''DB worker did not respond in time'')
    \<and> (\<forall>client' body' payload'. parse body' = Some payload' \<longrightarrow> \<not> is_read_only_sql (safe_get_string payload' ''sql'' []) \<longrightarrow>
         (\<exists>e. handle_db_gateway dump parse client' tf True dbs request_id (''/v1/sql/'' @ db @ ''/query'') ''POST'' body'
            = send_db_error dump 400 ''BAD_REQUEST'' e))"
proof -
  let ?built = "build_db_query_request ''query'' request_id db payload"
  define request where "request = add_proxy_trace_fields tf ?built"
  have q: "is_valid_utf8 ''query''" by (rule ascii_valid) simp
  note built = build_json_ok [OF payload(2,3) utf8(1,2) q]
  have "json_find ?built ''proxy_span_id'' = None" "json_find ?built ''proxy_traceparent'' = None"
    by (simp_all add: build_db_query_request_def Let_def find_optional json_find_set)
  note tr = traced_request(1,2) [OF build_object built(1) this utf8(3), folded request_def]
  note parsed = traced_parsed [of tf "''query''" request_id db payload, folded request_def, unfolded valid_query_parsed [OF payload(2) asked]]
  have "handle_request h request = Inr (status, result)"
    using handle_query [OF parsed] result(1) ex db(2) by (simp add: choose_executor_def query_limit(2) [OF asked(5)] query_limit(2) [OF asked(6)])
  then have "route_db_request dump parse client request = (if json_utf8 result then send_json_response dump status result
      else reject_db_request dump 504 ''DB worker did not respond in time'')"
    using routed [OF assms(1) tr(1) tr(2) [OF built(2)] _ result(2,3) client] by blast
  then have "handle_db_gateway dump parse client tf True dbs request_id (''/v1/sql/'' @ db @ ''/query'') ''POST'' body
      = (if json_utf8 result then send_json_response dump status result
         else reject_db_request dump 504 ''DB worker did not respond in time'')"
    unfolding gateway_dispatch [where parse = parse, OF db payload(1) parsed [unfolded request_def], folded request_def] .
  then show ?thesis using gateway_refuses [where parse = parse, OF db] by blast
qed

text \<open>A database that answers every query with the limits it got, and a worker that serves it.\<close>

definition demo_executor :: DbQueryExecutor where
  "demo_executor = \<lparr>ex_db_name = ''pg'', ex_default_timeout_ms = 5, ex_default_max_rows = 7,
     ex_ping = (\<lambda>_. Inr (True, 1)), ex_execute_query = (\<lambda>sql params timeout_ms max_rows. Inr (200, JArray [JInt timeout_ms, JInt max_rows]))\<rparr>"

definition demo_handler :: DbQueryHandler where
  "demo_handler = snd (init_handler (\<lambda>_. Some demo_executor) [''pg''] new_DbQueryHandler)"

theorem db_gateway_end_to_end_witness:
  "\<exists>body. handle_db_gateway demo_dump demo_parse
      (Some \<lparr>nc_request = (\<lambda>msg. case process_db_query demo_dump demo_parse (Some demo_handler) msg of Some r \<Rightarrow> r | None \<Rightarrow> []), nc_connected = True\<rparr>)
      None True [\<lparr>db_name = ''pg'', db_driver = ''postgres''\<rparr>] ''r'' (''/v1/sql/'' @ ''pg'' @ ''/query'') ''POST'' body
    = send_json_response demo_dump 200 (JArray [JInt 5, JInt 3])"
proof -
  let ?payload = "JObject [(''max_rows'', JInt 3), (''sql'', JString ''select 1'')]"
  have v: "is_valid_utf8 ''r''" "is_valid_utf8 ''pg''" "is_valid_utf8 ''sql''" "is_valid_utf8 ''select 1''" "is_valid_utf8 ''max_rows''" by (rule ascii_valid, simp)+
  have ro: "is_read_only_sql ''select 1''" by code_simp
  have w: "json_wf ?payload" "json_utf8 ?payload" using v by (simp_all add: ord_def)
  obtain body where body: "demo_parse body = Some ?payload" using demo_serialises w unfolding serialises_def by metis
  have asked: "json_find ?payload ''sql'' = Some (JString ''select 1'')" "''select 1'' \<noteq> []" "params_valid ?payload"
    "limit_valid ?payload ''timeout_ms''" "limit_valid ?payload ''max_rows''"
    by (simp_all add: json_find_def params_valid_def limit_valid_def)
  show ?thesis
    using db_gateway_end_to_end [OF demo_serialises refl _ _ _ v(1,2) _ body w asked(1,2) ro asked(3-5), where dbs = "[\<lparr>db_name = ''pg'', db_driver = ''postgres''\<rparr>]"
        and tf = None and h = demo_handler and ex = demo_executor and status = 200 and result = "JArray [JInt 5, JInt 3]"]
    by (intro exI [of _ body]) (simp add: trace_utf8_def demo_handler_def init_handler_def init_one_def new_DbQueryHandler_def
        demo_executor_def asked_limit_def json_find_def c_int_ok_def)
qed

text \<open>Executors that do the same on the calls that are allowed: a read-only statement with scalar bind parameters.\<close>

definition agree :: "DbQueryExecutor \<Rightarrow> DbQueryExecutor \<Rightarrow> bool" where
  "agree ex ex' \<longleftrightarrow> ex_db_name ex = ex_db_name ex' \<and> ex_default_timeout_ms ex = ex_default_timeout_ms ex'
     \<and> ex_default_max_rows ex = ex_default_max_rows ex' \<and> ex_ping ex = ex_ping ex'
     \<and> (\<forall>sql m timeout_ms max_rows. is_read_only_sql sql \<longrightarrow> list_all (is_scalar_value \<circ> snd) m \<longrightarrow>
          (timeout_ms > 0 \<or> timeout_ms = ex_default_timeout_ms ex) \<longrightarrow> (max_rows > 0 \<or> max_rows = ex_default_max_rows ex) \<longrightarrow>
          ex_execute_query ex sql (JObject m) timeout_ms max_rows = ex_execute_query ex' sql (JObject m) timeout_ms max_rows)"

lemma agree_choose:
  assumes "list_all2 (rel_prod (=) agree) (dh_executors h) (dh_executors h')"
  shows "rel_option agree (choose_executor h db) (choose_executor h' db)"
proof -
  have "rel_option agree (map_of m db) (map_of m' db)" if "list_all2 (rel_prod (=) agree) m m'" for m m'
    using that by (induction rule: list_all2_induct) (auto simp: rel_prod_sel)
  then show ?thesis using assms list_all2_lengthD [OF assms]
    by (cases "dh_executors h"; cases "dh_executors h'") (auto simp: choose_executor_def rel_prod_sel)
qed

text \<open>
  Property C7. The worker guards the databases whoever sends the message: what it answers does not depend on what an
  executor would do with a statement that is not read-only, with a bind parameter that
  is no scalar, or with a limit that is neither positive nor the configured one. Nothing of the kind is ever executed.
\<close>
theorem db_only_read_only:
  assumes "list_all2 (rel_prod (=) agree) (dh_executors h) (dh_executors h')"
  shows "process_db_query dump parse (Some h) msg = process_db_query dump parse (Some h') msg"
proof -
  have "handle_request h request = handle_request h' request" for request
  proof (cases "parse_db_query_request request")
    case (Inr req)
    note ok = parse_db_ok [OF Inr]
    obtain m where m: "dq_params req = JObject m" "list_all (is_scalar_value \<circ> snd) m" using request_params_value [OF ok(7)] by blast
    show ?thesis
    proof (cases "choose_executor h (dq_db req)")
      case None
      then show ?thesis using agree_choose [OF assms, of "dq_db req"] Inr by (cases "choose_executor h' (dq_db req)") (simp_all add: handle_request_def)
    next
      case (Some ex)
      then obtain ex' where ex': "choose_executor h' (dq_db req) = Some ex'" "agree ex ex'"
        using agree_choose [OF assms, of "dq_db req"] by (cases "choose_executor h' (dq_db req)") auto
      show ?thesis
      proof (cases "dq_type req = ''ping''")
        case True
        moreover have "ex_ping ex = ex_ping ex'" "ex_db_name ex = ex_db_name ex'" using ex'(2) by (simp_all add: agree_def)
        ultimately show ?thesis using Inr Some ex'(1)
          by (simp add: handle_request_def cong: sum.case_cong prod.case_cong bool.case_cong)
      next
        case False
        then have "dq_type req = ''query''" "is_read_only_sql (dq_sql req)" using ok(3,6) by auto
        moreover define t where "t = resolve_positive_or (dq_timeout_ms req) (ex_default_timeout_ms ex)"
        moreover define n where "n = resolve_positive_or (dq_max_rows req) (ex_default_max_rows ex)"
        moreover have "t > 0 \<or> t = ex_default_timeout_ms ex" "n > 0 \<or> n = ex_default_max_rows ex"
          by (simp_all add: t_def n_def resolve_positive_or_def)
        ultimately have "ex_execute_query ex (dq_sql req) (JObject m) t n = ex_execute_query ex' (dq_sql req) (JObject m) t n"
          using ex'(2) m(2) unfolding agree_def by blast
        moreover have "ex_default_timeout_ms ex' = ex_default_timeout_ms ex" "ex_default_max_rows ex' = ex_default_max_rows ex"
          using ex'(2) by (simp_all add: agree_def)
        ultimately show ?thesis using handle_query [OF Inr \<open>dq_type req = ''query''\<close> Some]
            handle_query [OF Inr \<open>dq_type req = ''query''\<close> ex'(1)] m(1) by (simp add: t_def n_def)
      qed
    qed
  qed (simp add: handle_request_def)
  then show ?thesis by (cases "parse msg") (simp_all add: process_db_query_def)
qed

theorem db_only_read_only_witness:
  "process_db_query demo_dump demo_parse (Some demo_handler) =
   process_db_query demo_dump demo_parse
     (Some (demo_handler\<lparr>dh_executors := [(''pg'', demo_executor\<lparr>ex_execute_query := (\<lambda>sql params t m.
        if is_read_only_sql sql then ex_execute_query demo_executor sql params t m else Inl ''dropped'')\<rparr>)]\<rparr>))"
  by (rule ext, rule db_only_read_only) (simp add: agree_def demo_handler_def init_handler_def init_one_def new_DbQueryHandler_def)

end
