(* ===== verification/Diod_Poll.thy ===== *)
theory Diod_Poll
  imports Diod_Machine Diod_Json
begin

text \<open>
  How the proxy waits for the reply of the worker (\<open>nats_poll_service.cpp\<close>) with its backoff
  (\<open>retry_handler.hpp\<close>). The loop runs against what the NATS client does in every round, which is a parameter,
  and against the clock: the time is part of the state, a sleep lets at least its own duration pass, and everything
  else takes the time that the round says. Times are nanoseconds. The loop may not end by itself, so it runs on fuel;
  the theorem gives the fuel that is always enough. The counters of the metrics are the ones that are kept; logging and spans are left out.
\<close>

section \<open>Backoff\<close>

record RetryHandler =
  rh_initial_delay_ms :: int
  rh_max_delay_ms :: int
  rh_current_delay_ms :: int
  rh_consecutive_failures :: int

definition new_RetryHandler :: "int \<Rightarrow> int \<Rightarrow> RetryHandler" where
  "new_RetryHandler initial_delay_ms max_delay_ms = \<lparr>rh_initial_delay_ms = initial_delay_ms, rh_max_delay_ms = max_delay_ms,
     rh_current_delay_ms = initial_delay_ms, rh_consecutive_failures = 0\<rparr>"

definition backoff_failure :: "RetryHandler \<Rightarrow> RetryHandler" where
  "backoff_failure b = b\<lparr>rh_consecutive_failures := rh_consecutive_failures b + 1,
     rh_current_delay_ms := min (rh_current_delay_ms b * 2) (rh_max_delay_ms b)\<rparr>"

definition backoff_success :: "RetryHandler \<Rightarrow> RetryHandler" where
  "backoff_success b = b\<lparr>rh_consecutive_failures := 0, rh_current_delay_ms := rh_initial_delay_ms b\<rparr>"

definition kReconnectBackoffMinMs :: int where "kReconnectBackoffMinMs = 250"
definition kReconnectBackoffMaxMs :: int where "kReconnectBackoffMaxMs = 2000"
definition kDefaultTimeoutMs :: int where "kDefaultTimeoutMs = 30000"
definition kNoRespondersRetryDelayMs :: int where "kNoRespondersRetryDelayMs = 1000"
definition kEmptyResponseRetryDelayMs :: int where "kEmptyResponseRetryDelayMs = 250"
definition kMsPerSecond :: int where "kMsPerSecond = 1000"

section \<open>The loop\<close>

text \<open>One round: what the client answers, and how long the steps of the round take.\<close>

record round =
  ro_connected :: bool
  ro_connect_ok :: bool
  ro_connect_ns :: nat
  ro_reply :: string
  ro_request_ns :: nat
  ro_last_error :: string
  ro_oversleep_ns :: nat

record poll_state =
  ps_now :: int
  ps_backoff :: RetryHandler
  ps_first_attempt :: bool
  ps_reply :: string
  ps_requests :: "int list"
  ps_resends :: nat
  ps_connection_errors :: nat
  ps_connection_creates :: nat

definition poll_start :: "int \<Rightarrow> poll_state" where
  "poll_start now = \<lparr>ps_now = now, ps_backoff = new_RetryHandler kReconnectBackoffMinMs kReconnectBackoffMaxMs, ps_first_attempt = True,
     ps_reply = [], ps_requests = [], ps_resends = 0, ps_connection_errors = 0, ps_connection_creates = 0\<rparr>"

definition sleep_for :: "round \<Rightarrow> int \<Rightarrow> poll_state \<Rightarrow> poll_state" where
  "sleep_for r delay_ms s = s\<lparr>ps_now := ps_now s + delay_ms * ns_per_ms + int (ro_oversleep_ns r)\<rparr>"

definition poll_ensure_connected :: "round \<Rightarrow> poll_state \<Rightarrow> bool \<times> poll_state" where
  "poll_ensure_connected r s =
     (if ro_connected r then (True, s)
      else let s1 = s\<lparr>ps_connection_errors := ps_connection_errors s + 1, ps_now := ps_now s + int (ro_connect_ns r)\<rparr> in
        if \<not> ro_connect_ok r then
         (let s2 = sleep_for r (rh_current_delay_ms (ps_backoff s1)) s1 in (False, s2\<lparr>ps_backoff := backoff_failure (ps_backoff s2)\<rparr>))
        else (True, s1\<lparr>ps_connection_creates := ps_connection_creates s1 + 1, ps_backoff := backoff_success (ps_backoff s1)\<rparr>))"

definition poll_notify_resend :: "poll_state \<Rightarrow> poll_state" where
  "poll_notify_resend s = (if ps_first_attempt s then s\<lparr>ps_first_attempt := False\<rparr> else s\<lparr>ps_resends := ps_resends s + 1\<rparr>)"

definition poll_delay_for_empty_reply :: "round \<Rightarrow> poll_state \<Rightarrow> poll_state" where
  "poll_delay_for_empty_reply r s =
     (if contains_str ''No responders available for request'' (ro_last_error r) then sleep_for r kNoRespondersRetryDelayMs s
      else sleep_for r kEmptyResponseRetryDelayMs s)"

definition poll_request :: "round \<Rightarrow> int \<Rightarrow> poll_state \<Rightarrow> poll_state" where
  "poll_request r remaining_ms s =
     s\<lparr>ps_requests := ps_requests s @ [to_c_int remaining_ms], ps_reply := ro_reply r, ps_now := ps_now s + int (ro_request_ns r)\<rparr>"

fun poll_loop :: "(nat \<Rightarrow> round) \<Rightarrow> int \<Rightarrow> nat \<Rightarrow> nat \<Rightarrow> poll_state \<Rightarrow> poll_state option" where
  "poll_loop rounds deadline 0 k s = None"
| "poll_loop rounds deadline (Suc fuel) k s =
     (if \<not> ps_now s < deadline then Some s
      else case poll_ensure_connected (rounds k) s of
        (False, s1) \<Rightarrow> poll_loop rounds deadline fuel (Suc k) s1
      | (True, s1) \<Rightarrow>
         (let remaining_ms = duration_cast ns_per_ms (deadline - ps_now s1) in
          if remaining_ms \<le> 0 then Some s1
          else let s2 = poll_request (rounds k) remaining_ms (poll_notify_resend s1) in
            if ps_reply s2 \<noteq> [] then Some s2
            else poll_loop rounds deadline fuel (Suc k) (poll_delay_for_empty_reply (rounds k) s2)))"

declare poll_loop.simps [simp del]

definition poll_until_deadline :: "(nat \<Rightarrow> round) \<Rightarrow> int \<Rightarrow> int \<Rightarrow> nat \<Rightarrow> poll_state option" where
  "poll_until_deadline rounds now timeout_ms fuel = poll_loop rounds (now + timeout_ms * ns_per_ms) fuel 0 (poll_start now)"

text \<open>
  The number of rounds that always suffice for a timeout, one for every quarter of a second of it. \<open>poll_response\<close> runs the loop
  with one more, so its \<open>None\<close> is a timeout in seconds whose milliseconds are no \<open>int\<close>, and nothing else. The client is \<open>None\<close> when
  it was not initialised, and says otherwise whether it was connected before the loop. The final state has the reply,
  the time limits of the requests that were sent, and the counters.
\<close>

definition poll_rounds :: "int \<Rightarrow> nat" where
  "poll_rounds timeout_ms = nat ((timeout_ms + 249) div 250)"

definition poll_timeout_ms :: "int \<Rightarrow> int" where
  "poll_timeout_ms timeout_seconds =
     (let timeout_ms = timeout_seconds * kMsPerSecond in if timeout_ms \<le> 0 then kDefaultTimeoutMs else timeout_ms)"

definition count_connection_error :: "poll_state \<Rightarrow> poll_state" where
  "count_connection_error s = s\<lparr>ps_connection_errors := ps_connection_errors s + 1\<rparr>"

definition poll_response :: "bool option \<Rightarrow> (nat \<Rightarrow> round) \<Rightarrow> int \<Rightarrow> int \<Rightarrow> poll_state option" where
  "poll_response client rounds now timeout_seconds =
     (case client of
        None \<Rightarrow> Some (count_connection_error (poll_start now))
      | Some connected \<Rightarrow>
          if \<not> c_int_ok (timeout_seconds * kMsPerSecond) then None
          else let timeout_ms = poll_timeout_ms timeout_seconds
               in map_option (\<lambda>s. if connected then s else count_connection_error s)
                    (poll_until_deadline rounds now timeout_ms (Suc (poll_rounds timeout_ms))))"

section \<open>It ends, with a reply or at the deadline\<close>

definition backoff_ok :: "RetryHandler \<Rightarrow> bool" where
  "backoff_ok b \<longleftrightarrow> rh_initial_delay_ms b = 250 \<and> rh_max_delay_ms b = 2000 \<and> 250 \<le> rh_current_delay_ms b \<and> rh_current_delay_ms b \<le> 2000"

lemma backoff_ok_step: "backoff_ok b \<Longrightarrow> backoff_ok (backoff_failure b)" "backoff_ok b \<Longrightarrow> backoff_ok (backoff_success b)"
  by (auto simp: backoff_ok_def backoff_failure_def backoff_success_def)

text \<open>The state at the head of a round: all requests so far had an empty reply, and every one after the first was counted.\<close>

definition poll_ok :: "int \<Rightarrow> int \<Rightarrow> poll_state \<Rightarrow> bool" where
  "poll_ok start timeout_ms s \<longleftrightarrow> backoff_ok (ps_backoff s) \<and> start \<le> ps_now s \<and> ps_resends s = length (ps_requests s) - 1
     \<and> ps_first_attempt s = (ps_requests s = []) \<and> list_all (\<lambda>r. 0 < r \<and> r \<le> timeout_ms) (ps_requests s)"

lemma ensure_connected_ok:
  assumes "poll_ok start timeout_ms s" "poll_ensure_connected r s = (b, s1)"
  shows "poll_ok start timeout_ms s1" "ps_now s \<le> ps_now s1" "ps_requests s1 = ps_requests s" "ps_reply s1 = ps_reply s"
    "\<not> b \<Longrightarrow> ps_now s + 250 * ns_per_ms \<le> ps_now s1"
proof -
  have b: "backoff_ok (ps_backoff s)" using assms(1) by (simp add: poll_ok_def)
  have d: "250 * ns_per_ms \<le> rh_current_delay_ms (ps_backoff s) * ns_per_ms" using b by (simp add: backoff_ok_def)
  show "poll_ok start timeout_ms s1" "ps_now s \<le> ps_now s1" "ps_requests s1 = ps_requests s" "ps_reply s1 = ps_reply s"
    "\<not> b \<Longrightarrow> ps_now s + 250 * ns_per_ms \<le> ps_now s1"
    using assms d b by (auto simp: poll_ensure_connected_def sleep_for_def Let_def poll_ok_def backoff_ok_step split: if_splits)
qed

lemma poll_request_ok:
  assumes "poll_ok start timeout_ms s" "0 < remaining_ms" "remaining_ms \<le> timeout_ms" "c_int_ok timeout_ms"
  shows "poll_ok start timeout_ms (poll_request r remaining_ms (poll_notify_resend s))"
    "length (ps_requests (poll_request r remaining_ms (poll_notify_resend s))) = Suc (length (ps_requests s))"
    "ps_reply (poll_request r remaining_ms (poll_notify_resend s)) = ro_reply r"
    "ps_now s \<le> ps_now (poll_request r remaining_ms (poll_notify_resend s))"
proof -
  have "to_c_int remaining_ms = remaining_ms" using assms(2-4) by (intro to_c_int_id) (simp add: c_int_ok_def)
  then show "poll_ok start timeout_ms (poll_request r remaining_ms (poll_notify_resend s))"
    using assms by (cases "ps_requests s") (auto simp: poll_ok_def poll_request_def poll_notify_resend_def)
  show "length (ps_requests (poll_request r remaining_ms (poll_notify_resend s))) = Suc (length (ps_requests s))"
    "ps_reply (poll_request r remaining_ms (poll_notify_resend s)) = ro_reply r"
    "ps_now s \<le> ps_now (poll_request r remaining_ms (poll_notify_resend s))"
    by (simp_all add: poll_request_def poll_notify_resend_def)
qed

lemma poll_delay_ok:
  assumes "poll_ok start timeout_ms s"
  shows "poll_ok start timeout_ms (poll_delay_for_empty_reply r s)" "ps_now s + 250 * ns_per_ms \<le> ps_now (poll_delay_for_empty_reply r s)"
    "ps_requests (poll_delay_for_empty_reply r s) = ps_requests s" "ps_reply (poll_delay_for_empty_reply r s) = ps_reply s"
  using assms by (auto simp: poll_delay_for_empty_reply_def sleep_for_def poll_ok_def kNoRespondersRetryDelayMs_def kEmptyResponseRetryDelayMs_def)

definition poll_result :: "(nat \<Rightarrow> round) \<Rightarrow> int \<Rightarrow> int \<Rightarrow> nat \<Rightarrow> poll_state \<Rightarrow> bool" where
  "poll_result rounds start timeout_ms n s \<longleftrightarrow> poll_ok start timeout_ms s \<and> length (ps_requests s) \<le> n
     \<and> (if ps_reply s = [] then start + timeout_ms * ns_per_ms - ps_now s < ns_per_ms else \<exists>k. ps_reply s = ro_reply (rounds k))"

lemma poll_loop_ends:
  assumes "poll_ok start timeout_ms s" "c_int_ok timeout_ms" "ps_reply s = []"
    and "start + timeout_ms * ns_per_ms \<le> ps_now s + int f * (250 * ns_per_ms)"
  shows "\<exists>s'. poll_loop rounds (start + timeout_ms * ns_per_ms) (Suc f) k s = Some s'
     \<and> poll_result rounds start timeout_ms (length (ps_requests s) + f) s'"
  using assms(1,3,4)
proof (induction f arbitrary: k s)
  case 0
  then show ?case by (simp add: poll_result_def poll_loop.simps(2) [of _ _ _ k])
next
  case (Suc f)
  let ?deadline = "start + timeout_ms * ns_per_ms"
  show ?case
  proof (cases "ps_now s < ?deadline")
    case False
    then show ?thesis using Suc.prems by (simp add: poll_result_def poll_loop.simps(2) [of _ _ _ k])
  next
    case True
    obtain b s1 where e: "poll_ensure_connected (rounds k) s = (b, s1)" by fastforce
    note c = ensure_connected_ok [OF Suc.prems(1) e]
    show ?thesis
    proof (cases b)
      case False
      then have "\<exists>s'. poll_loop rounds ?deadline (Suc f) (Suc k) s1 = Some s' \<and> poll_result rounds start timeout_ms (length (ps_requests s1) + f) s'"
        using Suc.IH [of s1 "Suc k"] c Suc.prems by (simp add: algebra_simps)
      then show ?thesis using True False e c(3) by (auto simp: poll_result_def poll_loop.simps(2) [of _ _ _ k])
    next
      case True2: True
      let ?rem = "duration_cast ns_per_ms (?deadline - ps_now s1)"
      show ?thesis
      proof (cases "?rem \<le> 0")
        case over: True
        have "?deadline - ps_now s1 < ns_per_ms"
        proof (rule ccontr)
          assume "\<not> ?deadline - ps_now s1 < ns_per_ms"
          then have "0 < (?deadline - ps_now s1) div ns_per_ms" by (simp add: pos_imp_zdiv_pos_iff)
          then show False using over \<open>\<not> ?deadline - ps_now s1 < ns_per_ms\<close> by (simp add: duration_cast_def split: if_splits)
        qed
        then show ?thesis using True True2 e over c(1,3,4) Suc.prems by (auto simp: poll_result_def poll_loop.simps(2) [of _ _ _ k])
      next
        case pos: False
        have "?rem = (?deadline - ps_now s1) div ns_per_ms" using pos by (simp add: duration_cast_def split: if_splits)
        moreover have "(?deadline - ps_now s1) div ns_per_ms \<le> (timeout_ms * ns_per_ms) div ns_per_ms"
          using c(1) by (intro zdiv_mono1) (simp_all add: poll_ok_def)
        ultimately have "?rem \<le> timeout_ms" by simp
        note q = poll_request_ok [OF c(1) _ this assms(2), of "rounds k"]
        let ?s2 = "poll_request (rounds k) ?rem (poll_notify_resend s1)"
        show ?thesis
        proof (cases "ps_reply ?s2 = []")
          case False
          then show ?thesis using True True2 e pos q c(3) by (auto simp: poll_result_def Let_def poll_loop.simps(2) [of _ _ _ k])
        next
          case empty: True
          let ?s3 = "poll_delay_for_empty_reply (rounds k) ?s2"
          have s3: "poll_ok start timeout_ms ?s3" "ps_reply ?s3 = []" "length (ps_requests ?s3) = Suc (length (ps_requests s))"
            "ps_now s + 250 * ns_per_ms \<le> ps_now ?s3"
            using poll_delay_ok [OF q(1), of "rounds k"] q(2,4) c(2,3) pos empty by auto
          then have "\<exists>s'. poll_loop rounds ?deadline (Suc f) (Suc k) ?s3 = Some s' \<and> poll_result rounds start timeout_ms (length (ps_requests ?s3) + f) s'"
            using Suc.IH [of ?s3 "Suc k"] Suc.prems by (simp add: algebra_simps)
          then show ?thesis using True True2 e pos empty s3(3) by (auto simp: Let_def poll_loop.simps(2) [of _ _ _ k])
        qed
      qed
    qed
  qed
qed

lemma poll_until_deadline_ends:
  assumes "0 \<le> timeout_ms" "c_int_ok timeout_ms"
  shows "\<exists>s. poll_until_deadline rounds now timeout_ms (Suc (poll_rounds timeout_ms)) = Some s \<and> poll_result rounds now timeout_ms (poll_rounds timeout_ms) s"
proof -
  have ok: "poll_ok now timeout_ms (poll_start now)" "ps_reply (poll_start now) = []" "ps_requests (poll_start now) = []" "ps_now (poll_start now) = now"
    by (simp_all add: poll_ok_def poll_start_def backoff_ok_def new_RetryHandler_def kReconnectBackoffMinMs_def kReconnectBackoffMaxMs_def)
  have "timeout_ms \<le> (timeout_ms + 249) div 250 * 250" using div_mult_mod_eq [of "timeout_ms + 249" 250] pos_mod_bound [of 250 "timeout_ms + 249"] by linarith
  moreover have "0 \<le> (timeout_ms + 249) div 250" using assms(1) by (simp add: pos_imp_zdiv_nonneg_iff)
  ultimately have "now + timeout_ms * ns_per_ms \<le> ps_now (poll_start now) + int (poll_rounds timeout_ms) * (250 * ns_per_ms)"
    using ok(4) by (simp add: poll_rounds_def)
  from poll_loop_ends [OF ok(1) assms(2) ok(2) this, of rounds 0] ok(3) show ?thesis
    by (auto simp: poll_until_deadline_def)
qed

lemma poll_timeout_ok: "c_int_ok (timeout_seconds * kMsPerSecond) \<Longrightarrow> 0 < poll_timeout_ms timeout_seconds \<and> c_int_ok (poll_timeout_ms timeout_seconds)"
  by (simp add: poll_timeout_ms_def Let_def kDefaultTimeoutMs_def c_int_ok_def)

text \<open>The requests of one wait, and a wait that is answered in its first round.\<close>

lemma poll_response_requests:
  assumes "poll_response client rounds now timeout_seconds = Some s"
  shows "length (ps_requests s) \<le> poll_rounds (poll_timeout_ms timeout_seconds)"
proof (cases client)
  case None
  then show ?thesis using assms by (auto simp: poll_response_def count_connection_error_def poll_start_def)
next
  case (Some connected)
  then have ok: "c_int_ok (timeout_seconds * kMsPerSecond)" using assms by (simp add: poll_response_def split: if_splits)
  with poll_timeout_ok [OF ok] poll_until_deadline_ends [of "poll_timeout_ms timeout_seconds" rounds now] assms Some show ?thesis
    by (auto simp: poll_response_def poll_result_def Let_def count_connection_error_def)
qed

lemma poll_response_at_once:
  assumes "client \<noteq> None" "c_int_ok (timeout_seconds * kMsPerSecond)" "ro_connected (rounds 0)" "ro_reply (rounds 0) \<noteq> []"
  shows "\<exists>s limit. poll_response client rounds now timeout_seconds = Some s \<and> ps_reply s = ro_reply (rounds 0) \<and> ps_requests s = [limit]"
proof -
  let ?T = "poll_timeout_ms timeout_seconds"
  have T: "0 < ?T" using poll_timeout_ok [OF assms(2)] by simp
  have "\<exists>s limit. poll_loop rounds (now + ?T * ns_per_ms) (Suc (poll_rounds ?T)) 0 (poll_start now) = Some s \<and> ps_reply s = ro_reply (rounds 0) \<and> ps_requests s = [limit]"
    using T assms(3,4) by (simp add: poll_loop.simps(2) [of _ _ _ 0] poll_start_def poll_ensure_connected_def poll_notify_resend_def poll_request_def
        duration_cast_def Let_def)
  then show ?thesis using assms(1,2)
    by (auto simp: poll_response_def poll_until_deadline_def Let_def count_connection_error_def)
qed

text \<open>
  Property C13. The proxy always stops waiting: whatever the NATS client does in every round, the loop ends after at most one
  round per quarter of a second of the timeout and one more; it sends no more requests than that, each with a positive time limit within
  the timeout, and counts every one after the first as sent again. It gives up without a reply only when less than a
  millisecond is left, and a reply that it returns is one that the client gave.
\<close>
theorem poll_ends:
  assumes "0 \<le> timeout_ms" "c_int_ok timeout_ms"
  shows "\<exists>s. poll_until_deadline rounds now timeout_ms (Suc (nat ((timeout_ms + 249) div 250))) = Some s
     \<and> length (ps_requests s) \<le> nat ((timeout_ms + 249) div 250)
     \<and> list_all (\<lambda>r. 0 < r \<and> r \<le> timeout_ms) (ps_requests s) \<and> ps_resends s = length (ps_requests s) - 1
     \<and> (if ps_reply s = [] then now + timeout_ms * ns_per_ms - ps_now s < ns_per_ms else \<exists>k. ps_reply s = ro_reply (rounds k))"
  using poll_until_deadline_ends [OF assms, of rounds now] by (auto simp: poll_rounds_def poll_result_def poll_ok_def)

theorem poll_ends_witness:
  "\<exists>s. poll_until_deadline (\<lambda>_. \<lparr>ro_connected = True, ro_connect_ok = True, ro_connect_ns = 0, ro_reply = [], ro_request_ns = 7,
        ro_last_error = [], ro_oversleep_ns = 0\<rparr>) 0 1000 5 = Some s \<and> length (ps_requests s) \<le> 4"
proof -
  have "nat ((1000 + 249) div 250) = (4 :: nat)" by simp
  moreover have "c_int_ok 1000" by (simp add: c_int_ok_def)
  ultimately show ?thesis
    using poll_ends [of 1000 "\<lambda>_. \<lparr>ro_connected = True, ro_connect_ok = True, ro_connect_ns = 0, ro_reply = [], ro_request_ns = 7,
        ro_last_error = [], ro_oversleep_ns = 0\<rparr>" 0] by (auto simp: numeral_eq_Suc)
qed

end
