(* ===== verification/Diod_Pipeline.thy ===== *)
theory Diod_Pipeline
  imports Diod_PerIP Diod_Duplicates Diod_Gateway Diod_Poll
begin

text \<open>
  The handling of an HTTP request by the proxy (\<open>request_handler.cpp\<close>, \<open>request_handler_limits.cpp\<close>,
  \<open>request_handler_pipeline.cpp\<close>): dispatch, duplicate detection, the two rate limits, and the round trip to the
  worker. A request is one step on the state of the proxy; the limiters and the detector are those of their own
  theories, which treat the interleaving of threads. The clock readings of a request come with it; what the NATS client does
  in every round of the wait for a reply (\<open>Diod_Poll\<close>), the digest of a body and the libraries are parameters. The wait may send the
  message several times: \<open>px_sent\<close> has every message that went out. An answer of \<open>None\<close> is an exception that
  leaves the handler; \<open>None\<close> for the whole step would be undefined behaviour. Tracing, metrics
  per client and logging are left out; the counter of rejections is kept as the list of reasons.
\<close>

section \<open>Dispatch\<close>

datatype route = Liveness | Stats_page | Crash_test | Stacktrace | Health_ready | Duplicates_report | Db_gateway | Forward

definition route_get :: "string \<Rightarrow> route" where
  "route_get path =
     (if is_liveness_path path then Liveness
      else if path = ''/stats'' then Stats_page
      else if path = ''/crash-test'' then Crash_test
      else if path = ''/debug/stacktrace'' then Stacktrace
      else if path = ''/health/ready'' then Health_ready
      else if path = ''/debug/duplicates'' then Duplicates_report
      else if starts_with path kDbGatewayPath then Db_gateway
      else Forward)"

definition route_post :: "string \<Rightarrow> route" where
  "route_post path = (if starts_with path kDbGatewayPath then Db_gateway else Forward)"

section \<open>State\<close>

datatype RejectionReason = RATE_LIMIT_GLOBAL | RATE_LIMIT_PER_IP | DUPLICATE | INVALID_JSON

record ProxyConfig =
  cfg_duplicate_enabled :: bool
  cfg_duplicate_reject :: bool
  cfg_raw_body_passthrough :: bool
  cfg_request_timeout_seconds :: int

record Proxy =
  px_rate_limiter :: "RateLimiter option"
  px_per_ip :: "PerIPRateLimiter option"
  px_duplicates :: "DuplicateDetector option"
  px_rejections :: "RejectionReason list"
  px_sent :: "string list"

record library =
  lib_accept :: "string \<Rightarrow> bool"
  lib_to_base64 :: "string \<Rightarrow> string"
  lib_from_base64 :: "string \<Rightarrow> string option"
  lib_dump :: "json \<Rightarrow> string option"
  lib_parse :: "string \<Rightarrow> json option"
  lib_sha256_hex :: "string \<Rightarrow> string"

text \<open>What a request finds: the readings of the clocks and the identifiers that are generated for it.\<close>

record arrival =
  at_global :: int
  at_ip :: int
  at_ip_bucket :: int
  at_duplicate :: u64
  at_poll :: int
  at_epoch_ms :: int
  at_request_id :: string
  at_trace :: "trace_fields option"
  at_tracer :: "(string \<Rightarrow> string \<Rightarrow> string) option"
  at_generated :: string
  at_trace_id :: string
  at_push_span_id :: string
  at_traceparent_for_backend :: string
  at_traceparent_header :: string

text \<open>The NATS client: whether it is there and connected, and what it does in the rounds of a wait with a message.\<close>

record nats_side =
  ns_client :: "bool option"
  ns_rounds :: "string \<Rightarrow> nat \<Rightarrow> round"

definition count_rejection :: "RejectionReason \<Rightarrow> Proxy \<Rightarrow> Proxy" where
  "count_rejection reason px = px\<lparr>px_rejections := px_rejections px @ [reason]\<rparr>"

section \<open>Rate limits\<close>

definition reject_rate_limited :: "library \<Rightarrow> string \<Rightarrow> nat \<Rightarrow> nat \<Rightarrow> http_response option" where
  "reject_rate_limited lib message limit remaining =
     map_option (\<lambda>r. r\<lparr>rs_headers := [(''Retry-After'', ''1''), (''X-RateLimit-Limit'', dec_str limit),
         (''X-RateLimit-Remaining'', dec_str remaining)] @ rs_headers r\<rparr>)
       (json_error_response (lib_dump lib) 429 message [])"

text \<open>\<open>Inl\<close> is the answer of a refusal, \<open>Inr\<close> that the request goes on.\<close>

definition check_global :: "library \<Rightarrow> arrival \<Rightarrow> Proxy \<Rightarrow> (http_response option + unit) \<times> Proxy" where
  "check_global lib a px =
     (case px_rate_limiter px of
        None \<Rightarrow> (Inr (), px)
      | Some rl \<Rightarrow>
          let (allowed, rl') = acquire (at_global a) rl; px1 = px\<lparr>px_rate_limiter := Some rl'\<rparr> in
          if allowed then (Inr (), px1)
          else (Inl (reject_rate_limited lib ''Global rate limit exceeded. Please retry later.''
                  (unat (max_tokens rl')) (unat (available_tokens rl'))), count_rejection RATE_LIMIT_GLOBAL px1))"

definition check_per_ip :: "library \<Rightarrow> arrival \<Rightarrow> string \<Rightarrow> Proxy \<Rightarrow> ((http_response option + unit) \<times> Proxy) option" where
  "check_per_ip lib a client_ip px =
     (case px_per_ip px of
        None \<Rightarrow> Some (Inr (), px)
      | Some ip \<Rightarrow>
         (case acquire_ip (at_ip a) (at_ip_bucket a) client_ip ip of
            None \<Rightarrow> None
          | Some (allowed, ip') \<Rightarrow>
              let px1 = px\<lparr>px_per_ip := Some ip'\<rparr> in
              if allowed then Some (Inr (), px1)
              else Some (Inl (reject_rate_limited lib
                      (''Rate limit exceeded for your IP: '' @ client_ip @ ''. Please retry later.'') (unat (m_max_tokens_per_ip ip')) 0),
                     count_rejection RATE_LIMIT_PER_IP px1)))"

definition check_rate_limits :: "library \<Rightarrow> arrival \<Rightarrow> string \<Rightarrow> Proxy \<Rightarrow> ((http_response option + unit) \<times> Proxy) option" where
  "check_rate_limits lib a client_ip px =
     (case check_global lib a px of
        (Inl r, px1) \<Rightarrow> Some (Inl r, px1)
      | (Inr _, px1) \<Rightarrow> check_per_ip lib a client_ip px1)"

section \<open>Duplicates\<close>

definition record_and_maybe_reject_duplicate ::
  "library \<Rightarrow> ProxyConfig \<Rightarrow> arrival \<Rightarrow> string \<Rightarrow> string \<Rightarrow> Proxy \<Rightarrow> (http_response option + unit) \<times> Proxy" where
  "record_and_maybe_reject_duplicate lib cfg a client_id body px =
     (case px_duplicates px of
        None \<Rightarrow> (Inr (), px)
      | Some d \<Rightarrow>
          let ((duplicate, _), d') = record_body (at_duplicate a) client_id (lib_sha256_hex lib body) body d;
              px1 = px\<lparr>px_duplicates := Some d'\<rparr> in
          if \<not> duplicate \<or> \<not> cfg_duplicate_reject cfg then (Inr (), px1)
          else (Inl (send_json_response (lib_dump lib) 409 (json_object [(''error'', JString ''duplicate request'')])),
                count_rejection DUPLICATE px1))"

section \<open>The round trip\<close>

definition poll_for_response :: "ProxyConfig \<Rightarrow> nats_side \<Rightarrow> arrival \<Rightarrow> string \<Rightarrow> poll_state option" where
  "poll_for_response cfg nats a request_json =
     poll_response (ns_client nats) (ns_rounds nats request_json) (at_poll a) (cfg_request_timeout_seconds cfg)"

definition process_request ::
  "library \<Rightarrow> ProxyConfig \<Rightarrow> nats_side \<Rightarrow> arrival \<Rightarrow> string \<Rightarrow> string \<Rightarrow> http_request \<Rightarrow> Proxy \<Rightarrow> (http_response option \<times> Proxy) option" where
  "process_request lib cfg nats a req_method body req px =
     (case proxy_message (lib_accept lib) (lib_to_base64 lib) (lib_dump lib) (at_epoch_ms a) (at_trace a) (at_tracer a)
            (at_generated a) (at_trace_id a) (at_push_span_id a) (at_request_id a) req_method body req (at_traceparent_for_backend a) of
        Inl Undefined \<Rightarrow> None
      | Inl Thrown \<Rightarrow> Some (None, px)
      | Inr request_json \<Rightarrow>
          if request_json = [] then
            Some (json_error_response (lib_dump lib) 500 ''Failed to queue request'' (at_request_id a), px)
          else
           (case poll_for_response cfg nats a request_json of
              None \<Rightarrow> None
            | Some outcome \<Rightarrow>
                let response = ps_reply outcome;
                    px1 = px\<lparr>px_sent := px_sent px @ replicate (length (ps_requests outcome)) request_json\<rparr> in
                if response = [] then Some (json_error_response (lib_dump lib) 504 ''Timeout waiting for response'' (at_request_id a), px1)
                else (case lib_parse lib response of
                        None \<Rightarrow> Some (json_error_response (lib_dump lib) 500 ''Invalid response format'' (at_request_id a), px1)
                      | Some data \<Rightarrow>
                          Some (set_response_content (lib_dump lib) (lib_from_base64 lib) (at_request_id a) (at_traceparent_header a) data, px1))))"

definition handle_forward ::
  "library \<Rightarrow> ProxyConfig \<Rightarrow> nats_side \<Rightarrow> arrival \<Rightarrow> string \<Rightarrow> string \<Rightarrow> http_request \<Rightarrow> Proxy
   \<Rightarrow> (http_response option \<times> Proxy) option" where
  "handle_forward lib cfg nats a req_method body req px =
     (let client_ip = request_client_ip req;
          client_id = get_header_value (rq_headers req) ''X-DataHub-Client-Id'' ''unknown'';
          (dup, px1) = (if req_method = ''POST'' \<and> body \<noteq> [] \<and> cfg_duplicate_enabled cfg
                        then record_and_maybe_reject_duplicate lib cfg a client_id body px else (Inr (), px))
      in case dup of
           Inl answer \<Rightarrow> Some (answer, px1)
         | Inr _ \<Rightarrow>
            (case check_rate_limits lib a client_ip px1 of
               None \<Rightarrow> None
             | Some (Inl answer, px2) \<Rightarrow> Some (answer, px2)
             | Some (Inr _, px2) \<Rightarrow> process_request lib cfg nats a req_method body req px2))"

definition handle_get_forward ::
  "library \<Rightarrow> ProxyConfig \<Rightarrow> nats_side \<Rightarrow> arrival \<Rightarrow> http_request \<Rightarrow> Proxy \<Rightarrow> (http_response option \<times> Proxy) option" where
  "handle_get_forward lib cfg nats a req px = handle_forward lib cfg nats a ''GET'' [] req px"

definition handle_post_forward ::
  "library \<Rightarrow> ProxyConfig \<Rightarrow> nats_side \<Rightarrow> arrival \<Rightarrow> http_request \<Rightarrow> Proxy \<Rightarrow> (http_response option \<times> Proxy) option" where
  "handle_post_forward lib cfg nats a req px =
     (if rq_body req \<noteq> [] \<and> \<not> lib_accept lib (rq_body req) \<and> \<not> cfg_raw_body_passthrough cfg
      then Some (json_error_response (lib_dump lib) 400 ''Invalid JSON in request body'' [], count_rejection INVALID_JSON px)
      else handle_forward lib cfg nats a ''POST'' (rq_body req) req px)"

section \<open>The gates\<close>

text \<open>The messages of one request: copies of what \<open>push_request\<close> made of it, as many as the wait sends.\<close>

definition sends :: "library \<Rightarrow> ProxyConfig \<Rightarrow> arrival \<Rightarrow> string \<Rightarrow> string \<Rightarrow> http_request \<Rightarrow> string list \<Rightarrow> bool" where
  "sends lib cfg a req_method body req sent \<longleftrightarrow>
     length sent \<le> poll_rounds (poll_timeout_ms (cfg_request_timeout_seconds cfg))
   \<and> (\<forall>msg \<in> set sent. proxy_message (lib_accept lib) (lib_to_base64 lib) (lib_dump lib) (at_epoch_ms a) (at_trace a) (at_tracer a)
        (at_generated a) (at_trace_id a) (at_push_span_id a) (at_request_id a) req_method body req (at_traceparent_for_backend a) = Inr msg)"

lemma process_request_px:
  assumes "process_request lib cfg nats a req_method body req px = Some (answer, px')"
  obtains sent where "sends lib cfg a req_method body req sent" "px' = px\<lparr>px_sent := px_sent px @ sent\<rparr>"
proof (cases "px' = px")
  case True
  then show thesis using that [of "[]"] by (simp add: sends_def)
next
  case False
  then obtain msg outcome where m: "proxy_message (lib_accept lib) (lib_to_base64 lib) (lib_dump lib) (at_epoch_ms a) (at_trace a) (at_tracer a)
        (at_generated a) (at_trace_id a) (at_push_span_id a) (at_request_id a) req_method body req (at_traceparent_for_backend a) = Inr msg"
      "poll_for_response cfg nats a msg = Some outcome" "px' = px\<lparr>px_sent := px_sent px @ replicate (length (ps_requests outcome)) msg\<rparr>"
    using assms by (auto simp: process_request_def Let_def split: sum.splits fault.splits if_splits option.splits)
  then show thesis using poll_response_requests [OF m(2) [unfolded poll_for_response_def]]
    by (intro that [of "replicate (length (ps_requests outcome)) msg"]) (auto simp: sends_def)
qed

lemma answer_status:
  "reject_rate_limited lib message limit remaining = Some x \<Longrightarrow> rs_status x = 429"
  "send_json_response dump status j = Some x \<Longrightarrow> rs_status x = status"
  "json_error_response dump status message request_id = Some x \<Longrightarrow> rs_status x = status"
  by (auto simp: reject_rate_limited_def send_json_response_def json_error_response_def)

lemma check_global_cases:
  obtains (off) "px_rate_limiter px = None" "check_global lib a px = (Inr (), px)"
  | (allowed) rl rl' where "px_rate_limiter px = Some rl" "acquire (at_global a) rl = (True, rl')"
      "check_global lib a px = (Inr (), px\<lparr>px_rate_limiter := Some rl'\<rparr>)"
  | (refused) rl rl' r where "px_rate_limiter px = Some rl" "acquire (at_global a) rl = (False, rl')"
      "check_global lib a px = (Inl r, count_rejection RATE_LIMIT_GLOBAL (px\<lparr>px_rate_limiter := Some rl'\<rparr>))"
      "\<forall>x. r = Some x \<longrightarrow> rs_status x = 429"
proof (cases "px_rate_limiter px")
  case None
  then show thesis using off by (simp add: check_global_def)
next
  case (Some rl)
  obtain b rl' where ac: "acquire (at_global a) rl = (b, rl')" by fastforce
  show thesis
  proof (cases b)
    case True
    then show thesis using allowed Some ac by (simp add: check_global_def)
  next
    case False
    then show thesis using refused [OF Some, of rl'] Some ac answer_status(1) by (simp add: check_global_def)
  qed
qed

lemma check_per_ip_cases:
  assumes "check_per_ip lib a client_ip px = Some (res, px')"
  obtains (off) "px_per_ip px = None" "res = Inr ()" "px' = px"
  | (allowed) ip ip' where "px_per_ip px = Some ip" "acquire_ip (at_ip a) (at_ip_bucket a) client_ip ip = Some (True, ip')"
      "res = Inr ()" "px' = px\<lparr>px_per_ip := Some ip'\<rparr>"
  | (refused) ip ip' r where "px_per_ip px = Some ip" "acquire_ip (at_ip a) (at_ip_bucket a) client_ip ip = Some (False, ip')"
      "res = Inl r" "px' = count_rejection RATE_LIMIT_PER_IP (px\<lparr>px_per_ip := Some ip'\<rparr>)" "\<forall>x. r = Some x \<longrightarrow> rs_status x = 429"
  using assms that
  by (auto simp: check_per_ip_def Let_def answer_status(1) split: option.splits if_splits prod.splits)

text \<open>What the duplicate gate reports of a request, and the detector after it: only a POST with a body is recorded.\<close>

definition reported :: "library \<Rightarrow> ProxyConfig \<Rightarrow> arrival \<Rightarrow> string \<Rightarrow> string \<Rightarrow> http_request \<Rightarrow> Proxy \<Rightarrow> bool \<times> DuplicateDetector option" where
  "reported lib cfg a req_method body req px =
     (case px_duplicates px of
        Some d \<Rightarrow>
          if req_method = ''POST'' \<and> body \<noteq> [] \<and> cfg_duplicate_enabled cfg
          then let r = record_body (at_duplicate a) (get_header_value (rq_headers req) ''X-DataHub-Client-Id'' ''unknown'') (lib_sha256_hex lib body) body d
               in (fst (fst r), Some (snd r))
          else (False, Some d)
      | None \<Rightarrow> (False, None))"

abbreviation recorded :: "library \<Rightarrow> ProxyConfig \<Rightarrow> arrival \<Rightarrow> string \<Rightarrow> string \<Rightarrow> http_request \<Rightarrow> Proxy \<Rightarrow> Proxy" where
  "recorded lib cfg a req_method body req px \<equiv> px\<lparr>px_duplicates := snd (reported lib cfg a req_method body req px)\<rparr>"

lemma duplicate_gate:
  fixes lib cfg a req_method body req px
  defines "dp \<equiv> (if req_method = ''POST'' \<and> body \<noteq> [] \<and> cfg_duplicate_enabled cfg
      then record_and_maybe_reject_duplicate lib cfg a (get_header_value (rq_headers req) ''X-DataHub-Client-Id'' ''unknown'') body px else (Inr (), px))"
  shows "if cfg_duplicate_reject cfg \<and> fst (reported lib cfg a req_method body req px)
    then \<exists>r. dp = (Inl r, count_rejection DUPLICATE (recorded lib cfg a req_method body req px)) \<and> (\<forall>x. r = Some x \<longrightarrow> rs_status x = 409)
    else dp = (Inr (), recorded lib cfg a req_method body req px)"
proof -
  have same: "px\<lparr>px_duplicates := px_duplicates px\<rparr> = px" by simp
  then have none: "px_duplicates px = None \<Longrightarrow> px\<lparr>px_duplicates := None\<rparr> = px" by metis
  have some: "px_duplicates px = Some d \<Longrightarrow> px\<lparr>px_duplicates := Some d\<rparr> = px" for d using same by metis
  show ?thesis using answer_status(2) none some
    by (auto simp: dp_def reported_def record_and_maybe_reject_duplicate_def split_beta Let_def split: option.splits)
qed

text \<open>A gate lets a request through: it is switched off, or it took a token and keeps what is left.\<close>

definition through_global :: "arrival \<Rightarrow> Proxy \<Rightarrow> RateLimiter option \<Rightarrow> bool" where
  "through_global a px g \<longleftrightarrow>
     (case px_rate_limiter px of None \<Rightarrow> g = None | Some rl \<Rightarrow> \<exists>rl'. acquire (at_global a) rl = (True, rl') \<and> g = Some rl')"

definition through_ip :: "arrival \<Rightarrow> string \<Rightarrow> Proxy \<Rightarrow> PerIPRateLimiter option \<Rightarrow> bool" where
  "through_ip a client_ip px i \<longleftrightarrow>
     (case px_per_ip px of None \<Rightarrow> i = None
      | Some ip \<Rightarrow> \<exists>ip'. acquire_ip (at_ip a) (at_ip_bucket a) client_ip ip = Some (True, ip') \<and> i = Some ip')"

lemma after_global:
  assumes "check_per_ip lib a client_ip (px\<lparr>px_duplicates := d, px_rate_limiter := g\<rparr>) = Some (res, px2)"
    and "case res of Inl answer' \<Rightarrow> answer' = answer \<and> px2 = px' | Inr _ \<Rightarrow> process_request lib cfg nats a req_method body req px2 = Some (answer, px')"
  shows "(\<exists>ip ip'. px_per_ip px = Some ip \<and> acquire_ip (at_ip a) (at_ip_bucket a) client_ip ip = Some (False, ip')
       \<and> px' = count_rejection RATE_LIMIT_PER_IP (px\<lparr>px_duplicates := d, px_rate_limiter := g, px_per_ip := Some ip'\<rparr>)
       \<and> (\<forall>x. answer = Some x \<longrightarrow> rs_status x = 429))
    \<or> (\<exists>i sent. through_ip a client_ip px i \<and> sends lib cfg a req_method body req sent
       \<and> px' = px\<lparr>px_duplicates := d, px_rate_limiter := g, px_per_ip := i, px_sent := px_sent px @ sent\<rparr>)"
  using assms(1)
proof (cases rule: check_per_ip_cases)
  case off
  then have "process_request lib cfg nats a req_method body req px2 = Some (answer, px')" using assms(2) by simp
  then obtain sent where "sends lib cfg a req_method body req sent" "px' = px2\<lparr>px_sent := px_sent px2 @ sent\<rparr>"
    by (rule process_request_px)
  then show ?thesis using off by (intro disjI2 exI [of _ None] exI [of _ sent]) (simp add: through_ip_def)
next
  case (allowed ip ip')
  then have "process_request lib cfg nats a req_method body req px2 = Some (answer, px')" using assms(2) by simp
  then obtain sent where "sends lib cfg a req_method body req sent" "px' = px2\<lparr>px_sent := px_sent px2 @ sent\<rparr>"
    by (rule process_request_px)
  then show ?thesis using allowed by (intro disjI2 exI [of _ "Some ip'"] exI [of _ sent]) (simp add: through_ip_def)
next
  case (refused ip ip' r)
  then show ?thesis using assms(2) by (intro disjI1 exI [of _ ip] exI [of _ ip']) simp
qed

lemma forward_cases:
  fixes lib cfg a req_method body req px
  defines "px0 \<equiv> recorded lib cfg a req_method body req px" and "refuses \<equiv> cfg_duplicate_reject cfg \<and> fst (reported lib cfg a req_method body req px)"
  assumes "handle_forward lib cfg nats a req_method body req px = Some (answer, px')"
  obtains (duplicate) refuses "px' = count_rejection DUPLICATE px0" "\<forall>x. answer = Some x \<longrightarrow> rs_status x = 409"
  | (global) rl rl' where "\<not> refuses" "px_rate_limiter px = Some rl" "acquire (at_global a) rl = (False, rl')"
      "px' = count_rejection RATE_LIMIT_GLOBAL (px0\<lparr>px_rate_limiter := Some rl'\<rparr>)" "\<forall>x. answer = Some x \<longrightarrow> rs_status x = 429"
  | (per_ip) g ip ip' where "\<not> refuses" "through_global a px g" "px_per_ip px = Some ip"
      "acquire_ip (at_ip a) (at_ip_bucket a) (request_client_ip req) ip = Some (False, ip')"
      "px' = count_rejection RATE_LIMIT_PER_IP (px0\<lparr>px_rate_limiter := g, px_per_ip := Some ip'\<rparr>)"
      "\<forall>x. answer = Some x \<longrightarrow> rs_status x = 429"
  | (through) g i sent where "\<not> refuses" "through_global a px g" "through_ip a (request_client_ip req) px i" "sends lib cfg a req_method body req sent"
      "px' = px0\<lparr>px_rate_limiter := g, px_per_ip := i, px_sent := px_sent px @ sent\<rparr>"
proof -
  let ?ip = "request_client_ip req"
  define dp where "dp = (if req_method = ''POST'' \<and> body \<noteq> [] \<and> cfg_duplicate_enabled cfg
      then record_and_maybe_reject_duplicate lib cfg a (get_header_value (rq_headers req) ''X-DataHub-Client-Id'' ''unknown'') body px else (Inr (), px))"
  have h: "(case fst dp of Inl answer \<Rightarrow> Some (answer, snd dp)
      | Inr _ \<Rightarrow> (case check_rate_limits lib a ?ip (snd dp) of None \<Rightarrow> None | Some (Inl answer, px2) \<Rightarrow> Some (answer, px2)
          | Some (Inr _, px2) \<Rightarrow> process_request lib cfg nats a req_method body req px2)) = Some (answer, px')"
    using assms(3) unfolding handle_forward_def Let_def dp_def by (simp add: split_beta)
  note dp = duplicate_gate [of cfg lib a req_method body req px, folded dp_def px0_def, folded refuses_def]
  show thesis
  proof (cases refuses)
    case True
    then show thesis using dp h duplicate by (auto simp: split_beta)
  next
    case no: False
    then have d: "dp = (Inr (), px0)" using dp by simp
    obtain res px2 where lim: "check_rate_limits lib a ?ip px0 = Some (res, px2)" "case res of Inl answer' \<Rightarrow> answer' = answer \<and> px2 = px'
        | Inr _ \<Rightarrow> process_request lib cfg nats a req_method body req px2 = Some (answer, px')"
      using h d by (auto split: option.splits sum.splits)
    show thesis
    proof (cases rule: check_global_cases [of px0 lib a])
      case (refused rl rl' r)
      then show thesis using global [OF no, of rl rl'] lim by (auto simp: check_rate_limits_def px0_def)
    next
      case off
      have same: "px0\<lparr>px_rate_limiter := None\<rparr> = px0" using off(1) by (cases px0) simp
      have "check_per_ip lib a ?ip px0 = Some (res, px2)" using off lim(1) by (simp add: check_rate_limits_def)
      then have g: "through_global a px None" "check_per_ip lib a ?ip (px0\<lparr>px_rate_limiter := None\<rparr>) = Some (res, px2)"
        unfolding same using off(1) by (simp_all add: through_global_def px0_def)
      from after_global [OF g(2) [unfolded px0_def] lim(2), folded px0_def] show thesis
        by (elim disjE exE conjE) (rule per_ip [OF no g(1)], assumption+, rule through [OF no g(1)], assumption+)
    next
      case (allowed rl rl')
      then have g: "through_global a px (Some rl')" "check_per_ip lib a ?ip (px0\<lparr>px_rate_limiter := Some rl'\<rparr>) = Some (res, px2)"
        using lim(1) by (simp_all add: through_global_def check_rate_limits_def px0_def)
      from after_global [OF g(2) [unfolded px0_def] lim(2), folded px0_def] show thesis
        by (elim disjE exE conjE) (rule per_ip [OF no g(1)], assumption+, rule through [OF no g(1)], assumption+)
    qed
  qed
qed

text \<open>A POST whose body the detector still holds from an earlier delivery.\<close>

definition watched :: "ProxyConfig \<Rightarrow> string \<Rightarrow> string \<Rightarrow> Proxy \<Rightarrow> DuplicateDetector \<Rightarrow> bool" where
  "watched cfg req_method body px d \<longleftrightarrow>
     req_method = ''POST'' \<and> body \<noteq> [] \<and> cfg_duplicate_enabled cfg \<and> px_duplicates px = Some d \<and> opt_enabled (d_options d)"

definition repeated :: "library \<Rightarrow> ProxyConfig \<Rightarrow> arrival \<Rightarrow> string \<Rightarrow> string \<Rightarrow> Proxy \<Rightarrow> bool" where
  "repeated lib cfg a req_method body px \<longleftrightarrow>
     (\<exists>d. watched cfg req_method body px d \<and> delivered_lately (at_duplicate a) (lib_sha256_hex lib body) d)"

lemma reported_repeated:
  assumes "\<forall>d. px_duplicates px = Some d \<longrightarrow> dup_inv d"
  shows "fst (reported lib cfg a req_method body req px) \<longleftrightarrow> repeated lib cfg a req_method body px"
  using assms record_body_reports(1)
  by (auto simp: reported_def repeated_def watched_def delivered_lately_def Let_def split: option.splits)

lemma reported_holds:
  assumes "watched cfg req_method body px d" "dup_inv d"
  shows "\<exists>d' e. snd (reported lib cfg a req_method body req px) = Some d' \<and> dup_inv d' \<and> d_options d' = d_options d
     \<and> bodies d' (lib_sha256_hex lib body) = Some e \<and> de_last_seen_ms e = at_duplicate a"
  using assms record_body_reports(2,3) [OF assms(2)] record_body_inv [OF assms(2)] by (auto simp: reported_def watched_def Let_def)

text \<open>
  Property C4. The gates come before the worker, in order, and each does what it is for. A POST with a body that the detector still holds
  is refused with 409 when duplicates are to be refused, and takes no token; no other request is refused by this gate. Of the rest, a request for which the
  global bucket has no token is refused with 429 and does not touch the limit of its address, and one for which the bucket of its address has none is
  refused with 429. A refusal sends nothing and is counted under its reason. Every other request goes on: it has taken a token of
  each limit that is switched on, no reason is counted, and what is sent are copies of its own message, no more than the wait for the reply
  makes. Whatever becomes of a POST, the detector holds its body afterwards.
\<close>
theorem pipeline_gates:
  assumes "handle_forward lib cfg nats a req_method body req px = Some (answer, px')" "\<forall>d. px_duplicates px = Some d \<longrightarrow> dup_inv d"
  shows "(let refused = (\<lambda>reason status. px_rejections px' = px_rejections px @ [reason] \<and> px_sent px' = px_sent px
              \<and> (\<forall>x. answer = Some x \<longrightarrow> rs_status x = status))
          in if cfg_duplicate_reject cfg \<and> repeated lib cfg a req_method body px
             then refused DUPLICATE 409 \<and> px_rate_limiter px' = px_rate_limiter px \<and> px_per_ip px' = px_per_ip px
             else if \<nexists>g. through_global a px g
             then refused RATE_LIMIT_GLOBAL 429 \<and> px_per_ip px' = px_per_ip px
             else through_global a px (px_rate_limiter px') \<and>
               (if \<nexists>i. through_ip a (request_client_ip req) px i
                then refused RATE_LIMIT_PER_IP 429
                else through_ip a (request_client_ip req) px (px_per_ip px') \<and> px_rejections px' = px_rejections px
                  \<and> (\<exists>sent. px_sent px' = px_sent px @ sent \<and> sends lib cfg a req_method body req sent)))
    \<and> (\<forall>d. watched cfg req_method body px d \<longrightarrow>
         (\<exists>d' e. px_duplicates px' = Some d' \<and> bodies d' (lib_sha256_hex lib body) = Some e \<and> de_last_seen_ms e = at_duplicate a))"
proof -
  note rep = reported_repeated [OF assms(2), of lib cfg a req_method body req]
  have held: "\<exists>d' e. px_duplicates px' = Some d' \<and> bodies d' (lib_sha256_hex lib body) = Some e \<and> de_last_seen_ms e = at_duplicate a"
    if "px_duplicates px' = snd (reported lib cfg a req_method body req px)" "watched cfg req_method body px d" for d
    using that assms(2) reported_holds [OF that(2), of lib a req] by (auto simp: watched_def)
  show ?thesis using assms(1)
  proof (cases rule: forward_cases)
    case duplicate
    then show ?thesis using held rep by (simp add: count_rejection_def)
  next
    case (global rl rl')
    then have "\<nexists>g. through_global a px g" by (simp add: through_global_def)
    then show ?thesis using global held rep by (simp add: count_rejection_def)
  next
    case (per_ip g ip ip')
    then have "\<nexists>i. through_ip a (request_client_ip req) px i" by (simp add: through_ip_def)
    then show ?thesis using per_ip held rep by (auto simp: count_rejection_def)
  next
    case (through g i sent)
    then show ?thesis using held rep by auto
  qed
qed

text \<open>A proxy whose only token has just been taken and which refuses duplicates, and a library for it.\<close>

definition demo_library :: library where
  "demo_library = \<lparr>lib_accept = (\<lambda>_. True), lib_to_base64 = demo_encode, lib_from_base64 = demo_decode, lib_dump = demo_dump,
     lib_parse = demo_parse, lib_sha256_hex = (\<lambda>body. body)\<rparr>"

definition demo_config :: ProxyConfig where
  "demo_config = \<lparr>cfg_duplicate_enabled = True, cfg_duplicate_reject = True, cfg_raw_body_passthrough = False, cfg_request_timeout_seconds = 1\<rparr>"

definition demo_limiter :: RateLimiter where
  "demo_limiter = snd (acquire 0 (new_RateLimiter 1 1 0))"

definition demo_proxy :: Proxy where
  "demo_proxy = \<lparr>px_rate_limiter = Some demo_limiter, px_per_ip = None,
     px_duplicates = Some (new_DuplicateDetector default_Options False), px_rejections = [], px_sent = []\<rparr>"

definition demo_arrival :: "int \<Rightarrow> u64 \<Rightarrow> arrival" where
  "demo_arrival now now_ms = \<lparr>at_global = now, at_ip = now, at_ip_bucket = now, at_duplicate = now_ms, at_poll = now, at_epoch_ms = 0, at_request_id = ''r'',
     at_trace = None, at_tracer = None, at_generated = ''s'', at_trace_id = [], at_push_span_id = [],
     at_traceparent_for_backend = [], at_traceparent_header = []\<rparr>"

definition demo_request :: http_request where
  "demo_request = \<lparr>rq_path = ''/a'', rq_target = ''/a'', rq_headers = [], rq_remote_addr = ''1'', rq_local_addr = ''2'', rq_body = ''b''\<rparr>"

text \<open>A NATS connection on which nobody answers.\<close>

definition silent_nats :: nats_side where
  "silent_nats = \<lparr>ns_client = Some True, ns_rounds = (\<lambda>_ _. \<lparr>ro_connected = True, ro_connect_ok = True, ro_connect_ns = 0, ro_reply = [],
     ro_request_ns = 300000000, ro_last_error = [], ro_oversleep_ns = 0\<rparr>)\<rparr>"

lemmas demo_defs = silent_nats_def demo_library_def demo_config_def demo_limiter_def demo_proxy_def demo_arrival_def demo_request_def

lemma new_detector_ok: "dup_inv (new_DuplicateDetector opts sink)"
  by (simp add: dup_inv_def new_DuplicateDetector_def)

lemma demo_refused:
  "\<exists>answer. handle_post_forward demo_library demo_config nats (demo_arrival 1 1) demo_request demo_proxy =
     Some (answer, count_rejection RATE_LIMIT_GLOBAL (demo_proxy\<lparr>
       px_duplicates := Some (snd (record_body 1 ''unknown'' ''b'' ''b'' (new_DuplicateDetector default_Options False))),
       px_rate_limiter := Some (snd (acquire 1 demo_limiter))\<rparr>))"
  by (simp add: handle_post_forward_def handle_forward_def demo_defs record_and_maybe_reject_duplicate_def new_DuplicateDetector_def record_body_def
      default_Options_def evict_expired_def evict_expired_clients_def report_evictions_def new_entry_def get_header_value_def header_find_def
      check_rate_limits_def check_global_def acquire_def refill_def refill_elapsed_def new_RateLimiter_def Let_def)

theorem pipeline_gates_witness:
  "\<exists>answer px'. handle_forward demo_library demo_config silent_nats (demo_arrival 1 1) ''POST'' ''b'' demo_request demo_proxy = Some (answer, px')
     \<and> px_sent px' = [] \<and> px_rejections px' = [RATE_LIMIT_GLOBAL] \<and> (\<forall>x. answer = Some x \<longrightarrow> rs_status x = 429)"
proof -
  obtain answer px' where a: "handle_forward demo_library demo_config silent_nats (demo_arrival 1 1) ''POST'' ''b'' demo_request demo_proxy = Some (answer, px')"
    using demo_refused [of silent_nats] by (auto simp: handle_post_forward_def demo_request_def demo_library_def)
  have "\<not> repeated demo_library demo_config (demo_arrival 1 1) ''POST'' ''b'' demo_proxy"
    by (simp add: repeated_def watched_def delivered_lately_def demo_proxy_def new_DuplicateDetector_def)
  moreover have "\<nexists>g. through_global (demo_arrival 1 1) demo_proxy g"
    by (simp add: through_global_def demo_defs acquire_def refill_def refill_elapsed_def new_RateLimiter_def Let_def)
  moreover have "\<forall>d. px_duplicates demo_proxy = Some d \<longrightarrow> dup_inv d" by (simp add: demo_proxy_def new_detector_ok)
  ultimately show ?thesis using pipeline_gates [OF a] a by (auto simp: demo_proxy_def)
qed

lemma forward_refuses_duplicate:
  assumes "cfg_duplicate_reject cfg" "fst (reported lib cfg a req_method body req px)"
  shows "\<exists>r. handle_forward lib cfg nats a req_method body req px = Some (r, count_rejection DUPLICATE (recorded lib cfg a req_method body req px))
     \<and> (\<forall>x. r = Some x \<longrightarrow> rs_status x = 409)"
  using duplicate_gate [of cfg lib a req_method body req px] assms unfolding handle_forward_def Let_def by auto

text \<open>
  Property C11. A request that a rate limit refuses is remembered as delivered: the body is recorded before the limits
  are checked. Where duplicates are refused, the next POST with the same body, from whichever client and to whichever path, is
  answered with 409 within the time to live, although the body was never forwarded and whether or not there is a token for it by then;
  the answer to the first one asks for just that retry.
\<close>
theorem refused_then_conflict:
  assumes on: "cfg_duplicate_enabled cfg" "cfg_duplicate_reject cfg" "px_duplicates px = Some d" "dup_inv d" "opt_enabled (d_options d)"
    and body: "rq_body req \<noteq> []" "rq_body req' = rq_body req" "lib_accept lib (rq_body req) \<or> cfg_raw_body_passthrough cfg"
    and first: "handle_post_forward lib cfg nats a req px = Some (answer, px1)"
      "px_rejections px1 = px_rejections px @ [reason]" "reason \<in> {RATE_LIMIT_GLOBAL, RATE_LIMIT_PER_IP}"
    and time: "at_duplicate a \<le> at_duplicate a'" "unat (at_duplicate a') - unat (at_duplicate a) \<le> unat (opt_ttl_ms (d_options d))"
  shows "px_sent px1 = px_sent px \<and> (\<exists>answer' px2. handle_post_forward lib cfg nats' a' req' px1 = Some (answer', px2)
     \<and> px_rejections px2 = px_rejections px @ [reason, DUPLICATE] \<and> px_sent px2 = px_sent px
     \<and> (\<forall>x. answer' = Some x \<longrightarrow> rs_status x = 409) \<and> px_rate_limiter px2 = px_rate_limiter px1 \<and> px_per_ip px2 = px_per_ip px1)"
proof -
  let ?k = "lib_sha256_hex lib (rq_body req)" and ?b = "rq_body req"
  have f: "handle_forward lib cfg nats a ''POST'' ?b req px = Some (answer, px1)"
    using first(1) body(3) by (auto simp: handle_post_forward_def split: if_splits)
  have w: "watched cfg ''POST'' ?b px d" using on body(1) by (simp add: watched_def)
  have px1: "px_duplicates px1 = snd (reported lib cfg a ''POST'' ?b req px) \<and> px_sent px1 = px_sent px"
    using f by (cases rule: forward_cases) (use first(2,3) in \<open>auto simp: count_rejection_def\<close>)
  then obtain d' e where d': "px_duplicates px1 = Some d'" "dup_inv d'" "d_options d' = d_options d" "bodies d' ?k = Some e" "de_last_seen_ms e = at_duplicate a"
    using reported_holds [OF w on(4), of lib a req] by auto
  have "\<not> idle_longer (at_duplicate a') (at_duplicate a) (opt_ttl_ms (d_options d))"
    using time unat_elapsed [OF time(1)] by (simp add: idle_longer_def word_less_nat_alt)
  then have "repeated lib cfg a' ''POST'' ?b px1"
    using on d' body(1) by (auto simp: repeated_def watched_def delivered_lately_def)
  moreover have "\<forall>d. px_duplicates px1 = Some d \<longrightarrow> dup_inv d" using d' by simp
  ultimately have "fst (reported lib cfg a' ''POST'' ?b req' px1)" by (simp add: reported_repeated)
  from forward_refuses_duplicate [OF on(2) this, of nats'] first(2) px1 show ?thesis
    using body by (auto simp: handle_post_forward_def count_rejection_def)
qed

theorem refused_then_conflict_witness:
  "\<exists>answer px1. handle_post_forward demo_library demo_config silent_nats (demo_arrival 1 1) demo_request demo_proxy = Some (answer, px1)
   \<and> (\<exists>rl. px_rate_limiter px1 = Some rl \<and> fst (acquire 2000000000 rl))
   \<and> (\<exists>answer' px2. handle_post_forward demo_library demo_config silent_nats (demo_arrival 2000000000 2000) demo_request px1 = Some (answer', px2)
        \<and> px_rejections px2 = [RATE_LIMIT_GLOBAL, DUPLICATE] \<and> px_sent px2 = [] \<and> (\<forall>x. answer' = Some x \<longrightarrow> rs_status x = 409))"
proof -
  let ?d = "new_DuplicateDetector default_Options False"
  obtain answer px1 where px1: "handle_post_forward demo_library demo_config silent_nats (demo_arrival 1 1) demo_request demo_proxy = Some (answer, px1)"
      "px_rejections px1 = px_rejections demo_proxy @ [RATE_LIMIT_GLOBAL]" "px_rate_limiter px1 = Some (snd (acquire 1 demo_limiter))"
    using demo_refused [of silent_nats] by (auto simp: count_rejection_def)
  have "fst (acquire 2000000000 (snd (acquire 1 demo_limiter)))"
    by (simp add: demo_limiter_def acquire_def refill_def refill_elapsed_def new_RateLimiter_def Let_def refill_ticks_def
        refill_desired_def advance_refill_def)
  moreover have "px_sent px1 = px_sent demo_proxy \<and> (\<exists>answer' px2.
        handle_post_forward demo_library demo_config silent_nats (demo_arrival 2000000000 2000) demo_request px1 = Some (answer', px2)
     \<and> px_rejections px2 = px_rejections demo_proxy @ [RATE_LIMIT_GLOBAL, DUPLICATE] \<and> px_sent px2 = px_sent demo_proxy
     \<and> (\<forall>x. answer' = Some x \<longrightarrow> rs_status x = 409) \<and> px_rate_limiter px2 = px_rate_limiter px1 \<and> px_per_ip px2 = px_per_ip px1)"
    by (rule refused_then_conflict [where d = ?d, OF _ _ _ new_detector_ok _ _ refl _ px1(1,2)])
      (simp_all add: demo_config_def demo_proxy_def demo_request_def demo_library_def demo_arrival_def new_DuplicateDetector_def default_Options_def)
  ultimately show ?thesis using px1(1,3) by (auto simp: demo_proxy_def)
qed

section \<open>The load on the worker\<close>

text \<open>A request of a run, with what it finds: the readings of the clocks, the NATS client, and whether it is a POST.\<close>

type_synonym proxy_call = "arrival \<times> nats_side \<times> bool \<times> http_request"

definition proxy_step :: "library \<Rightarrow> ProxyConfig \<Rightarrow> proxy_call \<Rightarrow> Proxy option \<Rightarrow> Proxy option" where
  "proxy_step lib cfg c pxo =
     (case (c, pxo) of
        (_, None) \<Rightarrow> None
      | ((a, nats, post, req), Some px) \<Rightarrow>
          map_option snd ((if post then handle_post_forward else handle_get_forward) lib cfg nats a req px))"

text \<open>
  The limiter of the proxy is one that the atomic steps of its threads can reach. After \<open>k\<close> requests from \<open>px0\<close> on, each was refused for
  a reason or granted a token, and every granted one sent at most \<open>m\<close> messages.
\<close>

definition metered :: "u64 \<Rightarrow> u64 \<Rightarrow> int \<Rightarrow> nat \<Rightarrow> Proxy \<Rightarrow> nat \<Rightarrow> int \<Rightarrow> Proxy option \<Rightarrow> bool" where
  "metered burst rate t0 m px0 k now pxo \<longleftrightarrow>
     (\<forall>px. pxo = Some px \<longrightarrow> (\<exists>sys. reaches (bucket_start burst rate t0) sys \<and> sys_pc sys = (\<lambda>_. Idle) \<and> sys_mutex sys = None
        \<and> px_rate_limiter px = Some (sys_rl sys) \<and> sys_now sys \<le> now
        \<and> k + length (px_rejections px0) \<le> length (px_rejections px) + sys_granted sys
        \<and> length (px_sent px) \<le> length (px_sent px0) + m * sys_granted sys))"

lemma metered_refused:
  assumes "metered burst rate t0 m px0 k now (Some px)" "px_rate_limiter px' = px_rate_limiter px" "px_sent px' = px_sent px" "now \<le> now'"
    and "px_rejections px' = px_rejections px @ [reason]"
  shows "metered burst rate t0 m px0 (Suc k) now' (Some px')"
proof -
  obtain sys where "reaches (bucket_start burst rate t0) sys" "sys_pc sys = (\<lambda>_. Idle)" "sys_mutex sys = None"
      "px_rate_limiter px = Some (sys_rl sys)" "sys_now sys \<le> now" "k + length (px_rejections px0) \<le> length (px_rejections px) + sys_granted sys"
      "length (px_sent px) \<le> length (px_sent px0) + m * sys_granted sys"
    using assms(1) by (auto simp: metered_def)
  then show ?thesis using assms(2-5) unfolding metered_def by (intro allI impI exI [of _ sys]) auto
qed

lemma metered_acquire:
  assumes "metered burst rate t0 m px0 k now (Some px)" "now \<le> t" "t < 2 ^ 63" "px_rate_limiter px = Some rl"
    and "px_rate_limiter px' = Some (snd (acquire t rl))" "px_sent px' = px_sent px @ sent" "px_rejections px' = px_rejections px @ reasons"
    and "if fst (acquire t rl) then length sent \<le> m else sent = [] \<and> 0 < length reasons"
  shows "metered burst rate t0 m px0 (Suc k) t (Some px')"
proof -
  obtain sys where sys: "reaches (bucket_start burst rate t0) sys" "sys_pc sys = (\<lambda>_. Idle)" "sys_mutex sys = None"
      "sys_rl sys = rl" "sys_now sys \<le> now" "k + length (px_rejections px0) \<le> length (px_rejections px) + sys_granted sys"
      "length (px_sent px) \<le> length (px_sent px0) + m * sys_granted sys"
    using assms(1,4) by (auto simp: metered_def)
  define s1 where "s1 = sys\<lparr>sys_now := t\<rparr>"
  define s2 where "s2 = s1\<lparr>sys_granted := sys_granted s1 + (if fst (acquire (sys_now s1) (sys_rl s1)) then 1 else 0),
            sys_rl := snd (acquire (sys_now s1) (sys_rl s1))\<rparr>"
  have "bucket_step sys s1" unfolding s1_def using sys(5) assms(2,3) by (intro bucket_step.clock) auto
  moreover have "reaches s1 s2" unfolding s2_def using sys(2,3) by (intro acquire_is_run [of _ 0]) (simp_all add: s1_def)
  ultimately have "reaches (bucket_start burst rate t0) s2" using sys(1) by (meson rtranclp.rtrancl_into_rtrancl rtranclp_trans)
  then show ?thesis using sys assms(5-8) unfolding metered_def
    by (intro allI impI exI [of _ s2]) (auto simp: s2_def s1_def simp del: length_greater_0_conv split: if_splits)
qed

lemma metered_forward:
  assumes "metered burst rate t0 (poll_rounds (poll_timeout_ms (cfg_request_timeout_seconds cfg))) px0 k now (Some px)" "now \<le> at_global a" "at_global a < 2 ^ 63"
    and "handle_forward lib cfg nats a req_method body req px = Some (answer, px')"
  shows "metered burst rate t0 (poll_rounds (poll_timeout_ms (cfg_request_timeout_seconds cfg))) px0 (Suc k) (at_global a) (Some px')"
proof -
  obtain rl where rl: "px_rate_limiter px = Some rl" using assms(1) by (auto simp: metered_def)
  note took = metered_acquire [OF assms(1-3) rl]
  from assms(4) show ?thesis
  proof (cases rule: forward_cases)
    case duplicate
    then show ?thesis using metered_refused [OF assms(1) _ _ assms(2)] by (simp add: count_rejection_def)
  next
    case (global rl1 rl2)
    then show ?thesis using took [of px' "[]" "[RATE_LIMIT_GLOBAL]"] rl by (simp add: count_rejection_def)
  next
    case (per_ip g ip ip')
    then show ?thesis using took [of px' "[]" "[RATE_LIMIT_PER_IP]"] rl by (auto simp: count_rejection_def through_global_def)
  next
    case (through g i sent)
    then show ?thesis using took [of px' sent "[]"] rl by (auto simp: through_global_def sends_def)
  qed
qed

lemma metered_step:
  assumes "metered burst rate t0 (poll_rounds (poll_timeout_ms (cfg_request_timeout_seconds cfg))) px0 k now pxo"
    "now \<le> at_global (fst c)" "at_global (fst c) < 2 ^ 63"
  shows "metered burst rate t0 (poll_rounds (poll_timeout_ms (cfg_request_timeout_seconds cfg))) px0 (Suc k) (at_global (fst c)) (proxy_step lib cfg c pxo)"
proof (cases "proxy_step lib cfg c pxo")
  case None
  then show ?thesis by (simp add: metered_def)
next
  case (Some px')
  obtain a nats post req where c: "c = (a, nats, post, req)" by (cases c)
  obtain px answer where px: "pxo = Some px" "(if post then handle_post_forward else handle_get_forward) lib cfg nats a req px = Some (answer, px')"
    using Some by (auto simp: proxy_step_def c split: option.splits)
  show ?thesis
  proof (cases "post \<and> rq_body req \<noteq> [] \<and> \<not> lib_accept lib (rq_body req) \<and> \<not> cfg_raw_body_passthrough cfg")
    case True
    then have "px' = count_rejection INVALID_JSON px" using px(2) by (simp add: handle_post_forward_def)
    then show ?thesis unfolding Some using metered_refused [of burst rate t0 _ px0 k now px px' "at_global a"] assms(1,2) px(1) by (simp add: c count_rejection_def)
  next
    case False
    then obtain m body where "handle_forward lib cfg nats a m body req px = Some (answer, px')"
      using px(2) by (auto simp: handle_post_forward_def handle_get_forward_def split: if_splits)
    then show ?thesis unfolding Some using metered_forward [of burst rate t0 cfg px0 k now px a] assms px(1) by (simp add: c)
  qed
qed

lemma metered_run:
  assumes "metered burst rate t0 (poll_rounds (poll_timeout_ms (cfg_request_timeout_seconds cfg))) px0 k now pxo"
    "sorted (now # map (at_global \<circ> fst) calls)" "list_all (\<lambda>c. at_global (fst c) < 2 ^ 63) calls"
  shows "metered burst rate t0 (poll_rounds (poll_timeout_ms (cfg_request_timeout_seconds cfg))) px0 (k + length calls)
    (last (now # map (at_global \<circ> fst) calls)) (fold (proxy_step lib cfg) calls pxo)"
  using assms
proof (induction calls arbitrary: k now pxo)
  case (Cons c calls)
  then show ?case using Cons.IH [OF metered_step [OF Cons.prems(1), of c lib]] by (simp split: if_splits)
qed simp

text \<open>
  Property C5. The global limit bounds the load on the worker: whatever the clients send, the requests of a run that are not refused
  are at most the burst and the refill of the whole seconds that the run lasted, and the messages that go out for them, those that the
  wait for a reply sends again included, are at most that many times the rounds of one wait, one for every quarter of a second
  of the request timeout. This is about requests that are forwarded to level 2; those of the database gateway do not pass the limit.
\<close>
theorem backend_budget:
  assumes "px_rate_limiter px0 = Some (new_RateLimiter burst rate t0)" "0 \<le> t0" "t0 < 2 ^ 63"
    and "sorted (t0 # map (at_global \<circ> fst) calls)" "list_all (\<lambda>c. at_global (fst c) < 2 ^ 63) calls"
    and "fold (proxy_step lib cfg) calls (Some px0) = Some px"
  shows "let budget = nat (uint burst + uint rate * ((last (t0 # map (at_global \<circ> fst) calls) - t0) div ns_per_s)) in
      length calls \<le> length (px_rejections px) - length (px_rejections px0) + budget
    \<and> length (px_sent px) \<le> length (px_sent px0) + poll_rounds (poll_timeout_ms (cfg_request_timeout_seconds cfg)) * budget"
proof -
  let ?fin = "last (t0 # map (at_global \<circ> fst) calls)" and ?m = "poll_rounds (poll_timeout_ms (cfg_request_timeout_seconds cfg))"
  let ?budget = "nat (uint burst + uint rate * ((?fin - t0) div ns_per_s))"
  have "metered burst rate t0 ?m px0 0 t0 (Some px0)" unfolding metered_def
    using assms(1) by (auto simp: bucket_start_def intro!: exI [of _ "bucket_start burst rate t0"])
  from metered_run [OF this assms(4,5), of lib] obtain sys where sys: "reaches (bucket_start burst rate t0) sys" "sys_now sys \<le> ?fin"
      "length calls + length (px_rejections px0) \<le> length (px_rejections px) + sys_granted sys"
      "length (px_sent px) \<le> length (px_sent px0) + ?m * sys_granted sys" unfolding assms(6) by (auto simp: metered_def)
  have "int (sys_granted sys) \<le> uint burst + uint rate * ((sys_now sys - t0) div ns_per_s)"
    using granted_bound [OF rtranclp.rtrancl_refl sys(1) assms(2,3)] by (simp add: bucket_start_def new_RateLimiter_def)
  moreover have "uint rate * ((sys_now sys - t0) div ns_per_s) \<le> uint rate * ((?fin - t0) div ns_per_s)"
    using sys(2) by (intro mult_left_mono zdiv_mono1) simp_all
  ultimately have g: "sys_granted sys \<le> ?budget" by linarith
  then have "?m * sys_granted sys \<le> ?m * ?budget" by simp
  then show ?thesis using sys(3,4) g unfolding Let_def by linarith
qed


lemma demo_wait:
  "\<exists>outcome. poll_for_response demo_config silent_nats (demo_arrival 1 1) msg = Some outcome \<and> ps_reply outcome = [] \<and> length (ps_requests outcome) = 2"
proof -
  have "poll_rounds 1000 = Suc (Suc (Suc (Suc 0)))" by (simp add: poll_rounds_def)
  then show ?thesis
    by (simp add: poll_for_response_def demo_defs poll_response_def c_int_ok_def poll_timeout_ms_def kMsPerSecond_def poll_until_deadline_def
      poll_loop.simps(2) poll_start_def poll_ensure_connected_def poll_notify_resend_def poll_request_def poll_delay_for_empty_reply_def sleep_for_def
      kEmptyResponseRetryDelayMs_def duration_cast_def Let_def)
qed

lemma demo_forwarded:
  "\<exists>answer px' msg. process_request demo_library demo_config silent_nats (demo_arrival 1 1) ''GET'' [] demo_request px = Some (answer, px')
     \<and> px' = px\<lparr>px_sent := px_sent px @ [msg, msg]\<rparr>"
proof -
  have v: "is_valid_utf8 ''r''" "is_valid_utf8 ''s''" "is_valid_utf8 ''/a''" "is_valid_utf8 ''1''" "is_valid_utf8 ''2''" by (rule ascii_valid, simp)+
  have ip: "request_client_ip demo_request = ''1''" "extract_query_string (rq_target demo_request) = []"
    by (simp_all add: request_client_ip_def extract_client_ip_def header_find_def extract_query_string_def demo_request_def)
  obtain msg where "proxy_message (\<lambda>b. b = []) demo_encode demo_dump 0 None None ''s'' [] [] ''r'' ''GET'' [] demo_request [] = Inr msg" "msg \<noteq> []"
    using request_decoded [OF demo_serialises demo_codec, where accept = "\<lambda>b. b = []" and request_id = "''r''" and req = demo_request
        and traceparent = "[]" and tf = None and tracer = None and generated = "''s''" and trace_id = "[]" and span_id = "[]"
        and now_ms = 0 and req_method = "''GET''" and body = "[]"] v ip
    by (auto simp: trace_utf8_def demo_request_def)
  then have "proxy_message (\<lambda>_. True) demo_encode demo_dump 0 None None ''s'' [] [] ''r'' ''GET'' [] demo_request [] = Inr msg" "msg \<noteq> []"
    by (simp_all add: proxy_message_def prepare_request_data_def)
  then show ?thesis using demo_wait [of msg]
    by (auto simp: process_request_def demo_library_def demo_arrival_def numeral_2_eq_2)
qed

theorem backend_budget_witness:
  "\<exists>px. fold (proxy_step demo_library demo_config) [(demo_arrival 1 1, silent_nats, False, demo_request), (demo_arrival 2 1, silent_nats, False, demo_request)]
      (Some (demo_proxy\<lparr>px_rate_limiter := Some (new_RateLimiter 1 1 0)\<rparr>)) = Some px \<and> px_rejections px = [RATE_LIMIT_GLOBAL]
      \<and> length (px_sent px) = 2 \<and> length (px_sent px) \<le> 4"
proof -
  let ?px = "demo_proxy\<lparr>px_rate_limiter := Some (new_RateLimiter 1 1 0)\<rparr>"
  let ?px1 = "demo_proxy\<lparr>px_rate_limiter := Some demo_limiter\<rparr>"
  let ?run = "fold (proxy_step demo_library demo_config) [(demo_arrival 1 1, silent_nats, False, demo_request), (demo_arrival 2 1, silent_nats, False, demo_request)] (Some ?px)"
  note bucket = acquire_def refill_def refill_elapsed_def new_RateLimiter_def Let_def
  have "snd (acquire 1 (new_RateLimiter 1 1 0)) = demo_limiter" "fst (acquire 1 (new_RateLimiter 1 1 0))" by (simp_all add: demo_limiter_def bucket)
  then have "check_rate_limits demo_library (demo_arrival 1 1) (request_client_ip demo_request) ?px = Some (Inr (), ?px1)"
    by (simp add: check_rate_limits_def check_global_def check_per_ip_def demo_proxy_def demo_arrival_def split_beta)
  then have one: "handle_get_forward demo_library demo_config silent_nats (demo_arrival 1 1) demo_request ?px
      = process_request demo_library demo_config silent_nats (demo_arrival 1 1) ''GET'' [] demo_request ?px1"
    by (simp add: handle_get_forward_def handle_forward_def)
  obtain msg answer where sent: "process_request demo_library demo_config silent_nats (demo_arrival 1 1) ''GET'' [] demo_request ?px1
      = Some (answer, ?px1\<lparr>px_sent := [msg, msg]\<rparr>)"
    using demo_forwarded [of ?px1] by (auto simp: demo_proxy_def)
  have "\<exists>answer' px. handle_get_forward demo_library demo_config silent_nats (demo_arrival 2 1) demo_request (?px1\<lparr>px_sent := [msg, msg]\<rparr>) = Some (answer', px)
      \<and> px_rejections px = [RATE_LIMIT_GLOBAL] \<and> px_sent px = [msg, msg]"
    by (simp add: handle_get_forward_def handle_forward_def check_rate_limits_def check_global_def count_rejection_def demo_proxy_def demo_limiter_def
        demo_arrival_def bucket)
  then obtain px where px: "?run = Some px" "px_rejections px = [RATE_LIMIT_GLOBAL]" "px_sent px = [msg, msg]"
    using one sent by (auto simp: proxy_step_def)
  show ?thesis using px backend_budget [OF _ _ _ _ _ px(1), of 1 1 0]
    by (simp add: demo_arrival_def demo_config_def poll_rounds_def poll_timeout_ms_def kMsPerSecond_def Let_def)
qed

end
