(* ===== verification/Diod_Http.thy ===== *)
theory Diod_Http
  imports Diod_Messages Diod_Machine
begin

text \<open>
  The HTTP client of the worker (\<open>http_client.cpp\<close>), the pool that its calls share (\<open>http_client_pool.cpp\<close>) and the
  call through the pool (\<open>pool_executor.hpp\<close>). The HTTP library is a parameter: \<open>net\<close> answers a request, given
  all the requests that went out before it, with a response or with the text of an error. A client of the library
  is the server that it was created for. Clock readings are nanoseconds; where a loop reads the clock
  every time, \<open>clock k\<close> is the reading of round \<open>k\<close>. The counters are integers; that they
  stay in the range of an unsigned type is part of the invariant. Logging and metrics are left out.
\<close>

section \<open>The client\<close>

type_synonym HttpResponse = L2Response

record endpoint =
  ep_https :: bool
  ep_host :: string
  ep_port :: int

record wire_request =
  w_endpoint :: endpoint
  w_method :: string
  w_path :: string
  w_headers :: headers
  w_body :: string
  w_content_type :: string

type_synonym network = "wire_request list \<Rightarrow> wire_request \<Rightarrow> string + HttpResponse"

record HttpClient =
  hc_client :: "endpoint option"
  hc_ssl_client :: "endpoint option"
  hc_last_status_code :: int
  hc_is_valid :: bool
  hc_last_used :: int
  hc_pool_leased :: bool

definition new_HttpClient :: "int \<Rightarrow> HttpClient" where
  "new_HttpClient now = \<lparr>hc_client = None, hc_ssl_client = None, hc_last_status_code = 0, hc_is_valid = True,
     hc_last_used = now, hc_pool_leased = False\<rparr>"

definition touch :: "int \<Rightarrow> HttpClient \<Rightarrow> HttpClient" where
  "touch now h = h\<lparr>hc_last_used := now\<rparr>"

definition invalidate :: "HttpClient \<Rightarrow> HttpClient" where
  "invalidate h = h\<lparr>hc_is_valid := False\<rparr>"

definition endpoint_of :: "ParsedUrl \<Rightarrow> endpoint" where
  "endpoint_of p = \<lparr>ep_https = m_is_https p, ep_host = m_host p, ep_port = m_port p\<rparr>"

text \<open>The texts of the exceptions of \<open>parse_url\<close>.\<close>

definition parse_url_error :: "string \<Rightarrow> string" where
  "parse_url_error url =
     (if url = [] then ''Invalid URL: empty string''
      else case c_strstr url ''://'' of
             Some protocol_end \<Rightarrow> if protocol_end + 3 \<ge> length url then ''Invalid URL: no host after protocol - '' @ url else ''Invalid URL: '' @ url
           | None \<Rightarrow> ''Invalid URL: '' @ url)"

definition setup_client :: "ParsedUrl \<Rightarrow> HttpClient \<Rightarrow> string + HttpClient" where
  "setup_client parsed_url h =
     (if m_port parsed_url \<le> 0 \<or> m_port parsed_url > 65535 then Inl ''Invalid URL: port out of range''
      else if m_is_https parsed_url then Inr (h\<lparr>hc_ssl_client := Some (endpoint_of parsed_url)\<rparr>)
      else Inr (h\<lparr>hc_client := Some (endpoint_of parsed_url)\<rparr>))"

definition request_headers :: "string \<Rightarrow> string \<Rightarrow> headers \<Rightarrow> headers" where
  "request_headers body traceparent additional_headers =
     (if body \<noteq> [] then [(''Content-Length'', dec_str (length body))] else []) @ additional_headers
     @ (if traceparent \<noteq> [] then [(''traceparent'', traceparent)] else [])"

definition prepare_request :: "string \<Rightarrow> string \<Rightarrow> string \<Rightarrow> headers \<Rightarrow> HttpClient \<Rightarrow> string + (ParsedUrl \<times> headers) \<times> HttpClient" where
  "prepare_request url body traceparent additional_headers h =
     (case parse_url url of
        None \<Rightarrow> Inl (parse_url_error url)
      | Some p \<Rightarrow>
         (let parsed_url = p\<lparr>m_path := normalize_path (m_path p)\<rparr>;
              hs = request_headers body traceparent additional_headers
          in if m_is_https parsed_url \<and> hc_ssl_client h = None \<or> \<not> m_is_https parsed_url \<and> hc_client h = None
             then (case setup_client parsed_url h of Inl e \<Rightarrow> Inl e | Inr h' \<Rightarrow> Inr ((parsed_url, hs), h'))
             else Inr ((parsed_url, hs), h)))"

text \<open>
  The exchange: the method that goes out depends on the body alone. The result is the response or the text of the
  exception, with the client and the requests that went out by then.
\<close>

definition execute_request ::
  "network \<Rightarrow> ParsedUrl \<times> headers \<Rightarrow> string \<Rightarrow> string \<Rightarrow> HttpClient \<Rightarrow> wire_request list
   \<Rightarrow> (string + HttpResponse) \<times> HttpClient \<times> wire_request list" where
  "execute_request net req body content_type h sent =
     (let (parsed_url, hs) = req;
          peer = the (if m_is_https parsed_url then hc_ssl_client h else hc_client h);
          w = \<lparr>w_endpoint = peer, w_method = (if body = [] then ''GET'' else ''POST''), w_path = m_path parsed_url, w_headers = hs,
               w_body = body, w_content_type = (if body = [] then [] else content_type)\<rparr>
      in case net sent w of
           Inl e \<Rightarrow> (Inl e, h\<lparr>hc_last_status_code := 0\<rparr>, sent @ [w])
         | Inr r \<Rightarrow> (Inr r, h\<lparr>hc_last_status_code := l2_status_code r\<rparr>, sent @ [w]))"

definition client_request ::
  "network \<Rightarrow> int \<Rightarrow> string \<Rightarrow> string \<Rightarrow> string \<Rightarrow> headers \<Rightarrow> HttpClient \<Rightarrow> wire_request list
   \<Rightarrow> (string + HttpResponse) \<times> HttpClient \<times> wire_request list" where
  "client_request net now url body traceparent additional_headers h sent =
     (case prepare_request url body traceparent additional_headers (touch now h) of
        Inl e \<Rightarrow> (Inl e, touch now h, sent)
      | Inr (req, h') \<Rightarrow> execute_request net req body ''application/json'' h' sent)"

definition post where
  "post net now url body traceparent additional_headers h sent = client_request net now url body traceparent additional_headers h sent"

definition get where
  "get net now url traceparent additional_headers h sent = client_request net now url [] traceparent additional_headers h sent"

section \<open>The pool\<close>

record Counters =
  c_total_clients :: int
  c_active_clients :: int
  c_stale_evictions :: int

record HttpClientPool =
  hp_max_pool_size :: nat
  hp_max_idle_time :: int
  hp_available :: "HttpClient list"
  hp_counters :: Counters

definition new_HttpClientPool :: "nat \<Rightarrow> int \<Rightarrow> HttpClientPool" where
  "new_HttpClientPool max_pool_size max_idle = \<lparr>hp_max_pool_size = max_pool_size, hp_max_idle_time = max_idle, hp_available = [],
     hp_counters = \<lparr>c_total_clients = 0, c_active_clients = 0, c_stale_evictions = 0\<rparr>\<rparr>"

text \<open>The destructor of a client runs the hook of the pool, which gives back the slot of a client that is checked out.\<close>

definition destroy_client :: "HttpClient \<Rightarrow> Counters \<Rightarrow> Counters" where
  "destroy_client h c =
     (if \<not> hc_pool_leased h then c
      else c\<lparr>c_total_clients := c_total_clients c - 1, c_active_clients := c_active_clients c - 1\<rparr>)"

fun take_idle :: "int \<Rightarrow> (nat \<Rightarrow> int) \<Rightarrow> nat \<Rightarrow> HttpClient list \<Rightarrow> Counters \<Rightarrow> HttpClient option \<times> HttpClient list \<times> Counters" where
  "take_idle max_idle clock k [] c = (None, [], c)"
| "take_idle max_idle clock k (h # q) c =
     (if clock k - hc_last_used h > max_idle
      then take_idle max_idle clock (Suc k) q (destroy_client h
             (c\<lparr>c_total_clients := c_total_clients c - 1, c_stale_evictions := c_stale_evictions c + 1\<rparr>))
      else let c1 = c\<lparr>c_active_clients := c_active_clients c + 1\<rparr> in
        if hc_is_valid h then (Some (h\<lparr>hc_pool_leased := True\<rparr>), q, c1)
        else take_idle max_idle clock (Suc k) q (destroy_client h
             (c1\<lparr>c_total_clients := c_total_clients c1 - 1, c_active_clients := c_active_clients c1 - 1\<rparr>)))"

definition try_acquire_from_queue :: "(nat \<Rightarrow> int) \<Rightarrow> HttpClientPool \<Rightarrow> HttpClient option \<times> HttpClientPool" where
  "try_acquire_from_queue clock s =
     (let (r, q, c) = take_idle (hp_max_idle_time s) clock 0 (hp_available s) (hp_counters s)
      in (r, s\<lparr>hp_available := q, hp_counters := c\<rparr>))"

definition create_connection :: "int \<Rightarrow> HttpClientPool \<Rightarrow> HttpClient \<times> HttpClientPool" where
  "create_connection now s =
     (let c = hp_counters s
      in ((new_HttpClient now)\<lparr>hc_pool_leased := True\<rparr>,
          s\<lparr>hp_counters := c\<lparr>c_total_clients := c_total_clients c + 1, c_active_clients := c_active_clients c + 1\<rparr>\<rparr>))"

text \<open>
  \<open>acquire_connection\<close> up to its wait, and from the end of the wait on when a connection was released.
  \<open>None\<close>: the call has to wait.
\<close>

definition acquire_enter :: "(nat \<Rightarrow> int) \<Rightarrow> int \<Rightarrow> HttpClientPool \<Rightarrow> HttpClient option \<times> HttpClientPool" where
  "acquire_enter clock now s =
     (case try_acquire_from_queue clock s of
        (Some h, s1) \<Rightarrow> (Some h, s1)
      | (None, s1) \<Rightarrow>
          if c_total_clients (hp_counters s1) \<ge> int (hp_max_pool_size s1) then (None, s1)
          else let (h, s2) = create_connection now s1 in (Some h, s2))"

definition acquire_resume :: "(nat \<Rightarrow> int) \<Rightarrow> int \<Rightarrow> HttpClientPool \<Rightarrow> HttpClient \<times> HttpClientPool" where
  "acquire_resume clock now s =
     (case try_acquire_from_queue clock s of (Some h, s1) \<Rightarrow> (h, s1) | (None, s1) \<Rightarrow> create_connection now s1)"

text \<open>\<open>release_connection\<close>: what it does before it takes the mutex, and under it.\<close>

definition release_begin :: "HttpClient \<Rightarrow> HttpClientPool \<Rightarrow> HttpClient \<times> HttpClientPool" where
  "release_begin h s =
     (let c = hp_counters s
      in (h\<lparr>hc_pool_leased := False\<rparr>, s\<lparr>hp_counters := c\<lparr>c_active_clients := c_active_clients c - 1\<rparr>\<rparr>))"

definition release_locked :: "int \<Rightarrow> HttpClient \<Rightarrow> HttpClientPool \<Rightarrow> HttpClientPool" where
  "release_locked now h s =
     (let c = hp_counters s in
      if hc_is_valid h \<and> length (hp_available s) < hp_max_pool_size s then s\<lparr>hp_available := hp_available s @ [touch now h]\<rparr>
      else s\<lparr>hp_counters := destroy_client h (c\<lparr>c_total_clients := c_total_clients c - 1\<rparr>)\<rparr>)"

definition release_connection :: "int \<Rightarrow> HttpClient \<Rightarrow> HttpClientPool \<Rightarrow> HttpClientPool" where
  "release_connection now h s = (let (h', s') = release_begin h s in release_locked now h' s')"

text \<open>
  A call through the pool by the only thread that uses it: when there is no connection for it, none is released
  while it waits. The status code is the one that the client remembers.
\<close>

definition execute_http_command_with_status ::
  "(nat \<Rightarrow> int) \<Rightarrow> int \<Rightarrow> (HttpClient \<Rightarrow> wire_request list \<Rightarrow> (string + HttpResponse) \<times> HttpClient \<times> wire_request list)
   \<Rightarrow> HttpClientPool \<Rightarrow> wire_request list \<Rightarrow> (string + HttpResponse \<times> int) \<times> HttpClientPool \<times> wire_request list" where
  "execute_http_command_with_status clock now func pool sent =
     (case acquire_enter clock now pool of
        (None, s1) \<Rightarrow> (Inl ''HTTP pool acquire timeout - all connections in use'', s1, sent)
      | (Some h, s1) \<Rightarrow>
          if \<not> hc_is_valid h then
            (Inl ''Failed to acquire valid HTTP connection - connection is invalid'', release_connection now h s1, sent)
          else (case func h sent of
                  (Inl e, h', sent') \<Rightarrow> (Inl e, release_connection now (invalidate h') s1, sent')
                | (Inr r, h', sent') \<Rightarrow> (Inr (r, hc_last_status_code h'), release_connection now h' s1, sent')))"

section \<open>The pool and its threads\<close>

text \<open>
  A thread that makes a call: before the first critical section, in the wait, holding a connection, between the
  two parts of a release, or done, with or without having got a connection. A wait ends with a connection that was
  released, or by the time limit with none there; it may be woken for no reason. While a connection is in use only
  its user changes it; \<open>drop\<close> destroys it without a release.
\<close>

datatype hp_user = Entering | Waiting | Holding HttpClient | Releasing HttpClient | Left bool

record http_system =
  hs_pool :: HttpClientPool
  hs_users :: "hp_user list"

definition user_becomes :: "nat \<Rightarrow> hp_user \<Rightarrow> HttpClientPool \<Rightarrow> http_system \<Rightarrow> http_system" where
  "user_becomes i u p s = s\<lparr>hs_pool := p, hs_users := (hs_users s)[i := u]\<rparr>"

definition enter_pool :: "nat \<Rightarrow> (nat \<Rightarrow> int) \<Rightarrow> int \<Rightarrow> http_system \<Rightarrow> http_system" where
  "enter_pool i clock now s =
     (case acquire_enter clock now (hs_pool s) of
        (Some h, p) \<Rightarrow> user_becomes i (Holding h) p s | (None, p) \<Rightarrow> user_becomes i Waiting p s)"

definition resume_wait :: "nat \<Rightarrow> (nat \<Rightarrow> int) \<Rightarrow> int \<Rightarrow> http_system \<Rightarrow> http_system" where
  "resume_wait i clock now s = (case acquire_resume clock now (hs_pool s) of (h, p) \<Rightarrow> user_becomes i (Holding h) p s)"

definition start_release :: "nat \<Rightarrow> HttpClient \<Rightarrow> http_system \<Rightarrow> http_system" where
  "start_release i h s = (case release_begin h (hs_pool s) of (h', p) \<Rightarrow> user_becomes i (Releasing h') p s)"

definition finish_release :: "nat \<Rightarrow> int \<Rightarrow> HttpClient \<Rightarrow> http_system \<Rightarrow> http_system" where
  "finish_release i now h s = user_becomes i (Left True) (release_locked now h (hs_pool s)) s"

definition drop_connection :: "nat \<Rightarrow> HttpClient \<Rightarrow> http_system \<Rightarrow> http_system" where
  "drop_connection i h s =
     user_becomes i (Left True) ((hs_pool s)\<lparr>hp_counters := destroy_client h (hp_counters (hs_pool s))\<rparr>) s"

abbreviation at :: "http_system \<Rightarrow> nat \<Rightarrow> hp_user \<Rightarrow> bool" where
  "at s i u \<equiv> i < length (hs_users s) \<and> hs_users s ! i = u"

inductive hp_work :: "http_system \<Rightarrow> http_system \<Rightarrow> bool" where
  enter: "at s i Entering \<Longrightarrow> hp_work s (enter_pool i clock now s)"
| resume: "at s i Waiting \<Longrightarrow> hp_available (hs_pool s) \<noteq> [] \<Longrightarrow> hp_work s (resume_wait i clock now s)"
| timeout: "at s i Waiting \<Longrightarrow> hp_available (hs_pool s) = [] \<Longrightarrow> hp_work s (user_becomes i (Left False) (hs_pool s) s)"
| give_back: "at s i (Holding h) \<Longrightarrow> hp_work s (start_release i h s)"
| given_back: "at s i (Releasing h) \<Longrightarrow> hp_work s (finish_release i now h s)"
| drop: "at s i (Holding h) \<Longrightarrow> hp_work s (drop_connection i h s)"

inductive hp_step :: "http_system \<Rightarrow> http_system \<Rightarrow> bool" where
  work: "hp_work s t \<Longrightarrow> hp_step s t"
| call: "hp_step s (s\<lparr>hs_users := hs_users s @ [Entering]\<rparr>)"
| exchange: "at s i (Holding h) \<Longrightarrow> hc_pool_leased h' = hc_pool_leased h \<Longrightarrow> hp_step s (user_becomes i (Holding h') (hs_pool s) s)"

definition new_http_system :: "nat \<Rightarrow> int \<Rightarrow> http_system" where
  "new_http_system max_pool_size max_idle = \<lparr>hs_pool = new_HttpClientPool max_pool_size max_idle, hs_users = []\<rparr>"

subsection \<open>Invariant\<close>

fun takes :: "hp_user \<Rightarrow> nat" where
  "takes (Holding _) = 1"
| "takes (Releasing _) = 1"
| "takes _ = 0"

fun holds_one :: "hp_user \<Rightarrow> nat" where
  "holds_one (Holding _) = 1"
| "holds_one _ = 0"

fun lease_ok :: "hp_user \<Rightarrow> bool" where
  "lease_ok (Holding h) = hc_pool_leased h"
| "lease_ok (Releasing h) = (\<not> hc_pool_leased h)"
| "lease_ok _ = True"

text \<open>The pool with the connections that are out (\<open>out\<close>) and those of them in use (\<open>used\<close>).\<close>

definition pool_ok :: "nat \<Rightarrow> nat \<Rightarrow> HttpClientPool \<Rightarrow> bool" where
  "pool_ok out used p \<longleftrightarrow>
     c_total_clients (hp_counters p) = int (length (hp_available p) + out) \<and> c_active_clients (hp_counters p) = int used
   \<and> length (hp_available p) + out \<le> hp_max_pool_size p \<and> list_all (\<lambda>h. \<not> hc_pool_leased h) (hp_available p)"

definition hs_inv :: "http_system \<Rightarrow> bool" where
  "hs_inv s \<longleftrightarrow> list_all lease_ok (hs_users s)
     \<and> pool_ok (sum_list (map takes (hs_users s))) (sum_list (map holds_one (hs_users s))) (hs_pool s)"

lemma take_idle_ok:
  assumes "take_idle mi clock k q c = (r, q', c')" "list_all (\<lambda>h. \<not> hc_pool_leased h) q"
  shows "list_all (\<lambda>h. \<not> hc_pool_leased h) q' \<and> length q' \<le> length q
    \<and> c_total_clients c' - c_total_clients c = int (length q') + (if r = None then 0 else 1) - int (length q)
    \<and> c_active_clients c' = c_active_clients c + (if r = None then 0 else 1)
    \<and> (case r of None \<Rightarrow> q' = [] | Some h \<Rightarrow> hc_pool_leased h \<and> hc_is_valid h \<and> length q' < length q)"
  using assms
proof (induction mi clock k q c rule: take_idle.induct)
  case (2 mi clock k h q c)
  show ?case
  proof (cases "clock k - hc_last_used h > mi")
    case True
    then show ?thesis using "2.IH"(1) "2.prems" by (auto simp: destroy_client_def split: option.splits)
  next
    case False
    then show ?thesis using "2.IH"(2) "2.prems"
      by (auto simp: destroy_client_def Let_def split: option.splits if_splits)
  qed
qed simp

lemma try_acquire_ok:
  assumes "pool_ok out used p" "try_acquire_from_queue clock p = (r, p')"
  shows "case r of Some h \<Rightarrow> pool_ok (Suc out) (Suc used) p' \<and> hc_pool_leased h \<and> hc_is_valid h
      | None \<Rightarrow> pool_ok out used p' \<and> hp_available p' = []"
    "hp_max_pool_size p' = hp_max_pool_size p" "length (hp_available p') \<le> length (hp_available p)"
proof -
  obtain q c where q: "take_idle (hp_max_idle_time p) clock 0 (hp_available p) (hp_counters p) = (r, q, c)"
    "p' = p\<lparr>hp_available := q, hp_counters := c\<rparr>"
    using assms(2) by (auto simp: try_acquire_from_queue_def split: prod.splits)
  note t = take_idle_ok [OF q(1)]
  show "case r of Some h \<Rightarrow> pool_ok (Suc out) (Suc used) p' \<and> hc_pool_leased h \<and> hc_is_valid h
      | None \<Rightarrow> pool_ok out used p' \<and> hp_available p' = []"
    using t assms(1) q(2) by (cases r) (auto simp: pool_ok_def)
  show "hp_max_pool_size p' = hp_max_pool_size p" "length (hp_available p') \<le> length (hp_available p)"
    using t assms(1) q(2) by (simp_all add: pool_ok_def)
qed

lemma create_ok:
  assumes "pool_ok out used p" "length (hp_available p) + out < hp_max_pool_size p" "create_connection now p = (h, p')"
  shows "pool_ok (Suc out) (Suc used) p'" "hc_pool_leased h" "hc_is_valid h"
  using assms by (auto simp: create_connection_def pool_ok_def Let_def new_HttpClient_def)

lemma acquire_enter_ok:
  assumes "pool_ok out used p" "acquire_enter clock now p = (r, p')"
  shows "case r of Some h \<Rightarrow> pool_ok (Suc out) (Suc used) p' \<and> hc_pool_leased h \<and> hc_is_valid h
      | None \<Rightarrow> pool_ok out used p' \<and> hp_available p' = [] \<and> out = hp_max_pool_size p'"
    and "hp_max_pool_size p' = hp_max_pool_size p"
proof -
  obtain r1 p1 where p1: "try_acquire_from_queue clock p = (r1, p1)" by fastforce
  note t = try_acquire_ok [OF assms(1) p1]
  show "case r of Some h \<Rightarrow> pool_ok (Suc out) (Suc used) p' \<and> hc_pool_leased h \<and> hc_is_valid h
      | None \<Rightarrow> pool_ok out used p' \<and> hp_available p' = [] \<and> out = hp_max_pool_size p'"
  proof (cases r1)
    case None
    then show ?thesis using t(1) assms(2) p1 create_ok [of out used p1 now]
      by (auto simp: acquire_enter_def pool_ok_def split: if_splits prod.splits)
  next
    case (Some h)
    then show ?thesis using t(1) assms(2) p1 by (auto simp: acquire_enter_def)
  qed
  show "hp_max_pool_size p' = hp_max_pool_size p"
    using t(2) assms(2) p1 by (auto simp: acquire_enter_def create_connection_def Let_def split: option.splits if_splits)
qed

lemma acquire_resume_ok:
  assumes "pool_ok out used p" "hp_available p \<noteq> []" "acquire_resume clock now p = (h, p')"
  shows "pool_ok (Suc out) (Suc used) p'" "hc_pool_leased h" "hp_max_pool_size p' = hp_max_pool_size p"
proof -
  obtain r1 p1 where p1: "try_acquire_from_queue clock p = (r1, p1)" by fastforce
  note t = try_acquire_ok [OF assms(1) p1]
  have room: "length (hp_available p) + out \<le> hp_max_pool_size p" "0 < length (hp_available p)"
    using assms(1,2) by (simp_all add: pool_ok_def)
  have "pool_ok (Suc out) (Suc used) p' \<and> hc_pool_leased h \<and> hp_max_pool_size p' = hp_max_pool_size p"
  proof (cases r1)
    case None
    then have "create_connection now p1 = (h, p')" using assms(3) p1 by (simp add: acquire_resume_def)
    moreover have "hp_max_pool_size p' = hp_max_pool_size p1"
      using calculation by (auto simp: create_connection_def Let_def)
    moreover have "out < hp_max_pool_size p" using room by linarith
    then have "length (hp_available p1) + out < hp_max_pool_size p1" "pool_ok out used p1" using None t by auto
    ultimately show ?thesis using create_ok [of out used p1 now h p'] t(2) by simp
  next
    case (Some h1)
    then show ?thesis using t assms(3) p1 by (simp add: acquire_resume_def)
  qed
  then show "pool_ok (Suc out) (Suc used) p'" "hc_pool_leased h" "hp_max_pool_size p' = hp_max_pool_size p" by simp_all
qed

lemma release_ok:
  assumes "pool_ok (Suc out) (Suc used) p" "release_begin h p = (h', p')"
  shows "pool_ok (Suc out) used p'" "\<not> hc_pool_leased h'" "hp_max_pool_size p' = hp_max_pool_size p" "hc_is_valid h' = hc_is_valid h"
  using assms by (auto simp: release_begin_def pool_ok_def Let_def)

lemma release_locked_ok:
  assumes "pool_ok (Suc out) used p" "\<not> hc_pool_leased h"
  shows "pool_ok out used (release_locked now h p)" "hp_max_pool_size (release_locked now h p) = hp_max_pool_size p"
    "hc_is_valid h \<Longrightarrow> hp_available (release_locked now h p) = hp_available p @ [touch now h]"
  using assms by (auto simp: release_locked_def pool_ok_def Let_def touch_def destroy_client_def)

lemma drop_ok:
  "pool_ok (Suc out) (Suc used) p \<Longrightarrow> hc_pool_leased h \<Longrightarrow> pool_ok out used (p\<lparr>hp_counters := destroy_client h (hp_counters p)\<rparr>)"
  by (auto simp: pool_ok_def destroy_client_def)

lemma at_counted:
  assumes "at s i u"
  shows "takes u \<le> sum_list (map takes (hs_users s))" "holds_one u \<le> sum_list (map holds_one (hs_users s))"
proof -
  have "u \<in> set (hs_users s)" using assms nth_mem by metis
  then show "takes u \<le> sum_list (map takes (hs_users s))" "holds_one u \<le> sum_list (map holds_one (hs_users s))"
    by (simp_all add: member_le_sum_list)
qed

lemma hs_inv_change:
  assumes "hs_inv s" "at s i u" "lease_ok v"
    and "\<And>out used. pool_ok (out + takes u) (used + holds_one u) (hs_pool s) \<Longrightarrow> pool_ok (out + takes v) (used + holds_one v) p"
  shows "hs_inv (user_becomes i v p s)"
proof -
  let ?us = "hs_users s"
  have i: "i < length ?us" "?us ! i = u" using assms(2) by simp_all
  have t: "sum_list (map takes (?us[i := v])) + takes u = sum_list (map takes ?us) + takes v"
    and h: "sum_list (map holds_one (?us[i := v])) + holds_one u = sum_list (map holds_one ?us) + holds_one v"
    using sum_list_update_eq [OF i(1), of takes v] sum_list_update_eq [OF i(1), of holds_one v] i(2) by simp_all
  note le = at_counted [OF assms(2)]
  have "pool_ok (sum_list (map takes ?us) - takes u + takes v) (sum_list (map holds_one ?us) - holds_one u + holds_one v) p"
    using assms(1) le by (intro assms(4)) (simp add: hs_inv_def)
  moreover have "sum_list (map takes ?us) - takes u + takes v = sum_list (map takes (?us[i := v]))"
    "sum_list (map holds_one ?us) - holds_one u + holds_one v = sum_list (map holds_one (?us[i := v]))" using t h le by linarith+
  moreover have "list_all lease_ok (?us[i := v])"
    using assms(1,3) set_updD [of _ ?us i v] by (auto simp: hs_inv_def list_all_iff)
  ultimately show ?thesis by (simp add: hs_inv_def user_becomes_def)
qed

lemma at_lease: "hs_inv s \<Longrightarrow> at s i u \<Longrightarrow> lease_ok u"
  by (auto simp: hs_inv_def list_all_length)

lemma hs_inv_work: "hp_work s t \<Longrightarrow> hs_inv s \<Longrightarrow> hs_inv t"
proof (induction rule: hp_work.induct)
  case (enter s i clock now)
  obtain r p where e: "acquire_enter clock now (hs_pool s) = (r, p)" by fastforce
  note ok = acquire_enter_ok [OF _ e]
  show ?case
  proof (cases r)
    case None
    have "hs_inv (user_becomes i Waiting p s)" using ok None by (intro hs_inv_change [OF enter(2,1)]) auto
    then show ?thesis using None e by (simp add: enter_pool_def)
  next
    case (Some h)
    have "pool_ok out used (hs_pool s) \<Longrightarrow> hc_pool_leased h" for out used using ok [of out used] Some by simp
    then have "hc_pool_leased h" using enter(2) by (auto simp: hs_inv_def)
    then have "hs_inv (user_becomes i (Holding h) p s)" using ok Some by (intro hs_inv_change [OF enter(2,1)]) auto
    then show ?thesis using Some e by (simp add: enter_pool_def)
  qed
next
  case (resume s i clock now)
  obtain h p where e: "acquire_resume clock now (hs_pool s) = (h, p)" by fastforce
  note ok = acquire_resume_ok [OF _ resume(2) e]
  have "hc_pool_leased h" using resume(3) ok(2) by (auto simp: hs_inv_def)
  then have "hs_inv (user_becomes i (Holding h) p s)" using ok(1) by (intro hs_inv_change [OF resume(3,1)]) auto
  then show ?case using e by (simp add: resume_wait_def)
next
  case (timeout s i)
  then show ?case by (intro hs_inv_change [OF timeout(3,1)]) auto
next
  case (give_back s i h)
  obtain h' p where e: "release_begin h (hs_pool s) = (h', p)" by fastforce
  have "\<not> hc_pool_leased h'" using e by (auto simp: release_begin_def Let_def)
  then have "hs_inv (user_becomes i (Releasing h') p s)"
    using release_ok(1) [OF _ e] by (intro hs_inv_change [OF give_back(2,1)]) auto
  then show ?case using e by (simp add: start_release_def)
next
  case (given_back s i h now)
  have "\<not> hc_pool_leased h" using at_lease [OF given_back(2,1)] by simp
  then show ?case using release_locked_ok(1) [of _ _ "hs_pool s" h now]
    by (auto simp: finish_release_def intro!: hs_inv_change [OF given_back(2,1)])
next
  case (drop s i h)
  have "hc_pool_leased h" using at_lease [OF drop(2,1)] by simp
  then show ?case using drop_ok [of _ _ "hs_pool s" h]
    by (auto simp: drop_connection_def intro!: hs_inv_change [OF drop(2,1)])
qed

lemma hs_inv_step: "hp_step s t \<Longrightarrow> hs_inv s \<Longrightarrow> hs_inv t"
proof (induction rule: hp_step.induct)
  case (work s t)
  then show ?case by (rule hs_inv_work)
next
  case (call s)
  then show ?case by (simp add: hs_inv_def)
next
  case (exchange s i h h')
  then show ?case using at_lease [OF exchange(3,1)] by (intro hs_inv_change [OF exchange(3,1)]) auto
qed

lemma hs_inv_new: "hs_inv (new_http_system n idle)"
  by (simp add: hs_inv_def new_http_system_def pool_ok_def new_HttpClientPool_def)

interpretation hp: transitions hp_step hs_inv
  by unfold_locales (rule hs_inv_step)

subsection \<open>Progress\<close>

fun hp_weight :: "hp_user \<Rightarrow> nat" where
  "hp_weight Entering = 4"
| "hp_weight Waiting = 3"
| "hp_weight (Holding _) = 2"
| "hp_weight (Releasing _) = 1"
| "hp_weight (Left _) = 0"

lemma hp_work_decreases: "hp_work s t \<Longrightarrow> sum_list (map hp_weight (hs_users t)) < sum_list (map hp_weight (hs_users s))"
proof -
  have lt: "sum_list (map hp_weight (hs_users (user_becomes i v p s))) < sum_list (map hp_weight (hs_users s))"
    if "at s i u" "hp_weight v < hp_weight u" for s i u v p
    using sum_list_update_eq [of i "hs_users s" hp_weight v] that by (simp add: user_becomes_def)
  assume "hp_work s t" then show ?thesis
    by (induction rule: hp_work.induct)
      (auto simp: enter_pool_def resume_wait_def start_release_def finish_release_def drop_connection_def intro!: lt split: prod.splits option.splits)
qed

lemma hp_finishes: "\<nexists>f. f 0 = s \<and> (\<forall>k. hp_work (f k) (f (Suc k)))"
proof
  assume "\<exists>f. f 0 = s \<and> (\<forall>k. hp_work (f k) (f (Suc k)))"
  then obtain f where f: "\<forall>k. hp_work (f k) (f (Suc k))" by blast
  have "\<forall>k. (f (Suc k), f k) \<in> measure (\<lambda>s. sum_list (map hp_weight (hs_users s)))"
    using f hp_work_decreases by (simp add: measure_def inv_image_def less_than_def less_eq)
  then show False using wf_measure wf_iff_no_infinite_down_chain by metis
qed

lemma hp_stuck:
  assumes "\<nexists>t. hp_work s t"
  shows "set (hs_users s) \<subseteq> range Left"
proof
  fix u assume "u \<in> set (hs_users s)"
  then obtain i where i: "at s i u" by (auto simp: in_set_conv_nth)
  show "u \<in> range Left"
  proof (cases u)
    case Waiting
    then show ?thesis using assms i hp_work.resume [of i s] hp_work.timeout [of i s] by blast
  qed (use assms i in \<open>auto intro: hp_work.intros\<close>)
qed

lemma hp_max_constant: "hp_step s t \<Longrightarrow> hs_inv s \<Longrightarrow> hp_max_pool_size (hs_pool t) = hp_max_pool_size (hs_pool s)"
proof (induction rule: hp_step.induct)
  case (work s t)
  then have ok: "pool_ok (sum_list (map takes (hs_users s))) (sum_list (map holds_one (hs_users s))) (hs_pool s)" by (simp add: hs_inv_def)
  from work(1) ok show ?case
  proof (induction rule: hp_work.induct)
    case (enter s i clock now)
    then show ?case using acquire_enter_ok(2) [OF enter(2)]
      by (auto simp: enter_pool_def user_becomes_def split: prod.splits option.splits)
  next
    case (resume s i clock now)
    then show ?case using acquire_resume_ok(3) [OF resume(3,2)] by (auto simp: resume_wait_def user_becomes_def split: prod.splits)
  qed (auto simp: user_becomes_def start_release_def release_begin_def finish_release_def release_locked_def drop_connection_def Let_def)
qed (simp_all add: user_becomes_def)

text \<open>
  Property C12. The pool of HTTP connections is sound under any interleaving of calls: the connections that exist
  never exceed the limit and are counted exactly, whether idle, in use, being given back or dropped; a
  connection that is in use is never idle at the same time; a call that gets none was
  refused while as many connections were out as the limit allows or after waiting with none released; and no call blocks for ever:
  without new calls and exchanges the work ends, with every connection that is left idle in the pool.
\<close>
theorem http_pool_sound:
  assumes "hp_step\<^sup>*\<^sup>* (new_http_system limit idle) s"
  shows "c_total_clients (hp_counters (hs_pool s)) = int (length (hp_available (hs_pool s)) + sum_list (map takes (hs_users s)))
    \<and> c_active_clients (hp_counters (hs_pool s)) = int (sum_list (map holds_one (hs_users s)))
    \<and> length (hp_available (hs_pool s)) + sum_list (map takes (hs_users s)) \<le> limit
    \<and> (\<forall>i clock now. at s i Entering \<longrightarrow> at (enter_pool i clock now s) i Waiting \<longrightarrow> sum_list (map takes (hs_users s)) = limit)
    \<and> (\<forall>i h now. at s i (Releasing h) \<longrightarrow> hc_is_valid h \<longrightarrow>
         hp_available (hs_pool (finish_release i now h s)) = hp_available (hs_pool s) @ [touch now h])
    \<and> (\<nexists>f. f 0 = s \<and> (\<forall>k. hp_work (f k) (f (Suc k))))
    \<and> ((\<nexists>t. hp_work s t) \<longrightarrow> set (hs_users s) \<subseteq> range Left \<and> c_total_clients (hp_counters (hs_pool s)) = int (length (hp_available (hs_pool s))))"
proof -
  have inv: "hs_inv s" using hp.inv_reach [OF assms hs_inv_new] .
  have "hs_inv s \<and> hp_max_pool_size (hs_pool s) = limit" using assms
    by (induction rule: rtranclp_induct)
      (use hs_inv_new in \<open>auto simp: new_http_system_def new_HttpClientPool_def hp_max_constant hs_inv_step\<close>)
  then have lim: "hp_max_pool_size (hs_pool s) = limit" by simp
  let ?out = "sum_list (map takes (hs_users s))" and ?used =
    "sum_list (map holds_one (hs_users s))"
  have ok: "pool_ok ?out ?used (hs_pool s)" using inv by (simp add: hs_inv_def)
  have wait: "?out = limit" if "at s i Entering" "at (enter_pool i clock now s) i Waiting" for i clock now
  proof -
    obtain r p where e: "acquire_enter clock now (hs_pool s) = (r, p)" by fastforce
    have "r = None" using that e by (cases r) (auto simp: enter_pool_def user_becomes_def)
    then show ?thesis using acquire_enter_ok [OF ok e] lim by simp
  qed
  have pushed: "hp_available (hs_pool (finish_release i now h s)) = hp_available (hs_pool s) @ [touch now h]"
    if "at s i (Releasing h)" "hc_is_valid h" for i now h
  proof -
    have "takes (Releasing h) \<le> ?out" using at_counted(1) [OF that(1)] .
    then have "pool_ok (Suc (?out - 1)) ?used (hs_pool s)" using ok that(1) by simp
    moreover have "\<not> hc_pool_leased h" using at_lease [OF inv that(1)] by simp
    ultimately show ?thesis using release_locked_ok(3) that(2) by (simp add: finish_release_def user_becomes_def)
  qed
  have "sum_list (map takes us) = 0" if "set us \<subseteq> range Left" for us using that by (induction us) auto
  then show ?thesis using ok lim wait pushed hp_finishes [of s] hp_stuck [of s] by (auto simp: pool_ok_def)
qed

theorem http_pool_sound_witness:
  "let s = enter_pool 0 (\<lambda>_. 0) 0 ((new_http_system 1 5)\<lparr>hs_users := [Entering]\<rparr>)
   in hs_users s = [Holding ((new_HttpClient 0)\<lparr>hc_pool_leased := True\<rparr>)]
    \<and> c_total_clients (hp_counters (hs_pool s)) = int (length (hp_available (hs_pool s)) + sum_list (map takes (hs_users s)))"
proof -
  let ?s = "(new_http_system 1 5)\<lparr>hs_users := [Entering]\<rparr>"
  have "hp_step (new_http_system 1 5) ?s" using hp_step.call [of "new_http_system 1 5"] by (simp add: new_http_system_def)
  moreover have "hp_step ?s (enter_pool 0 (\<lambda>_. 0) 0 ?s)" by (intro hp_step.work hp_work.enter) simp_all
  ultimately have "hp_step\<^sup>*\<^sup>* (new_http_system 1 5) (enter_pool 0 (\<lambda>_. 0) 0 ?s)"
    by (metis (no_types) r_into_rtranclp rtranclp.rtrancl_into_rtrancl)
  from http_pool_sound [OF this] show ?thesis
    by (simp add: Let_def enter_pool_def acquire_enter_def try_acquire_from_queue_def new_http_system_def new_HttpClientPool_def
        create_connection_def user_becomes_def)
qed

text \<open>
  A slot that becomes free without a connection to hand over wakes nobody: after the only connection broke and
  was given back, no connection exists and one could be opened, but the call that waits can only run into its time limit.
\<close>

definition starved :: "hp_user \<Rightarrow> int \<Rightarrow> http_system" where
  "starved u n = \<lparr>hs_pool = (new_HttpClientPool 1 5)\<lparr>hp_counters := \<lparr>c_total_clients = n, c_active_clients = 0, c_stale_evictions = 0\<rparr>\<rparr>,
     hs_users = [u, Waiting]\<rparr>"

lemma starved_reachable: "hp_step\<^sup>*\<^sup>* (new_http_system 1 5) (starved (Releasing (invalidate (new_HttpClient 0))) 1)"
proof -
  let ?h = "(new_HttpClient 0)\<lparr>hc_pool_leased := True\<rparr>" and ?s0 = "new_http_system 1 5"
  let ?p = "(new_HttpClientPool 1 5)\<lparr>hp_counters := \<lparr>c_total_clients = 1, c_active_clients = 1, c_stale_evictions = 0\<rparr>\<rparr>"
  note unf = new_http_system_def enter_pool_def acquire_enter_def try_acquire_from_queue_def new_HttpClientPool_def create_connection_def
    user_becomes_def start_release_def release_begin_def starved_def invalidate_def new_HttpClient_def Let_def
  have "hp_step\<^sup>*\<^sup>* ?s0 (?s0\<lparr>hs_users := [Entering]\<rparr>)" using r_into_rtranclp [of hp_step, OF hp_step.call [of ?s0]] by (simp add: new_http_system_def)
  also have "hp_step (?s0\<lparr>hs_users := [Entering]\<rparr>) \<lparr>hs_pool = ?p, hs_users = [Holding ?h]\<rparr>"
    using hp_step.work [OF hp_work.enter [of 0 "?s0\<lparr>hs_users := [Entering]\<rparr>" "\<lambda>_. 0" 0]] by (simp add: unf)
  also have "hp_step \<lparr>hs_pool = ?p, hs_users = [Holding ?h]\<rparr> \<lparr>hs_pool = ?p, hs_users = [Holding ?h, Entering]\<rparr>"
    using hp_step.call [of "\<lparr>hs_pool = ?p, hs_users = [Holding ?h]\<rparr>"] by simp
  also have "hp_step \<lparr>hs_pool = ?p, hs_users = [Holding ?h, Entering]\<rparr> \<lparr>hs_pool = ?p, hs_users = [Holding ?h, Waiting]\<rparr>"
    using hp_step.work [OF hp_work.enter [of 1 "\<lparr>hs_pool = ?p, hs_users = [Holding ?h, Entering]\<rparr>" "\<lambda>_. 0" 0]] by (simp add: unf)
  also have "hp_step \<lparr>hs_pool = ?p, hs_users = [Holding ?h, Waiting]\<rparr> \<lparr>hs_pool = ?p, hs_users = [Holding (invalidate ?h), Waiting]\<rparr>"
    using hp_step.exchange [of 0 "\<lparr>hs_pool = ?p, hs_users = [Holding ?h, Waiting]\<rparr>" ?h "invalidate ?h"] by (simp add: unf)
  also have "hp_step \<lparr>hs_pool = ?p, hs_users = [Holding (invalidate ?h), Waiting]\<rparr> (starved (Releasing (invalidate (new_HttpClient 0))) 1)"
    using hp_step.work [OF hp_work.give_back [of 0 "\<lparr>hs_pool = ?p, hs_users = [Holding (invalidate ?h), Waiting]\<rparr>"]] by (simp add: unf)
  finally show ?thesis .
qed

theorem http_pool_starves:
  "\<exists>s. hp_step\<^sup>*\<^sup>* (new_http_system 1 5) s \<and> hs_users s = [Left True, Waiting]
     \<and> c_total_clients (hp_counters (hs_pool s)) < int (hp_max_pool_size (hs_pool s))
     \<and> {t. hp_work s t} = {s\<lparr>hs_users := [Left True, Left False]\<rparr>}"
proof -
  let ?u = "Releasing (invalidate (new_HttpClient 0))" and ?s = "starved (Left True) 0"
  have "hp_step (starved ?u 1) ?s"
    using hp_step.work [OF hp_work.given_back [of 0 "starved ?u 1" "invalidate (new_HttpClient 0)" 0]]
    by (simp add: starved_def finish_release_def user_becomes_def release_locked_def destroy_client_def invalidate_def new_HttpClient_def
        new_HttpClientPool_def)
  with starved_reachable have r: "hp_step\<^sup>*\<^sup>* (new_http_system 1 5) ?s" by (rule rtranclp.rtrancl_into_rtrancl)
  have "hp_work ?s t \<longleftrightarrow> t = ?s\<lparr>hs_users := [Left True, Left False]\<rparr>" for t
  proof
    assume "hp_work ?s t"
    then show "t = ?s\<lparr>hs_users := [Left True, Left False]\<rparr>"
      by (cases rule: hp_work.cases) (auto simp: starved_def user_becomes_def less_Suc_eq new_HttpClientPool_def)
  next
    have "hp_work ?s (user_becomes 1 (Left False) (hs_pool ?s) ?s)" by (rule hp_work.timeout) (simp_all add: starved_def new_HttpClientPool_def)
    then show "t = ?s\<lparr>hs_users := [Left True, Left False]\<rparr> \<Longrightarrow> hp_work ?s t" by (simp add: starved_def user_becomes_def)
  qed
  then show ?thesis using r by (intro exI [of _ ?s]) (auto simp: starved_def new_HttpClientPool_def)
qed

end
