(* ===== verification/Diod_Breaker.thy ===== *)
theory Diod_Breaker
  imports Diod_Machine
begin

text \<open>
  The circuit breaker that protects the HTTP calls to the level 2 servers (\<open>circuit_breaker.hpp\<close>,
  \<open>circuit_breaker.cpp\<close>). The metrics it feeds are the value of the gauge and the labels and counts
  of the counters, when they are set. Every method is taken as one step, although the source has no lock and a method is a
  sequence of atomic operations: calls that overlap are not modelled. \<open>now\<close> is the reading of the
  steady clock in microseconds.
\<close>

datatype cb_State = CB_CLOSED | CB_OPEN | CB_HALF_OPEN

fun cb_State_value :: "cb_State \<Rightarrow> nat" where
  "cb_State_value CB_CLOSED = 0"
| "cb_State_value CB_OPEN = 1"
| "cb_State_value CB_HALF_OPEN = 2"

record CircuitBreaker =
  cb_state :: cb_State
  cb_failure_count :: int
  cb_success_count :: int
  cb_last_failure_time_us :: u64
  cb_gauge :: "nat option"
  cb_transitions :: "string list option"
  cb_rejected :: "nat option"

definition g_failure_threshold :: int where "g_failure_threshold = 5"
definition g_open_timeout_us :: u64 where "g_open_timeout_us = 10000000"
definition g_half_open_success_threshold :: int where "g_half_open_success_threshold = 2"

definition new_CircuitBreaker :: CircuitBreaker where
  "new_CircuitBreaker = \<lparr>cb_state = CB_CLOSED, cb_failure_count = 0, cb_success_count = 0,
     cb_last_failure_time_us = 0, cb_gauge = None, cb_transitions = None, cb_rejected = None\<rparr>"

definition record_transition :: "string \<Rightarrow> CircuitBreaker \<Rightarrow> CircuitBreaker" where
  "record_transition to cb = cb\<lparr>cb_transitions := map_option (\<lambda>ts. ts @ [to]) (cb_transitions cb)\<rparr>"

definition update_gauge :: "CircuitBreaker \<Rightarrow> CircuitBreaker" where
  "update_gauge cb = cb\<lparr>cb_gauge := map_option (\<lambda>_. cb_State_value (cb_state cb)) (cb_gauge cb)\<rparr>"

definition set_gauge :: "CircuitBreaker \<Rightarrow> CircuitBreaker" where
  "set_gauge cb = update_gauge (cb\<lparr>cb_gauge := Some 0\<rparr>)"

definition set_counters :: "CircuitBreaker \<Rightarrow> CircuitBreaker" where
  "set_counters cb = cb\<lparr>cb_transitions := Some [], cb_rejected := Some 0\<rparr>"

definition transition_to_open :: "u64 \<Rightarrow> CircuitBreaker \<Rightarrow> CircuitBreaker" where
  "transition_to_open now cb =
     update_gauge ((record_transition ''open'' cb)
       \<lparr>cb_last_failure_time_us := now, cb_state := CB_OPEN, cb_success_count := 0\<rparr>)"

definition allow_request :: "u64 \<Rightarrow> CircuitBreaker \<Rightarrow> bool \<times> CircuitBreaker" where
  "allow_request now cb =
     (if cb_state cb = CB_CLOSED then (True, cb)
      else if cb_state cb = CB_HALF_OPEN then (True, cb)
      else
       (let elapsed = now - cb_last_failure_time_us cb
        in if elapsed \<ge> g_open_timeout_us
           then (True, update_gauge ((record_transition ''half_open'' cb)
                         \<lparr>cb_state := CB_HALF_OPEN, cb_success_count := 0\<rparr>))
           else (False, cb\<lparr>cb_rejected := map_option Suc (cb_rejected cb)\<rparr>)))"

definition record_success :: "CircuitBreaker \<Rightarrow> CircuitBreaker" where
  "record_success cb =
     (if cb_state cb = CB_HALF_OPEN then
        (let count = cb_success_count cb + 1;
             cb1 = cb\<lparr>cb_success_count := count\<rparr>
         in if count \<ge> g_half_open_success_threshold
            then update_gauge ((record_transition ''closed'' cb1)
                   \<lparr>cb_state := CB_CLOSED, cb_failure_count := 0, cb_success_count := 0\<rparr>)
            else cb1)
      else if cb_state cb = CB_CLOSED then cb\<lparr>cb_failure_count := 0\<rparr>
      else cb)"

definition record_failure :: "u64 \<Rightarrow> CircuitBreaker \<Rightarrow> CircuitBreaker" where
  "record_failure now cb =
     (if cb_state cb = CB_HALF_OPEN then transition_to_open now cb
      else if cb_state cb = CB_CLOSED then
        (let count = cb_failure_count cb + 1;
             cb1 = cb\<lparr>cb_failure_count := count\<rparr>
         in if count \<ge> g_failure_threshold then transition_to_open now cb1 else cb1)
      else cb)"

fun state_name :: "cb_State \<Rightarrow> string" where
  "state_name CB_CLOSED = ''CLOSED''"
| "state_name CB_OPEN = ''OPEN''"
| "state_name CB_HALF_OPEN = ''HALF_OPEN''"

section \<open>Sequences of calls\<close>

datatype cb_call = Allow u64 | Success | Failure u64

fun cb_step :: "cb_call \<Rightarrow> CircuitBreaker \<Rightarrow> CircuitBreaker" where
  "cb_step (Allow now) cb = snd (allow_request now cb)"
| "cb_step Success cb = record_success cb"
| "cb_step (Failure now) cb = record_failure now cb"

definition cb_inv :: "CircuitBreaker \<Rightarrow> bool" where
  "cb_inv cb \<longleftrightarrow>
     (case cb_state cb of
        CB_CLOSED \<Rightarrow> 0 \<le> cb_failure_count cb \<and> cb_failure_count cb < g_failure_threshold \<and> cb_success_count cb = 0
      | CB_OPEN \<Rightarrow> cb_success_count cb = 0 \<and> cb_failure_count cb = g_failure_threshold
      | CB_HALF_OPEN \<Rightarrow> 0 \<le> cb_success_count cb \<and> cb_success_count cb < g_half_open_success_threshold
          \<and> cb_failure_count cb = g_failure_threshold)
     \<and> pred_option (\<lambda>g. g = cb_State_value (cb_state cb)) (cb_gauge cb)"

text \<open>
  The specification: closed with the number of failures since the last success, open since a
  time, or probing with the number of successful probes.
\<close>

datatype breaker = Closed nat | Open u64 | Probing nat

fun breaker_step :: "cb_call \<Rightarrow> breaker \<Rightarrow> breaker" where
  "breaker_step (Failure now) (Closed n) = (if Suc n = 5 then Open now else Closed (Suc n))"
| "breaker_step Success (Closed n) = Closed 0"
| "breaker_step (Allow now) (Open t) = (if now - t \<ge> 10000000 then Probing 0 else Open t)"
| "breaker_step Success (Probing k) = (if k = 1 then Closed 0 else Probing (Suc k))"
| "breaker_step (Failure now) (Probing k) = Open now"
| "breaker_step _ b = b"

definition breaker_of :: "CircuitBreaker \<Rightarrow> breaker" where
  "breaker_of cb =
     (case cb_state cb of
        CB_CLOSED \<Rightarrow> Closed (nat (cb_failure_count cb))
      | CB_OPEN \<Rightarrow> Open (cb_last_failure_time_us cb)
      | CB_HALF_OPEN \<Rightarrow> Probing (nat (cb_success_count cb)))"

lemmas cb_defs = allow_request_def record_success_def record_failure_def transition_to_open_def
  update_gauge_def record_transition_def Let_def g_failure_threshold_def g_half_open_success_threshold_def
  g_open_timeout_us_def

lemma cb_inv_step: "cb_inv cb \<Longrightarrow> cb_inv (cb_step e cb)"
  by (cases e; cases "cb_state cb"; cases "cb_gauge cb") (auto simp: cb_inv_def cb_defs)

lemma cb_refine_step: "cb_inv cb \<Longrightarrow> breaker_of (cb_step e cb) = breaker_step e (breaker_of cb)"
proof (cases e)
  case Success
  assume "cb_inv cb"
  with Success show ?thesis
    by (cases "cb_state cb") (auto simp: cb_inv_def cb_defs breaker_of_def nat_add_distrib)
next
  case (Failure now)
  assume "cb_inv cb"
  with Failure show ?thesis
    by (cases "cb_state cb") (auto simp: cb_inv_def cb_defs breaker_of_def nat_add_distrib)
qed (cases "cb_state cb", auto simp: cb_inv_def cb_defs breaker_of_def)

interpretation cb: refining_machine cb_step "\<lambda>_ _. True" cb_inv breaker_step breaker_of
  by unfold_locales (auto intro: cb_inv_step cb_refine_step)

section \<open>Properties\<close>

text \<open>
  Property C25. The breaker implements its specification: over any sequence of calls from a new
  breaker it goes from closed to open at the fifth failure in a row, from open to probing at the
  first request at least ten seconds after it opened, from probing to closed at the second success
  and back to open at a failure. The counters stay in their ranges, and a gauge that is set shows
  the state.
\<close>

theorem breaker_refines:
  "let cb = fold cb_step es new_CircuitBreaker
   in breaker_of cb = fold breaker_step es (Closed 0) \<and> cb_inv cb \<and> cb_inv (fold cb_step es (set_gauge new_CircuitBreaker))"
proof -
  have i: "cb_inv new_CircuitBreaker" "cb_inv (set_gauge new_CircuitBreaker)" "breaker_of new_CircuitBreaker = Closed 0"
    by (simp_all add: cb_inv_def new_CircuitBreaker_def set_gauge_def update_gauge_def g_failure_threshold_def breaker_of_def)
  show ?thesis using cb.inv_run [OF i(1)] cb.inv_run [OF i(2)] cb.refine_run [OF i(1)] i(3) by (simp add: Let_def)
qed

text \<open>A call whose clock reading is in the open window.\<close>

definition in_window :: "u64 \<Rightarrow> cb_call \<Rightarrow> bool" where
  "in_window t e \<longleftrightarrow>
     (case e of Allow now \<Rightarrow> t \<le> now \<and> unat now < unat t + 10000000 | Failure now \<Rightarrow> True | Success \<Rightarrow> True)"

lemma open_window_step:
  assumes "cb_state cb = CB_OPEN" "cb_last_failure_time_us cb = t" "in_window t e"
  shows "cb_state (cb_step e cb) = CB_OPEN \<and> cb_last_failure_time_us (cb_step e cb) = t"
proof (cases e)
  case (Allow now)
  with assms(3) have w: "unat (now - t) < 10000000"
    using unat_elapsed [of t now] by (simp add: in_window_def) linarith
  then have "\<not> g_open_timeout_us \<le> now - t" by (simp add: word_le_nat_alt g_open_timeout_us_def)
  with Allow assms show ?thesis by (simp add: allow_request_def Let_def)
qed (use assms in \<open>auto simp: record_success_def record_failure_def\<close>)

text \<open>
  While the breaker is open it rejects: from the call that opened it at time \<open>t\<close>, and
  whatever successes and failures of requests still in flight are recorded, no request is let
  through during ten seconds, and late failures do not extend that window. The first request after
  it is let through.
\<close>

theorem breaker_open_window:
  assumes "cb_state cb = CB_OPEN" "cb_last_failure_time_us cb = t" "list_all (in_window t) es"
    and "t \<le> now"
  shows "fst (allow_request now (fold cb_step es cb)) \<longleftrightarrow> unat t + 10000000 \<le> unat now"
proof -
  have "cb_state (fold cb_step es cb) = CB_OPEN \<and> cb_last_failure_time_us (fold cb_step es cb) = t"
    using assms(1,2,3)
  proof (induction es arbitrary: cb)
    case (Cons e es)
    then show ?case using open_window_step [of cb t e] by simp
  qed simp
  moreover have "g_open_timeout_us \<le> now - t \<longleftrightarrow> unat t + 10000000 \<le> unat now"
    using unat_elapsed [OF assms(4)] assms(4)
    by (simp add: word_le_nat_alt g_open_timeout_us_def) linarith
  ultimately show ?thesis by (simp add: allow_request_def Let_def)
qed

theorem breaker_open_window_witness:
  "fst (allow_request 5000000 (fold cb_step [Success, Failure 200, Allow 4000000] (transition_to_open 100 new_CircuitBreaker))) = False"
proof -
  have "cb_state (transition_to_open 100 new_CircuitBreaker) = CB_OPEN"
    "cb_last_failure_time_us (transition_to_open 100 new_CircuitBreaker) = 100"
    by (simp_all add: cb_defs)
  from breaker_open_window [OF this, of "[Success, Failure 200, Allow 4000000]" 5000000]
  show ?thesis by (simp add: in_window_def)
qed

end
