(* ===== verification/Diod_Dedup.thy ===== *)
theory Diod_Dedup
  imports Diod_Machine Diod_Lru
begin

text \<open>
  The cache of responses by request id (\<open>dedup_cache.hpp\<close>), with which a worker answers a repeated
  request without doing the work again. Both methods read the clock before they take the mutex, so the
  readings of two calls may come out of order: no theorem here assumes that they do not. \<open>None\<close> is
  undefined behaviour, or the loop of \<open>store\<close> that would never end.
\<close>

record dd_Entry =
  m_response :: string
  m_expires_at_ms :: u64
  m_order_iter :: nat

record DedupCache =
  m_enabled :: bool
  m_max_entries :: nat
  m_ttl_ms :: u64
  m_entries :: "(string \<times> dd_Entry) list"
  m_order :: "(nat \<times> string) list"
  m_next_node :: nat

definition dedup_default_max :: nat where "dedup_default_max = 4096"
definition dedup_default_ttl :: u64 where "dedup_default_ttl = 60000"

definition new_DedupCache :: "bool \<Rightarrow> nat \<Rightarrow> u64 \<Rightarrow> DedupCache" where
  "new_DedupCache enabled max_entries ttl_ms =
     \<lparr>m_enabled = enabled, m_max_entries = max_entries, m_ttl_ms = ttl_ms, m_entries = [], m_order = [], m_next_node = 0\<rparr>"

definition find_response :: "u64 \<Rightarrow> string \<Rightarrow> DedupCache \<Rightarrow> (string option \<times> DedupCache) option" where
  "find_response now_ms request_id s =
     (if \<not> m_enabled s then Some (None, s)
      else case map_of (m_entries s) request_id of
        None \<Rightarrow> Some (None, s)
      | Some e \<Rightarrow>
          if m_expires_at_ms e \<le> now_ms then
            map_option (\<lambda>l. (None, s\<lparr>m_order := l, m_entries := map_erase request_id (m_entries s)\<rparr>))
              (list_erase (m_order_iter e) (m_order s))
          else Some (Some (m_response e), s))"

fun evict_expired_locked ::
  "u64 \<Rightarrow> (string \<times> dd_Entry) list \<Rightarrow> (nat \<times> string) list \<Rightarrow> (string \<times> dd_Entry) list \<times> (nat \<times> string) list" where
  "evict_expired_locked now_ms m [] = (m, [])"
| "evict_expired_locked now_ms m ((n, k) # l) =
     (case map_of m k of
        None \<Rightarrow> (m, (n, k) # l)
      | Some e \<Rightarrow> if m_expires_at_ms e > now_ms then (m, (n, k) # l)
                  else evict_expired_locked now_ms (map_erase k m) l)"

fun evict_oldest_locked ::
  "(string \<times> dd_Entry) list \<Rightarrow> (nat \<times> string) list \<Rightarrow> (string \<times> dd_Entry) list \<times> (nat \<times> string) list" where
  "evict_oldest_locked m [] = (m, [])"
| "evict_oldest_locked m ((n, k) # l) = (map_erase k m, l)"

text \<open>The loop that makes room; with an empty list and a full map it would run forever.\<close>

fun evict_to ::
  "nat \<Rightarrow> (string \<times> dd_Entry) list \<Rightarrow> (nat \<times> string) list \<Rightarrow> ((string \<times> dd_Entry) list \<times> (nat \<times> string) list) option" where
  "evict_to max_entries m [] = (if length m \<ge> max_entries then None else Some (m, []))"
| "evict_to max_entries m ((n, k) # l) =
     (if length m \<ge> max_entries then evict_to max_entries (fst (evict_oldest_locked m ((n, k) # l))) l
      else Some (m, (n, k) # l))"

definition store :: "u64 \<Rightarrow> string \<Rightarrow> string \<Rightarrow> DedupCache \<Rightarrow> DedupCache option" where
  "store now_ms request_id response_json s =
     (if \<not> m_enabled s then Some s
      else let (m, l) = evict_expired_locked now_ms (m_entries s) (m_order s)
           in case map_of m request_id of
                Some e \<Rightarrow>
                  map_option (\<lambda>l'. s\<lparr>m_entries := map_modify request_id
                       (\<lambda>e. e\<lparr>m_response := response_json, m_expires_at_ms := now_ms + m_ttl_ms s\<rparr>) m, m_order := l'\<rparr>)
                   (splice_end (m_order_iter e) l)
              | None \<Rightarrow>
                  map_option (\<lambda>(m', l').
                     s\<lparr>m_entries := m' @ [(request_id, \<lparr>m_response = response_json,
                          m_expires_at_ms = now_ms + m_ttl_ms s, m_order_iter = m_next_node s\<rparr>)],
                       m_order := l' @ [(m_next_node s, request_id)], m_next_node := Suc (m_next_node s)\<rparr>)
                   (if m_max_entries s \<noteq> 0 then evict_to (m_max_entries s) m l else Some (m, l)))"

section \<open>Invariant\<close>

definition dd_inv :: "DedupCache \<Rightarrow> bool" where
  "dd_inv s \<longleftrightarrow>
     lru_rep m_order_iter (m_entries s) (m_order s) \<and> (\<forall>n \<in> fst ` set (m_order s). n < m_next_node s)
   \<and> (m_max_entries s \<noteq> 0 \<longrightarrow> length (m_entries s) \<le> m_max_entries s)"

text \<open>Both evictions drop a prefix of the list and the entries of that prefix.\<close>

definition dropped :: "(string \<times> dd_Entry) list \<Rightarrow> (nat \<times> string) list \<Rightarrow> (string \<times> dd_Entry) list \<Rightarrow> (nat \<times> string) list \<Rightarrow> bool" where
  "dropped m l m' l' \<longleftrightarrow>
     lru_rep m_order_iter m' l' \<and> (\<exists>pre. l = pre @ l') \<and> map_of m' = map_of m |` (snd ` set l')"

lemma dropped_refl: "lru_rep m_order_iter m l \<Longrightarrow> dropped m l m l"
proof -
  assume r: "lru_rep m_order_iter m l"
  have "map_of m k = None" if "k \<notin> snd ` set l" for k
    using that lru_rep_find [OF r, of k] by (cases "map_of m k") force+
  then have "map_of m = map_of m |` (snd ` set l)" by (auto simp: restrict_map_def fun_eq_iff)
  then show ?thesis using r by (simp add: dropped_def)
qed

lemma dropped_pop:
  assumes "lru_rep m_order_iter m ((n, k) # l)" "dropped (map_erase k m) l m' l'"
  shows "dropped m ((n, k) # l) m' l'"
proof -
  obtain pre where pre: "l = pre @ l'" using assms(2) by (auto simp: dropped_def)
  have "k \<notin> snd ` set l" using assms(1) by (simp add: lru_rep_def)
  then have "k \<notin> snd ` set l'" using pre by auto
  then have "map_of m' = map_of m |` (snd ` set l')"
    using assms(2) lru_rep_map_erase [OF assms(1), of k] by (auto simp: dropped_def restrict_map_def fun_eq_iff)
  moreover have "\<exists>p. (n, k) # l = p @ l'" using pre by (intro exI [of _ "(n, k) # pre"]) simp
  ultimately show ?thesis using assms(2) by (simp add: dropped_def)
qed

lemma evict_expired_dropped:
  "lru_rep m_order_iter m l \<Longrightarrow> evict_expired_locked now m l = (m', l') \<Longrightarrow> dropped m l m' l'"
proof (induction now m l rule: evict_expired_locked.induct)
  case (2 now m n k l)
  then show ?case
    using lru_rep_pop [OF 2(2)] dropped_refl [OF 2(2)] dropped_pop [OF 2(2)]
    by (auto split: option.splits if_splits)
qed (auto simp: dropped_refl)

lemma evict_to_dropped:
  "lru_rep m_order_iter m l \<Longrightarrow> 0 < max_entries \<Longrightarrow>
   \<exists>m' l'. evict_to max_entries m l = Some (m', l') \<and> dropped m l m' l' \<and> length m' < max_entries"
proof (induction max_entries m l rule: evict_to.induct)
  case (1 max_entries m)
  then show ?case using lru_rep_length [OF 1(1)] by (auto simp: dropped_refl)
next
  case (2 max_entries m n k l)
  show ?case
  proof (cases "length m \<ge> max_entries")
    case True
    then obtain m' l' where "evict_to max_entries (map_erase k m) l = Some (m', l')" "dropped (map_erase k m) l m' l'" "length m' < max_entries"
      using 2(1) [OF True] lru_rep_pop [OF 2(2)] 2(3) by auto
    with True show ?thesis using dropped_pop [OF 2(2)] by auto
  next
    case False
    then show ?thesis using dropped_refl [OF 2(2)] by auto
  qed
qed

lemma evict_expired_keeps:
  assumes "lru_rep m_order_iter m l" "(n, k) \<in> set l" "map_of m k = Some e" "now < m_expires_at_ms e"
  shows "(n, k) \<in> set (snd (evict_expired_locked now m l))"
  using assms
proof (induction now m l rule: evict_expired_locked.induct)
  case (2 now m n' k' l)
  show ?case
  proof (cases "k = k'")
    case True
    then show ?thesis using 2(3-5) by simp
  next
    case False
    with 2(3,4) lru_rep_map_erase [OF 2(2), of k'] have "(n, k) \<in> set l" "map_of (map_erase k' m) k = Some e" by auto
    then show ?thesis using 2(1) lru_rep_pop [OF 2(2)] 2(3,5) by (auto split: option.splits)
  qed
qed simp

lemma evict_to_keeps:
  "lru_rep m_order_iter m (pre @ (n, k) # post) \<Longrightarrow> Suc (length post) < max_entries \<Longrightarrow>
   evict_to max_entries m (pre @ (n, k) # post) = Some (m', l') \<Longrightarrow> (n, k) \<in> set l'"
proof (induction pre arbitrary: m)
  case Nil
  then show ?case using lru_rep_length [OF Nil(1)] by auto
next
  case (Cons p pre)
  obtain n1 k1 where p: "p = (n1, k1)" by (cases p)
  have "lru_rep m_order_iter (map_erase k1 m) (pre @ (n, k) # post)" using lru_rep_pop Cons(2) p by simp
  from Cons(1) [OF this Cons(3)] Cons(4) p show ?case by (auto split: if_splits)
qed

lemma dropped_trans:
  assumes "dropped m l m1 l1" "dropped m1 l1 m2 l2" shows "dropped m l m2 l2"
proof -
  obtain p q where "l = p @ l1" "l1 = q @ l2" using assms by (auto simp: dropped_def)
  then have "l = (p @ q) @ l2" "snd ` set l2 \<subseteq> snd ` set l1" by auto
  then show ?thesis using assms by (auto simp: dropped_def Int_absorb1)
qed

lemma dropped_length: "dropped m l m' l' \<Longrightarrow> lru_rep m_order_iter m l \<Longrightarrow> length m' \<le> length m"
  using lru_rep_length [of m_order_iter m l] lru_rep_length [of m_order_iter m' l'] by (auto simp: dropped_def)

lemma dropped_nodes: "dropped m l m' l' \<Longrightarrow> set l' \<subseteq> set l"
  by (auto simp: dropped_def)

lemma suffix_split:
  assumes "pre @ (i, k) # post = p @ l" "(i, k) \<in> set l" "distinct (pre @ (i, k) # post)"
  shows "\<exists>pre'. l = pre' @ (i, k) # post"
proof -
  obtain u v where l: "l = u @ (i, k) # v" using assms(2) by (meson split_list)
  with assms(1) have "pre @ (i, k) # post = (p @ u) @ (i, k) # v" by simp
  then have "post = v" using assms(3) append_Cons_eq_iff [of "(i, k)" pre post "p @ u" v]
    by (metis distinct.simps(2) distinct_append disjoint_iff list.set_intros(1))
  with l show ?thesis by blast
qed

text \<open>
  What \<open>store\<close> does to a well-formed cache: some entries at the front leave, the id is bound to the
  new response, and it goes to the back of the list. An entry that has not expired leaves only when
  the cache is full and all the others are behind it.
\<close>

definition kept_if_room :: "u64 \<Rightarrow> DedupCache \<Rightarrow> (nat \<times> string) list \<Rightarrow> bool" where
  "kept_if_room now s l \<longleftrightarrow>
     (\<forall>pre i k post e. m_order s = pre @ (i, k) # post \<longrightarrow> map_of (m_entries s) k = Some e \<longrightarrow> now < m_expires_at_ms e
        \<longrightarrow> m_max_entries s = 0 \<or> Suc (length post) < m_max_entries s \<longrightarrow> (i, k) \<in> set l)"

definition stored :: "u64 \<Rightarrow> string \<Rightarrow> string \<Rightarrow> DedupCache \<Rightarrow> DedupCache \<Rightarrow> (nat \<times> string) list \<Rightarrow> bool" where
  "stored now rid r s t l \<longleftrightarrow>
     (\<exists>m n. dropped (m_entries s) (m_order s) m l \<and> dd_inv t
      \<and> m_order t = filter (\<lambda>p. snd p \<noteq> rid) l @ [(n, rid)]
      \<and> map_of (m_entries t) = (map_of m)(rid \<mapsto> \<lparr>m_response = r, m_expires_at_ms = now + m_ttl_ms s, m_order_iter = n\<rparr>)
      \<and> m_enabled t = m_enabled s \<and> m_ttl_ms t = m_ttl_ms s \<and> m_max_entries t = m_max_entries s)"

lemma filter_node_key:
  assumes "lru_rep nd m l" "(n, k) \<in> set l"
  shows "filter (\<lambda>p. fst p \<noteq> n) l @ filter (\<lambda>p. fst p = n) l = filter (\<lambda>p. snd p \<noteq> k) l @ [(n, k)]"
proof -
  have d: "distinct (map fst l)" "distinct (map snd l)" using assms(1) by (simp_all add: lru_rep_def)
  have "p \<in> set l \<Longrightarrow> fst p \<noteq> n \<longleftrightarrow> snd p \<noteq> k" for p
    using distinct_fst_unique [OF d(1) assms(2), of "snd p"] distinct_snd_unique [OF d(2) assms(2), of "fst p"]
    by (cases p) auto
  then have "filter (\<lambda>p. fst p \<noteq> n) l = filter (\<lambda>p. snd p \<noteq> k) l" by (intro filter_cong) auto
  then show ?thesis using filter_node [OF d(1) assms(2)] by simp
qed

lemma store_found:
  fixes now :: u64 and r :: string
  assumes "dd_inv s" "dropped (m_entries s) (m_order s) m l" "map_of m rid = Some e"
  defines "f \<equiv> \<lambda>e :: dd_Entry. e\<lparr>m_response := r, m_expires_at_ms := now + m_ttl_ms s\<rparr>"
  shows "\<exists>l'. splice_end (m_order_iter e) l = Some l'
     \<and> stored now rid r s (s\<lparr>m_entries := map_modify rid f m, m_order := l'\<rparr>) l"
proof -
  have rep: "lru_rep m_order_iter m l" using assms(2) by (simp add: dropped_def)
  have rs: "lru_rep m_order_iter (m_entries s) (m_order s)" using assms(1) by (simp add: dd_inv_def)
  have n: "(m_order_iter e, rid) \<in> set l" by (rule lru_rep_find [OF rep assms(3)])
  let ?l = "filter (\<lambda>p. snd p \<noteq> rid) l @ [(m_order_iter e, rid)]"
  have sp: "splice_end (m_order_iter e) l = Some ?l"
    using n filter_node_key [OF rep n] by (force simp: splice_end_def has_node_def)
  have small: "\<forall>x \<in> set l. fst x < m_next_node s"
    using assms(1) dropped_nodes [OF assms(2)] unfolding dd_inv_def by blast
  have "lru_rep m_order_iter (map_modify rid f m) ?l"
    using lru_rep_modify [OF lru_rep_splice [OF rep, of "m_order_iter e"], of f rid] filter_node_key [OF rep n] by (simp add: f_def)
  moreover have "length (map_modify rid f m) \<le> length (m_entries s)"
    using dropped_length [OF assms(2) rs] by (simp add: map_modify_def)
  moreover have "\<forall>x \<in> set ?l. fst x < m_next_node s" using small bspec [OF small n] by simp
  ultimately have inv: "dd_inv (s\<lparr>m_entries := map_modify rid f m, m_order := ?l\<rparr>)"
    using assms(1) unfolding dd_inv_def by (simp; linarith)
  have "map_of (map_modify rid f m) = (map_of m)(rid \<mapsto> \<lparr>m_response = r, m_expires_at_ms = now + m_ttl_ms s, m_order_iter = m_order_iter e\<rparr>)"
    using assms(3) by (cases e) (simp add: map_of_modify f_def)
  then have "stored now rid r s (s\<lparr>m_entries := map_modify rid f m, m_order := ?l\<rparr>) l"
    using assms(2) inv unfolding stored_def by (intro exI [of _ m] exI [of _ "m_order_iter e"]) simp
  with sp show ?thesis by blast
qed

lemma store_new:
  assumes "dd_inv s" "dropped (m_entries s) (m_order s) m l" "map_of m rid = None"
    and "m_max_entries s \<noteq> 0 \<longrightarrow> length m < m_max_entries s"
  shows "stored now rid r s (s\<lparr>m_entries := m @ [(rid, \<lparr>m_response = r, m_expires_at_ms = now + m_ttl_ms s, m_order_iter = m_next_node s\<rparr>)],
     m_order := l @ [(m_next_node s, rid)], m_next_node := Suc (m_next_node s)\<rparr>) l"
proof -
  let ?e = "\<lparr>m_response = r, m_expires_at_ms = now + m_ttl_ms s, m_order_iter = m_next_node s\<rparr>"
  have rep: "lru_rep m_order_iter m l" using assms(2) by (simp add: dropped_def)
  have fresh: "\<forall>n \<in> fst ` set l. n < m_next_node s"
    using assms(1) dropped_nodes [OF assms(2)] by (auto simp: dd_inv_def)
  have "lru_rep m_order_iter (m @ [(rid, ?e)]) (l @ [(m_next_node s, rid)])"
    by (rule lru_rep_append [OF rep assms(3) fresh]) simp
  moreover have "filter (\<lambda>p. snd p \<noteq> rid) l = l"
    using lru_rep_member [OF rep] assms(3) by (fastforce simp: filter_id_conv)
  moreover have "map_of (m @ [(rid, ?e)]) = (map_of m)(rid \<mapsto> ?e)"
    using assms(3) by (auto simp: map_add_def fun_eq_iff split: option.splits)
  ultimately show ?thesis using assms(2,4) fresh unfolding stored_def
    by (intro exI [of _ m] exI [of _ "m_next_node s"]) (auto simp: dd_inv_def less_Suc_eq)
qed

lemma store_effect:
  assumes "dd_inv s" "m_enabled s"
  shows "\<exists>t l. store now rid r s = Some t \<and> stored now rid r s t l \<and> kept_if_room now s l"
proof -
  have rs: "lru_rep m_order_iter (m_entries s) (m_order s)" using assms(1) by (simp add: dd_inv_def)
  obtain m l where ev: "evict_expired_locked now (m_entries s) (m_order s) = (m, l)" by fastforce
  have d: "dropped (m_entries s) (m_order s) m l" by (rule evict_expired_dropped [OF rs ev])
  then have rep: "lru_rep m_order_iter m l" by (simp add: dropped_def)
  have keep: "(i, k) \<in> set l" if "m_order s = pre @ (i, k) # post" "map_of (m_entries s) k = Some e" "now < m_expires_at_ms e" for pre i k post e
    using evict_expired_keeps [OF rs, of i k e now] that ev by simp
  show ?thesis
  proof (cases "map_of m rid")
    case (Some e)
    have "kept_if_room now s l" using keep unfolding kept_if_room_def by blast
    with store_found [OF assms(1) d Some, of now r] Some ev assms(2) show ?thesis by (auto simp: store_def)
  next
    case None
    let ?room = "if m_max_entries s \<noteq> 0 then evict_to (m_max_entries s) m l else Some (m, l)"
    obtain m1 l1 where r1: "?room = Some (m1, l1)" "dropped m l m1 l1" "m_max_entries s \<noteq> 0 \<longrightarrow> length m1 < m_max_entries s"
      using evict_to_dropped [OF rep, of "m_max_entries s"] dropped_refl [OF rep] by (cases "m_max_entries s = 0") auto
    have n1: "map_of m1 rid = None" using None r1(2) by (auto simp: dropped_def restrict_map_def)
    have "(i, k) \<in> set l1"
      if o: "m_order s = pre @ (i, k) # post" "map_of (m_entries s) k = Some e" "now < m_expires_at_ms e"
        and big: "m_max_entries s = 0 \<or> Suc (length post) < m_max_entries s" for pre i k post e
    proof -
      obtain p where p: "m_order s = p @ l" using d by (auto simp: dropped_def)
      have "distinct (map fst (m_order s))" using rs by (simp add: lru_rep_def)
      then have dist: "distinct (m_order s)" by (simp add: distinct_map)
      obtain pre' where "l = pre' @ (i, k) # post"
        using suffix_split [of pre i k post p l, OF _ keep [OF o]] o(1) p dist by metis
      then show ?thesis using big r1(1) rep evict_to_keeps [of m pre' i k post "m_max_entries s" m1 l1]
        by (auto split: if_splits)
    qed
    then have "kept_if_room now s l1" unfolding kept_if_room_def by blast
    moreover have "stored now rid r s (s\<lparr>m_entries := m1 @ [(rid, \<lparr>m_response = r, m_expires_at_ms = now + m_ttl_ms s, m_order_iter = m_next_node s\<rparr>)],
     m_order := l1 @ [(m_next_node s, rid)], m_next_node := Suc (m_next_node s)\<rparr>) l1" (is "stored now rid r s ?t l1")
      by (rule store_new [OF assms(1) dropped_trans [OF d r1(2)] n1 r1(3)])
    moreover have "store now rid r s = Some ?t" unfolding store_def using ev None r1(1) assms(2) by (simp only: Let_def split_beta fst_conv snd_conv) simp
    ultimately show ?thesis by blast
  qed
qed

lemma find_effect:
  assumes "dd_inv s"
  shows "\<exists>t. find_response now rid s =
       Some (if m_enabled s then (case map_of (m_entries s) rid of Some e \<Rightarrow> if now < m_expires_at_ms e then Some (m_response e) else None | None \<Rightarrow> None) else None, t)
     \<and> dd_inv t \<and> (t = s \<or> (\<exists>n e. map_of (m_entries s) rid = Some e \<and> m_expires_at_ms e \<le> now
        \<and> map_of (m_entries t) = (map_of (m_entries s))(rid := None) \<and> m_order t = filter (\<lambda>p. fst p \<noteq> n) (m_order s) \<and> (n, rid) \<in> set (m_order s)
        \<and> m_enabled t = m_enabled s \<and> m_ttl_ms t = m_ttl_ms s \<and> m_max_entries t = m_max_entries s))"
proof (cases "map_of (m_entries s) rid")
  case None
  then show ?thesis using assms by (simp add: find_response_def)
next
  case (Some e)
  have rep: "lru_rep m_order_iter (m_entries s) (m_order s)" using assms by (simp add: dd_inv_def)
  show ?thesis
  proof (cases "m_enabled s \<and> m_expires_at_ms e \<le> now")
    case True
    have n: "(m_order_iter e, rid) \<in> set (m_order s)" by (rule lru_rep_find [OF rep Some])
    let ?t = "s\<lparr>m_order := filter (\<lambda>p. fst p \<noteq> m_order_iter e) (m_order s), m_entries := map_erase rid (m_entries s)\<rparr>"
    have "find_response now rid s = Some (None, ?t)"
      using Some True n by (force simp: find_response_def list_erase_def has_node_def)
    moreover have "dd_inv ?t"
      using lru_rep_erase [OF rep n] assms length_filter_le [of "\<lambda>p. fst p \<noteq> rid" "m_entries s"]
      by (auto simp: dd_inv_def map_erase_def simp del: length_filter_le)
    ultimately show ?thesis using Some True n lru_rep_map_erase [OF rep, of rid]
      by (intro exI [of _ ?t]) (auto simp: linorder_not_less)
  next
    case False
    then show ?thesis using assms Some by (auto simp: find_response_def)
  qed
qed

section \<open>Sequences of calls\<close>

datatype dd_call = Find u64 string | Store u64 string string

fun dd_step :: "dd_call \<Rightarrow> DedupCache option \<Rightarrow> DedupCache option" where
  "dd_step c None = None"
| "dd_step (Find now rid) (Some s) = map_option snd (find_response now rid s)"
| "dd_step (Store now rid r) (Some s) = store now rid r s"

text \<open>The specification: what was stored last under an id, and when.\<close>

fun note_store :: "dd_call \<Rightarrow> (string \<rightharpoonup> string \<times> u64) \<Rightarrow> (string \<rightharpoonup> string \<times> u64)" where
  "note_store (Find now rid) h = h"
| "note_store (Store now rid r) h = h(rid \<mapsto> (r, now))"

definition backed :: "(string \<rightharpoonup> string \<times> u64) \<Rightarrow> DedupCache \<Rightarrow> bool" where
  "backed h s \<longleftrightarrow>
     (\<forall>k e. map_of (m_entries s) k = Some e \<longrightarrow>
        m_enabled s \<and> (\<exists>t. h k = Some (m_response e, t) \<and> m_expires_at_ms e = t + m_ttl_ms s))"

definition dd_ok :: "bool \<Rightarrow> nat \<Rightarrow> u64 \<Rightarrow> DedupCache option \<times> (string \<rightharpoonup> string \<times> u64) \<Rightarrow> bool" where
  "dd_ok enabled max_entries ttl sh \<longleftrightarrow>
     (\<exists>s. fst sh = Some s \<and> dd_inv s \<and> m_enabled s = enabled \<and> m_max_entries s = max_entries \<and> m_ttl_ms s = ttl
        \<and> backed (snd sh) s)"

lemma backed_weaken:
  "backed h s \<Longrightarrow> m_enabled t = m_enabled s \<Longrightarrow> m_ttl_ms t = m_ttl_ms s \<Longrightarrow> map_of (m_entries t) \<subseteq>\<^sub>m map_of (m_entries s) \<Longrightarrow> backed h t"
  unfolding backed_def map_le_def by (metis domI)

lemma dropped_map_le: "dropped m l m' l' \<Longrightarrow> map_of m' \<subseteq>\<^sub>m map_of m"
  by (auto simp: dropped_def map_le_def restrict_map_def)

lemma dd_step_find:
  assumes "dd_inv s" "backed h s"
  shows "\<exists>t. dd_step (Find now rid) (Some s) = Some t \<and> dd_inv t \<and> backed h t
     \<and> m_enabled t = m_enabled s \<and> m_ttl_ms t = m_ttl_ms s \<and> m_max_entries t = m_max_entries s"
proof -
  obtain a t where t: "find_response now rid s = Some (a, t)" "dd_inv t"
       "t = s \<or> map_of (m_entries t) = (map_of (m_entries s))(rid := None)
          \<and> m_enabled t = m_enabled s \<and> m_ttl_ms t = m_ttl_ms s \<and> m_max_entries t = m_max_entries s"
    using find_effect [OF assms(1), of now rid] by blast
  then have "backed h t"
  proof (cases "t = s")
    case False
    with t(3) have "map_of (m_entries t) \<subseteq>\<^sub>m map_of (m_entries s)" by (simp add: map_le_def)
    with False t(3) assms(2) show ?thesis by (blast intro: backed_weaken)
  qed (use assms(2) in simp)
  with t show ?thesis by auto
qed

lemma dd_step_store:
  assumes "dd_inv s" "backed h s"
  shows "\<exists>t. dd_step (Store now rid r) (Some s) = Some t \<and> dd_inv t \<and> backed (h(rid \<mapsto> (r, now))) t
     \<and> m_enabled t = m_enabled s \<and> m_ttl_ms t = m_ttl_ms s \<and> m_max_entries t = m_max_entries s"
proof (cases "m_enabled s")
  case False
  then have "map_of (m_entries s) k = None" for k using assms(2) by (cases "map_of (m_entries s) k") (auto simp: backed_def)
  then have "backed (h(rid \<mapsto> (r, now))) s" by (simp add: backed_def)
  with False assms(1) show ?thesis by (simp add: store_def)
next
  case True
  obtain t l where t: "store now rid r s = Some t" "stored now rid r s t l" using store_effect [OF assms(1) True] by blast
  then obtain m n where m: "dropped (m_entries s) (m_order s) m l" "dd_inv t"
    "map_of (m_entries t) = (map_of m)(rid \<mapsto> \<lparr>m_response = r, m_expires_at_ms = now + m_ttl_ms s, m_order_iter = n\<rparr>)"
    "m_enabled t = m_enabled s" "m_ttl_ms t = m_ttl_ms s" "m_max_entries t = m_max_entries s"
    by (auto simp: stored_def)
  have "backed h (s\<lparr>m_entries := m\<rparr>)"
    by (rule backed_weaken [OF assms(2)]) (use dropped_map_le [OF m(1)] in simp_all)
  then have "backed (h(rid \<mapsto> (r, now))) t" using m(3-5) True unfolding backed_def by auto
  with t(1) m show ?thesis by simp
qed

lemma dd_ok_step: "dd_ok en mx ttl (so, h) \<Longrightarrow> dd_ok en mx ttl (dd_step c so, note_store c h)"
  using dd_step_find [of _ h] dd_step_store [of _ h] by (cases c) (fastforce simp: dd_ok_def)+

definition dd_run_step :: "dd_call \<Rightarrow> DedupCache option \<times> (string \<rightharpoonup> string \<times> u64) \<Rightarrow> DedupCache option \<times> (string \<rightharpoonup> string \<times> u64)" where
  "dd_run_step c sh = (dd_step c (fst sh), note_store c (snd sh))"

interpretation dedup: machine dd_run_step "\<lambda>_ _. True" "dd_ok en mx ttl" for en mx ttl
  by unfold_locales (auto simp: dd_run_step_def intro: dd_ok_step)

lemma fold_dd_run_step: "fold dd_run_step cs (so, h) = (fold dd_step cs so, fold note_store cs h)"
  by (induction cs arbitrary: so h) (simp_all add: dd_run_step_def)

lemma dd_ok_new: "dd_ok en mx ttl (Some (new_DedupCache en mx ttl), Map.empty)"
  by (simp add: dd_ok_def dd_inv_def backed_def new_DedupCache_def lru_rep_def pairs_of_def)

lemma dd_reachable:
  "\<exists>s. fold dd_step cs (Some (new_DedupCache en mx ttl)) = Some s \<and> dd_inv s \<and> m_enabled s = en \<and> m_max_entries s = mx
     \<and> m_ttl_ms s = ttl \<and> backed (fold note_store cs Map.empty) s"
  using dedup.inv_run [OF dd_ok_new, of _ en mx ttl] by (fastforce simp: dd_ok_def fold_dd_run_step)

text \<open>
  The cache still has the response of an id: the entry is there and at most \<open>j\<close> others are behind it.
\<close>

definition holds :: "string \<Rightarrow> string \<Rightarrow> u64 \<Rightarrow> nat \<Rightarrow> nat \<Rightarrow> DedupCache \<Rightarrow> bool" where
  "holds rid r x mx j s \<longleftrightarrow>
     dd_inv s \<and> m_enabled s \<and> m_max_entries s = mx
   \<and> (\<exists>e. map_of (m_entries s) rid = Some e \<and> m_response e = r \<and> m_expires_at_ms e = x)
   \<and> (\<exists>pre n post. m_order s = pre @ (n, rid) # post \<and> length post \<le> j)"

lemma holds_find:
  assumes "holds rid r x mx j s" "now < x \<or> rid' \<noteq> rid"
  shows "\<exists>t. dd_step (Find now rid') (Some s) = Some t \<and> holds rid r x mx j t"
proof -
  have s: "dd_inv s" "m_enabled s" "m_max_entries s = mx" using assms(1) by (auto simp: holds_def)
  obtain e where e: "map_of (m_entries s) rid = Some e" "m_response e = r" "m_expires_at_ms e = x"
    using assms(1) by (auto simp: holds_def)
  obtain pre n post where o: "m_order s = pre @ (n, rid) # post" "length post \<le> j" using assms(1) by (auto simp: holds_def)
  obtain a t where t: "find_response now rid' s = Some (a, t)" "dd_inv t"
    "t = s \<or> (\<exists>i e'. map_of (m_entries s) rid' = Some e' \<and> m_expires_at_ms e' \<le> now
        \<and> map_of (m_entries t) = (map_of (m_entries s))(rid' := None) \<and> m_order t = filter (\<lambda>p. fst p \<noteq> i) (m_order s) \<and> (i, rid') \<in> set (m_order s)
        \<and> m_enabled t = m_enabled s \<and> m_ttl_ms t = m_ttl_ms s \<and> m_max_entries t = m_max_entries s)"
    using find_effect [OF s(1), of now rid'] by blast
  show ?thesis
  proof (cases "t = s")
    case True
    then show ?thesis using t(1) assms(1) by auto
  next
    case False
    with t(3) obtain i e' where i: "map_of (m_entries s) rid' = Some e'" "m_expires_at_ms e' \<le> now"
        "map_of (m_entries t) = (map_of (m_entries s))(rid' := None)" "m_order t = filter (\<lambda>p. fst p \<noteq> i) (m_order s)"
        "(i, rid') \<in> set (m_order s)" "m_enabled t = m_enabled s" "m_max_entries t = m_max_entries s" by blast
    have ne: "rid' \<noteq> rid" using assms(2) i(1,2) e(1,3) by (auto simp: linorder_not_le)
    have "distinct (map fst (m_order s))" using s(1) by (simp add: dd_inv_def lru_rep_def)
    then have "n \<noteq> i" using distinct_fst_unique [of "m_order s" i rid' rid] i(5) o(1) ne by auto
    then have ord: "m_order t = filter (\<lambda>p. fst p \<noteq> i) pre @ (n, rid) # filter (\<lambda>p. fst p \<noteq> i) post" using i(4) o(1) by simp
    have "length (filter (\<lambda>p. fst p \<noteq> i) post) \<le> j" using o(2) length_filter_le [of "\<lambda>p. fst p \<noteq> i" post] by linarith
    with ord have "\<exists>pre n post. m_order t = pre @ (n, rid) # post \<and> length post \<le> j" by blast
    moreover have "map_of (m_entries t) rid = Some e" using i(3) e(1) ne by simp
    ultimately have "holds rid r x mx j t" using t(2) s i(6,7) e(2,3) by (simp add: holds_def)
    then show ?thesis using t(1) by simp
  qed
qed

lemma holds_store:
  assumes "holds rid r x mx j s" "now < x" "rid' \<noteq> rid" "mx = 0 \<or> Suc j < mx"
  shows "\<exists>t. dd_step (Store now rid' r') (Some s) = Some t \<and> holds rid r x mx (Suc j) t"
proof -
  have s: "dd_inv s" "m_enabled s" "m_max_entries s = mx" using assms(1) by (auto simp: holds_def)
  obtain e where e: "map_of (m_entries s) rid = Some e" "m_response e = r" "m_expires_at_ms e = x"
    using assms(1) by (auto simp: holds_def)
  obtain pre n post where o: "m_order s = pre @ (n, rid) # post" "length post \<le> j" using assms(1) by (auto simp: holds_def)
  obtain t l where t: "store now rid' r' s = Some t" "stored now rid' r' s t l" "kept_if_room now s l"
    using store_effect [OF s(1,2)] by blast
  obtain m n' where m: "dropped (m_entries s) (m_order s) m l" "dd_inv t" "m_order t = filter (\<lambda>p. snd p \<noteq> rid') l @ [(n', rid')]"
    "map_of (m_entries t) = (map_of m)(rid' \<mapsto> \<lparr>m_response = r', m_expires_at_ms = now + m_ttl_ms s, m_order_iter = n'\<rparr>)"
    "m_enabled t = m_enabled s" "m_max_entries t = m_max_entries s" using t(2) by (auto simp: stored_def)
  have nl: "(n, rid) \<in> set l"
  proof -
    have "m_max_entries s = 0 \<or> Suc (length post) < m_max_entries s" using assms(4) s(3) o(2) by auto
    then show ?thesis using t(3) o(1) e assms(2) unfolding kept_if_room_def by blast
  qed
  have "map_of m rid = Some e" using m(1) e(1) nl by (force simp: dropped_def restrict_map_def)
  then have me: "map_of (m_entries t) rid = Some e" using m(4) assms(3) by simp
  obtain p where p: "m_order s = p @ l" using m(1) by (auto simp: dropped_def)
  have "distinct (map fst (m_order s))" using s(1) by (simp add: dd_inv_def lru_rep_def)
  then have "distinct (m_order s)" by (simp add: distinct_map)
  then obtain pre' where "l = pre' @ (n, rid) # post"
    using suffix_split [of pre n rid post p l, OF _ nl] o(1) p by metis
  then have "m_order t = filter (\<lambda>p. snd p \<noteq> rid') pre' @ (n, rid) # (filter (\<lambda>p. snd p \<noteq> rid') post @ [(n', rid')])"
    using m(3) assms(3) by simp
  moreover have "length (filter (\<lambda>p. snd p \<noteq> rid') post @ [(n', rid')]) \<le> Suc j"
    using o(2) length_filter_le [of "\<lambda>p. snd p \<noteq> rid'" post] by (simp; linarith)
  ultimately have "\<exists>pre n post. m_order t = pre @ (n, rid) # post \<and> length post \<le> Suc j" by blast
  with me e m s have "holds rid r x mx (Suc j) t" by (simp add: holds_def)
  then show ?thesis using t(1) by simp
qed

text \<open>Calls that neither store the id again nor come after its time.\<close>

fun spares :: "string \<Rightarrow> u64 \<Rightarrow> dd_call \<Rightarrow> bool" where
  "spares rid x (Find now rid') \<longleftrightarrow> now < x \<or> rid' \<noteq> rid"
| "spares rid x (Store now rid' r') \<longleftrightarrow> now < x \<and> rid' \<noteq> rid"

fun stores :: "dd_call list \<Rightarrow> nat" where
  "stores [] = 0"
| "stores (Find now rid # cs) = stores cs"
| "stores (Store now rid r # cs) = Suc (stores cs)"

lemma holds_run:
  "holds rid r x mx j s \<Longrightarrow> list_all (spares rid x) cs \<Longrightarrow> mx = 0 \<or> j + stores cs < mx \<Longrightarrow>
   \<exists>t. fold dd_step cs (Some s) = Some t \<and> holds rid r x mx (j + stores cs) t"
proof (induction cs arbitrary: s j)
  case (Cons c cs)
  show ?case
  proof (cases c)
    case (Find now rid')
    then obtain t where "dd_step c (Some s) = Some t" "holds rid r x mx j t" using holds_find [OF Cons(2), of now rid'] Cons(3) by auto
    then show ?thesis using Cons(1) [of j t] Cons(3,4) Find by auto
  next
    case (Store now rid' r')
    then obtain t where "dd_step c (Some s) = Some t" "holds rid r x mx (Suc j) t"
      using holds_store [OF Cons(2), of now rid' r'] Cons(3,4) by auto
    then show ?thesis using Cons(1) [of "Suc j" t] Cons(3,4) Store by simp
  qed
qed auto

section \<open>Properties\<close>

text \<open>
  Property C27. The cache never answers with anything but the last response stored under the id, and
  only while it is younger than the time to live: whatever calls were made before, in whatever order
  their clock readings come, a lookup does not dereference a dangling iterator, and a response it
  returns is the one of the last \<open>store\<close> of that id, made at a time \<open>t\<close> with \<open>now < t + ttl\<close>. The cache
  holds no more entries than its limit.
\<close>

theorem dedup_sound:
  "\<exists>s answer t. fold dd_step cs (Some (new_DedupCache en mx ttl)) = Some s \<and> find_response now rid s = Some (answer, t)
     \<and> (mx = 0 \<or> length (m_entries s) \<le> mx)
     \<and> (case answer of None \<Rightarrow> True
        | Some r \<Rightarrow> en \<and> (\<exists>at. fold note_store cs Map.empty rid = Some (r, at) \<and> now < at + ttl))"
proof -
  obtain s where s: "fold dd_step cs (Some (new_DedupCache en mx ttl)) = Some s" "dd_inv s" "m_enabled s = en"
    "m_max_entries s = mx" "m_ttl_ms s = ttl" "backed (fold note_store cs Map.empty) s" using dd_reachable by blast
  obtain t where t: "find_response now rid s = Some (if m_enabled s then (case map_of (m_entries s) rid of Some e \<Rightarrow>
       if now < m_expires_at_ms e then Some (m_response e) else None | None \<Rightarrow> None) else None, t)"
    using find_effect [OF s(2), of now rid] by blast
  have "mx = 0 \<or> length (m_entries s) \<le> mx" using s(2,4) by (auto simp: dd_inv_def)
  moreover have "map_of (m_entries s) rid = Some e \<Longrightarrow> en \<and> (\<exists>at. fold note_store cs Map.empty rid = Some (m_response e, at)
      \<and> m_expires_at_ms e = at + ttl)" for e using s(3,5,6) by (auto simp: backed_def)
  ultimately show ?thesis using s(1) t by (fastforce split: option.splits if_splits)
qed

text \<open>
  Property C26. A stored response is found again: after \<open>store\<close> of an id on any cache that calls can
  produce, a lookup at a time before its expiry returns exactly that response, as long as the id was
  not stored anew, no call in between came after the expiry, and fewer responses of other ids were
  stored in between than the cache holds (any number, for a cache without a limit).
\<close>

theorem dedup_complete:
  assumes "list_all (spares rid (now + ttl)) cs" "mx = 0 \<or> stores cs < mx" "now' < now + ttl"
  shows "\<exists>s t. fold dd_step (before @ Store now rid r # cs) (Some (new_DedupCache True mx ttl)) = Some s
     \<and> find_response now' rid s = Some (Some r, t)"
proof -
  obtain s0 where s0: "fold dd_step before (Some (new_DedupCache True mx ttl)) = Some s0" "dd_inv s0" "m_enabled s0"
    "m_max_entries s0 = mx" "m_ttl_ms s0 = ttl" using dd_reachable [of before True mx ttl] by blast
  obtain s1 l where s1: "store now rid r s0 = Some s1" "stored now rid r s0 s1 l" using store_effect [OF s0(2,3)] by blast
  have "holds rid r (now + ttl) mx 0 s1" using s1(2) s0(3-5) by (auto simp: stored_def holds_def)
  then obtain s where s: "fold dd_step cs (Some s1) = Some s" "holds rid r (now + ttl) mx (stores cs) s"
    using holds_run [of rid r "now + ttl" mx 0 s1 cs] assms(1,2) by auto
  then have h: "dd_inv s" "m_enabled s" "\<exists>e. map_of (m_entries s) rid = Some e \<and> m_response e = r \<and> m_expires_at_ms e = now + ttl"
    by (auto simp: holds_def)
  then have "\<exists>t. find_response now' rid s = Some (Some r, t)"
    using find_effect [OF h(1), of now' rid] assms(3) by auto
  then show ?thesis using s0(1) s1(1) s(1) by auto
qed

theorem dedup_complete_witness:
  "\<exists>s t. fold dd_step ([Store 5 ''x'' ''1''] @ Store 10 ''a'' ''2'' # [Store 20 ''b'' ''3'', Find 30 ''a''])
        (Some (new_DedupCache True 2 100)) = Some s
     \<and> find_response 50 ''a'' s = Some (Some ''2'', t)"
  by (rule dedup_complete) simp_all

end
