(* ===== verification/Diod_Worker.thy ===== *)
theory Diod_Worker
  imports Diod_Http Diod_Breaker Diod_Dedup
begin

text \<open>
  The handling of a message by the worker (\<open>l2_worker.cpp\<close>, \<open>l2_worker_nats.cpp\<close>): the cache of responses, the
  choice of the level 2 server, the call with its retries and the circuit breaker, and the reply. A message is one
  step on the state of the worker; the cache, the breaker and the pool are those of their own theories. What a task
  finds comes with it: the readings of the clocks, the identifiers of the tracer and the outcome of every attempt to
  publish. The libraries and the HTTP servers are parameters. \<open>None\<close> is undefined behaviour. Logging, spans,
  the metrics other than the counter of retries and the pauses between attempts, which only let time pass, are left out.
\<close>

record worker_env =
  we_l2_server_urls :: "string list"
  we_max_retries :: int
  we_dump :: "json \<Rightarrow> string option"
  we_parse :: "string \<Rightarrow> json option"
  we_to_base64 :: "string \<Rightarrow> string"
  we_from_base64 :: "string \<Rightarrow> string option"
  we_net :: network
  we_what :: string

record task =
  tk_request_json :: string
  tk_reply_to :: string
  tk_find_ms :: u64
  tk_store_ms :: u64
  tk_allow_us :: u64
  tk_failure_us :: u64
  tk_pool_clock :: "int \<Rightarrow> nat \<Rightarrow> int"
  tk_now :: "int \<Rightarrow> int"
  tk_timestamp_us :: int
  tk_l2_traceparent :: string
  tk_traceparent_header :: string
  tk_published :: "nat \<Rightarrow> bool"

record Worker =
  wk_pool :: HttpClientPool
  wk_circuit_breaker :: CircuitBreaker
  wk_dedup_cache :: DedupCache
  wk_wire :: "wire_request list"
  wk_retries :: "string list"
  wk_replies :: "(string \<times> string) list"

section \<open>The call of the level 2 server\<close>

definition make_error_json :: "string \<Rightarrow> json" where
  "make_error_json message = json_object [(''error'', JString message)]"

definition make_error_response :: "worker_env \<Rightarrow> int \<Rightarrow> string \<Rightarrow> HttpResponse option" where
  "make_error_response env status message =
     map_option (\<lambda>t. \<lparr>l2_status_code = status, l2_body = t, l2_headers = []\<rparr>) (we_dump env (make_error_json message))"

definition count_retry :: "string \<Rightarrow> Worker \<Rightarrow> Worker" where
  "count_retry outcome w = w\<lparr>wk_retries := wk_retries w @ [outcome]\<rparr>"

definition request_url :: "string \<Rightarrow> string \<Rightarrow> string" where
  "request_url url query = (if query \<noteq> [] then url @ ''?'' @ query else url)"

text \<open>One attempt: the call of the client, through the pool.\<close>

definition l2_attempt ::
  "worker_env \<Rightarrow> task \<Rightarrow> string \<Rightarrow> string \<Rightarrow> string \<Rightarrow> headers \<Rightarrow> string \<Rightarrow> int \<Rightarrow> Worker \<Rightarrow> (string + HttpResponse \<times> int) \<times> Worker" where
  "l2_attempt env t url query body hs req_method attempt w =
     (let func = (if req_method = ''POST''
                  then post (we_net env) (tk_now t attempt) (request_url url query) body (tk_l2_traceparent t) hs
                  else get (we_net env) (tk_now t attempt) (request_url url query) (tk_l2_traceparent t) hs);
          (r, pool, wire) = execute_http_command_with_status (tk_pool_clock t attempt) (tk_now t attempt) func (wk_pool w) (wk_wire w)
      in (r, w\<lparr>wk_pool := pool, wk_wire := wire\<rparr>))"

text \<open>The loop: a response, or the text of the last exception when the attempts are used up.\<close>

function l2_attempts ::
  "worker_env \<Rightarrow> task \<Rightarrow> string \<Rightarrow> string \<Rightarrow> string \<Rightarrow> headers \<Rightarrow> string \<Rightarrow> int \<Rightarrow> string \<Rightarrow> Worker \<Rightarrow> (string + HttpResponse) \<times> Worker" where
  "l2_attempts env t url query body hs req_method attempt last_error w =
     (if attempt > we_max_retries env then (Inl last_error, w)
      else case l2_attempt env t url query body hs req_method attempt w of
        (Inr (http_response, http_code), w1) \<Rightarrow>
          if http_code \<in> {502, 503, 504} \<and> attempt < we_max_retries env
          then l2_attempts env t url query body hs req_method (attempt + 1) last_error (count_retry ''retried'' w1)
          else
           (let w2 = (if http_code \<ge> 500 \<and> attempt \<ge> we_max_retries env then count_retry ''exhausted'' w1 else w1)
            in (Inr http_response,
                if http_code \<ge> 200 \<and> http_code < 400
                then w2\<lparr>wk_circuit_breaker := record_success (wk_circuit_breaker w2)\<rparr>
                else w2\<lparr>wk_circuit_breaker := record_failure (tk_failure_us t) (wk_circuit_breaker w2)\<rparr>))
      | (Inl e, w1) \<Rightarrow>
          l2_attempts env t url query body hs req_method (attempt + 1) e
            (count_retry (if attempt < we_max_retries env then ''retried'' else ''exhausted'') w1))"
  by pat_completeness auto

termination by (relation "measure (\<lambda>(env, t, url, query, body, hs, req_method, attempt, e, w). nat (we_max_retries env + 1 - attempt))") auto

declare l2_attempts.simps [simp del]

definition execute_l2_call_with_retry ::
  "worker_env \<Rightarrow> task \<Rightarrow> string \<Rightarrow> string \<Rightarrow> string \<Rightarrow> headers \<Rightarrow> string \<Rightarrow> Worker \<Rightarrow> HttpResponse option \<times> Worker" where
  "execute_l2_call_with_retry env t url query body hs req_method w =
     (let (allowed, cb) = allow_request (tk_allow_us t) (wk_circuit_breaker w); w1 = w\<lparr>wk_circuit_breaker := cb\<rparr> in
      if \<not> allowed then
        (make_error_response env 503 ''L2 server circuit breaker open, service temporarily unavailable'', w1)
      else case l2_attempts env t url query body hs req_method 1 ''Initial error'' w1 of
             (Inr r, w2) \<Rightarrow> (Some r, w2)
           | (Inl last_error, w2) \<Rightarrow>
               (make_error_response env 500 (''Failed to call L2 server ( url: '' @ url @ '' ) after '' @ format_int (we_max_retries env)
                  @ '' attempts: '' @ last_error),
                w2\<lparr>wk_circuit_breaker := record_failure (tk_failure_us t) (wk_circuit_breaker w2)\<rparr>))"

definition call_l2_server ::
  "worker_env \<Rightarrow> task \<Rightarrow> string \<Rightarrow> string \<Rightarrow> headers \<Rightarrow> string \<Rightarrow> string \<Rightarrow> Worker \<Rightarrow> HttpResponse option \<times> Worker" where
  "call_l2_server env t path body hs req_method query w =
     (case find_allowed_l2_server (we_l2_server_urls env) path of
        None \<Rightarrow> (make_error_response env 403 (''Access to arbitrary L2 server address is forbidden! path='' @ path), w)
      | Some selected_url \<Rightarrow> execute_l2_call_with_retry env t (build_l2_url selected_url path) query body hs req_method w)"

section \<open>The reply\<close>

text \<open>Up to three attempts to publish; the reply is out with the first that succeeds.\<close>

fun publish_loop :: "(nat \<Rightarrow> bool) \<Rightarrow> nat \<Rightarrow> nat \<Rightarrow> bool" where
  "publish_loop published attempt 0 = False"
| "publish_loop published attempt (Suc n) = (published attempt \<or> publish_loop published (Suc attempt) n)"

definition kSendMaxRetries :: nat where "kSendMaxRetries = 3"

definition send_nats_response :: "task \<Rightarrow> string \<Rightarrow> Worker \<Rightarrow> Worker" where
  "send_nats_response t response_json w =
     (if publish_loop (tk_published t) 0 kSendMaxRetries then w\<lparr>wk_replies := wk_replies w @ [(tk_reply_to t, response_json)]\<rparr> else w)"

text \<open>The handler of exceptions; an exception of its own ends the task without a reply.\<close>

definition internal_error :: "worker_env \<Rightarrow> task \<Rightarrow> Worker \<Rightarrow> Worker" where
  "internal_error env t w =
     (case we_dump env (json_set ''message'' (JString (we_what env)) (make_error_json ''Internal server error'')) of
        None \<Rightarrow> w | Some text \<Rightarrow> send_nats_response t text w)"

definition send_l2_response :: "worker_env \<Rightarrow> task \<Rightarrow> WorkerRequestData \<Rightarrow> Worker \<Rightarrow> Worker option" where
  "send_l2_response env t d w =
     (case call_l2_server env t (wr_path d) (wr_body d) (wr_forwarded_headers d) (wr_method d) (wr_query d) w of
        (None, w1) \<Rightarrow> Some (internal_error env t w1)
      | (Some r, w1) \<Rightarrow>
         (case we_dump env (response_message (we_to_base64 env) (tk_timestamp_us t) (wr_request_id d) (tk_traceparent_header t) r) of
            None \<Rightarrow> Some (internal_error env t w1)
          | Some text \<Rightarrow>
              map_option (\<lambda>c. send_nats_response t text (w1\<lparr>wk_dedup_cache := c\<rparr>))
                (store (tk_store_ms t) (wr_request_id d) text (wk_dedup_cache w1))))"

definition process_request_from_nats :: "worker_env \<Rightarrow> task \<Rightarrow> Worker \<Rightarrow> Worker option" where
  "process_request_from_nats env t w =
     (case worker_receive (we_parse env) (we_from_base64 env) (tk_request_json t) of
        Inl Undefined \<Rightarrow> None
      | Inl Thrown \<Rightarrow> Some (internal_error env t w)
      | Inr None \<Rightarrow>
         (case we_dump env (make_error_json ''Invalid request format'') of
            None \<Rightarrow> Some (internal_error env t w) | Some text \<Rightarrow> Some (send_nats_response t text w))
      | Inr (Some d) \<Rightarrow>
         (case find_response (tk_find_ms t) (wr_request_id d) (wk_dedup_cache w) of
            None \<Rightarrow> None
          | Some (Some cached_response, c) \<Rightarrow> Some (send_nats_response t cached_response (w\<lparr>wk_dedup_cache := c\<rparr>))
          | Some (None, c) \<Rightarrow> send_l2_response env t d (w\<lparr>wk_dedup_cache := c\<rparr>)))"

section \<open>One server\<close>

text \<open>
  A client of the pool that was used is bound to the server of its first request. The pool between two calls, when
  all its clients are bound to one server.
\<close>

definition bound_to :: "endpoint \<Rightarrow> HttpClient \<Rightarrow> bool" where
  "bound_to e h \<longleftrightarrow> pred_option (\<lambda>x. x = e) (hc_client h) \<and> pred_option (\<lambda>x. x = e) (hc_ssl_client h)"

definition quiet :: "endpoint \<Rightarrow> HttpClientPool \<Rightarrow> bool" where
  "quiet e p \<longleftrightarrow> pool_ok 0 0 p \<and> 0 < hp_max_pool_size p \<and> list_all (bound_to e) (hp_available p)"

lemma take_idle_members:
  "take_idle mi clock k q c = (r, q', c') \<Longrightarrow> set q' \<subseteq> set q \<and> (\<forall>h. r = Some h \<longrightarrow> (\<exists>h0 \<in> set q. h = h0\<lparr>hc_pool_leased := True\<rparr>))"
  by (induction mi clock k q c rule: take_idle.induct) (auto simp: Let_def split: if_splits)

lemma acquire_members:
  assumes "acquire_enter clock now p = (Some h, p')"
  shows "set (hp_available p') \<subseteq> set (hp_available p)
    \<and> (\<exists>h0 \<in> insert (new_HttpClient now) (set (hp_available p)). h = h0\<lparr>hc_pool_leased := True\<rparr>)"
proof -
  obtain r q c where t: "take_idle (hp_max_idle_time p) clock 0 (hp_available p) (hp_counters p) = (r, q, c)" by (metis surj_pair)
  show ?thesis using take_idle_members [OF t] assms t
    by (cases r) (auto simp: acquire_enter_def try_acquire_from_queue_def create_connection_def Let_def split: if_splits)
qed

lemma acquire_quiet:
  assumes "quiet e p"
  obtains h p' where "acquire_enter clock now p = (Some h, p')" "pool_ok 1 1 p'" "0 < hp_max_pool_size p'"
    "list_all (bound_to e) (hp_available p')" "bound_to e h" "hc_is_valid h"
proof -
  obtain r p' where e: "acquire_enter clock now p = (r, p')" by fastforce
  have ok: "pool_ok 0 0 p" "0 < hp_max_pool_size p" "list_all (bound_to e) (hp_available p)" using assms by (simp_all add: quiet_def)
  note a = acquire_enter_ok [OF ok(1) e]
  then obtain h where r: "r = Some h" using ok(2) by (cases r) auto
  have "bound_to e h" "list_all (bound_to e) (hp_available p')"
    using acquire_members [OF e [unfolded r]] ok(3) by (auto simp: list_all_iff bound_to_def new_HttpClient_def)
  then show thesis using that [of h p'] a e r ok(2) by simp
qed

lemma release_quiet:
  assumes "pool_ok 1 1 p" "0 < hp_max_pool_size p" "list_all (bound_to e) (hp_available p)" "bound_to e h"
  shows "quiet e (release_connection now h p)"
proof -
  obtain h' p' where e: "release_begin h p = (h', p')" by fastforce
  have b: "pool_ok 1 0 p'" "\<not> hc_pool_leased h'" "hp_max_pool_size p' = hp_max_pool_size p"
    using release_ok [of 0 0 p h, OF _ e] assms(1) by simp_all
  have "bound_to e h'" "hp_available p' = hp_available p" using e assms(4) by (auto simp: release_begin_def Let_def bound_to_def)
  then have "list_all (bound_to e) (hp_available (release_locked now h' p'))"
    using assms(3) by (simp add: release_locked_def Let_def touch_def bound_to_def)
  then show ?thesis using release_locked_ok(1,2) [of 0 0 p' h' now] b assms(2) e by (simp add: quiet_def release_connection_def)
qed

definition wire_of :: "endpoint \<Rightarrow> string \<Rightarrow> string \<Rightarrow> string \<Rightarrow> headers \<Rightarrow> wire_request" where
  "wire_of e path body traceparent hs =
     \<lparr>w_endpoint = e, w_method = (if body = [] then ''GET'' else ''POST''), w_path = path, w_headers = request_headers body traceparent hs,
      w_body = body, w_content_type = (if body = [] then [] else ''application/json'')\<rparr>"

lemma client_request_bound:
  assumes "bound_to e h" "parse_url url = Some p" "endpoint_of p = e" "0 < m_port p" "m_port p \<le> 65535"
  shows "\<exists>h'. client_request net now url body tp hs h sent =
      (net sent (wire_of e (normalize_path (m_path p)) body tp hs), h', sent @ [wire_of e (normalize_path (m_path p)) body tp hs])
    \<and> bound_to e h' \<and> (\<forall>r. net sent (wire_of e (normalize_path (m_path p)) body tp hs) = Inr r \<longrightarrow> hc_last_status_code h' = l2_status_code r)"
proof -
  let ?q = "p\<lparr>m_path := normalize_path (m_path p)\<rparr>" and ?m = "wire_of e (normalize_path (m_path p)) body tp hs"
  have e: "endpoint_of ?q = e" using assms(3) by (simp add: endpoint_of_def)
  obtain h1 where h1: "prepare_request url body tp hs (touch now h) = Inr ((?q, request_headers body tp hs), h1)" "bound_to e h1"
    "the (if m_is_https ?q then hc_ssl_client h1 else hc_client h1) = e"
  proof (cases "m_is_https p \<and> hc_ssl_client h = None \<or> \<not> m_is_https p \<and> hc_client h = None")
    case True
    then show thesis using that assms e
      by (auto simp: prepare_request_def setup_client_def touch_def bound_to_def Let_def)
  next
    case False
    then show thesis using that [of "touch now h"] assms
      by (auto simp: prepare_request_def touch_def bound_to_def Let_def)
  qed
  show ?thesis
  proof (cases "net sent ?m")
    case (Inl x)
    then show ?thesis using h1 by (simp add: client_request_def execute_request_def wire_of_def bound_to_def Let_def)
  next
    case (Inr r)
    then show ?thesis using h1 by (simp add: client_request_def execute_request_def wire_of_def bound_to_def Let_def)
  qed
qed

text \<open>What one attempt does when the pool is bound to the server of the URL: one request, the answer of that server.\<close>

lemma l2_attempt_exact:
  fixes env t url query body hs req_method attempt w
  assumes "quiet e (wk_pool w)" "parse_url (request_url url query) = Some p" "endpoint_of p = e" "0 < m_port p" "m_port p \<le> 65535"
  defines "m \<equiv> wire_of e (normalize_path (m_path p)) (if req_method = ''POST'' then body else []) (tk_l2_traceparent t) hs"
  shows "\<exists>pool. l2_attempt env t url query body hs req_method attempt w =
      (map_sum id (\<lambda>r. (r, l2_status_code r)) (we_net env (wk_wire w) m), w\<lparr>wk_pool := pool, wk_wire := wk_wire w @ [m]\<rparr>) \<and> quiet e pool"
proof -
  let ?now = "tk_now t attempt"
  obtain h p1 where a: "acquire_enter (tk_pool_clock t attempt) ?now (wk_pool w) = (Some h, p1)" "pool_ok 1 1 p1" "0 < hp_max_pool_size p1"
    "list_all (bound_to e) (hp_available p1)" "bound_to e h" "hc_is_valid h" by (rule acquire_quiet [OF assms(1)])
  let ?func = "if req_method = ''POST'' then post (we_net env) ?now (request_url url query) body (tk_l2_traceparent t) hs
     else get (we_net env) ?now (request_url url query) (tk_l2_traceparent t) hs"
  have "?func h (wk_wire w) = client_request (we_net env) ?now (request_url url query) (if req_method = ''POST'' then body else [])
      (tk_l2_traceparent t) hs h (wk_wire w)" by (simp add: post_def get_def)
  then obtain h' where f: "?func h (wk_wire w) = (we_net env (wk_wire w) m, h', wk_wire w @ [m])" "bound_to e h'"
      "\<And>r. we_net env (wk_wire w) m = Inr r \<Longrightarrow> hc_last_status_code h' = l2_status_code r"
    using client_request_bound [OF a(5) assms(2-5), of "we_net env" ?now "if req_method = ''POST'' then body else []" "tk_l2_traceparent t" hs "wk_wire w"]
    unfolding m_def [symmetric] by metis
  have q: "quiet e (release_connection ?now h' p1)" "quiet e (release_connection ?now (invalidate h') p1)"
    using release_quiet [OF a(2-4)] f(2) by (auto simp: bound_to_def invalidate_def)
  show ?thesis
  proof (cases "we_net env (wk_wire w) m")
    case (Inl x)
    then show ?thesis using a f q by (auto simp: l2_attempt_def execute_http_command_with_status_def Let_def)
  next
    case (Inr r)
    then show ?thesis using a f q by (auto simp: l2_attempt_def execute_http_command_with_status_def Let_def)
  qed
qed

text \<open>
  The specification of the retries: the same request is sent while the server cannot be reached or answers with
  502, 503 or 504, as long as attempts are left; the last answer counts.
\<close>

fun retry_spec :: "network \<Rightarrow> wire_request \<Rightarrow> nat \<Rightarrow> string \<Rightarrow> wire_request list \<Rightarrow> (string + HttpResponse) \<times> wire_request list" where
  "retry_spec net m 0 e sent = (Inl e, sent)"
| "retry_spec net m (Suc n) e sent =
     (case net sent m of
        Inl x \<Rightarrow> retry_spec net m n x (sent @ [m])
      | Inr r \<Rightarrow> if l2_status_code r \<in> {502, 503, 504} \<and> n > 0 then retry_spec net m n e (sent @ [m]) else (Inr r, sent @ [m]))"

lemma retry_spec_sent:
  "\<exists>k. snd (retry_spec net m n e sent) = sent @ replicate k m \<and> k \<le> n \<and> (n \<noteq> 0 \<longrightarrow> k \<noteq> 0)"
proof (induction n arbitrary: e sent)
  case (Suc n)
  have more: "\<exists>k. snd (retry_spec net m n x (sent @ [m])) = sent @ replicate k m \<and> k \<le> Suc n \<and> k \<noteq> 0" for x
  proof -
    obtain k where "snd (retry_spec net m n x (sent @ [m])) = (sent @ [m]) @ replicate k m" "k \<le> n" using Suc.IH by blast
    then show ?thesis by (intro exI [of _ "Suc k"]) simp
  qed
  have "\<exists>k. sent @ [m] = sent @ replicate k m \<and> k \<le> Suc n \<and> k \<noteq> 0" by (intro exI [of _ 1]) simp
  then show ?case using more by (simp split: sum.split)
qed simp

text \<open>How a call reports to the breaker.\<close>

definition report :: "u64 \<Rightarrow> string + HttpResponse \<Rightarrow> CircuitBreaker \<Rightarrow> CircuitBreaker" where
  "report now r cb =
     (case r of Inr x \<Rightarrow> if 200 \<le> l2_status_code x \<and> l2_status_code x < 400 then record_success cb else record_failure now cb
      | Inl _ \<Rightarrow> cb)"

lemma l2_attempts_exact:
  fixes env t url query body hs req_method
  assumes "parse_url (request_url url query) = Some p" "endpoint_of p = e" "0 < m_port p" "m_port p \<le> 65535" "quiet e (wk_pool w)"
  defines "m \<equiv> wire_of e (normalize_path (m_path p)) (if req_method = ''POST'' then body else []) (tk_l2_traceparent t) hs"
  defines "spec \<equiv> \<lambda>attempt e w. retry_spec (we_net env) m (nat (we_max_retries env + 1 - attempt)) e (wk_wire w)"
  shows "\<exists>pool retries. l2_attempts env t url query body hs req_method attempt last_error w =
      (fst (spec attempt last_error w), w\<lparr>wk_pool := pool, wk_wire := snd (spec attempt last_error w), wk_retries := retries,
         wk_circuit_breaker := report (tk_failure_us t) (fst (spec attempt last_error w)) (wk_circuit_breaker w)\<rparr>) \<and> quiet e pool"
  using assms(5)
proof (induction "nat (we_max_retries env + 1 - attempt)" arbitrary: attempt last_error w)
  case 0
  then have over: "attempt > we_max_retries env" by simp
  have "spec attempt last_error w = (Inl last_error, wk_wire w)" using 0(1) by (simp add: spec_def flip: 0(1))
  moreover have "l2_attempts env t url query body hs req_method attempt last_error w = (Inl last_error, w)"
    using over by (simp add: l2_attempts.simps)
  ultimately show ?case using 0(2) by (intro exI [of _ "wk_pool w"] exI [of _ "wk_retries w"]) (simp add: report_def)
next
  case (Suc n)
  then have le: "attempt \<le> we_max_retries env" and n: "n = nat (we_max_retries env + 1 - (attempt + 1))" by linarith+
  obtain pool where at: "l2_attempt env t url query body hs req_method attempt w =
      (map_sum id (\<lambda>r. (r, l2_status_code r)) (we_net env (wk_wire w) m), w\<lparr>wk_pool := pool, wk_wire := wk_wire w @ [m]\<rparr>)" "quiet e pool"
    using l2_attempt_exact [OF Suc.prems assms(1-4), of env t body hs req_method attempt] unfolding m_def [symmetric] by blast
  have last: "attempt < we_max_retries env \<longleftrightarrow> n > 0" using n by linarith
  have sp: "spec attempt last_error w = retry_spec (we_net env) m (Suc n) last_error (wk_wire w)" by (simp add: spec_def Suc.hyps(2))
  let ?w = "w\<lparr>wk_pool := pool, wk_wire := wk_wire w @ [m]\<rparr>"
  have sp1: "spec (attempt + 1) x (count_retry o' ?w) = retry_spec (we_net env) m n x (wk_wire w @ [m])" for x o'
    unfolding spec_def n [symmetric] by (simp add: count_retry_def)
  have again: "\<exists>pool' retries. l2_attempts env t url query body hs req_method (attempt + 1) x (count_retry o' ?w)
      = (fst (retry_spec (we_net env) m n x (wk_wire w @ [m])), w\<lparr>wk_pool := pool', wk_wire := snd (retry_spec (we_net env) m n x (wk_wire w @ [m])),
           wk_retries := retries, wk_circuit_breaker :=
             report (tk_failure_us t) (fst (retry_spec (we_net env) m n x (wk_wire w @ [m]))) (wk_circuit_breaker w)\<rparr>) \<and> quiet e pool'" for x o'
  proof -
    have "quiet e (wk_pool (count_retry o' ?w))" using at(2) by (simp add: count_retry_def)
    from Suc.hyps(1) [OF n this, of x] show ?thesis unfolding sp1 by (simp add: count_retry_def)
  qed
  show ?case
  proof (cases "we_net env (wk_wire w) m")
    case (Inl x)
    then show ?thesis using again [of x] le at by (simp add: l2_attempts.simps [of _ _ _ _ _ _ _ attempt] sp)
  next
    case (Inr r)
    show ?thesis
    proof (cases "l2_status_code r \<in> {502, 503, 504} \<and> n > 0")
      case True
      then show ?thesis using again [of last_error] le at Inr last
        by (auto simp: l2_attempts.simps [of _ _ _ _ _ _ _ attempt] sp)
    next
      case False
      let ?w2 = "if l2_status_code r \<ge> 500 \<and> attempt \<ge> we_max_retries env then count_retry ''exhausted'' ?w else ?w"
      have "l2_attempts env t url query body hs req_method attempt last_error w =
          (Inr r, ?w2\<lparr>wk_circuit_breaker := report (tk_failure_us t) (Inr r) (wk_circuit_breaker w)\<rparr>)"
        using False le at Inr last by (auto simp: l2_attempts.simps [of _ _ _ _ _ _ _ attempt] Let_def report_def count_retry_def)
      moreover have "?w2 = w\<lparr>wk_pool := pool, wk_wire := wk_wire w @ [m], wk_retries := wk_retries ?w2\<rparr>" by (simp add: count_retry_def)
      moreover have "spec attempt last_error w = (Inr r, wk_wire w @ [m])" using False Inr by (auto simp: sp)
      ultimately show ?thesis using at(2) by (intro exI [of _ pool] exI [of _ "wk_retries ?w2"]) (simp add: count_retry_def)
    qed
  qed
qed

definition one_server :: "string list \<Rightarrow> endpoint \<Rightarrow> bool" where
  "one_server urls e \<longleftrightarrow> (\<forall>u \<in> set urls. \<exists>p. parse_url u = Some p \<and> endpoint_of p = e \<and> 0 < m_port p \<and> m_port p \<le> 65535)"

lemma find_allowed_member: "find_allowed_l2_server urls path = Some server \<Longrightarrow> server \<in> set urls"
proof -
  have base: "find_base q us = Some server \<Longrightarrow> server \<in> set us" for q us
    by (induction q us rule: find_base.induct) (auto simp: Let_def split: option.splits if_splits)
  assume "find_allowed_l2_server urls path = Some server"
  then have "urls \<noteq> [] \<and> server = hd urls \<or> find_base (canonicalize_path path) urls = Some server"
    unfolding find_allowed_l2_server_def Let_def by (cases urls) (auto simp del: find_base.simps split: if_splits)
  then show ?thesis using base [of "canonicalize_path path" urls] by auto
qed

definition query_suffix :: "string \<Rightarrow> string" where
  "query_suffix query = (if query \<noteq> [] then ''?'' @ query else [])"

lemma l2_call_effect:
  assumes "one_server (we_l2_server_urls env) e" "quiet e (wk_pool w)" "find_allowed_l2_server (we_l2_server_urls env) path = Some server"
    and "allow_request (tk_allow_us t) (wk_circuit_breaker w) = (True, cb)" "0 < we_max_retries env"
  shows "\<exists>r k w'. retry_spec (we_net env) (wire_of e (canonicalize_path path @ query_suffix query) (if req_method = ''POST'' then body else [])
          (tk_l2_traceparent t) hs) (nat (we_max_retries env)) ''Initial error'' (wk_wire w) = (r, wk_wire w')
    \<and> wk_wire w' = wk_wire w @ replicate k (wire_of e (canonicalize_path path @ query_suffix query)
          (if req_method = ''POST'' then body else []) (tk_l2_traceparent t) hs)
    \<and> 0 < k \<and> k \<le> nat (we_max_retries env)
    \<and> call_l2_server env t path body hs req_method query w = (case r of Inr x \<Rightarrow> Some x
        | Inl last_error \<Rightarrow> make_error_response env 500 (''Failed to call L2 server ( url: '' @ build_l2_url server path @ '' ) after ''
            @ format_int (we_max_retries env) @ '' attempts: '' @ last_error), w')
    \<and> wk_circuit_breaker w' = (case r of Inr x \<Rightarrow> if 200 \<le> l2_status_code x \<and> l2_status_code x < 400 then record_success cb
          else record_failure (tk_failure_us t) cb | Inl _ \<Rightarrow> record_failure (tk_failure_us t) cb)
    \<and> wk_dedup_cache w' = wk_dedup_cache w \<and> wk_replies w' = wk_replies w \<and> quiet e (wk_pool w')"
proof -
  obtain p where p: "parse_url server = Some p" "endpoint_of p = e" "0 < m_port p" "m_port p \<le> 65535"
    using assms(1) find_allowed_member [OF assms(3)] by (auto simp: one_server_def)
  let ?path = "canonicalize_path path @ query_suffix query" and ?url = "build_l2_url server path"
  have url: "parse_url (request_url ?url query) = Some (p\<lparr>m_path := ?path\<rparr>)"
    using build_l2_url_parses [OF p(1), of path "query_suffix query"] by (cases "query = []") (simp_all add: request_url_def query_suffix_def)
  obtain r where "canonicalize_path path = SLASH # r" using render_slash [of "path_segments path"] by (auto simp: canonicalize_path_eq)
  then have norm: "normalize_path ?path = ?path" by (simp add: normalize_path_def)
  let ?m = "wire_of e ?path (if req_method = ''POST'' then body else []) (tk_l2_traceparent t) hs"
  let ?w1 = "w\<lparr>wk_circuit_breaker := cb\<rparr>" and ?spec = "retry_spec (we_net env) ?m (nat (we_max_retries env)) ''Initial error'' (wk_wire w)"
  have ep: "endpoint_of (p\<lparr>m_path := ?path\<rparr>) = e" using p(2) by (simp add: endpoint_of_def)
  obtain pool retries where a: "l2_attempts env t ?url query body hs req_method 1 ''Initial error'' ?w1 =
      (fst ?spec, w\<lparr>wk_pool := pool, wk_wire := snd ?spec, wk_retries := retries, wk_circuit_breaker := report (tk_failure_us t) (fst ?spec) cb\<rparr>)"
      "quiet e pool"
    using l2_attempts_exact [OF url ep, where w = ?w1 and req_method = req_method and body = body and t = t and hs = hs and env = env
        and attempt = 1 and last_error = "''Initial error''"] p(3,4) assms(2) by (auto simp: norm)
  obtain k where k: "snd ?spec = wk_wire w @ replicate k ?m" "k \<le> nat (we_max_retries env)" "k \<noteq> 0"
    using retry_spec_sent [of "we_net env" ?m "nat (we_max_retries env)" "''Initial error''" "wk_wire w"] assms(5) by auto
  obtain r sent where sp: "?spec = (r, sent)" by fastforce
  let ?w' = "w\<lparr>wk_pool := pool, wk_wire := sent, wk_retries := retries, wk_circuit_breaker :=
      (case r of Inr x \<Rightarrow> if 200 \<le> l2_status_code x \<and> l2_status_code x < 400 then record_success cb
          else record_failure (tk_failure_us t) cb | Inl _ \<Rightarrow> record_failure (tk_failure_us t) cb)\<rparr>"
  have "call_l2_server env t path body hs req_method query w = (case r of Inr x \<Rightarrow> Some x
        | Inl last_error \<Rightarrow> make_error_response env 500 (''Failed to call L2 server ( url: '' @ ?url @ '' ) after ''
            @ format_int (we_max_retries env) @ '' attempts: '' @ last_error), ?w')"
    using assms(3,4) a(1) sp by (cases r) (auto simp: call_l2_server_def execute_l2_call_with_retry_def report_def)
  then show ?thesis using sp k a(2) by (intro exI [of _ r] exI [of _ k] exI [of _ ?w']) simp
qed

text \<open>
  Property C3. The call of a level 2 server: when the configured entries name one server, a request that the policy
  and the breaker let through goes to that server and nowhere else, with the canonical path, the query, the body and the headers, at least
  once and at most as often as attempts are configured; it is repeated exactly while the server cannot be reached or
  answers 502, 503 or 504; the last answer is the result, or an error 500 without one;
  and the breaker gets exactly one report, a success for an answer below 400 and a failure otherwise. A POST without a body
  goes out as a GET.
\<close>
theorem l2_call_exact:
  assumes "one_server (we_l2_server_urls env) e" "quiet e (wk_pool w)" "find_allowed_l2_server (we_l2_server_urls env) path = Some server"
    and "allow_request (tk_allow_us t) (wk_circuit_breaker w) = (True, cb)" "0 < we_max_retries env"
  shows "\<exists>r k w'. retry_spec (we_net env) (wire_of e (canonicalize_path path @ query_suffix query) (if req_method = ''POST'' then body else [])
          (tk_l2_traceparent t) hs) (nat (we_max_retries env)) ''Initial error'' (wk_wire w) = (r, wk_wire w')
    \<and> wk_wire w' = wk_wire w @ replicate k (wire_of e (canonicalize_path path @ query_suffix query)
          (if req_method = ''POST'' then body else []) (tk_l2_traceparent t) hs)
    \<and> 0 < k \<and> k \<le> nat (we_max_retries env)
    \<and> call_l2_server env t path body hs req_method query w = (case r of Inr x \<Rightarrow> Some x
        | Inl last_error \<Rightarrow> make_error_response env 500 (''Failed to call L2 server ( url: '' @ build_l2_url server path @ '' ) after ''
            @ format_int (we_max_retries env) @ '' attempts: '' @ last_error), w')
    \<and> wk_circuit_breaker w' = (case r of Inr x \<Rightarrow> if 200 \<le> l2_status_code x \<and> l2_status_code x < 400 then record_success cb
          else record_failure (tk_failure_us t) cb | Inl _ \<Rightarrow> record_failure (tk_failure_us t) cb)
    \<and> wk_dedup_cache w' = wk_dedup_cache w \<and> wk_replies w' = wk_replies w \<and> quiet e (wk_pool w')"
  by (rule l2_call_effect [OF assms])

definition demo_env :: "string list \<Rightarrow> worker_env" where
  "demo_env urls = \<lparr>we_l2_server_urls = urls, we_max_retries = 2, we_dump = (\<lambda>_. Some ''{}''),
     we_parse = (\<lambda>_. Some (json_object [(''method'', JString ''GET''), (''path'', JString ''/''), (''request_id'', JString ''1''), (''body'', JString [])])),
     we_to_base64 = demo_encode, we_from_base64 = demo_decode,
     we_net = (\<lambda>sent _. Inr \<lparr>l2_status_code = (if sent = [] then 503 else 200), l2_body = ''ok'', l2_headers = []\<rparr>), we_what = []\<rparr>"

definition demo_task :: "u64 \<Rightarrow> task" where
  "demo_task now = \<lparr>tk_request_json = ''m'', tk_reply_to = ''inbox'', tk_find_ms = now, tk_store_ms = now, tk_allow_us = 0, tk_failure_us = 0,
     tk_pool_clock = (\<lambda>_ _. 0), tk_now = (\<lambda>_. 0), tk_timestamp_us = 0, tk_l2_traceparent = [], tk_traceparent_header = [], tk_published = (\<lambda>_. True)\<rparr>"

definition demo_worker :: Worker where
  "demo_worker = \<lparr>wk_pool = new_HttpClientPool 1 5, wk_circuit_breaker = new_CircuitBreaker, wk_dedup_cache = new_DedupCache True 2 100,
     wk_wire = [], wk_retries = [], wk_replies = []\<rparr>"

theorem l2_call_exact_witness:
  "\<exists>r w'. call_l2_server (demo_env [''http://l2'']) (demo_task 0) ''/'' [] [] ''GET'' [] demo_worker = (Some r, w') \<and> l2_status_code r = 200
     \<and> length (wk_wire w') = 2 \<and> list_all (\<lambda>m. ep_host (w_endpoint m) = ''l2'') (wk_wire w')"
proof -
  let ?e = "\<lparr>ep_https = False, ep_host = ''l2'', ep_port = 80\<rparr>" and ?env = "demo_env [''http://l2'']"
  have p: "parse_url ''http://l2'' = Some \<lparr>m_host = ''l2'', m_path = ''/'', m_port = 80, m_is_https = False\<rparr>" by code_simp
  have f: "find_allowed_l2_server [''http://l2''] ''/'' = Some ''http://l2''" by code_simp
  have q: "quiet ?e (wk_pool demo_worker)" by (simp add: quiet_def pool_ok_def demo_worker_def new_HttpClientPool_def)
  let ?m = "wire_of ?e (canonicalize_path ''/'' @ query_suffix []) [] [] []"
  have s: "retry_spec (we_net ?env) ?m 2 ''Initial error'' [] = (Inr \<lparr>l2_status_code = 200, l2_body = ''ok'', l2_headers = []\<rparr>, [?m, ?m])"
    by (simp add: demo_env_def numeral_2_eq_2)
  have o: "one_server (we_l2_server_urls ?env) ?e" using p by (simp add: one_server_def endpoint_of_def demo_env_def)
  have al: "allow_request (tk_allow_us (demo_task 0)) (wk_circuit_breaker demo_worker) = (True, new_CircuitBreaker)"
    by (simp add: allow_request_def demo_worker_def new_CircuitBreaker_def)
  have "find_allowed_l2_server (we_l2_server_urls ?env) ''/'' = Some ''http://l2''" "0 < we_max_retries ?env" using f by (simp_all add: demo_env_def)
  note call = l2_call_exact [OF o q this(1) al this(2), of "[]" "''GET''" "[]" "[]"]
  have eqs: "nat (we_max_retries ?env) = 2" "wk_wire demo_worker = []" "tk_l2_traceparent (demo_task 0) = []"
    "(if ''GET'' = ''POST'' then [] else []) = ([] :: string)" by (simp_all add: demo_env_def demo_worker_def demo_task_def)
  from call [unfolded eqs] obtain r k w' where t: "retry_spec (we_net ?env) ?m 2 ''Initial error'' [] = (r, wk_wire w')"
      "call_l2_server ?env (demo_task 0) ''/'' [] [] ''GET'' [] demo_worker = (case r of Inr x \<Rightarrow> Some x
        | Inl last_error \<Rightarrow> make_error_response ?env 500 (''Failed to call L2 server ( url: '' @ build_l2_url ''http://l2'' ''/'' @ '' ) after ''
            @ format_int (we_max_retries ?env) @ '' attempts: '' @ last_error), w')"
    by blast
  have "r = Inr \<lparr>l2_status_code = 200, l2_body = ''ok'', l2_headers = []\<rparr>" "wk_wire w' = [?m, ?m]" using t(1) unfolding s by simp_all
  then show ?thesis using t(2) by (simp add: wire_of_def)
qed

text \<open>
  A client of the pool keeps the server of its first request: with a client that was used for another server, the
  request goes to that server, whatever host and port its URL names. The pool hands its clients out to the calls of all
  servers.
\<close>

theorem client_keeps_first_server:
  assumes "hc_client h = Some other" "parse_url url = Some p" "\<not> m_is_https p"
  shows "\<exists>r h' m. client_request net now url body tp hs h sent = (r, h', sent @ [m]) \<and> w_endpoint m = other \<and> w_path m = normalize_path (m_path p)"
proof -
  define m where "m = wire_of other (normalize_path (m_path p)) body tp hs"
  show ?thesis
    using assms by (cases "net sent m")
      (simp_all add: client_request_def prepare_request_def execute_request_def touch_def Let_def wire_of_def m_def)
qed

section \<open>At most once\<close>

lemma l2_attempts_keeps:
  "l2_attempts env t url query body hs req_method attempt e w = (r, w') \<Longrightarrow> wk_dedup_cache w' = wk_dedup_cache w \<and> wk_replies w' = wk_replies w"
proof (induction "nat (we_max_retries env + 1 - attempt)" arbitrary: attempt e w)
  case 0
  then show ?case by (simp add: l2_attempts.simps)
next
  case (Suc n)
  have le: "\<not> attempt > we_max_retries env" and n: "n = nat (we_max_retries env + 1 - (attempt + 1))" using Suc.hyps(2) by linarith+
  obtain x w1 where a: "l2_attempt env t url query body hs req_method attempt w = (x, w1)" by fastforce
  have w1: "wk_dedup_cache w1 = wk_dedup_cache w" "wk_replies w1 = wk_replies w"
    using a by (auto simp: l2_attempt_def Let_def split: prod.splits)
  have IH: "wk_dedup_cache w' = wk_dedup_cache w \<and> wk_replies w' = wk_replies w"
    if "l2_attempts env t url query body hs req_method (attempt + 1) y (count_retry o' w1) = (r, w')" for y o'
    using Suc.hyps(1) [OF n that] w1 by (simp add: count_retry_def)
  show ?case
  proof (cases x)
    case (Inl y)
    then show ?thesis using IH Suc.prems a le by (simp add: l2_attempts.simps [of _ _ _ _ _ _ _ attempt])
  next
    case (Inr y)
    obtain resp code where y: "y = (resp, code)" by fastforce
    show ?thesis
    proof (cases "code \<in> {502, 503, 504} \<and> attempt < we_max_retries env")
      case True
      then show ?thesis using IH Suc.prems a le Inr y by (auto simp: l2_attempts.simps [of _ _ _ _ _ _ _ attempt])
    next
      case False
      then show ?thesis using Suc.prems a le w1 Inr y
        by (auto simp: l2_attempts.simps [of _ _ _ _ _ _ _ attempt] count_retry_def Let_def split: if_splits)
    qed
  qed
qed

lemma call_keeps:
  assumes "call_l2_server env t path body hs req_method query w = (r, w')"
  shows "wk_dedup_cache w' = wk_dedup_cache w" "wk_replies w' = wk_replies w"
proof -
  have "wk_dedup_cache w' = wk_dedup_cache w \<and> wk_replies w' = wk_replies w" using assms
    by (auto simp: call_l2_server_def execute_l2_call_with_retry_def Let_def dest!: l2_attempts_keeps split: option.splits prod.splits if_splits sum.splits)
  then show "wk_dedup_cache w' = wk_dedup_cache w" "wk_replies w' = wk_replies w" by simp_all
qed

lemma reply_keeps [simp]:
  "wk_dedup_cache (send_nats_response t text w) = wk_dedup_cache w" "wk_wire (send_nats_response t text w) = wk_wire w"
  "wk_dedup_cache (internal_error env t w) = wk_dedup_cache w" "wk_wire (internal_error env t w) = wk_wire w"
  by (simp_all add: send_nats_response_def internal_error_def split: option.split)

lemma holds_more: "holds rid r x mx j s \<Longrightarrow> j \<le> k \<Longrightarrow> holds rid r x mx k s"
  unfolding holds_def by (blast intro: order_trans)

lemma holds_hit:
  assumes "holds rid r x mx j s" "now < x"
  shows "\<exists>c. find_response now rid s = Some (Some r, c) \<and> holds rid r x mx j c"
proof -
  obtain e where e: "map_of (m_entries s) rid = Some e" "m_response e = r" "m_expires_at_ms e = x" "dd_inv s" "m_enabled s"
    using assms(1) by (auto simp: holds_def)
  obtain c where "find_response now rid s = Some (Some r, c)" using find_effect [OF e(4), of now rid] e assms(2) by auto
  moreover from this have "dd_step (Find now rid) (Some s) = Some c" by simp
  ultimately show ?thesis using holds_find [OF assms(1), of now rid] assms(2) by auto
qed

text \<open>While the cache holds the response of an id, handling any message keeps it; it ages by at most one place.\<close>

lemma holds_process:
  assumes "holds rid r x mx j (wk_dedup_cache w)" "process_request_from_nats env t w = Some w'"
    and "tk_find_ms t < x" "tk_store_ms t < x" "mx = 0 \<or> Suc j < mx"
  shows "holds rid r x mx (Suc j) (wk_dedup_cache w')"
proof (cases "worker_receive (we_parse env) (we_from_base64 env) (tk_request_json t)")
  case (Inl f)
  then show ?thesis using assms(1,2) holds_more [OF assms(1), of "Suc j"]
    by (cases f) (auto simp: process_request_from_nats_def)
next
  case (Inr a)
  show ?thesis
  proof (cases a)
    case None
    then show ?thesis using Inr assms(2) holds_more [OF assms(1), of "Suc j"]
      by (auto simp: process_request_from_nats_def split: option.splits)
  next
    case (Some d)
    show ?thesis
    proof (cases "wr_request_id d = rid")
      case True
      then obtain c where "find_response (tk_find_ms t) rid (wk_dedup_cache w) = Some (Some r, c)" "holds rid r x mx j c"
        using holds_hit [OF assms(1,3)] by blast
      then show ?thesis using Inr Some True assms(2) holds_more [of rid r x mx j c "Suc j"]
        by (auto simp: process_request_from_nats_def)
    next
      case False
      then obtain c where c: "dd_step (Find (tk_find_ms t) (wr_request_id d)) (Some (wk_dedup_cache w)) = Some c" "holds rid r x mx j c"
        using holds_find [OF assms(1), of "tk_find_ms t" "wr_request_id d"] by blast
      then obtain hit where hit: "find_response (tk_find_ms t) (wr_request_id d) (wk_dedup_cache w) = Some (hit, c)" by auto
      show ?thesis
      proof (cases hit)
        case (Some cached)
        then show ?thesis using Inr \<open>a = Some d\<close> hit assms(2) holds_more [OF c(2), of "Suc j"]
          by (auto simp: process_request_from_nats_def)
      next
        case None
        then have "send_l2_response env t d (w\<lparr>wk_dedup_cache := c\<rparr>) = Some w'"
          using Inr \<open>a = Some d\<close> hit assms(2) by (simp add: process_request_from_nats_def)
        moreover have "holds rid r x mx (Suc j) z" if "store (tk_store_ms t) (wr_request_id d) r' c = Some z" for r' z
          using holds_store [OF c(2) assms(4) False assms(5), of r'] that by simp
        ultimately show ?thesis using holds_more [OF c(2), of "Suc j"]
          by (auto simp: send_l2_response_def dest!: call_keeps(1) split: prod.splits option.splits)
      qed
    qed
  qed
qed

fun worker_run :: "worker_env \<Rightarrow> task list \<Rightarrow> Worker \<Rightarrow> Worker option" where
  "worker_run env [] w = Some w"
| "worker_run env (t # ts) w = Option.bind (process_request_from_nats env t w) (worker_run env ts)"

lemma holds_worker_run:
  "holds rid r x mx j (wk_dedup_cache w) \<Longrightarrow> worker_run env ts w = Some w' \<Longrightarrow> list_all (\<lambda>t. tk_find_ms t < x \<and> tk_store_ms t < x) ts \<Longrightarrow>
   mx = 0 \<or> j + length ts < mx \<Longrightarrow> holds rid r x mx (j + length ts) (wk_dedup_cache w')"
proof (induction ts arbitrary: w j)
  case (Cons t ts)
  obtain w1 where w1: "process_request_from_nats env t w = Some w1" "worker_run env ts w1 = Some w'"
    using Cons.prems(2) by (auto simp: bind_eq_Some_conv)
  have "holds rid r x mx (Suc j) (wk_dedup_cache w1)" using holds_process [OF Cons.prems(1) w1(1)] Cons.prems(3,4) by auto
  then show ?case using Cons.IH [of "Suc j" w1] w1(2) Cons.prems(3,4) by simp
qed simp

text \<open>
  Property C2. A request that is sent again is not executed again: after a task called the level 2 server for an id and its
  answer could be serialised, and after any messages handled since, with the same id or others, a message with that id
  gets the same reply and nothing goes out to a level 2 server, as long as the readings of the clock are before the
  expiry and fewer messages were handled than the cache has entries.
\<close>
theorem worker_at_most_once:
  assumes "dd_inv (wk_dedup_cache w)" "m_enabled (wk_dedup_cache w)" "m_ttl_ms (wk_dedup_cache w) = ttl" "m_max_entries (wk_dedup_cache w) = mx"
    and "worker_receive (we_parse env) (we_from_base64 env) (tk_request_json t) = Inr (Some d)"
    and "find_response (tk_find_ms t) (wr_request_id d) (wk_dedup_cache w) = Some (None, c)"
    and "call_l2_server env t (wr_path d) (wr_body d) (wr_forwarded_headers d) (wr_method d) (wr_query d) (w\<lparr>wk_dedup_cache := c\<rparr>) = (Some r, w0)"
    and "we_dump env (response_message (we_to_base64 env) (tk_timestamp_us t) (wr_request_id d) (tk_traceparent_header t) r) = Some reply"
    and "worker_run env (t # ts) w = Some w2" "list_all (\<lambda>u. tk_find_ms u < tk_store_ms t + ttl \<and> tk_store_ms u < tk_store_ms t + ttl) ts"
    and "mx = 0 \<or> length ts < mx"
    and "worker_receive (we_parse env) (we_from_base64 env) (tk_request_json t') = Inr (Some d')" "wr_request_id d' = wr_request_id d"
    and "tk_find_ms t' < tk_store_ms t + ttl"
  shows "\<exists>c' w3. process_request_from_nats env t' w2 = Some w3 \<and> w3 = send_nats_response t' reply (w2\<lparr>wk_dedup_cache := c'\<rparr>)
     \<and> wk_wire w3 = wk_wire w2"
proof -
  have c: "dd_inv c" "m_enabled c" "m_ttl_ms c = ttl" "m_max_entries c = mx"
    using find_effect [OF assms(1), of "tk_find_ms t" "wr_request_id d"] assms(2-4,6) by auto
  have w0: "wk_dedup_cache w0 = c" using call_keeps(1) [OF assms(7)] by simp
  obtain s1 l where s1: "store (tk_store_ms t) (wr_request_id d) reply c = Some s1" "stored (tk_store_ms t) (wr_request_id d) reply c s1 l"
    using store_effect [OF c(1,2)] by blast
  have h: "holds (wr_request_id d) reply (tk_store_ms t + ttl) mx 0 s1" using s1(2) c by (auto simp: stored_def holds_def)
  have "process_request_from_nats env t w = Some (send_nats_response t reply (w0\<lparr>wk_dedup_cache := s1\<rparr>))"
    using assms(5-8) s1(1) w0 by (simp add: process_request_from_nats_def send_l2_response_def)
  then have "worker_run env ts (send_nats_response t reply (w0\<lparr>wk_dedup_cache := s1\<rparr>)) = Some w2" using assms(9) by simp
  from holds_worker_run [OF _ this, of "wr_request_id d" reply "tk_store_ms t + ttl" mx 0] h assms(10,11)
  have "holds (wr_request_id d) reply (tk_store_ms t + ttl) mx (length ts) (wk_dedup_cache w2)" by simp
  from holds_hit [OF this assms(14)] obtain c' where "find_response (tk_find_ms t') (wr_request_id d) (wk_dedup_cache w2) = Some (Some reply, c')" by blast
  then show ?thesis using assms(12,13) by (auto simp: process_request_from_nats_def)
qed

theorem worker_at_most_once_witness:
  "\<exists>w1 w2. process_request_from_nats (demo_env []) (demo_task 0) demo_worker = Some w1
     \<and> process_request_from_nats (demo_env []) (demo_task 50) w1 = Some w2 \<and> wk_wire w2 = wk_wire w1"
proof -
  let ?env = "demo_env []" and ?c = "wk_dedup_cache demo_worker"
  obtain d where d: "worker_receive (we_parse ?env) (we_from_base64 ?env) (tk_request_json (demo_task n)) = Inr (Some d)" "wr_request_id d = ''1''" for n
    by (simp add: worker_receive_def parse_request_data_def validate_request_def create_standard_request_validator_def check_member_def
        json_contains_def get_string_def decode_nats_request_def decode_body_def value_string_def value_bool_def demo_env_def)
  have c: "dd_inv ?c" "m_enabled ?c" "m_ttl_ms ?c = 100" "m_max_entries ?c = 2"
    by (simp_all add: demo_worker_def new_DedupCache_def dd_inv_def lru_rep_def pairs_of_def)
  have f: "find_response (tk_find_ms (demo_task 0)) (wr_request_id d) ?c = Some (None, ?c)"
    by (simp add: find_response_def demo_worker_def new_DedupCache_def)
  have call: "call_l2_server ?env (demo_task 0) (wr_path d) (wr_body d) (wr_forwarded_headers d) (wr_method d) (wr_query d) (demo_worker\<lparr>wk_dedup_cache := ?c\<rparr>)
      = (Some \<lparr>l2_status_code = 403, l2_body = ''{}'', l2_headers = []\<rparr>, demo_worker)"
    by (simp add: call_l2_server_def find_allowed_l2_server_def make_error_response_def demo_env_def)
  obtain w1 where w1: "process_request_from_nats ?env (demo_task 0) demo_worker = Some w1"
    using d f call by (simp add: process_request_from_nats_def send_l2_response_def demo_env_def store_def demo_worker_def new_DedupCache_def)
  then have run: "worker_run ?env [demo_task 0] demo_worker = Some w1" by simp
  show ?thesis using worker_at_most_once [OF c d(1) f call _ run, where t' = "demo_task 50" and d' = d] d w1
    by (auto simp: demo_env_def demo_task_def)
qed

end
