(* ===== verification/Diod_Trace.thy ===== *)
theory Diod_Trace
  imports Diod_Messages
begin

text \<open>
  The W3C trace context (\<open>trace_logger.cpp\<close>, \<open>common_utils.cpp\<close>, \<open>tracing_helpers.hpp\<close>): the header of a
  client is checked, read and rebuilt with a new span. The generated identifiers are parameters. A tracer that
  is not there is \<open>False\<close>.
\<close>

definition generate_traceparent :: "string \<Rightarrow> string \<Rightarrow> bool \<Rightarrow> string" where
  "generate_traceparent trace_id span_id sampled = ''00-'' @ trace_id @ ''-'' @ span_id @ ''-'' @ (if sampled then ''01'' else ''00'')"

definition is_hex :: "char \<Rightarrow> bool" where
  "is_hex c \<longleftrightarrow> (ord (CHR ''0'') \<le> ord c \<and> ord c \<le> ord (CHR ''9'')) \<or> (ord (CHR ''a'') \<le> ord c \<and> ord c \<le> ord (CHR ''f''))"

definition validate_traceparent :: "string \<Rightarrow> bool" where
  "validate_traceparent traceparent \<longleftrightarrow>
     length traceparent = 55
   \<and> traceparent ! 0 = CHR ''0'' \<and> traceparent ! 1 = CHR ''0'' \<and> traceparent ! 2 = CHR ''-''
   \<and> traceparent ! 35 = CHR ''-'' \<and> traceparent ! 52 = CHR ''-''
   \<and> is_hex (traceparent ! 3) \<and> is_hex (traceparent ! 34) \<and> is_hex (traceparent ! 36) \<and> is_hex (traceparent ! 51)
   \<and> is_hex (traceparent ! 53) \<and> is_hex (traceparent ! 54)
   \<and> traceparent ! 53 = CHR ''0'' \<and> (traceparent ! 54 = CHR ''0'' \<or> traceparent ! 54 = CHR ''1'')"

definition parse_traceparent :: "string \<Rightarrow> (string \<times> string \<times> bool) option" where
  "parse_traceparent traceparent =
     (if \<not> validate_traceparent traceparent then None
      else Some (take 32 (drop 3 traceparent), take 16 (drop 36 traceparent), take 2 (drop 53 traceparent) = ''01''))"

record TraceContext =
  tc_trace_id :: string
  tc_span_id :: string
  tc_parent_id :: string
  tc_traceparent_header :: string
  tc_sampled :: bool

definition handle_trace_context :: "string \<Rightarrow> bool \<Rightarrow> string \<Rightarrow> string \<Rightarrow> TraceContext" where
  "handle_trace_context traceparent_raw tracer new_trace_id new_span_id =
     (if \<not> tracer then \<lparr>tc_trace_id = [], tc_span_id = [], tc_parent_id = [], tc_traceparent_header = [], tc_sampled = True\<rparr>
      else case (if traceparent_raw \<noteq> [] then parse_traceparent traceparent_raw else None) of
             Some (trace_id, parent_id, sampled) \<Rightarrow>
               \<lparr>tc_trace_id = trace_id, tc_span_id = new_span_id, tc_parent_id = parent_id,
                tc_traceparent_header = generate_traceparent trace_id new_span_id sampled, tc_sampled = sampled\<rparr>
           | None \<Rightarrow>
               \<lparr>tc_trace_id = new_trace_id, tc_span_id = new_span_id, tc_parent_id = [],
                tc_traceparent_header = generate_traceparent new_trace_id new_span_id True, tc_sampled = True\<rparr>)"

definition make_span_and_traceparent :: "bool \<Rightarrow> TraceContext \<Rightarrow> string \<Rightarrow> string \<Rightarrow> bool \<Rightarrow> string \<times> string" where
  "make_span_and_traceparent tracer ctx span_id_hint new_span_id sampled =
     (let span_id = (if span_id_hint = [] then (if tracer then new_span_id else []) else span_id_hint)
      in if \<not> tracer \<or> tc_trace_id ctx = [] then (span_id, tc_traceparent_header ctx)
         else (span_id, generate_traceparent (tc_trace_id ctx) span_id sampled))"

text \<open>The identifiers that the tracer makes.\<close>

definition trace_ids :: "string \<Rightarrow> string \<Rightarrow> bool" where
  "trace_ids trace_id span_id \<longleftrightarrow> length trace_id = 32 \<and> length span_id = 16 \<and> list_all is_hex (trace_id @ span_id)"

lemma digits_hex [simp]: "is_hex (CHR ''0'')" "is_hex (CHR ''1'')"
  by (simp_all add: is_hex_def ord_def)

lemma generated_valid:
  assumes "length trace_id = 32" "length span_id = 16"
    "is_hex (hd trace_id)" "is_hex (last trace_id)" "is_hex (hd span_id)" "is_hex (last span_id)"
  shows "parse_traceparent (generate_traceparent trace_id span_id sampled) = Some (trace_id, span_id, sampled)"
proof -
  have ne: "trace_id \<noteq> []" "span_id \<noteq> []" using assms(1,2) by auto
  have h: "trace_id ! 0 = hd trace_id" "trace_id ! 31 = last trace_id" "span_id ! 0 = hd span_id" "span_id ! 15 = last span_id"
    using assms(1,2) ne by (simp_all add: hd_conv_nth last_conv_nth)
  have "validate_traceparent (generate_traceparent trace_id span_id sampled)"
    using assms h by (simp add: validate_traceparent_def generate_traceparent_def nth_append nth_Cons')
  then show ?thesis using assms(1,2) by (simp add: parse_traceparent_def generate_traceparent_def)
qed

text \<open>
  The trace goes on: a header that a tracer made is read back by the next one as the same trace, with the span as parent
  and the sampling decision; what it hands on is again such a header, of the same trace with the new span.
\<close>
theorem trace_continues:
  assumes "trace_ids trace_id span_id" "trace_ids fresh new_span_id"
  shows "handle_trace_context (generate_traceparent trace_id span_id sampled) True fresh new_span_id =
      \<lparr>tc_trace_id = trace_id, tc_span_id = new_span_id, tc_parent_id = span_id,
       tc_traceparent_header = generate_traceparent trace_id new_span_id sampled, tc_sampled = sampled\<rparr>
    \<and> parse_traceparent (generate_traceparent trace_id new_span_id sampled) = Some (trace_id, new_span_id, sampled)"
proof -
  have hex: "is_hex (hd xs) \<and> is_hex (last xs)" if "list_all is_hex xs" "xs \<noteq> []" for xs
    using that by (simp add: list_all_iff)
  have "trace_id \<noteq> []" "span_id \<noteq> []" "new_span_id \<noteq> []" using assms by (auto simp: trace_ids_def)
  then have "parse_traceparent (generate_traceparent trace_id span_id sampled) = Some (trace_id, span_id, sampled)"
    "parse_traceparent (generate_traceparent trace_id new_span_id sampled) = Some (trace_id, new_span_id, sampled)"
    using assms hex [of trace_id] hex [of span_id] hex [of new_span_id] by (auto simp: trace_ids_def intro!: generated_valid)
  then show ?thesis by (simp add: handle_trace_context_def generate_traceparent_def)
qed

text \<open>
  Only the ends of the identifiers are checked: a client that puts a byte that is not UTF-8 inside makes the header pass, and
  the message of the proxy that carries the trace context cannot be written, so that the request fails.
\<close>

definition odd_traceparent :: string where
  "odd_traceparent = generate_traceparent (''0'' @ [CHR 0xFF] @ replicate 29 (CHR 0xFF) @ ''0'') (replicate 16 (CHR ''1'')) True"

theorem traceparent_not_utf8:
  "validate_traceparent odd_traceparent
   \<and> \<not> json_utf8 (prepare_request_data accept to_base64 request_id req_method path body req
         (snd (make_span_and_traceparent True (handle_trace_context odd_traceparent True fresh new_span_id) [] new_span_id True)))"
proof -
  let ?id = "''0'' @ [CHR 0xFF] @ replicate 29 (CHR 0xFF) @ ''0''"
  have p: "parse_traceparent odd_traceparent = Some (?id, replicate 16 (CHR ''1''), True)"
    unfolding odd_traceparent_def by (rule generated_valid) simp_all
  then have v: "validate_traceparent odd_traceparent" by (auto simp: parse_traceparent_def split: if_splits)
  have t: "snd (make_span_and_traceparent True (handle_trace_context odd_traceparent True fresh new_span_id) [] new_span_id True)
      = generate_traceparent ?id new_span_id True"
    using p by (simp add: make_span_and_traceparent_def handle_trace_context_def Let_def odd_traceparent_def generate_traceparent_def)
  have bad: "\<not> is_valid_utf8 (generate_traceparent ?id new_span_id True)"
    by (simp add: is_valid_utf8_def generate_traceparent_def valid_from.simps [of _ 0] valid_from.simps [of _ "Suc 0"]
        valid_from.simps [of _ "Suc (Suc 0)"] valid_from.simps [of _ "Suc (Suc (Suc 0))"] valid_from.simps [of _ "Suc (Suc (Suc (Suc 0)))"]
        sequence_length_def Let_def)
  show ?thesis using v t bad json_utf8_find(2) [OF _ prepared_find(6)] by fastforce
qed

end
