(* ===== verification/Nats_Buf.thy ===== *)
theory Nats_Buf
  imports Nats_Status
begin

text \<open>
  The growable byte buffer of the NATS client (\<open>buf.h\<close>, \<open>buf.c\<close>).

  \<open>buf_data\<close> is the array the \<open>data\<close> pointer designates, up to the capacity; \<open>buf_pos\<close> is the write
  position \<open>pos - data\<close>. A buffer made over a caller's array (\<open>natsBuf_InitWithBackend\<close>) does not own
  it: its array is the caller's until the first expansion, which copies the bytes to fresh memory.
  The contract of the component is that a buffer is a byte list (\<open>buf_content\<close>) to which the append
  operations add at the end.
\<close>

record natsBuffer =
  buf_data :: bytes
  buf_pos :: int
  buf_len :: int
  buf_capacity :: int
  buf_ownData :: bool
  buf_doFree :: bool

section \<open>Operations\<close>

text \<open>\<open>data\<close> is \<open>None\<close> for a NULL pointer; otherwise the caller's array.\<close>

definition buf_init :: "allocator \<Rightarrow> bytes option \<Rightarrow> int \<Rightarrow> int \<Rightarrow> natsStatus + natsBuffer" where
  "buf_init alloc data len capacity =
     (case data of
        Some arr \<Rightarrow>
          Inr \<lparr>buf_data = arr, buf_pos = len, buf_len = len, buf_capacity = capacity,
               buf_ownData = False, buf_doFree = False\<rparr>
      | None \<Rightarrow>
          (case alloc capacity of
             None \<Rightarrow> Inl NATS_NO_MEMORY
           | Some blk \<Rightarrow>
               Inr \<lparr>buf_data = blk, buf_pos = len, buf_len = len, buf_capacity = capacity,
                    buf_ownData = True, buf_doFree = False\<rparr>))"

definition natsBuf_InitWithBackend ::
    "allocator \<Rightarrow> bytes option \<Rightarrow> int \<Rightarrow> int \<Rightarrow> natsStatus + natsBuffer" where
  "natsBuf_InitWithBackend alloc data len capacity =
     (if data = None then Inl NATS_INVALID_ARG else buf_init alloc data len capacity)"

definition natsBuf_Init :: "allocator \<Rightarrow> int \<Rightarrow> natsStatus + natsBuffer" where
  "natsBuf_Init alloc capacity = buf_init alloc None 0 capacity"

text \<open>\<open>mem\<close> tells whether the structure itself could be allocated.\<close>

definition newBuf ::
    "bool \<Rightarrow> allocator \<Rightarrow> bytes option \<Rightarrow> int \<Rightarrow> int \<Rightarrow> natsStatus + natsBuffer" where
  "newBuf mem alloc data len capacity =
     (if \<not> mem then Inl NATS_NO_MEMORY
      else case buf_init alloc data len capacity of
             Inl _ \<Rightarrow> Inl NATS_NO_MEMORY
           | Inr b \<Rightarrow> Inr (b\<lparr>buf_doFree := True\<rparr>))"

definition natsBuf_CreateWithBackend ::
    "bool \<Rightarrow> allocator \<Rightarrow> bytes option \<Rightarrow> int \<Rightarrow> int \<Rightarrow> natsStatus + natsBuffer" where
  "natsBuf_CreateWithBackend mem alloc data len capacity =
     (if data = None then Inl NATS_INVALID_ARG else newBuf mem alloc data len capacity)"

definition natsBuf_Create :: "bool \<Rightarrow> allocator \<Rightarrow> int \<Rightarrow> natsStatus + natsBuffer" where
  "natsBuf_Create mem alloc capacity = newBuf mem alloc None 0 capacity"

definition natsBuf_Reset :: "natsBuffer \<Rightarrow> natsBuffer" where
  "natsBuf_Reset buf = buf\<lparr>buf_len := 0, buf_pos := 0\<rparr>"

text \<open>The assertion of the source is the guard: outside it the program aborts.\<close>

definition natsBuf_MoveTo :: "natsBuffer \<Rightarrow> int \<Rightarrow> natsBuffer option" where
  "natsBuf_MoveTo buf newPosition =
     (if newPosition \<le> buf_capacity buf
      then Some (buf\<lparr>buf_len := newPosition, buf_pos := newPosition\<rparr>) else None)"

definition natsBuf_Expand ::
    "allocator \<Rightarrow> natsBuffer \<Rightarrow> int \<Rightarrow> (natsStatus \<times> natsBuffer) option" where
  "natsBuf_Expand alloc buf newSize =
     (let offset = buf_pos buf in
      if newSize \<le> buf_capacity buf then Some (NATS_INVALID_ARG, buf)
      else if buf_ownData buf then
        (case c_realloc alloc (buf_data buf) newSize of
           None \<Rightarrow> Some (NATS_NO_MEMORY, buf)
         | Some newData \<Rightarrow>
             Some (NATS_OK, buf\<lparr>buf_data := newData, buf_pos := offset, buf_capacity := newSize\<rparr>))
      else
        (case alloc newSize of
           None \<Rightarrow> Some (NATS_NO_MEMORY, buf)
         | Some blk \<Rightarrow>
             (case c_read (buf_data buf) 0 (buf_len buf) of
                None \<Rightarrow> None
              | Some bs \<Rightarrow>
                  (case c_write blk 0 bs of
                     None \<Rightarrow> None
                   | Some newData \<Rightarrow>
                       Some (NATS_OK, buf\<lparr>buf_ownData := True, buf_data := newData,
                                          buf_pos := offset, buf_capacity := newSize\<rparr>)))))"

text \<open>
  \<open>src\<close> is the array the caller passes. \<open>(int64_t) (n * 0.1)\<close> is \<open>n div 10\<close> for the values that
  reach it (\<open>0 < n < 2^31\<close>: the double nearest to 0.1 is above it by less than \<open>2^-53\<close>, so the
  product is never below a multiple and never reaches the next one).
\<close>

definition natsBuf_Append ::
    "allocator \<Rightarrow> natsBuffer \<Rightarrow> bytes \<Rightarrow> int \<Rightarrow> (natsStatus \<times> natsBuffer) option" where
  "natsBuf_Append alloc buf src dataLen0 =
     (let dataLen = (if dataLen0 = -1 then c_strlen src else dataLen0) in
      if dataLen = 0 then Some (NATS_OK, buf)
      else
       (let n = buf_len buf + dataLen in
        if n < 0 \<or> n \<ge> 0x7FFFFFFF then Some (NATS_NO_MEMORY, buf)
        else
         (let extra = n div 10;
              newSize = n + (if extra < 64 then 64 else extra);
              r = (if n > buf_capacity buf
                   then (if newSize \<ge> 0x7FFFFFFF then Some (NATS_NO_MEMORY, buf)
                         else natsBuf_Expand alloc buf newSize)
                   else Some (NATS_OK, buf))
          in case r of
               None \<Rightarrow> None
             | Some (s, b) \<Rightarrow>
                 if s = NATS_OK then
                   (case c_read src 0 dataLen of
                      None \<Rightarrow> None
                    | Some bs \<Rightarrow>
                        (case c_write (buf_data b) (buf_pos b) bs of
                           None \<Rightarrow> None
                         | Some d \<Rightarrow>
                             Some (NATS_OK, b\<lparr>buf_data := d, buf_pos := buf_pos b + dataLen,
                                              buf_len := buf_len b + dataLen\<rparr>)))
                 else Some (s, b))))"

text \<open>
  The overflow test \<open>newSize < 0\<close> of the source comes after the signed addition, so it can only be
  reached when the addition did not overflow: an overflow is undefined.
\<close>

definition natsBuf_AppendByte ::
    "allocator \<Rightarrow> natsBuffer \<Rightarrow> byte \<Rightarrow> (natsStatus \<times> natsBuffer) option" where
  "natsBuf_AppendByte alloc buf b =
     (let c = buf_capacity buf;
          r = (if buf_len buf = c then
                 (let extra = c div 10;
                      newSize = c + (if extra < 64 then 64 else extra)
                  in if \<not> c_int_ok newSize then None
                     else if newSize < 0 then Some (NATS_NO_MEMORY, buf)
                     else natsBuf_Expand alloc buf newSize)
               else Some (NATS_OK, buf))
      in case r of
           None \<Rightarrow> None
         | Some (s, bf) \<Rightarrow>
             if s = NATS_OK then
               (case c_write (buf_data bf) (buf_pos bf) [b] of
                  None \<Rightarrow> None
                | Some d \<Rightarrow> Some (NATS_OK, bf\<lparr>buf_data := d, buf_pos := buf_pos bf + 1,
                                              buf_len := buf_len bf + 1\<rparr>))
             else Some (s, bf))"

definition natsBuf_Consume :: "natsBuffer \<Rightarrow> int \<Rightarrow> natsBuffer option" where
  "natsBuf_Consume buf n =
     (if n \<le> buf_len buf then
       (let remaining = buf_len buf - n in
        if remaining > 0 then
          (case c_read (buf_data buf) n remaining of
             None \<Rightarrow> None
           | Some bs \<Rightarrow>
               (case c_write (buf_data buf) 0 bs of
                  None \<Rightarrow> None
                | Some d \<Rightarrow> Some (buf\<lparr>buf_data := d, buf_len := remaining, buf_pos := remaining\<rparr>)))
        else Some (buf\<lparr>buf_len := remaining, buf_pos := remaining\<rparr>))
      else None)"

text \<open>
  Destroying: a structure that was created is freed (\<open>None\<close>: no structure is left), one that was
  initialised in place is zeroed. The second component tells whether the array was freed.
\<close>

definition empty_buf :: natsBuffer where
  "empty_buf = \<lparr>buf_data = [], buf_pos = 0, buf_len = 0, buf_capacity = 0,
                buf_ownData = False, buf_doFree = False\<rparr>"

definition natsBuf_Destroy :: "natsBuffer option \<Rightarrow> natsBuffer option \<times> bool" where
  "natsBuf_Destroy buf =
     (case buf of
        None \<Rightarrow> (None, False)
      | Some b \<Rightarrow> (if buf_doFree b then None else Some empty_buf, buf_ownData b))"

text \<open>The macro \<open>IFOK\<close> chains appends of C strings and stops at the first error.\<close>

fun natsBuf_AppendChain ::
    "allocator \<Rightarrow> natsBuffer \<Rightarrow> bytes list \<Rightarrow> (natsStatus \<times> natsBuffer) option" where
  "natsBuf_AppendChain alloc buf [] = Some (NATS_OK, buf)"
| "natsBuf_AppendChain alloc buf (x # xs) =
     (case natsBuf_Append alloc buf x (int (length x)) of
        None \<Rightarrow> None
      | Some (s, b) \<Rightarrow> if s = NATS_OK then natsBuf_AppendChain alloc b xs else Some (s, b))"

section \<open>Contract\<close>

definition buf_content :: "natsBuffer \<Rightarrow> bytes" where
  "buf_content buf = take (nat (buf_len buf)) (buf_data buf)"

definition buf_ok :: "natsBuffer \<Rightarrow> bool" where
  "buf_ok buf \<longleftrightarrow> 0 \<le> buf_len buf \<and> buf_len buf \<le> buf_capacity buf \<and> buf_pos buf = buf_len buf
     \<and> int (length (buf_data buf)) = buf_capacity buf \<and> buf_capacity buf \<le> INT_MAX"

lemma natsBuf_Expand_spec:
  assumes "buf_ok buf" "alloc_sized alloc" "buf_capacity buf < newSize" "newSize \<le> INT_MAX"
  shows "\<exists>s b. natsBuf_Expand alloc buf newSize = Some (s, b) \<and> buf_ok b
     \<and> buf_content b = buf_content buf \<and> buf_len b = buf_len buf
     \<and> (s = NATS_OK \<and> alloc newSize \<noteq> None \<and> buf_capacity b = newSize \<and> buf_ownData b
        \<or> s = NATS_NO_MEMORY \<and> b = buf \<and> alloc newSize = None)"
proof (cases "alloc newSize")
  case None
  with assms show ?thesis by (auto simp: natsBuf_Expand_def c_realloc_def Let_def)
next
  case (Some blk)
  then have blk: "length blk = nat newSize" using assms alloc_sizedD by blast
  show ?thesis
  proof (cases "buf_ownData buf")
    case True
    with assms Some blk show ?thesis
      by (auto simp: natsBuf_Expand_def c_realloc_def Let_def buf_ok_def buf_content_def min_def nat_le_iff)
  next
    case False
    with assms Some blk show ?thesis
      by (auto simp: natsBuf_Expand_def c_read_def c_write_def Let_def buf_ok_def buf_content_def min_def nat_le_iff)
  qed
qed

text \<open>Storing bytes at the write position of a buffer with room for them.\<close>

definition buf_put :: "natsBuffer \<Rightarrow> bytes \<Rightarrow> natsBuffer" where
  "buf_put b bs = b\<lparr>buf_data := take (nat (buf_len b)) (buf_data b) @ bs
                                 @ drop (nat (buf_len b) + length bs) (buf_data b),
                    buf_pos := buf_pos b + int (length bs), buf_len := buf_len b + int (length bs)\<rparr>"

lemma buf_put_write:
  assumes "buf_ok b" "buf_len b + int (length bs) \<le> buf_capacity b"
  shows "c_write (buf_data b) (buf_pos b) bs = Some (buf_data (buf_put b bs))"
  using assms by (simp add: buf_ok_def buf_put_def c_write_Some)

lemma buf_put_ok:
  assumes "buf_ok b" "buf_len b + int (length bs) \<le> buf_capacity b"
  shows "buf_ok (buf_put b bs)" "buf_content (buf_put b bs) = buf_content b @ bs"
proof -
  have "nat (buf_len b + int (length bs)) = nat (buf_len b) + length bs"
    using assms by (simp add: buf_ok_def nat_add_distrib)
  with assms show "buf_content (buf_put b bs) = buf_content b @ bs"
    by (auto simp: buf_content_def buf_put_def buf_ok_def)
  from assms show "buf_ok (buf_put b bs)"
    by (auto simp: buf_ok_def buf_put_def)
qed

text \<open>The size the buffer is expanded to when \<open>n\<close> bytes do not fit.\<close>

definition grown :: "int \<Rightarrow> int" where
  "grown n = n + (if n div 10 < 64 then 64 else n div 10)"

lemma grown_gt: "0 \<le> n \<Longrightarrow> n < grown n"
  by (simp add: grown_def)

lemma natsBuf_Append_fits:
  assumes "buf_ok buf" "0 < dl" "dl \<le> int (length src)" "buf_len buf + dl \<le> buf_capacity buf"
    "buf_len buf + dl < 0x7FFFFFFF"
  shows "natsBuf_Append alloc buf src dl = Some (NATS_OK, buf_put buf (take (nat dl) src))"
proof -
  let ?bs = "take (nat dl) src"
  have l: "int (length ?bs) = dl" using assms by simp
  then have "c_write (buf_data buf) (buf_pos buf) ?bs = Some (buf_data (buf_put buf ?bs))"
    using assms by (intro buf_put_write) auto
  with assms l show ?thesis
    by (simp add: natsBuf_Append_def Let_def c_read_def buf_put_def buf_ok_def)
qed

lemma natsBuf_Append_grows:
  assumes "buf_ok buf" "alloc_sized alloc" "0 < dl" "dl \<le> int (length src)"
    "buf_len buf + dl > buf_capacity buf" "grown (buf_len buf + dl) < 0x7FFFFFFF"
    "natsBuf_Expand alloc buf (grown (buf_len buf + dl)) = Some (s, b)"
  shows "natsBuf_Append alloc buf src dl =
    Some (if s = NATS_OK then (NATS_OK, buf_put b (take (nat dl) src)) else (s, buf))"
proof -
  let ?bs = "take (nat dl) src"
  let ?n = "buf_len buf + dl"
  have l: "int (length ?bs) = dl" using assms by simp
  have n: "0 < ?n" "?n < grown ?n" using assms grown_gt [of ?n] by (auto simp: buf_ok_def)
  have *: "natsBuf_Append alloc buf src dl =
    (if s = NATS_OK then
       (case c_write (buf_data b) (buf_pos b) ?bs of None \<Rightarrow> None
        | Some d \<Rightarrow> Some (NATS_OK, b\<lparr>buf_data := d, buf_pos := buf_pos b + dl, buf_len := buf_len b + dl\<rparr>))
     else Some (s, b))"
    using assms n by (simp add: natsBuf_Append_def Let_def c_read_def flip: grown_def)
  obtain s' b' where e: "natsBuf_Expand alloc buf (grown ?n) = Some (s', b')" "buf_ok b'"
     "buf_len b' = buf_len buf"
     "s' = NATS_OK \<and> alloc (grown ?n) \<noteq> None \<and> buf_capacity b' = grown ?n \<and> buf_ownData b'
        \<or> s' = NATS_NO_MEMORY \<and> b' = buf \<and> alloc (grown ?n) = None"
    using natsBuf_Expand_spec [of buf alloc "grown ?n"] assms n by (auto simp: buf_ok_def)
  with assms(7) have eq: "s' = s" "b' = b" by auto
  show ?thesis
  proof (cases "s = NATS_OK")
    case True
    with e eq have "c_write (buf_data b) (buf_pos b) ?bs = Some (buf_data (buf_put b ?bs))"
      using l n by (intro buf_put_write) auto
    with * True l e eq show ?thesis by (simp add: buf_put_def)
  next
    case False
    with * e eq show ?thesis by auto
  qed
qed

lemma natsBuf_Append_spec:
  assumes "buf_ok buf" "alloc_sized alloc" "0 \<le> dl" "dl \<le> int (length src)"
  shows "\<exists>s b. natsBuf_Append alloc buf src dl = Some (s, b) \<and> buf_ok b
    \<and> (s = NATS_OK \<and> buf_content b = buf_content buf @ take (nat dl) src
       \<or> s = NATS_NO_MEMORY \<and> b = buf)"
proof (cases "dl = 0 \<or> buf_len buf + dl \<ge> 0x7FFFFFFF")
  case True
  with assms show ?thesis by (auto simp: natsBuf_Append_def Let_def buf_ok_def)
next
  case small: False
  let ?n = "buf_len buf + dl"
  have n: "0 < ?n" "?n < grown ?n" using assms small grown_gt [of ?n] by (auto simp: buf_ok_def)
  have l: "int (length (take (nat dl) src)) = dl" using assms by simp
  show ?thesis
  proof (cases "?n \<le> buf_capacity buf")
    case True
    with assms small show ?thesis
      by (simp add: natsBuf_Append_fits buf_put_ok)
  next
    case ov: False
    show ?thesis
    proof (cases "grown ?n < 0x7FFFFFFF")
      case False
      with ov n small assms(1,3) show ?thesis
        by (auto simp: natsBuf_Append_def Let_def grown_def)
    next
      case True
      obtain s b where e: "natsBuf_Expand alloc buf (grown ?n) = Some (s, b)" "buf_ok b"
         "buf_content b = buf_content buf" "buf_len b = buf_len buf"
         "s = NATS_OK \<and> alloc (grown ?n) \<noteq> None \<and> buf_capacity b = grown ?n \<and> buf_ownData b
          \<or> s = NATS_NO_MEMORY \<and> b = buf \<and> alloc (grown ?n) = None"
        using natsBuf_Expand_spec [of buf alloc "grown ?n"] assms n ov True by auto
      have "natsBuf_Append alloc buf src dl =
          Some (if s = NATS_OK then (NATS_OK, buf_put b (take (nat dl) src)) else (s, buf))"
        using assms small ov True e(1) by (intro natsBuf_Append_grows) auto
      moreover have "buf_ok (buf_put b (take (nat dl) src))
          \<and> buf_content (buf_put b (take (nat dl) src)) = buf_content buf @ take (nat dl) src"
        if "s = NATS_OK"
        using e l n that by (auto simp: buf_put_ok)
      ultimately show ?thesis using e assms(1) by auto
    qed
  qed
qed

text \<open>With memory available an append succeeds below the size limit.\<close>

lemma natsBuf_Append_succeeds:
  assumes "buf_ok buf" "alloc_sized alloc" "0 \<le> dl" "dl \<le> int (length src)"
    and "\<forall>n. alloc n \<noteq> None" "grown (buf_len buf + dl) < 0x7FFFFFFF"
  shows "\<exists>b. natsBuf_Append alloc buf src dl = Some (NATS_OK, b) \<and> buf_ok b
    \<and> buf_content b = buf_content buf @ take (nat dl) src"
proof -
  let ?n = "buf_len buf + dl"
  have n: "0 \<le> ?n" "?n < grown ?n" using assms grown_gt [of ?n] by (auto simp: buf_ok_def)
  obtain s b where a: "natsBuf_Append alloc buf src dl = Some (s, b)" "buf_ok b"
      "s = NATS_OK \<and> buf_content b = buf_content buf @ take (nat dl) src \<or> s = NATS_NO_MEMORY \<and> b = buf"
    using natsBuf_Append_spec assms(1-4) by blast
  moreover have "s = NATS_OK"
  proof (cases "dl = 0 \<or> ?n \<le> buf_capacity buf")
    case True
    then show ?thesis
      using a(1) assms n natsBuf_Append_fits [of buf dl src alloc]
      by (cases "dl = 0") (auto simp: natsBuf_Append_def)
  next
    case False
    obtain s' b' where "natsBuf_Expand alloc buf (grown ?n) = Some (s', b')" "s' = NATS_OK"
      using natsBuf_Expand_spec [of buf alloc "grown ?n"] assms n False by (auto simp: buf_ok_def)
    with a(1) natsBuf_Append_grows [of buf alloc dl src s' b'] assms False show ?thesis by auto
  qed
  ultimately show ?thesis by blast
qed

lemma natsBuf_AppendByte_spec:
  assumes "buf_ok buf" "alloc_sized alloc" "grown (buf_capacity buf) \<le> INT_MAX"
  shows "\<exists>s b. natsBuf_AppendByte alloc buf c = Some (s, b) \<and> buf_ok b
    \<and> (s = NATS_OK \<and> buf_content b = buf_content buf @ [c] \<or> s = NATS_NO_MEMORY \<and> b = buf)
    \<and> (s = NATS_OK \<longleftrightarrow> buf_len buf < buf_capacity buf \<or> alloc (grown (buf_capacity buf)) \<noteq> None)"
proof (cases "buf_len buf = buf_capacity buf")
  case False
  then have "buf_len buf + int (length [c]) \<le> buf_capacity buf" using assms by (simp add: buf_ok_def)
  with assms False buf_put_write [of buf "[c]"] buf_put_ok [of buf "[c]"] show ?thesis
    by (auto simp: natsBuf_AppendByte_def Let_def buf_put_def buf_ok_def)
next
  case True
  let ?c = "buf_capacity buf"
  have n: "0 \<le> ?c" "?c < grown ?c" using assms grown_gt [of ?c] by (auto simp: buf_ok_def)
  obtain s b where e: "natsBuf_Expand alloc buf (grown ?c) = Some (s, b)" "buf_ok b"
     "buf_content b = buf_content buf" "buf_len b = buf_len buf"
     "s = NATS_OK \<and> alloc (grown ?c) \<noteq> None \<and> buf_capacity b = grown ?c \<and> buf_ownData b
      \<or> s = NATS_NO_MEMORY \<and> b = buf \<and> alloc (grown ?c) = None"
    using natsBuf_Expand_spec [of buf alloc "grown ?c"] assms n by auto
  have *: "natsBuf_AppendByte alloc buf c =
     (if s = NATS_OK then
        (case c_write (buf_data b) (buf_pos b) [c] of None \<Rightarrow> None
         | Some d \<Rightarrow> Some (NATS_OK, b\<lparr>buf_data := d, buf_pos := buf_pos b + 1, buf_len := buf_len b + 1\<rparr>))
      else Some (s, b))"
    using True n e(1) assms(3)
    by (simp add: natsBuf_AppendByte_def Let_def c_int_ok_def flip: grown_def)
  show ?thesis
  proof (cases "s = NATS_OK")
    case ok: True
    then have "buf_len b + int (length [c]) \<le> buf_capacity b" using e n True by auto
    with * ok e buf_put_write [of b "[c]"] buf_put_ok [of b "[c]"] show ?thesis
      by (auto simp: buf_put_def)
  next
    case False
    with * e True assms show ?thesis by auto
  qed
qed

lemma natsBuf_Consume_spec:
  assumes "buf_ok buf" "0 \<le> n" "n \<le> buf_len buf"
  shows "\<exists>b. natsBuf_Consume buf n = Some b \<and> buf_ok b \<and> buf_content b = drop (nat n) (buf_content buf)"
proof -
  obtain m k where mk: "n = int m" "buf_len buf - n = int k"
    using assms by (metis diff_ge_0_iff_ge zero_le_imp_eq_int)
  then have len: "buf_len buf = int (m + k)" by simp
  with assms have d: "m + k \<le> length (buf_data buf)" by (simp add: buf_ok_def)
  have c: "buf_content buf = take (m + k) (buf_data buf)" by (simp add: buf_content_def len nat_add_distrib)
  show ?thesis
  proof (cases "k = 0")
    case True
    with mk len d assms(1) show ?thesis
      by (auto simp: natsBuf_Consume_def buf_ok_def buf_content_def)
  next
    case False
    let ?d = "take k (drop m (buf_data buf)) @ drop k (buf_data buf)"
    have "natsBuf_Consume buf n =
        Some (buf\<lparr>buf_data := ?d, buf_len := int k, buf_pos := int k\<rparr>)"
      using False mk(1) len d by (simp add: natsBuf_Consume_def c_read_def c_write_def Let_def)
    moreover have "k \<le> length (buf_data buf) - m" using d by simp
    moreover have "nat n = m" using mk by simp
    ultimately show ?thesis using d c len assms(1)
      by (simp add: buf_ok_def buf_content_def drop_take min_absorb2)
  qed
qed

section \<open>The interface\<close>

text \<open>
  What a user of a byte sink relies on: an append never leaves the array, and either adds exactly
  the bytes or reports an error and changes nothing.
\<close>

locale byte_sink =
  fixes sink_ok :: "'b \<Rightarrow> bool"
    and content :: "'b \<Rightarrow> bytes"
    and append :: "'b \<Rightarrow> bytes \<Rightarrow> (natsStatus \<times> 'b) option"
    and appends :: "'b \<Rightarrow> bytes list \<Rightarrow> (natsStatus \<times> 'b) option"
  assumes append_total: "sink_ok b \<Longrightarrow> \<exists>s b'. append b xs = Some (s, b') \<and> sink_ok b'"
    and append_content: "sink_ok b \<Longrightarrow> append b xs = Some (s, b') \<Longrightarrow>
      content b' = (if s = NATS_OK then content b @ xs else content b)"
    and appends_Nil: "appends b [] = Some (NATS_OK, b)"
    and appends_Cons: "appends b (x # xss) =
      (case append b x of None \<Rightarrow> None
       | Some (s, b') \<Rightarrow> if s = NATS_OK then appends b' xss else Some (s, b'))"
begin

lemma appends_total: "sink_ok b \<Longrightarrow> \<exists>s b'. appends b xs = Some (s, b') \<and> sink_ok b'"
proof (induction xs arbitrary: b)
  case Nil
  then show ?case by (simp add: appends_Nil)
next
  case (Cons x xs)
  obtain s b' where "append b x = Some (s, b')" "sink_ok b'" using append_total Cons.prems by blast
  with Cons.IH show ?case by (auto simp: appends_Cons)
qed

lemma appends_content:
  assumes "sink_ok b" "appends b xs = Some (NATS_OK, b')"
  shows "content b' = content b @ concat xs"
  using assms
proof (induction xs arbitrary: b)
  case Nil
  then show ?case by (simp add: appends_Nil)
next
  case (Cons x xs)
  obtain s c where a: "append b x = Some (s, c)" "sink_ok c" using append_total Cons.prems by blast
  with Cons.prems have "s = NATS_OK" "appends c xs = Some (NATS_OK, b')"
    by (auto simp: appends_Cons split: if_splits)
  with a Cons.IH [of c] append_content [OF Cons.prems(1) a(1)] show ?case by simp
qed

end


definition sized_alloc :: "allocator \<Rightarrow> allocator" where
  "sized_alloc alloc = (\<lambda>n. case alloc n of None \<Rightarrow> None | Some b \<Rightarrow> if length b = nat n then Some b else None)"

lemma sized_alloc_sized: "alloc_sized (sized_alloc alloc)"
  by (auto simp: alloc_sized_def sized_alloc_def split: option.splits if_splits)

lemma sized_alloc_id: "alloc_sized alloc \<Longrightarrow> sized_alloc alloc = alloc"
  by (auto simp: alloc_sized_def sized_alloc_def fun_eq_iff split: option.splits)

interpretation nbuf: byte_sink buf_ok buf_content
  "\<lambda>b xs. natsBuf_Append (sized_alloc alloc) b xs (int (length xs))"
  "natsBuf_AppendChain (sized_alloc alloc)" for alloc
proof
  fix b :: natsBuffer and xs s b'
  assume ok: "buf_ok b"
  have "\<exists>s b'. natsBuf_Append (sized_alloc alloc) b xs (int (length xs)) = Some (s, b') \<and> buf_ok b'
    \<and> (s = NATS_OK \<and> buf_content b' = buf_content b @ xs \<or> s = NATS_NO_MEMORY \<and> b' = b)"
    using natsBuf_Append_spec [OF ok sized_alloc_sized, of "int (length xs)" xs] by simp
  then show "\<exists>s b'. natsBuf_Append (sized_alloc alloc) b xs (int (length xs)) = Some (s, b') \<and> buf_ok b'"
    and "natsBuf_Append (sized_alloc alloc) b xs (int (length xs)) = Some (s, b') \<Longrightarrow>
      buf_content b' = (if s = NATS_OK then buf_content b @ xs else buf_content b)"
    by auto
qed (simp_all split: option.splits)

section \<open>Properties\<close>

text \<open>
  Property C34. Appending to a buffer: whatever the allocator does, the call neither reads nor writes
  outside an array and leaves a well-formed buffer; it either adds exactly the given bytes or
  reports \<open>NATS_NO_MEMORY\<close> and changes nothing; and it adds them whenever memory is available and
  the grown size stays below the limit.
\<close>

theorem natsBuf_Append_correct:
  assumes "buf_ok buf" "alloc_sized alloc" "0 \<le> dataLen" "dataLen \<le> int (length src)"
  shows "\<exists>s b. natsBuf_Append alloc buf src dataLen = Some (s, b) \<and> buf_ok b
    \<and> (s = NATS_OK \<and> buf_content b = buf_content buf @ take (nat dataLen) src
       \<or> s = NATS_NO_MEMORY \<and> b = buf)
    \<and> ((\<forall>n. alloc n \<noteq> None) \<and> grown (buf_len buf + dataLen) < 0x7FFFFFFF \<longrightarrow> s = NATS_OK)"
  using natsBuf_Append_spec [OF assms] natsBuf_Append_succeeds [OF assms] by force

definition wit_buf :: natsBuffer where
  "wit_buf = \<lparr>buf_data = ''ab__'', buf_pos = 2, buf_len = 2, buf_capacity = 4,
              buf_ownData = False, buf_doFree = False\<rparr>"

theorem natsBuf_Append_correct_witness:
  "\<exists>b. natsBuf_Append calloc0 wit_buf ''cdefgh'' 6 = Some (NATS_OK, b) \<and> buf_content b = ''abcdefgh''"
proof -
  have "buf_ok wit_buf" by (simp add: wit_buf_def buf_ok_def)
  from natsBuf_Append_correct [OF this calloc0_sized, of 6 "''cdefgh''"] show ?thesis
    by (auto simp: wit_buf_def buf_content_def calloc0_def grown_def)
qed

text \<open>
  A chain of appends in the style of the macro \<open>IFOK\<close> that reports success has written
  the concatenation of its pieces; with any allocator it stays inside the arrays.
\<close>

theorem natsBuf_AppendChain_concat:
  assumes "buf_ok buf" "alloc_sized alloc"
  shows "\<exists>s b. natsBuf_AppendChain alloc buf pieces = Some (s, b) \<and> buf_ok b
    \<and> (s = NATS_OK \<longrightarrow> buf_content b = buf_content buf @ concat pieces)"
  using nbuf.appends_total [OF assms(1), of alloc pieces] nbuf.appends_content [OF assms(1), of alloc pieces]
  by (auto simp: sized_alloc_id [OF assms(2)])

theorem natsBuf_AppendChain_concat_witness:
  "\<exists>s b. natsBuf_AppendChain calloc0 wit_buf [''c'', ''de''] = Some (s, b) \<and> buf_ok b
     \<and> (s = NATS_OK \<longrightarrow> buf_content b = ''abcde'')"
proof -
  have "buf_ok wit_buf" by (simp add: wit_buf_def buf_ok_def)
  from natsBuf_AppendChain_concat [OF this calloc0_sized, of "[''c'', ''de'']"] show ?thesis
    by (simp add: wit_buf_def buf_content_def)
qed

text \<open>
  Consuming the first bytes of a buffer keeps the rest in order and the buffer
  well-formed.
\<close>

theorem natsBuf_Consume_correct:
  assumes "buf_ok buf" "0 \<le> n" "n \<le> buf_len buf"
  shows "\<exists>b. natsBuf_Consume buf n = Some b \<and> buf_ok b \<and> buf_content b = drop (nat n) (buf_content buf)"
  using assms by (rule natsBuf_Consume_spec)

theorem natsBuf_Consume_correct_witness:
  "\<exists>b. natsBuf_Consume wit_buf 1 = Some b \<and> buf_ok b \<and> buf_content b = ''b''"
proof -
  have "buf_ok wit_buf" by (simp add: wit_buf_def buf_ok_def)
  from natsBuf_Consume_correct [OF this, of 1] show ?thesis
    by (simp add: wit_buf_def buf_content_def)
qed

end
