(* ===== verification/Nats_Buckets.thy ===== *)
theory Nats_Buckets
  imports Nats_Status "HOL-Library.Multiset"
begin

text \<open>
  What the two hash tables of \<open>hash.c\<close> share: the rounding of the size to a power of two, and the
  facts on an array of chains (a list of lists) in which every entry sits in the chain its key
  selects. The locale \<open>bucket_table\<close> is the interface the tables offer to these facts: a key per
  entry and an index function that stays inside an array of an admissible size.
\<close>

section \<open>Sizes\<close>

text \<open>
  The bit smearing both \<open>Create\<close> functions run on a size that is not a power of two. The value is a
  positive C \<open>int\<close>, so its right shift is the logical one; the last increment leaves the positive
  range exactly when the result is \<open>2^31\<close>.
\<close>

definition roundUpPow2 :: "u32 \<Rightarrow> u32" where
  "roundUpPow2 initialSize =
     (let x0 = initialSize - 1;
          x1 = x0 OR drop_bit 1 x0;
          x2 = x1 OR drop_bit 2 x1;
          x3 = x2 OR drop_bit 4 x2;
          x4 = x3 OR drop_bit 8 x3;
          x5 = x4 OR drop_bit 16 x4
      in x5 + 1)"

definition hashSize :: "int \<Rightarrow> int option" where
  "hashSize initialSize =
     (let w = (word_of_int initialSize :: u32) in
      if w AND (w - 1) \<noteq> 0
      then (if sint (roundUpPow2 w) < 0 then None else Some (sint (roundUpPow2 w)))
      else Some initialSize)"

definition BSZ :: int where "BSZ = 8"
definition MAX_BKT_SIZE :: int where "MAX_BKT_SIZE = 2 ^ 30 - 1"

text \<open>An admissible number of buckets: a power of two up to \<open>2^30\<close>.\<close>

definition pow2_size :: "nat \<Rightarrow> bool" where
  "pow2_size n \<longleftrightarrow> (\<exists>k\<le>30. n = 2 ^ k)"

section \<open>Arrays of chains\<close>

definition placed :: "(nat \<Rightarrow> 'k \<Rightarrow> nat) \<Rightarrow> ('e \<Rightarrow> 'k) \<Rightarrow> 'e list list \<Rightarrow> bool" where
  "placed ix key bkts \<longleftrightarrow>
     (\<forall>i < length bkts. \<forall>e \<in> set (bkts ! i). ix (length bkts) (key e) = i)"

definition keys_distinct :: "('e \<Rightarrow> 'k) \<Rightarrow> 'e list list \<Rightarrow> bool" where
  "keys_distinct key bkts \<longleftrightarrow> distinct (map key (concat bkts))"

definition entry_of :: "('e \<Rightarrow> 'k) \<Rightarrow> 'e list \<Rightarrow> 'k \<Rightarrow> 'e option" where
  "entry_of key es k = List.find (\<lambda>e. key e = k) es"

text \<open>Moving every entry of the old array, chain by chain, to the front of its new chain.\<close>

definition push_entry :: "(nat \<Rightarrow> 'k \<Rightarrow> nat) \<Rightarrow> ('e \<Rightarrow> 'k) \<Rightarrow> 'e \<Rightarrow> 'e list list \<Rightarrow> 'e list list" where
  "push_entry ix key e bkts =
     (let i = ix (length bkts) (key e) in bkts[i := e # bkts ! i])"

definition rehash :: "(nat \<Rightarrow> 'k \<Rightarrow> nat) \<Rightarrow> ('e \<Rightarrow> 'k) \<Rightarrow> nat \<Rightarrow> 'e list list \<Rightarrow> 'e list list" where
  "rehash ix key n bkts = fold (\<lambda>b acc. fold (push_entry ix key) b acc) bkts (replicate n [])"

subsection \<open>The rounding\<close>

lemma bit_smear: "bit (x OR drop_bit s x :: u32) i \<longleftrightarrow> bit x i \<or> bit x (i + s)"
  by (simp add: bit_or_iff bit_drop_bit_eq add.commute)

lemma top_bit:
  fixes n :: nat
  assumes "0 < n"
  obtains m where "bit n m" "2 ^ m \<le> n" "n < 2 ^ Suc m" "\<And>i. m < i \<Longrightarrow> \<not> bit n i"
proof -
  obtain m where b: "2 ^ m \<le> n" "n < 2 ^ Suc m"
    using ex_power_ivl1 [of 2 n] assms by auto
  have "n div 2 ^ m = 1"
  proof (rule div_nat_eqI)
    show "2 ^ m * 1 \<le> n" "n < 2 ^ m * Suc 1" using b by auto
  qed
  then have "bit n m" by (simp add: bit_iff_odd)
  moreover have "\<not> bit n i" if "m < i" for i
  proof -
    have "n < 2 ^ i" using b(2) that by (meson Suc_leI less_le_trans one_le_numeral power_increasing)
    then show ?thesis by (simp add: bit_iff_odd)
  qed
  ultimately show ?thesis using b that by blast
qed

lemma unat_mask_u32: "k < 32 \<Longrightarrow> unat (mask k + 1 :: u32) = 2 ^ k"
proof -
  assume k: "k < 32"
  have "(mask k :: u32) = 2 ^ k - 1" by (simp add: mask_eq_exp_minus_1)
  then have "(mask k + 1 :: u32) = of_nat (2 ^ k)" by simp
  moreover have "(2::nat) ^ k < 2 ^ 32" using k by (intro power_strict_increasing) auto
  ultimately show ?thesis using k by (simp only: unsigned_of_nat, simp add: take_bit_nat_eq_self)
qed

lemma smear_bits:
  fixes x0 :: u32
  defines "x1 \<equiv> x0 OR drop_bit 1 x0" defines "x2 \<equiv> x1 OR drop_bit 2 x1"
  defines "x3 \<equiv> x2 OR drop_bit 4 x2" defines "x4 \<equiv> x3 OR drop_bit 8 x3"
  defines "x5 \<equiv> x4 OR drop_bit 16 x4"
  shows "bit x5 i \<longleftrightarrow> (\<exists>j<32. bit x0 (i + j))"
proof -
  have 1: "bit x1 i \<longleftrightarrow> (\<exists>j<2. bit x0 (i + j))" for i
    unfolding x1_def bit_smear by (auto simp: less_2_cases_iff)
  have st: "(\<exists>j<2 * n. bit x0 (i + j)) \<longleftrightarrow> (\<exists>j<n. bit x0 (i + j)) \<or> (\<exists>j<n. bit x0 (i + n + j))" for i n :: nat
  proof safe
    fix j assume j: "j < 2 * n" "bit x0 (i + j)" "\<nexists>j. j < n \<and> bit x0 (i + n + j)"
    show "\<exists>j<n. bit x0 (i + j)"
    proof (cases "j < n")
      case False
      with j(1,2) have "j - n < n" "bit x0 (i + n + (j - n))" by auto
      with j(3) show ?thesis by blast
    qed (use j in blast)
  next
    fix j assume "j < n" "bit x0 (i + j)" then show "\<exists>j<2*n. bit x0 (i + j)" by (intro exI [of _ j]) auto
  next
    fix j assume "j < n" "bit x0 (i + n + j)"
    then show "\<exists>j<2*n. bit x0 (i + j)" by (intro exI [of _ "n + j"]) (auto simp: add.assoc)
  qed
  have 2: "bit x2 i \<longleftrightarrow> (\<exists>j<4. bit x0 (i + j))" for i
    unfolding x2_def bit_smear 1 using st [where i = i and n = 2] by simp
  have 3: "bit x3 i \<longleftrightarrow> (\<exists>j<8. bit x0 (i + j))" for i
    unfolding x3_def bit_smear 2 using st [where i = i and n = 4] by simp
  have 4: "bit x4 i \<longleftrightarrow> (\<exists>j<16. bit x0 (i + j))" for i
    unfolding x4_def bit_smear 3 using st [where i = i and n = 8] by simp
  show ?thesis
    unfolding x5_def bit_smear 4 using st [where i = i and n = 16] by simp
qed

lemma roundUpPow2_eq:
  assumes "1 < unat w" "unat w \<le> 2 ^ 30"
  shows "\<exists>m<30. unat (roundUpPow2 w) = 2 ^ Suc m \<and> 2 ^ m < unat w \<and> unat w \<le> 2 ^ Suc m"
proof -
  let ?x0 = "w - 1"
  have n: "unat ?x0 = unat w - 1" using assms by (simp add: unat_minus_one unat_gt_0 flip: unat_gt_0)
  then have "0 < unat ?x0" using assms by simp
  then obtain m where m: "bit (unat ?x0) m" "2 ^ m \<le> unat ?x0" "unat ?x0 < 2 ^ Suc m"
      "\<And>i. m < i \<Longrightarrow> \<not> bit (unat ?x0) i"
    using top_bit by blast
  have m30: "m < 30"
  proof (rule ccontr)
    assume "\<not> m < 30"
    then have "(2::nat) ^ 30 \<le> 2 ^ m" by (intro power_increasing) auto
    with m(2) n assms show False by simp
  qed
  have b: "bit ?x0 i \<longleftrightarrow> bit (unat ?x0) i" for i by (simp add: bit_unsigned_iff)
  have ex: "(\<exists>j<32. bit ?x0 (i + j)) \<longleftrightarrow> i \<le> m" for i
  proof
    assume "\<exists>j<32. bit ?x0 (i + j)"
    then obtain j where "bit ?x0 (i + j)" by blast
    with m(4) b show "i \<le> m" by (metis add_leD1 not_le)
  next
    assume "i \<le> m"
    with m(1) m30 b show "\<exists>j<32. bit ?x0 (i + j)" by (intro exI [of _ "m - i"]) auto
  qed
  have "roundUpPow2 w = mask (Suc m) + 1"
    unfolding roundUpPow2_def Let_def
    using m30 by (intro arg_cong2 [where f = "(+)"] refl bit_eqI)
      (simp only: smear_bits ex, simp add: bit_mask_iff less_Suc_eq_le)
  then have "unat (roundUpPow2 w) = 2 ^ Suc m" using m30 by (simp only: unat_mask_u32)
  with m m30 n assms show ?thesis by (intro exI [of _ m]) auto
qed

lemma and_minus_1_pow2:
  assumes "0 < unat (w::u32)" "w AND (w - 1) = 0"
  shows "\<exists>m. unat w = 2 ^ m"
proof -
  obtain m where m: "bit (unat w) m" "2 ^ m \<le> unat w" "unat w < 2 ^ Suc m"
    using top_bit [OF assms(1)] by blast
  have n: "unat (w - 1) = unat w - 1" using assms by (simp add: unat_minus_one unat_gt_0 flip: unat_gt_0)
  have "unat w = 2 ^ m"
  proof (rule ccontr)
    assume "unat w \<noteq> 2 ^ m"
    with m have "2 ^ m \<le> unat w - 1" "unat w - 1 < 2 * 2 ^ m" by auto
    then have "(unat w - 1) div 2 ^ m = 1" by (intro div_nat_eqI) auto
    then have "bit (unat (w - 1)) m" by (simp add: bit_iff_odd n)
    with m(1) have "bit (w AND (w - 1)) m" by (simp add: bit_and_iff bit_unsigned_iff)
    with assms(2) show False by simp
  qed
  then show ?thesis by blast
qed

lemma hashSize_correct:
  assumes "0 < n" "n \<le> 2 ^ 30"
  shows "\<exists>k\<le>30. hashSize n = Some (2 ^ k) \<and> n \<le> 2 ^ k \<and> (\<forall>j. n \<le> 2 ^ j \<longrightarrow> k \<le> j)"
proof -
  let ?w = "word_of_int n :: u32"
  have u: "unat ?w = nat n"
    using assms by (simp add: unsigned_of_int take_bit_int_eq_self)
  show ?thesis
  proof (cases "?w AND (?w - 1) = 0")
    case True
    then obtain m where m: "nat n = 2 ^ m" using and_minus_1_pow2 [of ?w] u assms by auto
    then have nm: "n = 2 ^ m" using assms by (metis nat_0_le less_imp_le of_nat_numeral of_nat_power)
    with assms(2) have "m \<le> 30" by (metis one_less_numeral_iff power_increasing_iff semiring_norm(76))
    with True nm show ?thesis
      by (intro exI [of _ m]) (auto simp: hashSize_def)
  next
    case False
    then have "n \<noteq> 1" by auto
    with assms u have "1 < unat ?w" "unat ?w \<le> 2 ^ 30" by auto
    then obtain m where m: "m < 30" "unat (roundUpPow2 ?w) = 2 ^ Suc m" "2 ^ m < unat ?w" "unat ?w \<le> 2 ^ Suc m"
      using roundUpPow2_eq by blast
    have "(2::int) ^ Suc m < 2 ^ 31" using m(1) by (intro power_strict_increasing) auto
    moreover have "- (2 ^ 31) \<le> (2::int) ^ Suc m" by (rule order_trans [of _ 0]) auto
    ultimately have "signed_take_bit 31 ((2::int) ^ Suc m) = 2 ^ Suc m"
      by (intro signed_take_bit_int_eq_self)
    then have "sint (roundUpPow2 ?w) = 2 ^ Suc m"
      using m(2) by (simp add: sint_uint uint_nat del: power_Suc)
    then have "hashSize n = Some (2 ^ Suc m)" using False by (simp add: hashSize_def Let_def)
    moreover have "n \<le> 2 ^ Suc m" "\<not> n \<le> 2 ^ m" using m(3,4) u assms by (auto simp: nat_less_iff nat_le_iff)
    moreover have "Suc m \<le> j" if "n \<le> 2 ^ j" for j
    proof (rule ccontr)
      assume "\<not> Suc m \<le> j"
      then have "(2::int) ^ j \<le> 2 ^ m" by (intro power_increasing) auto
      with that \<open>\<not> n \<le> 2 ^ m\<close> show False by simp
    qed
    ultimately show ?thesis using m(1) by (intro exI [of _ "Suc m"]) auto
  qed
qed

subsection \<open>Chains\<close>

lemma entry_of_None: "entry_of key es k = None \<longleftrightarrow> k \<notin> key ` set es"
  by (auto simp: entry_of_def find_None_iff)

lemma entry_of_Some:
  assumes "distinct (map key es)"
  shows "entry_of key es k = Some e \<longleftrightarrow> e \<in> set es \<and> key e = k"
  using assms by (induction es) (auto simp: entry_of_def rev_image_eqI)

lemma entry_of_mset:
  assumes "mset es = mset fs" "distinct (map key es)"
  shows "entry_of key es = entry_of key fs"
proof
  fix k
  have d: "distinct (map key fs)"
    using assms by (metis mset_eq_imp_distinct_iff mset_map)
  have s: "set es = set fs" using assms(1) by (metis set_mset_mset)
  show "entry_of key es k = entry_of key fs k"
    using entry_of_None [of key es k] entry_of_None [of key fs k]
      entry_of_Some [OF assms(2), of k] entry_of_Some [OF d, of k] s
    by (cases "entry_of key es k"; cases "entry_of key fs k") auto
qed

lemma in_concat_nth: "i < length bkts \<Longrightarrow> x \<in> set (bkts ! i) \<Longrightarrow> x \<in> set (concat bkts)"
  by (auto intro!: bexI [of _ "bkts ! i"])

lemma mset_take_out: "x \<in> set xs \<Longrightarrow> \<exists>ys. mset xs = mset (x # ys)"
  by (rule exI [of _ "remove1 x xs"]) simp

lemma distinct_map_mset: "mset es = mset fs \<Longrightarrow> distinct (map key es) \<longleftrightarrow> distinct (map key fs)"
  by (intro mset_eq_imp_distinct_iff) simp

lemma mset_concat_update:
  assumes "i < length bkts"
  shows "mset (concat (bkts[i := b])) + mset (bkts ! i) = mset (concat bkts) + mset b"
  using assms
proof (induction bkts arbitrary: i)
  case Nil
  then show ?case by simp
next
  case (Cons c cs)
  then show ?case by (cases i) (auto simp: ac_simps)
qed

lemma placed_update:
  assumes "placed ix key bkts" "\<forall>e \<in> set b. ix (length bkts) (key e) = i"
  shows "placed ix key (bkts[i := b])"
  unfolding placed_def
proof (intro allI impI ballI)
  fix j e
  assume "j < length (bkts[i := b])" "e \<in> set (bkts[i := b] ! j)"
  with assms show "ix (length (bkts[i := b])) (key e) = j"
    by (cases "i = j") (auto simp: placed_def)
qed

locale bucket_table =
  fixes ix :: "nat \<Rightarrow> 'k \<Rightarrow> nat" and key :: "'e \<Rightarrow> 'k" and size_ok :: "nat \<Rightarrow> bool"
  assumes ix_less: "size_ok n \<Longrightarrow> ix n k < n"
begin

lemma push_entry_props:
  assumes "size_ok (length bkts)" "placed ix key bkts"
  shows "length (push_entry ix key e bkts) = length bkts"
    and "placed ix key (push_entry ix key e bkts)"
    and "mset (concat (push_entry ix key e bkts)) = add_mset e (mset (concat bkts))"
proof -
  let ?i = "ix (length bkts) (key e)"
  have i: "?i < length bkts" using assms ix_less by blast
  show "length (push_entry ix key e bkts) = length bkts" by (simp add: push_entry_def Let_def)
  show "placed ix key (push_entry ix key e bkts)"
    using assms i unfolding push_entry_def Let_def
    by (intro placed_update) (auto simp: placed_def)
  show "mset (concat (push_entry ix key e bkts)) = add_mset e (mset (concat bkts))"
    using mset_concat_update [OF i, of "e # bkts ! ?i"] by (simp add: push_entry_def Let_def)
qed

lemma push_all_props:
  assumes "size_ok (length acc)" "placed ix key acc"
  shows "length (fold (push_entry ix key) b acc) = length acc
    \<and> placed ix key (fold (push_entry ix key) b acc)
    \<and> mset (concat (fold (push_entry ix key) b acc)) = mset b + mset (concat acc)"
  using assms
proof (induction b arbitrary: acc)
  case Nil
  then show ?case by simp
next
  case (Cons e b)
  from push_entry_props [OF Cons.prems, of e] Cons.IH [of "push_entry ix key e acc"] Cons.prems
  show ?case by simp
qed

lemma rehash_props:
  assumes "size_ok n"
  shows "length (rehash ix key n bkts) = n"
    and "placed ix key (rehash ix key n bkts)"
    and "mset (concat (rehash ix key n bkts)) = mset (concat bkts)"
proof -
  have *: "length (fold (\<lambda>b acc. fold (push_entry ix key) b acc) bs acc) = length acc
      \<and> placed ix key (fold (\<lambda>b acc. fold (push_entry ix key) b acc) bs acc)
      \<and> mset (concat (fold (\<lambda>b acc. fold (push_entry ix key) b acc) bs acc))
        = mset (concat bs) + mset (concat acc)"
    if "size_ok (length acc)" "placed ix key acc" for bs acc
    using that
  proof (induction bs arbitrary: acc)
    case Nil
    then show ?case by simp
  next
    case (Cons b bs)
    from push_all_props [OF Cons.prems, of b] Cons.IH [of "fold (push_entry ix key) b acc"] Cons.prems
    show ?case by simp
  qed
  have e: "mset (concat (replicate n [])) = {#}" by (induction n) auto
  have p: "placed ix key (replicate n [])" by (simp add: placed_def)
  from * [of "replicate n []" bkts] assms e p
  show "length (rehash ix key n bkts) = n" "placed ix key (rehash ix key n bkts)"
    "mset (concat (rehash ix key n bkts)) = mset (concat bkts)"
    by (simp_all add: rehash_def)
qed

lemma keys_distinct_rehash:
  "size_ok n \<Longrightarrow> keys_distinct key (rehash ix key n bkts) \<longleftrightarrow> keys_distinct key bkts"
  unfolding keys_distinct_def
  by (metis mset_eq_imp_distinct_iff mset_map rehash_props(3))

lemma entry_of_rehash:
  "size_ok n \<Longrightarrow> keys_distinct key bkts \<Longrightarrow>
   entry_of key (concat (rehash ix key n bkts)) = entry_of key (concat bkts)"
  by (rule entry_of_mset)
    (simp_all add: rehash_props keys_distinct_rehash flip: keys_distinct_def)

text \<open>Searching the chain a key selects is searching the whole table.\<close>

lemma entry_in_bucket:
  assumes "size_ok (length bkts)" "placed ix key bkts" "keys_distinct key bkts"
  shows "entry_of key (bkts ! ix (length bkts) k) k = entry_of key (concat bkts) k"
proof -
  let ?b = "bkts ! ix (length bkts) k"
  have i: "ix (length bkts) k < length bkts" using assms ix_less by blast
  then have sub: "set ?b \<subseteq> set (concat bkts)" unfolding set_concat by (intro UN_upper nth_mem)
  have "distinct (concat (map (map key) bkts))"
    using assms(3) by (simp add: keys_distinct_def map_concat)
  moreover have "map key ?b \<in> set (map (map key) bkts)" using i by simp
  ultimately have db: "distinct (map key ?b)" unfolding distinct_concat_iff by blast
  have in_b: "e \<in> set ?b" if "e \<in> set (concat bkts)" "key e = k" for e
  proof -
    from that obtain b where "b \<in> set bkts" "e \<in> set b" by auto
    then obtain j where "j < length bkts" "e \<in> set (bkts ! j)" by (metis in_set_conv_nth)
    moreover from this assms(2) have "ix (length bkts) (key e) = j" unfolding placed_def by blast
    ultimately show ?thesis using that(2) by simp
  qed
  note dc = assms(3) [unfolded keys_distinct_def]
  show ?thesis
  proof (cases "entry_of key (concat bkts) k")
    case None
    then have "k \<notin> key ` set (concat bkts)" by (simp only: entry_of_None simp_thms)
    with sub have "entry_of key ?b k = None" by (auto simp only: entry_of_None)
    with None show ?thesis by simp
  next
    case (Some e)
    then have e: "e \<in> set (concat bkts)" "key e = k" by (simp_all only: entry_of_Some [OF dc])
    then have "entry_of key ?b k = Some e" using in_b by (simp only: entry_of_Some [OF db])
    with Some show ?thesis by simp
  qed
qed

end

section \<open>Properties\<close>

text \<open>
  The number of buckets both \<open>Create\<close> functions choose for a requested size of at most
  \<open>2^30\<close> is the least power of two that is not below it: the bit smearing on 32-bit words is
  correct and its last increment does not overflow.
\<close>

theorem hashSize_least_pow2:
  assumes "0 < n" "n \<le> 2 ^ 30"
  shows "\<exists>k\<le>30. hashSize n = Some (2 ^ k) \<and> n \<le> 2 ^ k \<and> (\<forall>j. n \<le> 2 ^ j \<longrightarrow> k \<le> j)"
  using assms by (rule hashSize_correct)

theorem hashSize_least_pow2_witness:
  "hashSize 37 = Some 64 \<and> (\<exists>k\<le>30. hashSize 37 = Some (2 ^ k) \<and> 37 \<le> (2::int) ^ k \<and> (\<forall>j. 37 \<le> (2::int) ^ j \<longrightarrow> k \<le> j))"
  using hashSize_least_pow2 [of 37] by (simp add: hashSize_def roundUpPow2_def Let_def)

end
