(* ===== verification/Nats_Hash.thy ===== *)
theory Nats_Hash
  imports Nats_Buckets
begin

text \<open>
  The hash table with 64-bit integer keys of \<open>hash.c\<close> (\<open>natsHash\<close>): the client's table of
  subscriptions. A chain of entries linked by \<open>next\<close> is a list; the array of chains is a list of
  lists. Each allocation the code makes is a boolean argument that tells whether it succeeds.
  A pointer to an entry, which the iterator keeps, is the key of the entry: keys are unique in a
  table, and an entry keeps its identity when the table is resized.
\<close>

record 'a natsHashEntry =
  he_key :: u64
  he_data :: 'a

record 'a natsHash =
  h_bkts :: "'a natsHashEntry list list"
  h_numBkts :: int
  h_mask :: u32
  h_used :: int
  h_canResize :: bool

section \<open>Operations\<close>

definition natsHash_Create :: "bool \<Rightarrow> bool \<Rightarrow> int \<Rightarrow> (natsStatus + 'a natsHash) option" where
  "natsHash_Create memHash memBkts initialSize =
     (if initialSize \<le> 0 then Some (Inl NATS_INVALID_ARG)
      else case hashSize initialSize of
             None \<Rightarrow> None
           | Some sz \<Rightarrow>
               Some (if \<not> memHash then Inl NATS_NO_MEMORY
                     else if \<not> memBkts then Inl NATS_NO_MEMORY
                     else Inr \<lparr>h_bkts = replicate (nat sz) [], h_numBkts = sz,
                               h_mask = word_of_int (sz - 1), h_used = 0, h_canResize = True\<rparr>))"

text \<open>The index \<open>(int) (key & hash->mask)\<close>; the mask is sign-extended to 64 bits.\<close>

definition hash_idx :: "u32 \<Rightarrow> u64 \<Rightarrow> nat" where
  "hash_idx msk key = unat (key AND scast msk)"

definition hash_resize :: "bool \<Rightarrow> 'a natsHash \<Rightarrow> int \<Rightarrow> natsStatus \<times> 'a natsHash" where
  "hash_resize mem hash newSize =
     (let newMask = word_of_int (newSize - 1) :: u32;
          move = (\<lambda>ne bkts. let newIndex = hash_idx newMask (he_key ne)
                            in bkts[newIndex := ne # bkts ! newIndex])
      in if \<not> mem then (NATS_NO_MEMORY, hash)
         else (NATS_OK,
               hash\<lparr>h_bkts := fold (\<lambda>e bkts. fold move e bkts)
                               (take (nat (h_numBkts hash)) (h_bkts hash))
                               (replicate (nat newSize) []),
                    h_mask := newMask, h_numBkts := newSize\<rparr>))"

definition hash_grow :: "bool \<Rightarrow> 'a natsHash \<Rightarrow> natsStatus \<times> 'a natsHash" where
  "hash_grow mem hash =
     (if h_numBkts hash \<ge> MAX_BKT_SIZE then (NATS_NO_MEMORY, hash)
      else hash_resize mem hash (2 * h_numBkts hash))"

definition hash_shrink :: "bool \<Rightarrow> 'a natsHash \<Rightarrow> 'a natsHash" where
  "hash_shrink mem hash =
     (if h_numBkts hash \<le> BSZ then hash
      else snd (hash_resize mem hash (h_numBkts hash div 2)))"

definition createEntry :: "bool \<Rightarrow> u64 \<Rightarrow> 'a \<Rightarrow> 'a natsHashEntry option" where
  "createEntry mem key data =
     (if mem then Some \<lparr>he_key = key, he_data = data\<rparr> else None)"

text \<open>The search loop of \<open>natsHash_Set\<close>: the old data and the chain with the data replaced.\<close>

fun chain_set :: "u64 \<Rightarrow> 'a \<Rightarrow> 'a natsHashEntry list \<Rightarrow> ('a \<times> 'a natsHashEntry list) option" where
  "chain_set key data [] = None"
| "chain_set key data (e # es) =
     (if he_key e = key then Some (he_data e, e\<lparr>he_data := data\<rparr> # es)
      else map_option (\<lambda>(old, es'). (old, e # es')) (chain_set key data es))"

definition natsHash_Set ::
    "bool \<Rightarrow> bool \<Rightarrow> 'a natsHash \<Rightarrow> u64 \<Rightarrow> 'a \<Rightarrow> natsStatus \<times> 'a option \<times> 'a natsHash" where
  "natsHash_Set memEntry memBkts hash key data =
     (let index = hash_idx (h_mask hash) key in
      case chain_set key data (h_bkts hash ! index) of
        Some (old, chain) \<Rightarrow> (NATS_OK, Some old, hash\<lparr>h_bkts := (h_bkts hash)[index := chain]\<rparr>)
      | None \<Rightarrow>
          (case createEntry memEntry key data of
             None \<Rightarrow> (NATS_NO_MEMORY, None, hash)
           | Some newEntry \<Rightarrow>
               (let hash' = hash\<lparr>h_bkts := (h_bkts hash)[index := newEntry # h_bkts hash ! index],
                                 h_used := h_used hash + 1\<rparr>
                in if h_canResize hash' \<and> h_used hash' > h_numBkts hash'
                   then (let (s, hash'') = hash_grow memBkts hash' in (s, None, hash''))
                   else (NATS_OK, None, hash'))))"

fun chain_get :: "u64 \<Rightarrow> 'a natsHashEntry list \<Rightarrow> 'a option" where
  "chain_get key [] = None"
| "chain_get key (e # es) = (if he_key e = key then Some (he_data e) else chain_get key es)"

definition natsHash_Get :: "'a natsHash \<Rightarrow> u64 \<Rightarrow> 'a option" where
  "natsHash_Get hash key = chain_get key (h_bkts hash ! hash_idx (h_mask hash) key)"

definition hash_maybeShrink :: "bool \<Rightarrow> 'a natsHash \<Rightarrow> 'a natsHash" where
  "hash_maybeShrink mem hash =
     (if h_canResize hash \<and> h_numBkts hash > BSZ \<and> h_used hash < h_numBkts hash div 4
      then hash_shrink mem hash else hash)"

fun chain_remove :: "u64 \<Rightarrow> 'a natsHashEntry list \<Rightarrow> ('a \<times> 'a natsHashEntry list) option" where
  "chain_remove key [] = None"
| "chain_remove key (e # es) =
     (if he_key e = key then Some (he_data e, es)
      else map_option (\<lambda>(d, es'). (d, e # es')) (chain_remove key es))"

definition natsHash_Remove :: "bool \<Rightarrow> 'a natsHash \<Rightarrow> u64 \<Rightarrow> 'a option \<times> 'a natsHash" where
  "natsHash_Remove mem hash key =
     (let index = hash_idx (h_mask hash) key in
      case chain_remove key (h_bkts hash ! index) of
        None \<Rightarrow> (None, hash)
      | Some (dataRemoved, chain) \<Rightarrow>
          (Some dataRemoved,
           hash_maybeShrink mem (hash\<lparr>h_bkts := (h_bkts hash)[index := chain],
                                      h_used := h_used hash - 1\<rparr>)))"

text \<open>The loop of \<open>natsHash_RemoveSingle\<close>: the first non-empty bucket, which is then cleared.\<close>

fun first_nonempty :: "'e list list \<Rightarrow> nat \<Rightarrow> (nat \<times> 'e) option" where
  "first_nonempty [] i = None"
| "first_nonempty (b # bs) i =
     (case b of e # _ \<Rightarrow> Some (i, e) | [] \<Rightarrow> first_nonempty bs (Suc i))"

definition natsHash_RemoveSingle ::
    "bool \<Rightarrow> 'a natsHash \<Rightarrow> natsStatus \<times> (u64 \<times> 'a) option \<times> 'a natsHash" where
  "natsHash_RemoveSingle mem hash =
     (if h_used hash \<noteq> 1 then (NATS_ERR, None, hash)
      else case first_nonempty (take (nat (h_numBkts hash)) (h_bkts hash)) 0 of
             None \<Rightarrow> (NATS_OK, None, hash)
           | Some (i, e) \<Rightarrow>
               (NATS_OK, Some (he_key e, he_data e),
                hash_maybeShrink mem (hash\<lparr>h_used := h_used hash - 1,
                                           h_bkts := (h_bkts hash)[i := []]\<rparr>)))"

text \<open>The entries that \<open>natsHash_Destroy\<close> frees, in order.\<close>

definition natsHash_Destroy :: "'a natsHash \<Rightarrow> 'a natsHashEntry list" where
  "natsHash_Destroy hash = concat (take (nat (h_numBkts hash)) (h_bkts hash))"

section \<open>Iterator\<close>

record natsHashIter =
  hi_current :: "u64 option"
  hi_next :: "u64 option"
  hi_currBkt :: nat
  hi_started :: bool

definition chain_ptr :: "'a natsHashEntry list \<Rightarrow> u64 option" where
  "chain_ptr es = (case es of [] \<Rightarrow> None | e # _ \<Rightarrow> Some (he_key e))"

text \<open>Following a pointer: the chain that starts at the entry, empty for one that was freed.\<close>

definition chain_at :: "'a natsHash \<Rightarrow> u64 \<Rightarrow> 'a natsHashEntry list" where
  "chain_at hash p = dropWhile (\<lambda>e. he_key e \<noteq> p) (h_bkts hash ! hash_idx (h_mask hash) p)"

definition natsHashIter_Init :: "'a natsHash \<Rightarrow> natsHashIter \<times> 'a natsHash" where
  "natsHashIter_Init hash =
     (let p = chain_ptr (h_bkts hash ! 0)
      in (\<lparr>hi_current = p, hi_next = p, hi_currBkt = 0, hi_started = False\<rparr>,
          hash\<lparr>h_canResize := False\<rparr>))"

text \<open>\<open>while (next == NULL && currBkt < numBkts - 1) next = bkts[++currBkt]\<close>\<close>

function iter_skip :: "'a natsHash \<Rightarrow> u64 option \<Rightarrow> nat \<Rightarrow> u64 option \<times> nat" where
  "iter_skip hash nxt currBkt =
     (if nxt = None \<and> int currBkt < h_numBkts hash - 1
      then iter_skip hash (chain_ptr (h_bkts hash ! Suc currBkt)) (Suc currBkt)
      else (nxt, currBkt))"
  by pat_completeness auto
termination
  by (relation "measure (\<lambda>(hash, _, currBkt). nat (h_numBkts hash) - currBkt)") auto

declare iter_skip.simps [simp del]

text \<open>
  The second component is the key and data the caller receives. Following \<open>current->next\<close> through
  a freed entry is undefined.
\<close>

definition natsHashIter_Next ::
    "'a natsHash \<Rightarrow> natsHashIter \<Rightarrow> (bool \<times> (u64 \<times> 'a) option \<times> natsHashIter) option" where
  "natsHashIter_Next hash iter =
     (if hi_started iter \<and> hi_next iter = None then Some (False, None, iter)
      else
       (let (nxt, currBkt) =
              (if \<not> hi_started iter \<and> hi_current iter = None
               then iter_skip hash (hi_next iter) (hi_currBkt iter)
               else (hi_next iter, hi_currBkt iter))
        in if \<not> hi_started iter \<and> hi_current iter = None \<and> nxt = None
           then Some (False, None, iter\<lparr>hi_next := nxt, hi_currBkt := currBkt, hi_started := True\<rparr>)
           else
            (case nxt of
               None \<Rightarrow>
                 (let (nxt', currBkt') = iter_skip hash None currBkt
                  in Some (True, None, iter\<lparr>hi_current := None, hi_next := nxt',
                                            hi_currBkt := currBkt', hi_started := True\<rparr>))
             | Some p \<Rightarrow>
                 (case chain_at hash p of
                    [] \<Rightarrow> None
                  | e # es \<Rightarrow>
                      (let (nxt', currBkt') = iter_skip hash (chain_ptr es) currBkt
                       in Some (True, Some (he_key e, he_data e),
                                iter\<lparr>hi_current := Some p, hi_next := nxt',
                                     hi_currBkt := currBkt', hi_started := True\<rparr>))))))"

definition natsHashIter_RemoveCurrent ::
    "bool \<Rightarrow> 'a natsHash \<Rightarrow> natsHashIter \<Rightarrow> natsStatus \<times> natsHashIter \<times> 'a natsHash" where
  "natsHashIter_RemoveCurrent mem hash iter =
     (case hi_current iter of
        None \<Rightarrow> (NATS_NOT_FOUND, iter, hash)
      | Some key \<Rightarrow>
          (NATS_OK, iter\<lparr>hi_current := hi_next iter\<rparr>, snd (natsHash_Remove mem hash key)))"

definition natsHashIter_Done :: "'a natsHash \<Rightarrow> 'a natsHash" where
  "natsHashIter_Done hash = hash\<lparr>h_canResize := True\<rparr>"

section \<open>Contract\<close>

text \<open>The index function of an array of \<open>n\<close> buckets, and the invariant of the table.\<close>

definition hix :: "nat \<Rightarrow> u64 \<Rightarrow> nat" where
  "hix n = hash_idx (word_of_int (int n - 1))"

definition hash_ok :: "'a natsHash \<Rightarrow> bool" where
  "hash_ok h \<longleftrightarrow> pow2_size (length (h_bkts h)) \<and> h_numBkts h = int (length (h_bkts h))
     \<and> h_mask h = word_of_int (h_numBkts h - 1) \<and> h_used h = int (length (concat (h_bkts h)))
     \<and> placed hix he_key (h_bkts h) \<and> keys_distinct he_key (h_bkts h)"

definition hash_abs :: "'a natsHash \<Rightarrow> u64 \<rightharpoonup> 'a" where
  "hash_abs h k = map_option he_data (entry_of he_key (concat (h_bkts h)) k)"

lemma scast_mask: "k \<le> 30 \<Longrightarrow> (scast (word_of_int (2 ^ k - 1) :: u32) :: u64) = mask k"
proof -
  assume k: "k \<le> 30"
  have "(2::int) ^ k \<le> 2 ^ 30" using k by (intro power_increasing) auto
  then have "(2::int) ^ k \<le> 1073741824" by simp
  moreover have "(0::int) < 2 ^ k" by simp
  ultimately have "c_int_ok (2 ^ k - 1)" unfolding c_int_ok_def by (intro conjI; linarith)
  then have "sint (word_of_int (2 ^ k - 1) :: u32) = 2 ^ k - 1"
    using to_c_int_id [of "2 ^ k - 1"] by (simp only: to_c_int_def)
  then have "(scast (word_of_int (2 ^ k - 1) :: u32) :: u64) = word_of_int (2 ^ k - 1)"
    by (simp only: scast_eq)
  then show ?thesis by (simp add: mask_eq_exp_minus_1)
qed

lemma hix_eq: "k \<le> 30 \<Longrightarrow> hix (2 ^ k) key = unat key mod 2 ^ k"
proof -
  assume k: "k \<le> 30"
  have "hix (2 ^ k) key = unat (key AND mask k)"
    using scast_mask [OF k] by (simp add: hix_def hash_idx_def)
  also have "\<dots> = unat (take_bit k key)" by (simp add: take_bit_eq_mask)
  also have "\<dots> = take_bit k (unat key)" by (simp add: unsigned_take_bit_eq)
  finally show ?thesis by (simp add: take_bit_eq_mod)
qed

interpretation hb: bucket_table hix "he_key :: 'a natsHashEntry \<Rightarrow> u64" pow2_size
  by unfold_locales (auto simp: pow2_size_def hix_eq)

lemma hash_idx_hix: "hash_ok h \<Longrightarrow> hash_idx (h_mask h) = hix (length (h_bkts h))"
  by (simp add: hash_ok_def hix_def)

lemma hash_idx_less: "hash_ok h \<Longrightarrow> hash_idx (h_mask h) key < length (h_bkts h)"
  using hb.ix_less [of "length (h_bkts h)" key] hash_idx_hix [of h] by (simp add: hash_ok_def)

subsection \<open>Creation\<close>

lemma natsHash_Create_ok:
  assumes "natsHash_Create True True n = Some (Inr h)" "n \<le> 2 ^ 30"
  shows "hash_ok h" "hash_abs h = Map.empty" "n \<le> h_numBkts h"
proof -
  have n: "0 < n" using assms by (auto simp: natsHash_Create_def split: if_splits)
  obtain k where k: "k \<le> 30" "hashSize n = Some (2 ^ k)" "n \<le> 2 ^ k"
    using hashSize_correct [OF n assms(2)] by blast
  then have h: "h = \<lparr>h_bkts = replicate (2 ^ k) [], h_numBkts = 2 ^ k,
      h_mask = word_of_int (2 ^ k - 1), h_used = 0, h_canResize = True\<rparr>"
    using assms n by (simp add: natsHash_Create_def nat_power_eq)
  have e: "concat (replicate m []) = []" for m by (induction m) auto
  show "hash_ok h" "hash_abs h = Map.empty" "n \<le> h_numBkts h"
    using k by (auto simp: h hash_ok_def hash_abs_def e pow2_size_def placed_def keys_distinct_def entry_of_def)
qed

subsection \<open>Resizing\<close>

lemma hash_resize_eq:
  assumes "h_numBkts h = int (length (h_bkts h))"
  shows "hash_resize True h (int n) =
    (NATS_OK, h\<lparr>h_bkts := rehash hix he_key n (h_bkts h), h_mask := word_of_int (int n - 1), h_numBkts := int n\<rparr>)"
proof -
  define move where "move = (\<lambda>(ne :: 'a natsHashEntry) bkts.
     let newIndex = hash_idx (word_of_int (int n - 1)) (he_key ne) in bkts[newIndex := ne # bkts ! newIndex])"
  have mv: "push_entry hix he_key ne acc = move ne acc" if "length acc = n" for ne acc
    using that by (simp add: push_entry_def move_def hix_def Let_def)
  have ln: "length (move ne acc) = length acc" for ne acc by (simp add: move_def Let_def)
  have "fold (push_entry hix he_key) b acc = fold move b acc \<and> length (fold move b acc) = n"
    if "length acc = n" for b acc
    using that by (induction b arbitrary: acc) (auto simp: mv ln)
  then have f: "fold (\<lambda>b acc. fold (push_entry hix he_key) b acc) bs acc = fold (\<lambda>b acc. fold move b acc) bs acc"
    if "length acc = n" for bs acc
    using that by (induction bs arbitrary: acc) auto
  from f [of "replicate n []" "h_bkts h"] assms show ?thesis
    by (simp add: hash_resize_def rehash_def move_def Let_def)
qed

text \<open>What a resize keeps: the contents, the count and the invariant, for an admissible size.\<close>

lemma hash_resize_ok:
  assumes "hash_ok h" "pow2_size n"
  shows "hash_ok (snd (hash_resize mem h (int n)))"
    and "hash_abs (snd (hash_resize mem h (int n))) = hash_abs h"
    and "h_used (snd (hash_resize mem h (int n))) = h_used h"
proof -
  have nb: "h_numBkts h = int (length (h_bkts h))" using assms by (simp add: hash_ok_def)
  note p = hb.rehash_props [OF assms(2), of "h_bkts h"]
  have l: "length (concat (rehash hix he_key n (h_bkts h))) = length (concat (h_bkts h))"
    using p(3) by (metis size_mset)
  show "hash_ok (snd (hash_resize mem h (int n)))"
  proof (cases mem)
    case True
    then show ?thesis using assms p l hb.keys_distinct_rehash [OF assms(2), of "h_bkts h"]
      by (simp add: hash_resize_eq [OF nb] hash_ok_def)
  qed (use assms in \<open>simp add: hash_resize_def\<close>)
  show "hash_abs (snd (hash_resize mem h (int n))) = hash_abs h"
  proof (cases mem)
    case True
    then show ?thesis using assms hb.entry_of_rehash [OF assms(2), of "h_bkts h"]
      by (simp add: hash_resize_eq [OF nb] hash_abs_def fun_eq_iff hash_ok_def)
  qed (simp add: hash_resize_def)
  show "h_used (snd (hash_resize mem h (int n))) = h_used h"
    by (cases mem) (simp_all add: hash_resize_eq [OF nb], simp add: hash_resize_def)
qed

lemma pow2_double: "pow2_size n \<Longrightarrow> int n < MAX_BKT_SIZE \<Longrightarrow> pow2_size (2 * n)"
proof -
  assume n: "pow2_size n" "int n < MAX_BKT_SIZE"
  then obtain k where k: "n = 2 ^ k" "k \<le> 30" by (auto simp: pow2_size_def)
  have "k \<noteq> 30" using n k by (auto simp: MAX_BKT_SIZE_def)
  with k show ?thesis by (auto simp: pow2_size_def intro!: exI [of _ "Suc k"])
qed

lemma pow2_half: "pow2_size n \<Longrightarrow> 1 < n \<Longrightarrow> pow2_size (n div 2)"
  unfolding pow2_size_def
proof (elim exE conjE)
  fix k assume "1 < n" "k \<le> 30" "n = 2 ^ k"
  then show "\<exists>k\<le>30. n div 2 = 2 ^ k" by (cases k) (auto intro!: exI [of _ "k - 1"])
qed

lemma hash_grow_ok:
  assumes "hash_ok h"
  shows "hash_ok (snd (hash_grow mem h))" "hash_abs (snd (hash_grow mem h)) = hash_abs h"
    "h_used (snd (hash_grow mem h)) = h_used h"
proof -
  let ?n = "length (h_bkts h)"
  have *: "h_numBkts h < MAX_BKT_SIZE \<Longrightarrow> pow2_size (2 * ?n)" "2 * h_numBkts h = int (2 * ?n)"
    using assms pow2_double [of ?n] by (auto simp: hash_ok_def)
  show "hash_ok (snd (hash_grow mem h))" "hash_abs (snd (hash_grow mem h)) = hash_abs h"
    "h_used (snd (hash_grow mem h)) = h_used h"
    using * hash_resize_ok [OF assms, of "2 * ?n" mem] assms
    by (auto simp: hash_grow_def simp del: of_nat_mult)
qed

lemma hash_maybeShrink_ok:
  assumes "hash_ok h"
  shows "hash_ok (hash_maybeShrink mem h)" "hash_abs (hash_maybeShrink mem h) = hash_abs h"
    "h_used (hash_maybeShrink mem h) = h_used h"
proof -
  let ?n = "length (h_bkts h)"
  have *: "h_numBkts h > BSZ \<Longrightarrow> pow2_size (?n div 2)" "h_numBkts h div 2 = int (?n div 2)"
    using assms pow2_half [of ?n] by (auto simp: hash_ok_def BSZ_def)
  show "hash_ok (hash_maybeShrink mem h)" "hash_abs (hash_maybeShrink mem h) = hash_abs h"
    "h_used (hash_maybeShrink mem h) = h_used h"
    using * hash_resize_ok [OF assms, of "?n div 2" mem] assms
    by (auto simp: hash_maybeShrink_def hash_shrink_def simp del: of_nat_div zdiv_int)
qed

subsection \<open>Chains\<close>

lemma chain_get_eq: "chain_get k es = map_option he_data (entry_of he_key es k)"
  by (induction es) (auto simp: entry_of_def)

lemma chain_set_None: "chain_set k d es = None \<longleftrightarrow> entry_of he_key es k = None"
  by (induction es) (auto simp: entry_of_def)

lemma chain_set_Some:
  assumes "chain_set k d es = Some (old, es')"
  shows "map he_key es' = map he_key es" and "map_option he_data (entry_of he_key es k) = Some old"
    and "mset es + {#\<lparr>he_key = k, he_data = d\<rparr>#} = mset es' + {#\<lparr>he_key = k, he_data = old\<rparr>#}"
    and "\<lparr>he_key = k, he_data = old\<rparr> \<in> set es"
proof -
  have "map he_key es' = map he_key es \<and> map_option he_data (entry_of he_key es k) = Some old
    \<and> mset es + {#\<lparr>he_key = k, he_data = d\<rparr>#} = mset es' + {#\<lparr>he_key = k, he_data = old\<rparr>#}
    \<and> \<lparr>he_key = k, he_data = old\<rparr> \<in> set es"
    using assms
  proof (induction es arbitrary: es')
    case Nil
    then show ?case by simp
  next
    case (Cons e es)
    then show ?case by (cases e) (auto simp: entry_of_def split: if_splits)
  qed
  then show "map he_key es' = map he_key es" "map_option he_data (entry_of he_key es k) = Some old"
    "mset es + {#\<lparr>he_key = k, he_data = d\<rparr>#} = mset es' + {#\<lparr>he_key = k, he_data = old\<rparr>#}"
    "\<lparr>he_key = k, he_data = old\<rparr> \<in> set es" by blast+
qed

lemma chain_remove_None: "chain_remove k es = None \<longleftrightarrow> entry_of he_key es k = None"
  by (induction es) (auto simp: entry_of_def)

lemma chain_remove_Some:
  assumes "chain_remove k es = Some (d, es')"
  shows "map_option he_data (entry_of he_key es k) = Some d"
    and "mset es = add_mset \<lparr>he_key = k, he_data = d\<rparr> (mset es')"
proof -
  have "map_option he_data (entry_of he_key es k) = Some d
    \<and> mset es = add_mset \<lparr>he_key = k, he_data = d\<rparr> (mset es')"
    using assms
  proof (induction es arbitrary: es')
    case Nil
    then show ?case by simp
  next
    case (Cons e es)
    then show ?case by (cases e) (auto simp: entry_of_def split: if_splits)
  qed
  then show "map_option he_data (entry_of he_key es k) = Some d"
    "mset es = add_mset \<lparr>he_key = k, he_data = d\<rparr> (mset es')" by blast+
qed

text \<open>The map that a list of entries with distinct keys stands for, by its multiset.\<close>

lemma hash_abs_of:
  assumes "mset (concat (h_bkts h)) = mset es" "keys_distinct he_key (h_bkts h)"
  shows "hash_abs h = (\<lambda>k. map_option he_data (entry_of he_key es k))"
  unfolding hash_abs_def
  using entry_of_mset [OF assms(1), of he_key] assms(2) by (simp add: keys_distinct_def)

lemma hash_ok_bucket:
  assumes "hash_ok h"
  shows "entry_of he_key (h_bkts h ! hash_idx (h_mask h) k) k = entry_of he_key (concat (h_bkts h)) k"
  using hb.entry_in_bucket [of "h_bkts h" k] assms hash_idx_hix [OF assms]
  by (simp add: hash_ok_def)

theorem natsHash_Get_abs: "hash_ok h \<Longrightarrow> natsHash_Get h k = hash_abs h k"
  by (simp add: natsHash_Get_def chain_get_eq hash_ok_bucket hash_abs_def)

text \<open>Replacing one chain of a table.\<close>

lemma hash_upd_ok:
  assumes h: "hash_ok h" and i: "i = hash_idx (h_mask h) k"
    and pl: "\<forall>e \<in> set b. hash_idx (h_mask h) (he_key e) = i"
    and ms: "mset (concat ((h_bkts h)[i := b])) = mset es" and d: "distinct (map he_key es)"
    and h': "h_bkts h' = (h_bkts h)[i := b]" "h_numBkts h' = h_numBkts h" "h_mask h' = h_mask h"
      "h_used h' = int (length es)"
  shows "hash_ok h'" and "hash_abs h' j = map_option he_data (entry_of he_key es j)"
proof -
  have p: "placed hix he_key ((h_bkts h)[i := b])"
    using placed_update [of hix he_key "h_bkts h" b i] h pl hash_idx_hix [OF h] by (simp add: hash_ok_def)
  have kd: "keys_distinct he_key ((h_bkts h)[i := b])"
    unfolding keys_distinct_def by (simp only: distinct_map_mset [OF ms] d)
  have l: "length (concat ((h_bkts h)[i := b])) = length es" using ms by (metis size_mset)
  show "hash_ok h'" using h p kd l h' by (simp add: hash_ok_def)
  show "hash_abs h' j = map_option he_data (entry_of he_key es j)"
    using hash_abs_of [of h' es] kd ms h' by simp
qed

lemma entry_of_Cons: "entry_of key (e # es) k = (if key e = k then Some e else entry_of key es k)"
  by (simp add: entry_of_def)

lemma placed_chain:
  "hash_ok h \<Longrightarrow> e \<in> set (h_bkts h ! hash_idx (h_mask h) k) \<Longrightarrow>
   hash_idx (h_mask h) (he_key e) = hash_idx (h_mask h) k"
  using hash_idx_less [of h k] hash_idx_hix [of h] by (simp add: hash_ok_def placed_def)

text \<open>
  Replacing the entry \<open>o\<close> of a key by \<open>n\<close>, taking it out or putting a new one in front, all in the
  chain of the key: the other entries (\<open>es\<close>) stay.
\<close>

lemma chain_mset:
  assumes "hash_ok h" "mset (h_bkts h ! hash_idx (h_mask h) k) + A = mset b + B"
  shows "mset (concat ((h_bkts h)[hash_idx (h_mask h) k := b])) + B = mset (concat (h_bkts h)) + A"
proof -
  let ?c = "h_bkts h ! hash_idx (h_mask h) k" and ?E = "concat (h_bkts h)"
  let ?E' = "concat ((h_bkts h)[hash_idx (h_mask h) k := b])"
  have "mset ?E' + mset ?c + B = mset ?E + (mset b + B)"
    using mset_concat_update [OF hash_idx_less [OF assms(1)], of k b] by simp
  also have "\<dots> = mset ?E + A + mset ?c" using assms(2) by (simp add: ac_simps)
  finally show ?thesis by (simp add: ac_simps)
qed

lemma natsHash_replace:
  assumes h: "hash_ok h" and cs: "chain_set k d (h_bkts h ! hash_idx (h_mask h) k) = Some (old, c)"
  shows "hash_abs h k = Some old"
    and "hash_ok (h\<lparr>h_bkts := (h_bkts h)[hash_idx (h_mask h) k := c]\<rparr>)"
    and "hash_abs (h\<lparr>h_bkts := (h_bkts h)[hash_idx (h_mask h) k := c]\<rparr>) = (hash_abs h)(k \<mapsto> d)"
proof -
  let ?i = "hash_idx (h_mask h) k" and ?o = "\<lparr>he_key = k, he_data = old\<rparr>" and ?n = "\<lparr>he_key = k, he_data = d\<rparr>"
  note c = chain_set_Some [OF cs]
  show "hash_abs h k = Some old" using c(2) hash_ok_bucket [OF h, of k] by (simp add: hash_abs_def)
  obtain es where es: "mset (concat (h_bkts h)) = mset (?o # es)"
    using mset_take_out [OF in_concat_nth [OF hash_idx_less [OF h] c(4)]] by (elim exE)
  from chain_mset [OF h c(3)] es have ms: "mset (concat ((h_bkts h)[?i := c])) = mset (?n # es)" by simp
  have kd: "keys_distinct he_key (h_bkts h)" and u: "h_used h = int (length (concat (h_bkts h)))"
    using h by (auto simp: hash_ok_def)
  have d: "distinct (map he_key (?o # es))"
    using distinct_map_mset [OF es, of he_key] kd by (simp only: keys_distinct_def)
  have u': "h_used h = int (length (?n # es))" using u arg_cong [OF es, of size] by simp
  have pl: "\<forall>e \<in> set c. hash_idx (h_mask h) (he_key e) = ?i"
  proof
    fix e assume "e \<in> set c"
    then have "he_key e \<in> he_key ` set (h_bkts h ! ?i)" using c(1) by (metis list.set_map image_eqI)
    then show "hash_idx (h_mask h) (he_key e) = ?i" using placed_chain [OF h] by auto
  qed
  have "distinct (map he_key (?n # es))" using d by simp
  note U = hash_upd_ok [OF h refl pl ms this, of "h\<lparr>h_bkts := (h_bkts h)[?i := c]\<rparr>"]
  show "hash_ok (h\<lparr>h_bkts := (h_bkts h)[?i := c]\<rparr>)" using u' by (intro U(1)) simp_all
  show "hash_abs (h\<lparr>h_bkts := (h_bkts h)[?i := c]\<rparr>) = (hash_abs h)(k \<mapsto> d)"
  proof
    fix j
    have "hash_abs (h\<lparr>h_bkts := (h_bkts h)[?i := c]\<rparr>) j = map_option he_data (entry_of he_key (?n # es) j)"
      using u' by (intro U(2)) simp_all
    then show "hash_abs (h\<lparr>h_bkts := (h_bkts h)[?i := c]\<rparr>) j = ((hash_abs h)(k \<mapsto> d)) j"
      unfolding hash_abs_of [OF es kd] by (simp add: entry_of_Cons)
  qed
qed

lemma natsHash_insert:
  fixes d :: 'a and h :: "'a natsHash"
  assumes h: "hash_ok h" and n: "hash_abs h k = None"
  defines "h' \<equiv> h\<lparr>h_bkts := (h_bkts h)[hash_idx (h_mask h) k := \<lparr>he_key = k, he_data = d\<rparr> # h_bkts h ! hash_idx (h_mask h) k],
                  h_used := h_used h + 1\<rparr>"
  shows "hash_ok h'" and "hash_abs h' = (hash_abs h)(k \<mapsto> d)"
proof -
  let ?i = "hash_idx (h_mask h) k" and ?n = "\<lparr>he_key = k, he_data = d\<rparr>"
  let ?E = "concat (h_bkts h)"
  have ms: "mset (concat ((h_bkts h)[?i := ?n # h_bkts h ! ?i])) = mset (?n # ?E)"
    using chain_mset [OF h, of k "{#?n#}" "?n # h_bkts h ! ?i" "{#}"] by simp
  have kd: "distinct (map he_key ?E)" and u: "h_used h + 1 = int (length (?n # ?E))"
    using h by (auto simp: hash_ok_def keys_distinct_def)
  have "k \<notin> he_key ` set ?E" using n by (auto simp: hash_abs_def entry_of_None)
  then have d: "distinct (map he_key (?n # ?E))" using kd by simp
  have pl: "\<forall>e \<in> set (?n # h_bkts h ! ?i). hash_idx (h_mask h) (he_key e) = ?i"
    using placed_chain [OF h] by simp
  note U = hash_upd_ok [OF h refl pl ms d, of h']
  show "hash_ok h'" using u by (intro U(1)) (simp_all add: h'_def)
  show "hash_abs h' = (hash_abs h)(k \<mapsto> d)"
  proof
    fix j
    have "hash_abs h' j = map_option he_data (entry_of he_key (?n # ?E) j)"
      using u by (intro U(2)) (simp_all add: h'_def)
    then show "hash_abs h' j = ((hash_abs h)(k \<mapsto> d)) j" by (simp add: entry_of_Cons hash_abs_def)
  qed
qed

lemma natsHash_delete:
  fixes c :: "'a natsHashEntry list" and h :: "'a natsHash"
  assumes h: "hash_ok h" and cr: "chain_remove k (h_bkts h ! hash_idx (h_mask h) k) = Some (old, c)"
  defines "h' \<equiv> h\<lparr>h_bkts := (h_bkts h)[hash_idx (h_mask h) k := c], h_used := h_used h - 1\<rparr>"
  shows "hash_abs h k = Some old" and "hash_ok h'" and "hash_abs h' = (hash_abs h)(k := None)"
proof -
  let ?i = "hash_idx (h_mask h) k" and ?o = "\<lparr>he_key = k, he_data = old\<rparr>"
  note c = chain_remove_Some [OF cr]
  show "hash_abs h k = Some old" using c(1) hash_ok_bucket [OF h, of k] by (simp add: hash_abs_def)
  have "?o \<in> set (h_bkts h ! ?i)" using arg_cong [OF c(2), of set_mset] by auto
  from mset_take_out [OF in_concat_nth [OF hash_idx_less [OF h] this]]
  obtain es where es: "mset (concat (h_bkts h)) = mset (?o # es)" by (elim exE)
  have "mset (h_bkts h ! ?i) + {#} = mset c + {#?o#}" using c(2) by simp
  from chain_mset [OF h this] es have ms: "mset (concat ((h_bkts h)[?i := c])) = mset es" by simp
  have kd: "keys_distinct he_key (h_bkts h)" and u: "h_used h = int (length (concat (h_bkts h)))"
    using h by (auto simp: hash_ok_def)
  have d: "distinct (map he_key (?o # es))"
    using distinct_map_mset [OF es, of he_key] kd by (simp only: keys_distinct_def)
  have u': "h_used h - 1 = int (length es)" using u arg_cong [OF es, of size] by simp
  have "set c \<subseteq> set (h_bkts h ! ?i)" using arg_cong [OF c(2), of set_mset] by auto
  then have pl: "\<forall>e \<in> set c. hash_idx (h_mask h) (he_key e) = ?i" using placed_chain [OF h] by blast
  have d': "distinct (map he_key es)" using d by simp
  note U = hash_upd_ok [OF h refl pl ms d', of h']
  show "hash_ok h'" using u' by (intro U(1)) (simp_all add: h'_def)
  have n: "entry_of he_key es k = None" using d by (simp add: entry_of_None)
  show "hash_abs h' = (hash_abs h)(k := None)"
  proof
    fix j
    have "hash_abs h' j = map_option he_data (entry_of he_key es j)"
      using u' by (intro U(2)) (simp_all add: h'_def)
    with n show "hash_abs h' j = ((hash_abs h)(k := None)) j"
      unfolding hash_abs_of [OF es kd] by (simp add: entry_of_Cons)
  qed
qed

lemma natsHash_Set_cases:
  assumes h: "hash_ok h" and r: "natsHash_Set me mb h k d = (s, old, h')"
  shows "hash_ok h' \<and> old = hash_abs h k
    \<and> (hash_abs h' = (hash_abs h)(k \<mapsto> d) \<and> (me \<or> hash_abs h k \<noteq> None)
       \<or> h' = h \<and> \<not> me \<and> s = NATS_NO_MEMORY \<and> hash_abs h k = None)
    \<and> (s = NATS_OK \<or> s = NATS_NO_MEMORY \<and> hash_abs h k = None)"
proof (cases "chain_set k d (h_bkts h ! hash_idx (h_mask h) k)")
  case (Some p)
  obtain o' c where p: "p = (o', c)" by (cases p)
  with r Some natsHash_replace [OF h Some [unfolded p]] show ?thesis
    by (auto simp: natsHash_Set_def Let_def)
next
  case None
  then have n: "hash_abs h k = None" using hash_ok_bucket [OF h, of k] by (simp add: chain_set_None hash_abs_def)
  let ?h1 = "h\<lparr>h_bkts := (h_bkts h)[hash_idx (h_mask h) k := \<lparr>he_key = k, he_data = d\<rparr> # h_bkts h ! hash_idx (h_mask h) k],
                  h_used := h_used h + 1\<rparr>"
  note I = natsHash_insert [OF h n, where d = d]
  note G = hash_grow_ok [OF I(1), of mb]
  show ?thesis
  proof (cases "me \<and> h_canResize ?h1 \<and> h_used ?h1 > h_numBkts ?h1")
    case True
    then have "h' = snd (hash_grow mb ?h1)" "s = fst (hash_grow mb ?h1)" "old = None"
      using r None by (auto simp: natsHash_Set_def Let_def createEntry_def split: prod.splits)
    moreover have "fst (hash_grow mb ?h1) = NATS_OK \<or> fst (hash_grow mb ?h1) = NATS_NO_MEMORY"
      by (simp add: hash_grow_def hash_resize_def Let_def)
    ultimately show ?thesis using G I n True by auto
  next
    case False
    then show ?thesis using r None h n I
      by (cases me) (auto simp: natsHash_Set_def Let_def createEntry_def)
  qed
qed

lemma natsHash_Remove_cases:
  assumes h: "hash_ok h" and r: "natsHash_Remove mem h k = (old, h')"
  shows "hash_ok h' \<and> old = hash_abs h k \<and> hash_abs h' = (hash_abs h)(k := None)"
proof (cases "chain_remove k (h_bkts h ! hash_idx (h_mask h) k)")
  case None
  then have "hash_abs h k = None" using hash_ok_bucket [OF h, of k] by (simp add: chain_remove_None hash_abs_def)
  with None r h show ?thesis by (auto simp: natsHash_Remove_def)
next
  case (Some p)
  obtain o' c where p: "p = (o', c)" by (cases p)
  note D = natsHash_delete [OF h Some [unfolded p]]
  from r Some p have "old = Some o'" "h' = hash_maybeShrink mem (h\<lparr>h_bkts := (h_bkts h)[hash_idx (h_mask h) k := c], h_used := h_used h - 1\<rparr>)"
    by (auto simp: natsHash_Remove_def Let_def)
  with D hash_maybeShrink_ok [OF D(2), of mem] show ?thesis by simp
qed

subsection \<open>The map interface\<close>

text \<open>
  What the users of a table rely on. \<open>put\<close> takes the outcome of its allocations as a first
  argument; when it fails the table either is unchanged or holds the new entry nevertheless.
\<close>

locale hash_store =
  fixes invar :: "'m \<Rightarrow> bool" and abs :: "'m \<Rightarrow> 'k \<rightharpoonup> 'v"
    and put :: "'o \<Rightarrow> 'm \<Rightarrow> 'k \<Rightarrow> 'v \<Rightarrow> natsStatus \<times> 'v option \<times> 'm"
    and del :: "'o \<Rightarrow> 'm \<Rightarrow> 'k \<Rightarrow> 'v option \<times> 'm"
  assumes put_inv: "invar m \<Longrightarrow> put al m k v = (s, old, m') \<Longrightarrow> invar m'"
    and put_old: "invar m \<Longrightarrow> put al m k v = (s, old, m') \<Longrightarrow> old = abs m k"
    and put_ok: "invar m \<Longrightarrow> put al m k v = (NATS_OK, old, m') \<Longrightarrow> abs m' = (abs m)(k \<mapsto> v)"
    and put_err: "invar m \<Longrightarrow> put al m k v = (s, old, m') \<Longrightarrow> s \<noteq> NATS_OK \<Longrightarrow>
      abs m' = abs m \<or> abs m' = (abs m)(k \<mapsto> v)"
    and del_inv: "invar m \<Longrightarrow> del al m k = (old, m') \<Longrightarrow> invar m'"
    and del_abs: "invar m \<Longrightarrow> del al m k = (old, m') \<Longrightarrow> old = abs m k \<and> abs m' = (abs m)(k := None)"
begin

text \<open>Any sequence of insertions and removals.\<close>

primrec run :: "'m \<Rightarrow> ('o \<times> 'k \<times> 'v option) list \<Rightarrow> 'm" where
  "run m [] = m"
| "run m (x # xs) =
     (case x of (al', k, Some v) \<Rightarrow> run (snd (snd (put al' m k v))) xs
              | (al', k, None) \<Rightarrow> run (snd (del al' m k)) xs)"

primrec all_ok :: "'m \<Rightarrow> ('o \<times> 'k \<times> 'v option) list \<Rightarrow> bool" where
  "all_ok m [] = True"
| "all_ok m (x # xs) =
     (case x of (al', k, Some v) \<Rightarrow> fst (put al' m k v) = NATS_OK \<and> all_ok (snd (snd (put al' m k v))) xs
              | (al', k, None) \<Rightarrow> all_ok (snd (del al' m k)) xs)"

lemma run_inv: "invar m \<Longrightarrow> invar (run m xs)"
proof (induction xs arbitrary: m)
  case (Cons x xs)
  obtain al' k v where x: "x = (al', k, v)" by (cases x)
  show ?case
  proof (cases v)
    case None
    obtain old m' where d: "del al' m k = (old, m')" by fastforce
    with Cons x None del_inv [OF _ d] show ?thesis by simp
  next
    case (Some w)
    obtain s old m' where p: "put al' m k w = (s, old, m')" using prod_cases3 by blast
    with Cons x Some put_inv [OF _ p] show ?thesis by simp
  qed
qed simp

lemma run_abs:
  "invar m \<Longrightarrow> all_ok m xs \<Longrightarrow>
   invar (run m xs) \<and> abs (run m xs) = fold (\<lambda>(_, k, v) f. f(k := v)) xs (abs m)"
proof (induction xs arbitrary: m)
  case Nil
  then show ?case by simp
next
  case (Cons x xs)
  obtain al' k v where x: "x = (al', k, v)" by (cases x)
  show ?case
  proof (cases v)
    case None
    obtain old m' where d: "del al' m k = (old, m')" by fastforce
    with Cons.IH [of m'] Cons.prems del_inv [OF _ d] del_abs [OF _ d] x None show ?thesis by simp
  next
    case (Some w)
    obtain s old m' where p: "put al' m k w = (s, old, m')" using prod_cases3 by blast
    with Cons.IH [of m'] Cons.prems put_inv [OF _ p] put_ok [of m al' k w old m'] x Some show ?thesis
      by (simp add: fun_upd_def)
  qed
qed

end

text \<open>A table whose lookup is exact.\<close>

locale hash_map = hash_store invar abs put del
  for invar :: "'m \<Rightarrow> bool" and abs :: "'m \<Rightarrow> 'k \<rightharpoonup> 'v"
    and put :: "'o \<Rightarrow> 'm \<Rightarrow> 'k \<Rightarrow> 'v \<Rightarrow> natsStatus \<times> 'v option \<times> 'm"
    and del :: "'o \<Rightarrow> 'm \<Rightarrow> 'k \<Rightarrow> 'v option \<times> 'm" +
  fixes get :: "'m \<Rightarrow> 'k \<Rightarrow> 'v option"
  assumes get_abs: "invar m \<Longrightarrow> get m k = abs m k"
begin

lemma get_put: "invar m \<Longrightarrow> put al m k v = (NATS_OK, old, m') \<Longrightarrow>
    get m' j = (if j = k then Some v else get m j)"
  by (frule (1) put_inv, frule (1) put_ok) (simp add: get_abs)

lemma get_del: "invar m \<Longrightarrow> del al m k = (old, m') \<Longrightarrow>
    old = get m k \<and> get m' j = (if j = k then None else get m j)"
  by (frule (1) del_inv, frule (1) del_abs) (simp add: get_abs)

end

definition hash_put :: "bool \<times> bool \<Rightarrow> 'a natsHash \<Rightarrow> u64 \<Rightarrow> 'a \<Rightarrow> natsStatus \<times> 'a option \<times> 'a natsHash" where
  "hash_put mem = natsHash_Set (fst mem) (snd mem)"

definition hash_del :: "bool \<times> bool \<Rightarrow> 'a natsHash \<Rightarrow> u64 \<Rightarrow> 'a option \<times> 'a natsHash" where
  "hash_del mem = natsHash_Remove (snd mem)"

interpretation nh: hash_map hash_ok hash_abs hash_put hash_del natsHash_Get
proof
  fix m :: "'a natsHash" and k al v s old m'
  assume m: "hash_ok m"
  show "natsHash_Get m k = hash_abs m k" using m by (rule natsHash_Get_abs)
  {
    assume "hash_put al m k v = (s, old, m')"
    then have "natsHash_Set (fst al) (snd al) m k v = (s, old, m')" by (simp add: hash_put_def)
    note S = natsHash_Set_cases [OF m this]
    show "hash_ok m'" and "old = hash_abs m k" using S by blast+
    show "hash_abs m' = hash_abs m \<or> hash_abs m' = (hash_abs m)(k \<mapsto> v)"
      if "s \<noteq> NATS_OK" using S that by auto
  next
    assume "hash_put al m k v = (NATS_OK, old, m')"
    then have "natsHash_Set (fst al) (snd al) m k v = (NATS_OK, old, m')" by (simp add: hash_put_def)
    from natsHash_Set_cases [OF m this] show "hash_abs m' = (hash_abs m)(k \<mapsto> v)" by auto
  next
    assume "hash_del al m k = (old, m')"
    then have "natsHash_Remove (snd al) m k = (old, m')" by (simp add: hash_del_def)
    from natsHash_Remove_cases [OF m this]
    show "hash_ok m'" and "old = hash_abs m k \<and> hash_abs m' = (hash_abs m)(k := None)" by auto
  }
qed

end
