(* ===== verification/Nats_Hash_Iter.thy ===== *)
theory Nats_Hash_Iter
  imports Nats_Hash
begin

text \<open>
  Iteration over the integer hash table of \<open>hash.c\<close>, with removal of the current entry, and the
  properties of the table as a whole.
\<close>

subsection \<open>Iteration\<close>

text \<open>\<open>R\<close> is what an iterator of a table still has to deliver.\<close>

definition iter_pos :: "'a natsHash \<Rightarrow> u64 option \<Rightarrow> nat \<Rightarrow> 'a natsHashEntry list \<Rightarrow> bool" where
  "iter_pos h nxt cb R \<longleftrightarrow> cb < length (h_bkts h) \<and>
     (case nxt of
        None \<Rightarrow> R = [] \<and> concat (drop (Suc cb) (h_bkts h)) = []
      | Some p \<Rightarrow> (\<exists>pre e es. h_bkts h ! cb = pre @ e # es \<and> he_key e = p
                    \<and> R = e # es @ concat (drop (Suc cb) (h_bkts h))))"

abbreviation iter_at :: "'a natsHash \<Rightarrow> natsHashIter \<Rightarrow> 'a natsHashEntry list \<Rightarrow> bool" where
  "iter_at h it \<equiv> iter_pos h (hi_next it) (hi_currBkt it)"

text \<open>Skipping empty buckets keeps what is left to deliver.\<close>

lemma iter_skip_pos:
  assumes "h_numBkts h = int (length (h_bkts h))" "cb < length (h_bkts h)"
    "iter_skip h nxt cb = (nxt', cb')"
    "nxt = None \<Longrightarrow> R = concat (drop (Suc cb) (h_bkts h))"
    "nxt \<noteq> None \<Longrightarrow> iter_pos h nxt cb R"
  shows "iter_pos h nxt' cb' R"
  using assms
proof (induction h nxt cb rule: iter_skip.induct)
  case (1 h nxt cb)
  show ?case
  proof (cases "nxt = None \<and> int cb < h_numBkts h - 1")
    case True
    let ?b = "h_bkts h ! Suc cb"
    have lt: "Suc cb < length (h_bkts h)" using True "1.prems"(1) by simp
    have R: "R = ?b @ concat (drop (Suc (Suc cb)) (h_bkts h))"
      using True "1.prems"(4) by (simp add: Cons_nth_drop_Suc [OF lt, symmetric] del: drop_Suc)
    have "iter_skip h (chain_ptr ?b) (Suc cb) = (nxt', cb')"
      using "1.prems"(3) True by (simp add: iter_skip.simps [of h None cb])
    from "1.IH" [OF True "1.prems"(1) lt this] show ?thesis
      using R lt by (cases ?b) (auto simp: chain_ptr_def iter_pos_def)
  next
    case False
    then have r: "nxt' = nxt" "cb' = cb"
      using "1.prems"(3) by (auto simp: iter_skip.simps [of h nxt cb] split: if_splits)
    show ?thesis
    proof (cases nxt)
      case None
      with False "1.prems"(1,2) have "length (h_bkts h) \<le> Suc cb" by auto
      with None r "1.prems" show ?thesis by (simp add: iter_pos_def)
    next
      case (Some p)
      with r "1.prems"(5) show ?thesis by simp
    qed
  qed
qed

lemma dropWhile_key: "distinct (map key (pre @ e # es)) \<Longrightarrow>
   dropWhile (\<lambda>x. key x \<noteq> key e) (pre @ e # es) = e # es"
  by (induction pre) auto

lemma bucket_distinct: "hash_ok h \<Longrightarrow> i < length (h_bkts h) \<Longrightarrow> distinct (map he_key (h_bkts h ! i))"
proof -
  assume h: "hash_ok h" and i: "i < length (h_bkts h)"
  then have "distinct (concat (map (map he_key) (h_bkts h)))"
    by (simp add: hash_ok_def keys_distinct_def map_concat)
  moreover have "map he_key (h_bkts h ! i) \<in> set (map (map he_key) (h_bkts h))" using i by simp
  ultimately show ?thesis unfolding distinct_concat_iff by blast
qed

lemma iter_at_chain:
  assumes "hash_ok h" "iter_at h it R" "hi_next it = Some p"
  obtains e es where "chain_at h p = e # es" "he_key e = p"
    "R = e # es @ concat (drop (Suc (hi_currBkt it)) (h_bkts h))" "hi_currBkt it < length (h_bkts h)"
    "\<exists>pre. h_bkts h ! hi_currBkt it = pre @ e # es"
proof -
  let ?cb = "hi_currBkt it"
  obtain pre e es where b: "h_bkts h ! ?cb = pre @ e # es" "he_key e = p"
      "R = e # es @ concat (drop (Suc ?cb) (h_bkts h))" "?cb < length (h_bkts h)"
    using assms(2,3) by (auto simp: iter_pos_def)
  have "hash_idx (h_mask h) p = ?cb"
    using assms(1) b hash_idx_hix [OF assms(1)] by (auto simp: hash_ok_def placed_def)
  moreover have "distinct (map he_key (pre @ e # es))"
    using bucket_distinct [OF assms(1) b(4)] b(1) by simp
  ultimately have "chain_at h p = e # es"
    using b(1,2) dropWhile_key [of he_key pre e es] by (simp add: chain_at_def)
  with b that show ?thesis by blast
qed

text \<open>One call of \<open>Next\<close> delivers the head of what is left.\<close>

lemma natsHashIter_Next_step:
  assumes h: "hash_ok h" and at: "iter_at h it (e # R)" and st: "hi_started it \<or> hi_current it \<noteq> None"
  shows "\<exists>it'. natsHashIter_Next h it = Some (True, Some (he_key e, he_data e), it') \<and> iter_at h it' R
    \<and> hi_started it' \<and> hi_current it' = Some (he_key e)"
proof -
  obtain p where p: "hi_next it = Some p"
    using at by (cases "hi_next it") (auto simp: iter_pos_def)
  obtain es where c: "chain_at h p = e # es" "he_key e = p"
      "R = es @ concat (drop (Suc (hi_currBkt it)) (h_bkts h))" "hi_currBkt it < length (h_bkts h)"
      "\<exists>pre. h_bkts h ! hi_currBkt it = pre @ e # es"
    using iter_at_chain [OF h at p] by (metis list.inject)
  obtain nxt cb where s: "iter_skip h (chain_ptr es) (hi_currBkt it) = (nxt, cb)" by fastforce
  let ?it = "it\<lparr>hi_current := Some p, hi_next := nxt, hi_currBkt := cb, hi_started := True\<rparr>"
  have "iter_pos h nxt cb R"
  proof (rule iter_skip_pos [OF _ c(4) s])
    show "h_numBkts h = int (length (h_bkts h))" using h by (simp add: hash_ok_def)
    show "chain_ptr es = None \<Longrightarrow> R = concat (drop (Suc (hi_currBkt it)) (h_bkts h))"
      using c(3) by (cases es) (auto simp: chain_ptr_def)
    assume "chain_ptr es \<noteq> None"
    then obtain e' es' where es: "es = e' # es'" by (cases es) (auto simp: chain_ptr_def)
    from c(5) obtain pre where "h_bkts h ! hi_currBkt it = (pre @ [e]) @ e' # es'" using es by auto
    with es c show "iter_pos h (chain_ptr es) (hi_currBkt it) R"
      unfolding iter_pos_def chain_ptr_def by auto
  qed
  moreover have "natsHashIter_Next h it = Some (True, Some (he_key e, he_data e), ?it)"
    using p c s st by (auto simp: natsHashIter_Next_def)
  ultimately show ?thesis using c by (intro exI [of _ ?it]) simp
qed

lemma natsHashIter_Next_done:
  assumes "hi_started it" "iter_at h it []"
  shows "natsHashIter_Next h it = Some (False, None, it)"
  using assms by (auto simp: natsHashIter_Next_def iter_pos_def split: option.splits)

text \<open>The first call, from the state \<open>Init\<close> leaves.\<close>

lemma natsHashIter_first:
  assumes h: "hash_ok h" and i: "natsHashIter_Init h = (it, h')"
  shows "hash_ok h'" "h_bkts h' = h_bkts h" "hash_abs h' = hash_abs h" "\<not> h_canResize h'"
    and "concat (h_bkts h) = [] \<Longrightarrow> \<exists>it'. natsHashIter_Next h' it = Some (False, None, it')"
    and "concat (h_bkts h) = e # R \<Longrightarrow>
      \<exists>it'. natsHashIter_Next h' it = Some (True, Some (he_key e, he_data e), it') \<and> iter_at h' it' R
        \<and> hi_started it' \<and> hi_current it' = Some (he_key e)"
proof -
  have h': "h' = h\<lparr>h_canResize := False\<rparr>" using i by (simp add: natsHashIter_Init_def Let_def)
  show ok: "hash_ok h'" and b: "h_bkts h' = h_bkts h" and "hash_abs h' = hash_abs h" "\<not> h_canResize h'"
    using h by (simp_all add: h' hash_ok_def hash_abs_def fun_eq_iff)
  have it: "it = \<lparr>hi_current = chain_ptr (h_bkts h ! 0), hi_next = chain_ptr (h_bkts h ! 0),
      hi_currBkt = 0, hi_started = False\<rparr>" using i by (simp add: natsHashIter_Init_def Let_def)
  have ne: "0 < length (h_bkts h')" using ok by (auto simp: hash_ok_def pow2_size_def)
  have cc: "concat (h_bkts h) = h_bkts h ! 0 @ concat (drop (Suc 0) (h_bkts h))"
    using ne b by (cases "h_bkts h") auto
  obtain nxt cb where s: "iter_skip h' (hi_next it) 0 = (nxt, cb)" by fastforce
  let ?it1 = "it\<lparr>hi_next := nxt, hi_currBkt := cb\<rparr>"
  have at1: "iter_pos h' nxt cb (concat (h_bkts h))" if "h_bkts h ! 0 = []"
    using ok ne s cc that b
    by (intro iter_skip_pos [OF _ _ s]) (auto simp: hash_ok_def it chain_ptr_def)
  have cur: "hi_current it = None \<longleftrightarrow> h_bkts h ! 0 = []" by (cases "h_bkts h ! 0") (auto simp: it chain_ptr_def)
  {
    assume "concat (h_bkts h) = []"
    then have e0: "h_bkts h ! 0 = []" using cc by simp
    from at1 [OF this] \<open>concat (h_bkts h) = []\<close> have "nxt = None" by (auto simp: iter_pos_def split: option.splits)
    with e0 s cur show "\<exists>it'. natsHashIter_Next h' it = Some (False, None, it')"
      by (simp add: natsHashIter_Next_def it)
  next
    assume c: "concat (h_bkts h) = e # R"
    show "\<exists>it'. natsHashIter_Next h' it = Some (True, Some (he_key e, he_data e), it') \<and> iter_at h' it' R
        \<and> hi_started it' \<and> hi_current it' = Some (he_key e)"
    proof (cases "h_bkts h ! 0 = []")
      case False
      then obtain e0 es where e0: "h_bkts h ! 0 = e0 # es" by (cases "h_bkts h ! 0") auto
      then have "iter_at h' it (e # R)" using cc c ne b by (auto simp: iter_pos_def it chain_ptr_def)
      with natsHashIter_Next_step [OF ok this] cur False show ?thesis by blast
    next
      case True
      let ?it2 = "?it1\<lparr>hi_started := True\<rparr>"
      have at2: "iter_at h' ?it2 (e # R)" using at1 [OF True] c by simp
      then have "nxt \<noteq> None" by (auto simp: iter_pos_def split: option.splits)
      then have "natsHashIter_Next h' it = natsHashIter_Next h' ?it2"
        using s cur True by (auto simp: natsHashIter_Next_def it split: list.splits prod.splits)
      with natsHashIter_Next_step [OF ok at2] show ?thesis by simp
    qed
  }
qed

subsection \<open>Removing while iterating\<close>

definition chain_del :: "u64 \<Rightarrow> 'a natsHashEntry list \<Rightarrow> 'a natsHashEntry list" where
  "chain_del k es = (case chain_remove k es of None \<Rightarrow> es | Some (_, es') \<Rightarrow> es')"

lemma chain_del_notin: "k \<notin> he_key ` set es \<Longrightarrow> chain_del k es = es"
  by (auto simp: chain_del_def chain_remove_None entry_of_None split: option.splits)
    (metis chain_remove_None entry_of_None option.distinct(1))

lemma chain_del_Cons: "chain_del k (e # es) = (if he_key e = k then es else e # chain_del k es)"
  by (auto simp: chain_del_def split: option.splits)

lemma chain_del_append: "k \<notin> he_key ` set ys \<Longrightarrow> chain_del k (xs @ ys) = chain_del k xs @ ys"
proof (induction xs)
  case Nil
  then show ?case by (simp add: chain_del_notin chain_del_def [of k "[]"])
next
  case (Cons x xs)
  then show ?case by (simp add: chain_del_Cons)
qed

lemma natsHash_Remove_bkts:
  assumes "\<not> h_canResize h"
  shows "h_bkts (snd (natsHash_Remove mem h k)) =
      (h_bkts h)[hash_idx (h_mask h) k := chain_del k (h_bkts h ! hash_idx (h_mask h) k)]"
    and "\<not> h_canResize (snd (natsHash_Remove mem h k))"
  using assms
  by (auto simp: natsHash_Remove_def chain_del_def hash_maybeShrink_def Let_def split: option.splits)

lemma drop_update_before: "i < n \<Longrightarrow> drop n (xs[i := x]) = drop n xs"
  by (simp add: drop_update_swap)

lemma iter_pos_remove:
  assumes h: "hash_ok h" "\<not> h_canResize h" and at: "iter_pos h nxt cb R" and k: "k \<notin> he_key ` set R"
  shows "iter_pos (snd (natsHash_Remove mem h k)) nxt cb R"
proof -
  let ?j = "hash_idx (h_mask h) k" and ?b = "h_bkts h"
  let ?c = "chain_del k (?b ! ?j)"
  note rb = natsHash_Remove_bkts [OF h(2), of mem k]
  have cb: "cb < length ?b" using at by (simp add: iter_pos_def)
  have tail: "set (concat (drop (Suc cb) ?b)) \<subseteq> set R" using at by (auto simp: iter_pos_def split: option.splits)
  have jl: "?j < length ?b" using h by (simp add: hash_idx_less)
  consider (gt) "cb < ?j" | (le) "?j \<le> cb" by linarith
  then show ?thesis
  proof cases
    case gt
    have "drop (Suc cb) ?b ! (?j - Suc cb) = ?b ! ?j" using gt jl by simp
    then have "set (?b ! ?j) \<subseteq> set (concat (drop (Suc cb) ?b))"
      using gt jl in_concat_nth [of "?j - Suc cb" "drop (Suc cb) ?b"] by auto
    then have "?c = ?b ! ?j" using tail k by (intro chain_del_notin) auto
    then show ?thesis using at rb by (cases nxt) (simp_all add: iter_pos_def)
  next
    case le
    then have d: "drop (Suc cb) (?b[?j := ?c]) = drop (Suc cb) ?b" by (intro drop_update_before) simp
    show ?thesis
    proof (cases nxt)
      case None
      with at rb d show ?thesis by (simp add: iter_pos_def)
    next
      case (Some p)
      then obtain pre e es where b: "?b ! cb = pre @ e # es" "he_key e = p"
          "R = e # es @ concat (drop (Suc cb) ?b)"
        using at by (auto simp: iter_pos_def)
      have "k \<notin> he_key ` set (e # es)" using k b(3) by auto
      then have "\<exists>pre'. ?b[?j := ?c] ! cb = pre' @ e # es"
        using b(1) jl by (cases "?j = cb") (auto simp: chain_del_append)
      with Some b d cb rb show ?thesis by (auto simp: iter_pos_def)
    qed
  qed
qed

text \<open>
  The loop \<open>while (natsHashIter_Next(...)) if (P) natsHashIter_RemoveCurrent(...)\<close>: the entries
  delivered, and the table at the end. \<open>None\<close>: the fuel ran out, or a freed entry was followed.
\<close>

fun hash_iter_loop :: "nat \<Rightarrow> (u64 \<Rightarrow> 'a \<Rightarrow> bool) \<Rightarrow> bool \<Rightarrow> 'a natsHash \<Rightarrow> natsHashIter \<Rightarrow>
    ((u64 \<times> 'a) list \<times> 'a natsHash) option" where
  "hash_iter_loop 0 P mem h it = None"
| "hash_iter_loop (Suc n) P mem h it =
     (case natsHashIter_Next h it of
        Some (True, Some (k, d), it') \<Rightarrow>
          (let (_, it'', h') = (if P k d then natsHashIter_RemoveCurrent mem h it' else (NATS_OK, it', h))
           in map_option (\<lambda>(l, h''). ((k, d) # l, h'')) (hash_iter_loop n P mem h' it''))
      | Some (False, _, _) \<Rightarrow> Some ([], h)
      | _ \<Rightarrow> None)"

definition hash_iterate :: "(u64 \<Rightarrow> 'a \<Rightarrow> bool) \<Rightarrow> bool \<Rightarrow> 'a natsHash \<Rightarrow> ((u64 \<times> 'a) list \<times> 'a natsHash) option" where
  "hash_iterate P mem h =
     (let (it, h') = natsHashIter_Init h
      in map_option (\<lambda>(l, h''). (l, natsHashIter_Done h''))
           (hash_iter_loop (Suc (nat (h_used h))) P mem h' it))"

definition kv :: "'a natsHashEntry \<Rightarrow> u64 \<times> 'a" where
  "kv e = (he_key e, he_data e)"

definition removed :: "(u64 \<Rightarrow> 'a \<Rightarrow> bool) \<Rightarrow> 'a natsHashEntry list \<Rightarrow> (u64 \<rightharpoonup> 'a) \<Rightarrow> (u64 \<rightharpoonup> 'a)" where
  "removed P es m = fold (\<lambda>e m. if P (he_key e) (he_data e) then m(he_key e := None) else m) es m"

lemma hash_after_next:
  assumes "hash_ok h" "\<not> h_canResize h" "iter_at h it R" "hi_started it" "hi_current it = Some (he_key e)"
    "he_key e \<notin> he_key ` set R"
    "(s, it', h') = (if P (he_key e) (he_data e) then natsHashIter_RemoveCurrent mem h it else (NATS_OK, it, h))"
  shows "hash_ok h' \<and> \<not> h_canResize h' \<and> iter_at h' it' R \<and> hi_started it'
    \<and> hash_abs h' = (if P (he_key e) (he_data e) then (hash_abs h)(he_key e := None) else hash_abs h)"
proof (cases "P (he_key e) (he_data e)")
  case True
  obtain old where r: "natsHash_Remove mem h (he_key e) = (old, h')"
    using assms(5,7) True by (cases "natsHash_Remove mem h (he_key e)") (auto simp: natsHashIter_RemoveCurrent_def)
  from assms(5,7) True have it: "it' = it\<lparr>hi_current := hi_next it\<rparr>"
    by (auto simp: natsHashIter_RemoveCurrent_def)
  from natsHash_Remove_cases [OF assms(1) r] natsHash_Remove_bkts(2) [OF assms(2), of mem "he_key e"]
    iter_pos_remove [OF assms(1-3,6), of mem] r it assms(4) True
  show ?thesis by simp
next
  case False
  with assms show ?thesis by simp
qed

lemma hash_iter_loop_rest:
  assumes "hash_ok h" "\<not> h_canResize h" "iter_at h it R" "hi_started it" "length R < n"
    "distinct (map he_key R)"
  shows "\<exists>h'. hash_iter_loop n P mem h it = Some (map kv R, h') \<and> hash_ok h'
    \<and> hash_abs h' = removed P R (hash_abs h)"
  using assms
proof (induction R arbitrary: h it n)
  case Nil
  then show ?case by (cases n) (auto simp: natsHashIter_Next_done removed_def)
next
  case (Cons e R)
  obtain m where n: "n = Suc m" using Cons.prems(5) by (cases n) auto
  obtain it1 where x: "natsHashIter_Next h it = Some (True, Some (he_key e, he_data e), it1)"
      "iter_at h it1 R" "hi_started it1" "hi_current it1 = Some (he_key e)"
    using natsHashIter_Next_step [OF Cons.prems(1,3)] Cons.prems(4) by blast
  obtain s it2 h2 where y: "(s, it2, h2) = (if P (he_key e) (he_data e)
      then natsHashIter_RemoveCurrent mem h it1 else (NATS_OK, it1, h))"
    by (metis prod_cases3)
  have "he_key e \<notin> he_key ` set R" using Cons.prems(6) by simp
  from hash_after_next [where P = P, OF Cons.prems(1,2) x(2-4) this y]
  have z: "hash_ok h2" "\<not> h_canResize h2" "iter_at h2 it2 R" "hi_started it2"
    "hash_abs h2 = (if P (he_key e) (he_data e) then (hash_abs h)(he_key e := None) else hash_abs h)" by auto
  from Cons.IH [OF z(1-4), of m] Cons.prems n obtain h' where
    "hash_iter_loop m P mem h2 it2 = Some (map kv R, h')" "hash_ok h'" "hash_abs h' = removed P R (hash_abs h2)"
    by auto
  with x(1) n z(5) show ?case by (auto simp: removed_def kv_def simp flip: y)
qed

lemma hash_iterate_correct:
  assumes h: "hash_ok h"
  shows "\<exists>h'. hash_iterate P mem h = Some (map kv (concat (h_bkts h)), h') \<and> hash_ok h'
    \<and> hash_abs h' = removed P (concat (h_bkts h)) (hash_abs h)"
proof -
  obtain it h1 where i: "natsHashIter_Init h = (it, h1)" by fastforce
  note f = natsHashIter_first [OF h i]
  have dn: "hash_ok (natsHashIter_Done g) = hash_ok g" "hash_abs (natsHashIter_Done g) = hash_abs g" for g :: "'a natsHash"
    by (simp_all add: natsHashIter_Done_def hash_ok_def hash_abs_def fun_eq_iff)
  have u: "nat (h_used h) = length (concat (h_bkts h))" using h by (simp add: hash_ok_def)
  have dk: "distinct (map he_key (concat (h_bkts h)))" using h by (simp add: hash_ok_def keys_distinct_def)
  show ?thesis
  proof (cases "concat (h_bkts h)")
    case Nil
    with f(1,3,5) i show ?thesis unfolding Nil by (auto simp: hash_iterate_def dn removed_def)
  next
    case (Cons e R)
    obtain it1 where x: "natsHashIter_Next h1 it = Some (True, Some (he_key e, he_data e), it1)"
        "iter_at h1 it1 R" "hi_started it1" "hi_current it1 = Some (he_key e)"
      using f(6) [OF Cons] by blast
    obtain s it2 h2 where y: "(s, it2, h2) = (if P (he_key e) (he_data e)
        then natsHashIter_RemoveCurrent mem h1 it1 else (NATS_OK, it1, h1))"
      by (metis prod_cases3)
    have "he_key e \<notin> he_key ` set R" using dk Cons by simp
    from hash_after_next [where P = P, OF f(1,4) x(2-4) this y]
    have z: "hash_ok h2" "\<not> h_canResize h2" "iter_at h2 it2 R" "hi_started it2"
      "hash_abs h2 = (if P (he_key e) (he_data e) then (hash_abs h1)(he_key e := None) else hash_abs h1)" by auto
    from hash_iter_loop_rest [OF z(1-4), of "length (concat (h_bkts h))" P mem] dk Cons obtain h' where
      "hash_iter_loop (length (concat (h_bkts h))) P mem h2 it2 = Some (map kv R, h')" "hash_ok h'"
      "hash_abs h' = removed P R (hash_abs h2)" by auto
    with x(1) z(5) f(3) i u Cons show ?thesis
      by (auto simp: hash_iterate_def dn removed_def kv_def simp flip: y)
  qed
qed

text \<open>In terms of the map: every binding is delivered once, and exactly those of \<open>P\<close> go.\<close>

lemma entry_abs: "hash_ok h \<Longrightarrow> e \<in> set (concat (h_bkts h)) \<Longrightarrow> hash_abs h (he_key e) = Some (he_data e)"
  using entry_of_Some [of he_key "concat (h_bkts h)" "he_key e" e]
  by (simp only: hash_abs_def hash_ok_def keys_distinct_def simp_thms option.map)

lemma removed_apply:
  assumes "distinct (map he_key es)"
  shows "removed P es m k = (if \<exists>e \<in> set es. he_key e = k \<and> P k (he_data e) then None else m k)"
  using assms unfolding removed_def
  by (induction es arbitrary: m) (auto simp: rev_image_eqI)

subsection \<open>The last entry\<close>

lemma first_nonempty_Some:
  "first_nonempty bs i = Some (j, e) \<Longrightarrow> i \<le> j \<and> j - i < length bs \<and> (\<exists>es. bs ! (j - i) = e # es)"
proof (induction bs arbitrary: i)
  case Nil
  then show ?case by simp
next
  case (Cons b bs)
  show ?case
  proof (cases b)
    case Nil
    with Cons.prems have "first_nonempty bs (Suc i) = Some (j, e)" by simp
    from Cons.IH [OF this] have *: "Suc i \<le> j" "j - Suc i < length bs" "\<exists>es. bs ! (j - Suc i) = e # es" by auto
    then have "(b # bs) ! (j - i) = bs ! (j - Suc i)" by (simp add: nth_Cons')
    with * show ?thesis by auto
  qed (use Cons.prems in auto)
qed

lemma first_nonempty_None: "first_nonempty bs i = None \<longleftrightarrow> concat bs = []"
  by (induction bs arbitrary: i) (auto split: list.splits)

lemma natsHash_RemoveSingle_spec:
  assumes h: "hash_ok h" and r: "natsHash_RemoveSingle mem h = (s, kd, h')"
  shows "(s = NATS_OK) = (h_used h = 1) \<and> hash_ok h' \<and>
    (if h_used h = 1 then \<exists>k d. kd = Some (k, d) \<and> hash_abs h = [k \<mapsto> d] \<and> hash_abs h' = Map.empty
     else kd = None \<and> h' = h)"
proof (cases "h_used h = 1")
  case False
  with r h show ?thesis by (auto simp: natsHash_RemoveSingle_def)
next
  case True
  let ?b = "h_bkts h"
  have l: "length (concat ?b) = 1" using True h by (simp add: hash_ok_def)
  then obtain e where e: "concat ?b = [e]" by (cases "concat ?b") auto
  have tk: "take (nat (h_numBkts h)) ?b = ?b" using h by (simp add: hash_ok_def)
  obtain i x where fn: "first_nonempty ?b 0 = Some (i, x)"
    using first_nonempty_None [of ?b 0] e by (cases "first_nonempty ?b 0") auto
  from first_nonempty_Some [OF this] obtain es where i: "i < length ?b" "?b ! i = x # es" by auto
  have m: "mset (concat (?b[i := []])) + mset (x # es) = {#e#}"
    using mset_concat_update [OF i(1), of "[]"] e i(2) by simp
  then have x: "x = e" "es = []" "concat (?b[i := []]) = []"
    by (auto simp: add_eq_conv_ex mset_zero_iff_right dest: arg_cong [of _ _ size])
  have ab: "hash_abs h = [he_key e \<mapsto> he_data e]" by (simp add: hash_abs_def e entry_of_def fun_eq_iff)
  let ?h = "h\<lparr>h_used := h_used h - 1, h_bkts := ?b[i := []]\<rparr>"
  have pl: "placed hix he_key (?b[i := []])" using h by (intro placed_update) (auto simp: hash_ok_def)
  have ok: "hash_ok ?h" "hash_abs ?h = Map.empty"
    using h pl x(3) True unfolding hash_ok_def hash_abs_def keys_distinct_def
    by (simp_all add: entry_of_def del: concat_eq_Nil_conv)
  have "s = NATS_OK" "kd = Some (he_key e, he_data e)" "h' = hash_maybeShrink mem ?h"
    using r True fn x tk by (auto simp: natsHash_RemoveSingle_def)
  with ok hash_maybeShrink_ok [OF ok(1), of mem] ab True show ?thesis by auto
qed

section \<open>Properties\<close>

text \<open>
  A sequence of operations on a table, each with the outcomes of its allocations: \<open>Some d\<close> sets the
  key, \<open>None\<close> removes it. The table and the statuses of the insertions.
\<close>

fun natsHash_run :: "'a natsHash \<Rightarrow> ((bool \<times> bool) \<times> u64 \<times> 'a option) list \<Rightarrow> natsStatus list \<times> 'a natsHash" where
  "natsHash_run h [] = ([], h)"
| "natsHash_run h (((me, mb), k, Some d) # ops) =
     (let (s, _, h1) = natsHash_Set me mb h k d; (ss, h2) = natsHash_run h1 ops in (s # ss, h2))"
| "natsHash_run h (((me, mb), k, None) # ops) = natsHash_run (snd (natsHash_Remove mb h k)) ops"

lemma hash_put_eq: "hash_put (me, mb) h k d = natsHash_Set me mb h k d"
  by (simp add: hash_put_def)

lemma hash_del_eq: "hash_del (me, mb) h k = natsHash_Remove mb h k"
  by (simp add: hash_del_def)

lemma natsHash_run_eq:
  "snd (natsHash_run h ops) = nh.run h ops \<and> (set (fst (natsHash_run h ops)) \<subseteq> {NATS_OK} \<longleftrightarrow> nh.all_ok h ops)"
proof (induction ops arbitrary: h)
  case Nil
  then show ?case by simp
next
  case (Cons x ops)
  obtain me mb k v where x: "x = ((me, mb), k, v)" by (metis prod.exhaust)
  show ?case
  proof (cases v)
    case None
    with x Cons.IH show ?thesis by (simp add: hash_del_eq)
  next
    case (Some d)
    obtain s old h1 where s: "natsHash_Set me mb h k d = (s, old, h1)" by (metis prod_cases3)
    obtain ss h2 where r: "natsHash_run h1 ops = (ss, h2)" by fastforce
    from Cons.IH [of h1] r s x Some show ?thesis by (simp add: hash_put_eq)
  qed
qed

text \<open>
  Property C32. The integer hash table refines a finite map: from a well-formed table, after any
  sequence of sets and removes whose insertions succeed, whatever resizing they triggered, the
  table is well-formed and looking a key up returns what the same updates make of the map.
\<close>

theorem natsHash_history:
  assumes "hash_ok h" "natsHash_run h ops = (ss, h')" "set ss \<subseteq> {NATS_OK}"
  shows "hash_ok h' \<and> natsHash_Get h' = fold (\<lambda>(_, k, v) f. f(k := v)) ops (natsHash_Get h)"
proof -
  have "h' = nh.run h ops" "nh.all_ok h ops" using natsHash_run_eq [of h ops] assms(2,3) by auto
  with nh.run_abs [OF assms(1), of ops] have "hash_ok h'"
    "hash_abs h' = fold (\<lambda>(_, k, v) f. f(k := v)) ops (hash_abs h)" by auto
  moreover have "natsHash_Get g = hash_abs g" if "hash_ok g" for g :: "'a natsHash"
    using that natsHash_Get_abs by blast
  ultimately show ?thesis using assms(1) by metis
qed

definition wit_hash :: "nat natsHash" where
  "wit_hash = \<lparr>h_bkts = [[], []], h_numBkts = 2, h_mask = 1, h_used = 0, h_canResize = True\<rparr>"

lemma wit_hash_ok: "hash_ok wit_hash"
  by (auto simp: wit_hash_def hash_ok_def pow2_size_def placed_def keys_distinct_def less_Suc_eq_0_disj
      numeral_2_eq_2 intro!: exI [of _ 1])

theorem natsHash_history_witness:
  "hash_ok wit_hash \<and>
   (let (ss, h') = natsHash_run wit_hash
      [((True, True), 3, Some 30), ((True, True), 5, Some 50), ((True, True), 7, Some 70), ((True, True), 5, None)]
    in ss = [NATS_OK, NATS_OK, NATS_OK] \<and> natsHash_Get h' 3 = Some 30 \<and> natsHash_Get h' 5 = None)"
proof -
  let ?ops = "[((True, True), 3, Some 30), ((True, True), 5, Some 50), ((True, True), 7, Some 70), ((True, True), 5, None)]
     :: ((bool \<times> bool) \<times> u64 \<times> nat option) list"
  obtain ss h' where r: "natsHash_run wit_hash ?ops = (ss, h')" by fastforce
  have ss: "fst (natsHash_run wit_hash ?ops) = [NATS_OK, NATS_OK, NATS_OK]" by code_simp
  then have "set ss \<subseteq> {NATS_OK}" using r by simp
  note T = natsHash_history [OF wit_hash_ok r this]
  have "natsHash_Get wit_hash 3 = None" by code_simp
  with T r ss wit_hash_ok show ?thesis by simp
qed

text \<open>
  Each operation of the table, on every branch: a lookup reads the map; a set reports
  the old binding, and unless the entry could not be allocated binds the key; it fails only for a
  new key, when an allocation fails or the table is at its largest size; a remove reports and
  deletes the binding. The invariant is kept and the count is the number of bindings.
\<close>

theorem natsHash_operations:
  assumes "hash_ok h"
  shows "natsHash_Get h k = hash_abs h k
    \<and> (case natsHash_Set me mb h k d of (s, old, h') \<Rightarrow> hash_ok h' \<and> old = hash_abs h k
        \<and> hash_abs h' = (if me \<or> k \<in> dom (hash_abs h) then (hash_abs h)(k \<mapsto> d) else hash_abs h)
        \<and> (s = NATS_OK \<or> s = NATS_NO_MEMORY \<and> k \<notin> dom (hash_abs h)
             \<and> \<not> (me \<and> mb \<and> h_numBkts h < MAX_BKT_SIZE)))
    \<and> (case natsHash_Remove mem h k of (old, h') \<Rightarrow>
        hash_ok h' \<and> old = hash_abs h k \<and> hash_abs h' = (hash_abs h)(k := None))
    \<and> h_used h = int (card (dom (hash_abs h)))"
proof (intro conjI)
  show "natsHash_Get h k = hash_abs h k" using assms by (rule natsHash_Get_abs)
  obtain s old h' where r: "natsHash_Set me mb h k d = (s, old, h')" by (metis prod_cases3)
  have "\<not> (me \<and> mb \<and> h_numBkts h < MAX_BKT_SIZE)" if "s \<noteq> NATS_OK"
    using r that
    by (auto simp: natsHash_Set_def hash_grow_def hash_resize_def Let_def createEntry_def
        split: option.splits if_splits)
  with natsHash_Set_cases [OF assms r] r
  show "case natsHash_Set me mb h k d of (s, old, h') \<Rightarrow> hash_ok h' \<and> old = hash_abs h k
        \<and> hash_abs h' = (if me \<or> k \<in> dom (hash_abs h) then (hash_abs h)(k \<mapsto> d) else hash_abs h)
        \<and> (s = NATS_OK \<or> s = NATS_NO_MEMORY \<and> k \<notin> dom (hash_abs h)
             \<and> \<not> (me \<and> mb \<and> h_numBkts h < MAX_BKT_SIZE))"
    by (auto simp: domIff)
  show "case natsHash_Remove mem h k of (old, h') \<Rightarrow>
        hash_ok h' \<and> old = hash_abs h k \<and> hash_abs h' = (hash_abs h)(k := None)"
    using natsHash_Remove_cases [OF assms] by (auto split: prod.splits)
  have d: "distinct (map he_key (concat (h_bkts h)))" using assms by (simp add: hash_ok_def keys_distinct_def)
  have "dom (hash_abs h) = he_key ` set (concat (h_bkts h))"
    by (simp add: set_eq_iff hash_abs_def domIff entry_of_None del: set_concat)
  then have "card (dom (hash_abs h)) = length (concat (h_bkts h))"
    using d by (metis distinct_card length_map list.set_map)
  then show "h_used h = int (card (dom (hash_abs h)))" using assms by (simp add: hash_ok_def)
qed

theorem natsHash_operations_witness:
  "hash_ok wit_hash \<and> natsHash_Get wit_hash 9 = hash_abs wit_hash 9
   \<and> snd (natsHash_Remove True wit_hash 9) = wit_hash"
proof -
  have "snd (natsHash_Remove True wit_hash 9) = wit_hash" by code_simp
  with natsHash_operations [OF wit_hash_ok, of 9] wit_hash_ok show ?thesis by simp
qed

text \<open>
  Property C36. Iterating over a table delivers every binding exactly once, in the order of the
  buckets, and never follows a freed entry even when the loop removes the entry it has just
  received; afterwards exactly the bindings the loop chose are gone. One more step than there are
  bindings is enough for the loop to end.
\<close>

theorem natsHash_iteration:
  assumes "hash_ok h"
  shows "\<exists>l h'. hash_iterate P mem h = Some (l, h') \<and> hash_ok h' \<and> distinct (map fst l)
    \<and> (\<forall>k. map_of l k = hash_abs h k)
    \<and> (\<forall>k. hash_abs h' k = (case hash_abs h k of Some d \<Rightarrow> if P k d then None else Some d | None \<Rightarrow> None))"
proof -
  let ?E = "concat (h_bkts h)"
  have d: "distinct (map he_key ?E)" using assms by (simp add: hash_ok_def keys_distinct_def)
  obtain h' where h': "hash_iterate P mem h = Some (map kv ?E, h')" "hash_ok h'"
      "hash_abs h' = removed P ?E (hash_abs h)"
    using hash_iterate_correct [OF assms] by blast
  have fst_kv: "map fst (map kv es) = map he_key es" for es :: "'a natsHashEntry list"
    by (simp add: kv_def comp_def)
  have mo: "map_of (map kv es) k = map_option he_data (entry_of he_key es k)" for es :: "'a natsHashEntry list" and k
    by (induction es) (auto simp: kv_def entry_of_Cons, simp add: entry_of_def)
  have "hash_abs h' k = (case hash_abs h k of Some d \<Rightarrow> if P k d then None else Some d | None \<Rightarrow> None)" for k
  proof (cases "hash_abs h k")
    case None
    with h'(3) show ?thesis by (simp add: removed_apply [OF d])
  next
    case (Some x)
    have "(\<exists>e \<in> set ?E. he_key e = k \<and> P k (he_data e)) \<longleftrightarrow> P k x"
    proof
      assume "\<exists>e \<in> set ?E. he_key e = k \<and> P k (he_data e)"
      then obtain e where "e \<in> set ?E" "he_key e = k" "P k (he_data e)" by blast
      with entry_abs [OF assms, of e] Some show "P k x" by simp
    next
      assume "P k x"
      from Some obtain e where "entry_of he_key ?E k = Some e" "he_data e = x" by (auto simp: hash_abs_def)
      with \<open>P k x\<close> entry_of_Some [OF d] show "\<exists>e \<in> set ?E. he_key e = k \<and> P k (he_data e)" by blast
    qed
    with h'(3) Some show ?thesis by (simp add: removed_apply [OF d])
  qed
  with h'(1,2) d mo [of ?E] show ?thesis
    by (intro exI [of _ "map kv ?E"] exI [of _ h'] conjI) (simp_all only: fst_kv hash_abs_def simp_thms)
qed

theorem natsHash_iteration_witness:
  "hash_ok wit_hash \<and> (\<exists>l h'. hash_iterate (\<lambda>_ _. True) True wit_hash = Some (l, h') \<and> hash_ok h')"
  using natsHash_iteration [OF wit_hash_ok, of "\<lambda>_ _. True" True] wit_hash_ok by blast

text \<open>
  When a set needs to grow the table and the larger array cannot be allocated,
  \<open>natsHash_Set\<close> reports \<open>NATS_NO_MEMORY\<close> although the entry has been inserted: the caller sees a
  failure and the table keeps the pointer it was given.
\<close>

theorem natsHash_Set_failed_growth:
  assumes "hash_ok h" "hash_abs h k = None" "h_canResize h" "h_used h = h_numBkts h"
  shows "\<exists>h'. natsHash_Set True False h k d = (NATS_NO_MEMORY, None, h') \<and> natsHash_Get h' k = Some d"
proof -
  have n: "chain_set k d (h_bkts h ! hash_idx (h_mask h) k) = None"
    using assms(1,2) hash_ok_bucket [OF assms(1), of k] by (simp add: chain_set_None hash_abs_def)
  let ?h = "h\<lparr>h_bkts := (h_bkts h)[hash_idx (h_mask h) k := \<lparr>he_key = k, he_data = d\<rparr> # h_bkts h ! hash_idx (h_mask h) k],
              h_used := h_used h + 1\<rparr>"
  have "natsHash_Set True False h k d = (NATS_NO_MEMORY, None, ?h)"
    using n assms(3,4) by (simp add: natsHash_Set_def createEntry_def hash_grow_def hash_resize_def Let_def)
  moreover have "natsHash_Get ?h k = Some d"
    using natsHash_insert [OF assms(1,2), where d = d] natsHash_Get_abs [of ?h k] by simp
  ultimately show ?thesis by blast
qed

definition wit_full :: "nat natsHash" where
  "wit_full = \<lparr>h_bkts = [[\<lparr>he_key = 4, he_data = 40\<rparr>]], h_numBkts = 1, h_mask = 0, h_used = 1, h_canResize = True\<rparr>"

theorem natsHash_Set_failed_growth_witness:
  "\<exists>h'. natsHash_Set True False wit_full 6 60 = (NATS_NO_MEMORY, None, h') \<and> natsHash_Get h' 6 = Some 60"
proof (rule natsHash_Set_failed_growth)
  show "hash_ok wit_full"
    by (auto simp: wit_full_def hash_ok_def pow2_size_def placed_def keys_distinct_def hix_def hash_idx_def
        intro!: exI [of _ 0])
  show "hash_abs wit_full 6 = None" by (simp add: wit_full_def hash_abs_def entry_of_def)
qed (simp_all add: wit_full_def)

end
