(* ===== verification/Nats_StrHash.thy ===== *)
theory Nats_StrHash
  imports Nats_Hash
begin

text \<open>
  The hash table with string keys of \<open>hash.c\<close> (\<open>natsStrHash\<close>): message headers, pending replies and
  the URLs of the server pool are kept in it.

  Whether a table owns its keys matters, so an entry holds the pointer to its key together with the
  bytes found there (keys are never modified in place), and the table records the pointers it has
  freed. Reading a key through such a pointer is undefined, \<open>None\<close>. A duplicated string gets an
  address that is in no use (\<open>fresh_ptr\<close>), which is what \<open>strdup\<close> guarantees.
\<close>

record 'a natsStrHashEntry =
  se_hk :: u32
  se_ptr :: nat
  se_key :: bytes
  se_freeKey :: bool
  se_data :: 'a

record 'a natsStrHash =
  sh_bkts :: "'a natsStrHashEntry list list"
  sh_numBkts :: int
  sh_mask :: u32
  sh_used :: int
  sh_canResize :: bool
  sh_freed :: "nat list"

section \<open>The hash function\<close>

text \<open>\<open>memcpy\<close> into an integer reads the bytes in little-endian order.\<close>

fun le_word :: "bytes \<Rightarrow> 'w::len word" where
  "le_word [] = 0"
| "le_word (c # cs) = of_char c + 256 * le_word cs"

abbreviation YP32 :: u64 where "YP32 \<equiv> 709607"

function hash_loop :: "u32 \<Rightarrow> bytes \<Rightarrow> u32 \<times> bytes" where
  "hash_loop h32 d =
     (if length d \<ge> 16 then
        (let k1 = le_word (take 8 d) :: u64;
             k2 = le_word (take 8 (drop 4 d)) :: u64
         in hash_loop (ucast ((ucast h32 XOR ((push_bit 5 k1 OR drop_bit 27 k1) XOR k2)) * YP32))
              (drop 16 d))
      else (h32, d))"
  by pat_completeness auto
termination
  by (relation "measure (\<lambda>(_, d). length d)") auto

declare hash_loop.simps [simp del]

text \<open>
  The tail tests the bits 8, 4 and 1 of the remaining length. A \<open>char\<close> is signed on the platforms
  the program is built for, so the last byte is sign-extended.
\<close>

definition natsStrHash_Hash :: "bytes \<Rightarrow> u32" where
  "natsStrHash_Hash data =
     (let (h0, d0) = hash_loop 2166136261 data;
          dlen = length d0;
          (h1, d1) = (if (dlen div 8) mod 2 \<noteq> 0
                      then (ucast ((ucast h0 XOR (le_word (take 8 d0) :: u64)) * YP32), drop 8 d0)
                      else (h0, d0));
          (h2, d2) = (if (dlen div 4) mod 2 \<noteq> 0
                      then (ucast ((ucast h1 XOR (ucast (le_word (take 4 d1) :: u32) :: u64)) * YP32), drop 4 d1)
                      else (h1, d1));
          h3 = (if dlen mod 2 \<noteq> 0
                then (h2 XOR scast (of_char (hd d2) :: u8)) * ucast YP32
                else h2)
      in h3 XOR drop_bit 16 h3)"

section \<open>Operations\<close>

definition natsStrHash_Create :: "bool \<Rightarrow> bool \<Rightarrow> int \<Rightarrow> (natsStatus + 'a natsStrHash) option" where
  "natsStrHash_Create memHash memBkts initialSize =
     (if initialSize \<le> 0 then Some (Inl NATS_INVALID_ARG)
      else case hashSize initialSize of
             None \<Rightarrow> None
           | Some sz \<Rightarrow>
               Some (if \<not> memHash then Inl NATS_NO_MEMORY
                     else if \<not> memBkts then Inl NATS_NO_MEMORY
                     else Inr \<lparr>sh_bkts = replicate (nat sz) [], sh_numBkts = sz,
                               sh_mask = word_of_int (sz - 1), sh_used = 0, sh_canResize = True,
                               sh_freed = []\<rparr>))"

text \<open>The index \<open>hk & mask\<close>.\<close>

definition str_idx :: "u32 \<Rightarrow> u32 \<Rightarrow> nat" where
  "str_idx msk hk = unat (hk AND msk)"

definition str_resize :: "bool \<Rightarrow> 'a natsStrHash \<Rightarrow> int \<Rightarrow> natsStatus \<times> 'a natsStrHash" where
  "str_resize mem hash newSize =
     (let newMask = word_of_int (newSize - 1) :: u32;
          move = (\<lambda>ne bkts. let newIndex = str_idx newMask (se_hk ne)
                            in bkts[newIndex := ne # bkts ! newIndex])
      in if \<not> mem then (NATS_NO_MEMORY, hash)
         else (NATS_OK,
               hash\<lparr>sh_bkts := fold (\<lambda>e bkts. fold move e bkts)
                               (take (nat (sh_numBkts hash)) (sh_bkts hash))
                               (replicate (nat newSize) []),
                    sh_mask := newMask, sh_numBkts := newSize\<rparr>))"

definition str_grow :: "bool \<Rightarrow> 'a natsStrHash \<Rightarrow> natsStatus \<times> 'a natsStrHash" where
  "str_grow mem hash =
     (if sh_numBkts hash \<ge> MAX_BKT_SIZE then (NATS_NO_MEMORY, hash)
      else str_resize mem hash (2 * sh_numBkts hash))"

definition str_shrink :: "bool \<Rightarrow> 'a natsStrHash \<Rightarrow> 'a natsStrHash" where
  "str_shrink mem hash =
     (if sh_numBkts hash \<le> BSZ then hash
      else snd (str_resize mem hash (sh_numBkts hash div 2)))"

definition str_maybeShrink :: "bool \<Rightarrow> 'a natsStrHash \<Rightarrow> 'a natsStrHash" where
  "str_maybeShrink mem hash =
     (if sh_canResize hash \<and> sh_numBkts hash > BSZ \<and> sh_used hash < sh_numBkts hash div 4
      then str_shrink mem hash else hash)"

definition fresh_ptr :: "'a natsStrHash \<Rightarrow> nat \<Rightarrow> nat" where
  "fresh_ptr hash p =
     Suc (fold max (sh_freed hash @ map se_ptr (concat (sh_bkts hash))) p)"

text \<open>
  Searching a chain for the first entry with the hash code whose key passes \<open>test\<close>: its position,
  \<open>None\<close> when a freed key is read on the way.
\<close>

fun str_search :: "nat list \<Rightarrow> u32 \<Rightarrow> (bytes \<Rightarrow> bool) \<Rightarrow> 'a natsStrHashEntry list \<Rightarrow> nat option option" where
  "str_search freed hk test [] = Some None"
| "str_search freed hk test (e # es) =
     (if se_hk e = hk then
        (if se_ptr e \<in> set freed then None
         else if test (se_key e) then Some (Some 0)
         else map_option (map_option Suc) (str_search freed hk test es))
      else map_option (map_option Suc) (str_search freed hk test es))"

text \<open>\<open>p\<close> is the address of the caller's key, \<open>q\<close> the address of its copy.\<close>

definition createStrEntry ::
    "bool \<Rightarrow> bool \<Rightarrow> u32 \<Rightarrow> nat \<Rightarrow> nat \<Rightarrow> bytes \<Rightarrow> bool \<Rightarrow> bool \<Rightarrow> 'a \<Rightarrow> 'a natsStrHashEntry option" where
  "createStrEntry mem dup hk p q key copyKey freeKey data =
     (if \<not> mem then None
      else if copyKey \<and> \<not> dup then None
      else Some \<lparr>se_hk = hk, se_ptr = (if copyKey then q else p), se_key = key,
                 se_freeKey = freeKey, se_data = data\<rparr>)"

record str_mem =
  memEntry :: bool
  memDup :: bool
  memBkts :: bool

definition natsStrHash_SetEx ::
    "str_mem \<Rightarrow> 'a natsStrHash \<Rightarrow> nat \<Rightarrow> bytes \<Rightarrow> bool \<Rightarrow> bool \<Rightarrow> 'a \<Rightarrow>
     (natsStatus \<times> 'a option \<times> 'a natsStrHash) option" where
  "natsStrHash_SetEx mem hash p key copyKey freeKey data =
     (let hk = natsStrHash_Hash key;
          index = str_idx (sh_mask hash) hk;
          chain = sh_bkts hash ! index;
          q = fresh_ptr hash p
      in case str_search (sh_freed hash) hk (\<lambda>k. k = key) chain of
           None \<Rightarrow> None
         | Some (Some i) \<Rightarrow>
             (let e = chain ! i;
                  e1 = e\<lparr>se_data := data\<rparr>;
                  put = (\<lambda>e' freed. hash\<lparr>sh_bkts := (sh_bkts hash)[index := chain[i := e']],
                                         sh_freed := freed\<rparr>)
              in if p = se_ptr e \<and> freeKey = se_freeKey e
                 then Some (NATS_OK, Some (se_data e), put e1 (sh_freed hash))
                 else if copyKey \<and> \<not> memDup mem
                 then Some (NATS_NO_MEMORY, Some (se_data e), put e1 (sh_freed hash))
                 else
                  (let e2 = (if copyKey then e1\<lparr>se_ptr := q\<rparr> else e1);
                       freed = (if se_freeKey e then se_ptr e # sh_freed hash else sh_freed hash)
                   in Some (NATS_OK, Some (se_data e), put (e2\<lparr>se_freeKey := freeKey\<rparr>) freed)))
         | Some None \<Rightarrow>
             (case createStrEntry (memEntry mem) (memDup mem) hk p q key copyKey freeKey data of
                None \<Rightarrow> Some (NATS_NO_MEMORY, None, hash)
              | Some newEntry \<Rightarrow>
                  (let hash' = hash\<lparr>sh_bkts := (sh_bkts hash)[index := newEntry # chain],
                                    sh_used := sh_used hash + 1\<rparr>
                   in if sh_canResize hash' \<and> sh_used hash' > sh_numBkts hash'
                      then (let (s, hash'') = str_grow (memBkts mem) hash' in Some (s, None, hash''))
                      else Some (NATS_OK, None, hash'))))"

text \<open>\<open>strncmp(a, b, n) == 0\<close> on strings: the first \<open>n\<close> bytes agree.\<close>

definition c_strneq :: "bytes \<Rightarrow> bytes \<Rightarrow> nat \<Rightarrow> bool" where
  "c_strneq a b n \<longleftrightarrow> take n a = take n b"

definition natsStrHash_GetEx :: "'a natsStrHash \<Rightarrow> bytes \<Rightarrow> int \<Rightarrow> 'a option option" where
  "natsStrHash_GetEx hash key keyLen =
     (case c_read key 0 keyLen of
        None \<Rightarrow> None
      | Some k \<Rightarrow>
          (let hk = natsStrHash_Hash k;
               chain = sh_bkts hash ! str_idx (sh_mask hash) hk
           in case str_search (sh_freed hash) hk (\<lambda>e. c_strneq e key (nat keyLen)) chain of
                None \<Rightarrow> None
              | Some None \<Rightarrow> Some None
              | Some (Some i) \<Rightarrow> Some (Some (se_data (chain ! i)))))"

text \<open>The macros \<open>natsStrHash_Set\<close> and \<open>natsStrHash_Get\<close>.\<close>

definition natsStrHash_Set ::
    "str_mem \<Rightarrow> 'a natsStrHash \<Rightarrow> nat \<Rightarrow> bytes \<Rightarrow> bool \<Rightarrow> 'a \<Rightarrow>
     (natsStatus \<times> 'a option \<times> 'a natsStrHash) option" where
  "natsStrHash_Set mem hash p key copyKey data = natsStrHash_SetEx mem hash p key copyKey copyKey data"

definition natsStrHash_Get :: "'a natsStrHash \<Rightarrow> bytes \<Rightarrow> 'a option option" where
  "natsStrHash_Get hash key = natsStrHash_GetEx hash key (int (length key))"

definition freeStrEntry :: "'a natsStrHashEntry \<Rightarrow> nat list \<Rightarrow> nat list" where
  "freeStrEntry e freed = (if se_freeKey e then se_ptr e # freed else freed)"

definition natsStrHash_Remove :: "bool \<Rightarrow> 'a natsStrHash \<Rightarrow> bytes \<Rightarrow> ('a option \<times> 'a natsStrHash) option" where
  "natsStrHash_Remove mem hash key =
     (let hk = natsStrHash_Hash key;
          index = str_idx (sh_mask hash) hk;
          chain = sh_bkts hash ! index
      in case str_search (sh_freed hash) hk (\<lambda>k. k = key) chain of
           None \<Rightarrow> None
         | Some None \<Rightarrow> Some (None, hash)
         | Some (Some i) \<Rightarrow>
             Some (Some (se_data (chain ! i)),
                   str_maybeShrink mem
                     (hash\<lparr>sh_bkts := (sh_bkts hash)[index := take i chain @ drop (Suc i) chain],
                           sh_used := sh_used hash - 1,
                           sh_freed := freeStrEntry (chain ! i) (sh_freed hash)\<rparr>)))"

definition natsStrHash_RemoveSingle ::
    "bool \<Rightarrow> bool \<Rightarrow> 'a natsStrHash \<Rightarrow> (natsStatus \<times> (bytes \<times> 'a) option \<times> 'a natsStrHash) option" where
  "natsStrHash_RemoveSingle dup mem hash =
     (if sh_used hash \<noteq> 1 then Some (NATS_ERR, None, hash)
      else case first_nonempty (take (nat (sh_numBkts hash)) (sh_bkts hash)) 0 of
             None \<Rightarrow> Some (NATS_OK, None, hash)
           | Some (i, e) \<Rightarrow>
               if se_freeKey e \<and> se_ptr e \<in> set (sh_freed hash) then None
               else if se_freeKey e \<and> \<not> dup then Some (NATS_NO_MEMORY, None, hash)
               else Some (NATS_OK, Some (se_key e, se_data e),
                      str_maybeShrink mem
                        (hash\<lparr>sh_used := sh_used hash - 1, sh_bkts := (sh_bkts hash)[i := []],
                              sh_freed := freeStrEntry e (sh_freed hash)\<rparr>)))"

text \<open>The addresses of the keys that \<open>natsStrHash_Destroy\<close> frees, in order.\<close>

definition natsStrHash_Destroy :: "'a natsStrHash \<Rightarrow> nat list" where
  "natsStrHash_Destroy hash =
     map se_ptr (filter se_freeKey (concat (take (nat (sh_numBkts hash)) (sh_bkts hash))))"

section \<open>Iterator\<close>

text \<open>As for the integer table: a pointer to an entry is the key of the entry.\<close>

record natsStrHashIter =
  si_current :: "bytes option"
  si_next :: "bytes option"
  si_currBkt :: nat
  si_started :: bool

definition schain_ptr :: "'a natsStrHashEntry list \<Rightarrow> bytes option" where
  "schain_ptr es = (case es of [] \<Rightarrow> None | e # _ \<Rightarrow> Some (se_key e))"

definition schain_at :: "'a natsStrHash \<Rightarrow> bytes \<Rightarrow> 'a natsStrHashEntry list" where
  "schain_at hash p =
     dropWhile (\<lambda>e. se_key e \<noteq> p) (sh_bkts hash ! str_idx (sh_mask hash) (natsStrHash_Hash p))"

definition natsStrHashIter_Init :: "'a natsStrHash \<Rightarrow> natsStrHashIter \<times> 'a natsStrHash" where
  "natsStrHashIter_Init hash =
     (let p = schain_ptr (sh_bkts hash ! 0)
      in (\<lparr>si_current = p, si_next = p, si_currBkt = 0, si_started = False\<rparr>,
          hash\<lparr>sh_canResize := False\<rparr>))"

function siter_skip :: "'a natsStrHash \<Rightarrow> bytes option \<Rightarrow> nat \<Rightarrow> bytes option \<times> nat" where
  "siter_skip hash nxt currBkt =
     (if nxt = None \<and> int currBkt < sh_numBkts hash - 1
      then siter_skip hash (schain_ptr (sh_bkts hash ! Suc currBkt)) (Suc currBkt)
      else (nxt, currBkt))"
  by pat_completeness auto
termination
  by (relation "measure (\<lambda>(hash, _, currBkt). nat (sh_numBkts hash) - currBkt)") auto

declare siter_skip.simps [simp del]

definition natsStrHashIter_Next ::
    "'a natsStrHash \<Rightarrow> natsStrHashIter \<Rightarrow> (bool \<times> (bytes \<times> 'a) option \<times> natsStrHashIter) option" where
  "natsStrHashIter_Next hash iter =
     (if si_started iter \<and> si_next iter = None then Some (False, None, iter)
      else
       (let (nxt, currBkt) =
              (if \<not> si_started iter \<and> si_current iter = None
               then siter_skip hash (si_next iter) (si_currBkt iter)
               else (si_next iter, si_currBkt iter))
        in if \<not> si_started iter \<and> si_current iter = None \<and> nxt = None
           then Some (False, None, iter\<lparr>si_next := nxt, si_currBkt := currBkt, si_started := True\<rparr>)
           else
            (case nxt of
               None \<Rightarrow>
                 (let (nxt', currBkt') = siter_skip hash None currBkt
                  in Some (True, None, iter\<lparr>si_current := None, si_next := nxt',
                                            si_currBkt := currBkt', si_started := True\<rparr>))
             | Some p \<Rightarrow>
                 (case schain_at hash p of
                    [] \<Rightarrow> None
                  | e # es \<Rightarrow>
                      (let (nxt', currBkt') = siter_skip hash (schain_ptr es) currBkt
                       in Some (True, Some (se_key e, se_data e),
                                iter\<lparr>si_current := Some p, si_next := nxt',
                                     si_currBkt := currBkt', si_started := True\<rparr>))))))"

definition natsStrHashIter_RemoveCurrent ::
    "bool \<Rightarrow> 'a natsStrHash \<Rightarrow> natsStrHashIter \<Rightarrow> (natsStatus \<times> natsStrHashIter \<times> 'a natsStrHash) option" where
  "natsStrHashIter_RemoveCurrent mem hash iter =
     (case si_current iter of
        None \<Rightarrow> Some (NATS_NOT_FOUND, iter, hash)
      | Some key \<Rightarrow>
          map_option (\<lambda>(_, hash'). (NATS_OK, iter\<lparr>si_current := si_next iter\<rparr>, hash'))
            (natsStrHash_Remove mem hash key))"

definition natsStrHashIter_Done :: "'a natsStrHash \<Rightarrow> 'a natsStrHash" where
  "natsStrHashIter_Done hash = hash\<lparr>sh_canResize := True\<rparr>"

end
