(* ===== verification/Nats_StrHash_Map.thy ===== *)
theory Nats_StrHash_Map
  imports Nats_StrHash
begin

text \<open>
  The table with string keys as a map: its invariant, the refinement of \<open>Set\<close> and \<open>Remove\<close>, what
  \<open>Get\<close> finds, and the safety of the memory of its keys.
\<close>

section \<open>Invariant\<close>

definition sx :: "nat \<Rightarrow> bytes \<Rightarrow> nat" where
  "sx n k = str_idx (word_of_int (int n - 1)) (natsStrHash_Hash k)"

text \<open>
  The entries: distinct keys, the hash code of the key, no freed key, and an owned key is not
  shared with another entry.
\<close>

definition ents_ok :: "nat set \<Rightarrow> 'a natsStrHashEntry list \<Rightarrow> bool" where
  "ents_ok freed es \<longleftrightarrow> distinct (map se_key es)
     \<and> (\<forall>e \<in> set es. se_hk e = natsStrHash_Hash (se_key e) \<and> se_ptr e \<notin> freed)
     \<and> (\<forall>e \<in> set es. \<forall>e' \<in> set es. se_freeKey e \<and> se_ptr e = se_ptr e' \<longrightarrow> se_key e = se_key e')"

definition str_ok :: "'a natsStrHash \<Rightarrow> bool" where
  "str_ok h \<longleftrightarrow> pow2_size (length (sh_bkts h)) \<and> sh_numBkts h = int (length (sh_bkts h))
     \<and> sh_mask h = word_of_int (sh_numBkts h - 1) \<and> sh_used h = int (length (concat (sh_bkts h)))
     \<and> placed sx se_key (sh_bkts h) \<and> ents_ok (set (sh_freed h)) (concat (sh_bkts h))"

definition str_abs :: "'a natsStrHash \<Rightarrow> bytes \<rightharpoonup> 'a" where
  "str_abs h k = map_option se_data (entry_of se_key (concat (sh_bkts h)) k)"

lemma sx_eq: "k \<le> 30 \<Longrightarrow> sx (2 ^ k) key = unat (natsStrHash_Hash key) mod 2 ^ k"
proof -
  assume "k \<le> 30"
  have m: "(word_of_int (int (2 ^ k) - 1) :: u32) = mask k" by (simp add: mask_eq_exp_minus_1)
  have "sx (2 ^ k) key = unat (natsStrHash_Hash key AND mask k)"
    unfolding sx_def str_idx_def m ..
  also have "\<dots> = take_bit k (unat (natsStrHash_Hash key))"
    by (simp only: unsigned_take_bit_eq flip: take_bit_eq_mask)
  finally show ?thesis by (simp add: take_bit_eq_mod)
qed

interpretation sb: bucket_table sx "se_key :: 'a natsStrHashEntry \<Rightarrow> bytes" pow2_size
  by unfold_locales (auto simp: pow2_size_def sx_eq)

lemma str_idx_sx: "str_ok h \<Longrightarrow> str_idx (sh_mask h) (natsStrHash_Hash k) = sx (length (sh_bkts h)) k"
  by (simp add: str_ok_def sx_def)

lemma sx_less: "str_ok h \<Longrightarrow> sx (length (sh_bkts h)) k < length (sh_bkts h)"
  using sb.ix_less [of "length (sh_bkts h)" k] by (simp add: str_ok_def)

lemma str_keys_distinct: "str_ok h \<Longrightarrow> keys_distinct se_key (sh_bkts h)"
  by (simp add: str_ok_def ents_ok_def keys_distinct_def)

lemma ents_ok_mset: "mset es = mset fs \<Longrightarrow> ents_ok F es \<longleftrightarrow> ents_ok F fs"
proof -
  assume m: "mset es = mset fs"
  then have "set es = set fs" by (metis set_mset_mset)
  with distinct_map_mset [OF m, of se_key] show ?thesis by (simp add: ents_ok_def)
qed

subsection \<open>Resizing\<close>

lemma str_resize_eq:
  assumes "str_ok h"
  shows "str_resize True h (int n) =
    (NATS_OK, h\<lparr>sh_bkts := rehash sx se_key n (sh_bkts h), sh_mask := word_of_int (int n - 1), sh_numBkts := int n\<rparr>)"
proof -
  define move where "move = (\<lambda>(ne :: 'a natsStrHashEntry) bkts.
     let newIndex = str_idx (word_of_int (int n - 1)) (se_hk ne) in bkts[newIndex := ne # bkts ! newIndex])"
  have mv: "push_entry sx se_key ne acc = move ne acc" if "length acc = n" "se_hk ne = natsStrHash_Hash (se_key ne)" for ne acc
    using that by (simp add: push_entry_def move_def sx_def Let_def)
  have ln: "length (move ne acc) = length acc" for ne acc by (simp add: move_def Let_def)
  have "fold (push_entry sx se_key) b acc = fold move b acc \<and> length (fold move b acc) = n"
    if "length acc = n" "\<forall>e \<in> set b. se_hk e = natsStrHash_Hash (se_key e)" for b acc
    using that by (induction b arbitrary: acc) (auto simp: mv ln)
  then have f: "fold (\<lambda>b acc. fold (push_entry sx se_key) b acc) bs acc = fold (\<lambda>b acc. fold move b acc) bs acc"
    if "length acc = n" "\<forall>b \<in> set bs. \<forall>e \<in> set b. se_hk e = natsStrHash_Hash (se_key e)" for bs acc
    using that by (induction bs arbitrary: acc) auto
  have "sh_numBkts h = int (length (sh_bkts h))" "\<forall>b \<in> set (sh_bkts h). \<forall>e \<in> set b. se_hk e = natsStrHash_Hash (se_key e)"
    using assms by (auto simp: str_ok_def ents_ok_def)
  with f [of "replicate n []" "sh_bkts h"] show ?thesis
    by (simp add: str_resize_def rehash_def move_def Let_def)
qed

lemma str_resize_ok:
  assumes "str_ok h" "pow2_size n"
  shows "str_ok (snd (str_resize mem h (int n)))"
    and "str_abs (snd (str_resize mem h (int n))) = str_abs h"
proof -
  note p = sb.rehash_props [OF assms(2), of "sh_bkts h"]
  have l: "length (concat (rehash sx se_key n (sh_bkts h))) = length (concat (sh_bkts h))"
    using p(3) by (metis size_mset)
  show "str_ok (snd (str_resize mem h (int n)))"
  proof (cases mem)
    case True
    then show ?thesis using assms p l ents_ok_mset [OF p(3)]
      by (simp add: str_resize_eq [OF assms(1)] str_ok_def)
  qed (use assms in \<open>simp add: str_resize_def\<close>)
  show "str_abs (snd (str_resize mem h (int n))) = str_abs h"
  proof (cases mem)
    case True
    then show ?thesis using sb.entry_of_rehash [OF assms(2) str_keys_distinct [OF assms(1)]]
      by (simp add: str_resize_eq [OF assms(1)] str_abs_def fun_eq_iff)
  qed (simp add: str_resize_def)
qed

lemma str_grow_ok:
  assumes "str_ok h"
  shows "str_ok (snd (str_grow mem h))" "str_abs (snd (str_grow mem h)) = str_abs h"
proof -
  let ?n = "length (sh_bkts h)"
  have *: "sh_numBkts h < MAX_BKT_SIZE \<Longrightarrow> pow2_size (2 * ?n)" "2 * sh_numBkts h = int (2 * ?n)"
    using assms pow2_double [of ?n] by (auto simp: str_ok_def)
  show "str_ok (snd (str_grow mem h))" "str_abs (snd (str_grow mem h)) = str_abs h"
    using * str_resize_ok [OF assms, of "2 * ?n" mem] assms
    by (auto simp: str_grow_def simp del: of_nat_mult)
qed

lemma str_maybeShrink_ok:
  assumes "str_ok h"
  shows "str_ok (str_maybeShrink mem h)" "str_abs (str_maybeShrink mem h) = str_abs h"
proof -
  let ?n = "length (sh_bkts h)"
  have *: "sh_numBkts h > BSZ \<Longrightarrow> pow2_size (?n div 2)" "sh_numBkts h div 2 = int (?n div 2)"
    using assms pow2_half [of ?n] by (auto simp: str_ok_def BSZ_def)
  show "str_ok (str_maybeShrink mem h)" "str_abs (str_maybeShrink mem h) = str_abs h"
    using * str_resize_ok [OF assms, of "?n div 2" mem] assms
    by (auto simp: str_maybeShrink_def str_shrink_def simp del: of_nat_div zdiv_int)
qed

subsection \<open>Searching a chain\<close>

lemma str_search_spec:
  assumes "\<forall>e \<in> set es. se_ptr e \<notin> set freed"
  shows "case str_search freed hk test es of
      None \<Rightarrow> False
    | Some None \<Rightarrow> \<forall>e \<in> set es. \<not> (se_hk e = hk \<and> test (se_key e))
    | Some (Some i) \<Rightarrow> i < length es \<and> se_hk (es ! i) = hk \<and> test (se_key (es ! i))
        \<and> (\<forall>j < i. \<not> (se_hk (es ! j) = hk \<and> test (se_key (es ! j))))"
  using assms
proof (induction es)
  case Nil
  then show ?case by simp
next
  case (Cons e es)
  then show ?case
    by (auto simp: less_Suc_eq_0_disj split: option.splits)
qed

lemma str_search_cong:
  assumes "\<forall>e \<in> set es. se_hk e = hk \<longrightarrow> test (se_key e) = test' (se_key e)"
  shows "str_search F hk test es = str_search F hk test' es"
  using assms by (induction es) auto

text \<open>The chain a key selects.\<close>

definition chain_of :: "'a natsStrHash \<Rightarrow> bytes \<Rightarrow> 'a natsStrHashEntry list" where
  "chain_of h k = sh_bkts h ! sx (length (sh_bkts h)) k"

lemma chain_in_table: "str_ok h \<Longrightarrow> e \<in> set (chain_of h k) \<Longrightarrow> e \<in> set (concat (sh_bkts h))"
  unfolding chain_of_def by (rule in_concat_nth [OF sx_less])

lemma chain_entry: "str_ok h \<Longrightarrow> entry_of se_key (chain_of h k) k = entry_of se_key (concat (sh_bkts h)) k"
  unfolding chain_of_def using sb.entry_in_bucket [of "sh_bkts h" k] str_keys_distinct [of h] by (simp add: str_ok_def)

lemma chain_ents: "str_ok h \<Longrightarrow> e \<in> set (chain_of h k) \<Longrightarrow>
    se_hk e = natsStrHash_Hash (se_key e) \<and> se_ptr e \<notin> set (sh_freed h)"
proof -
  assume h: "str_ok h" and e: "e \<in> set (chain_of h k)"
  have "ents_ok (set (sh_freed h)) (concat (sh_bkts h))" using h by (simp add: str_ok_def)
  with chain_in_table [OF h e] show ?thesis unfolding ents_ok_def by blast
qed

lemma chain_placed: "str_ok h \<Longrightarrow> e \<in> set (chain_of h k) \<Longrightarrow>
    sx (length (sh_bkts h)) (se_key e) = sx (length (sh_bkts h)) k"
  using sx_less [of h k] by (simp add: str_ok_def placed_def chain_of_def)

text \<open>The search for a key, which \<open>SetEx\<close> and \<open>Remove\<close> do with \<open>strcmp\<close>, is exact.\<close>

lemma chain_search:
  assumes "str_ok h"
  shows "str_search (sh_freed h) (natsStrHash_Hash k) (\<lambda>x. x = k) (chain_of h k) = Some None \<and> str_abs h k = None
    \<or> (\<exists>i. str_search (sh_freed h) (natsStrHash_Hash k) (\<lambda>x. x = k) (chain_of h k) = Some (Some i)
        \<and> i < length (chain_of h k) \<and> se_key (chain_of h k ! i) = k \<and> str_abs h k = Some (se_data (chain_of h k ! i)))"
proof -
  let ?c = "chain_of h k"
  have nf: "\<forall>e \<in> set ?c. se_ptr e \<notin> set (sh_freed h)" using chain_ents [OF assms] by blast
  note S = str_search_spec [OF nf, of "natsStrHash_Hash k" "\<lambda>x. x = k"]
  show ?thesis
  proof (cases "str_search (sh_freed h) (natsStrHash_Hash k) (\<lambda>x. x = k) ?c")
    case None
    with S show ?thesis by simp
  next
    case (Some r)
    show ?thesis
    proof (cases r)
      case None
      with S Some chain_ents [OF assms, of _ k] have "k \<notin> se_key ` set ?c" by auto
      then have "entry_of se_key ?c k = None" by (simp add: entry_of_None)
      with Some None show ?thesis using chain_entry [OF assms, of k] by (simp add: str_abs_def)
    next
      case (Some i)
      with S \<open>str_search _ _ _ _ = Some r\<close> have i: "i < length ?c" "se_key (?c ! i) = k" by auto
      have d: "distinct (map se_key (concat (sh_bkts h)))" using str_keys_distinct [OF assms] by (simp add: keys_distinct_def)
      have "entry_of se_key (concat (sh_bkts h)) k = Some (?c ! i)"
        using chain_in_table [OF assms, of "?c ! i" k] i by (simp only: entry_of_Some [OF d] nth_mem)
      then have "str_abs h k = Some (se_data (?c ! i))" by (simp add: str_abs_def)
      with i Some \<open>str_search _ _ _ _ = Some r\<close> show ?thesis by blast
    qed
  qed
qed

subsection \<open>Updating a chain\<close>

lemma str_upd_ok:
  assumes h: "str_ok h" and pl: "\<forall>e \<in> set b. sx (length (sh_bkts h)) (se_key e) = sx (length (sh_bkts h)) k"
    and ms: "mset (concat ((sh_bkts h)[sx (length (sh_bkts h)) k := b])) = mset es"
    and ok: "ents_ok (set (sh_freed h')) es"
    and h': "sh_bkts h' = (sh_bkts h)[sx (length (sh_bkts h)) k := b]" "sh_numBkts h' = sh_numBkts h"
      "sh_mask h' = sh_mask h" "sh_used h' = int (length es)"
  shows "str_ok h'" and "str_abs h' j = map_option se_data (entry_of se_key es j)"
proof -
  have p: "placed sx se_key (sh_bkts h')"
    unfolding h'(1) using h pl by (intro placed_update) (auto simp: str_ok_def)
  have l: "length (concat (sh_bkts h')) = length es" unfolding h'(1) using ms by (metis size_mset)
  have e: "ents_ok (set (sh_freed h')) (concat (sh_bkts h'))"
    unfolding h'(1) by (simp only: ents_ok_mset [OF ms] ok)
  show "str_ok h'" using h p l e h' by (simp add: str_ok_def)
  have "distinct (map se_key (concat (sh_bkts h')))" using e by (simp add: ents_ok_def)
  then show "str_abs h' j = map_option se_data (entry_of se_key es j)"
    unfolding str_abs_def using entry_of_mset [of "concat (sh_bkts h')" es se_key] ms h'(1) by simp
qed

lemma chain_mset_str:
  assumes "str_ok h" "mset (chain_of h k) + A = mset b + B"
  shows "mset (concat ((sh_bkts h)[sx (length (sh_bkts h)) k := b])) + B = mset (concat (sh_bkts h)) + A"
proof -
  let ?E = "concat (sh_bkts h)" and ?E' = "concat ((sh_bkts h)[sx (length (sh_bkts h)) k := b])"
  have "mset ?E' + mset (chain_of h k) + B = mset ?E + (mset b + B)"
    using mset_concat_update [OF sx_less [OF assms(1)], of k b] by (simp add: chain_of_def)
  also have "\<dots> = mset ?E + A + mset (chain_of h k)" using assms(2) by (simp add: ac_simps)
  finally show ?thesis by (simp add: ac_simps)
qed

text \<open>The table without the entry at position \<open>i\<close> of a chain.\<close>

lemma table_split:
  assumes "str_ok h" "i < length (chain_of h k)"
  shows "\<exists>es. mset (concat (sh_bkts h)) = mset (chain_of h k ! i # es)
    \<and> ents_ok (set (sh_freed h)) (chain_of h k ! i # es) \<and> sh_used h = int (length (chain_of h k ! i # es))
    \<and> (\<forall>e'. mset (concat ((sh_bkts h)[sx (length (sh_bkts h)) k := (chain_of h k)[i := e']])) = mset (e' # es))
    \<and> mset (concat ((sh_bkts h)[sx (length (sh_bkts h)) k := take i (chain_of h k) @ drop (Suc i) (chain_of h k)])) = mset es
    \<and> (\<forall>j. str_abs h j = map_option se_data (entry_of se_key (chain_of h k ! i # es) j))"
proof -
  let ?c = "chain_of h k" and ?E = "concat (sh_bkts h)"
  have "?c ! i \<in> set ?E" using chain_in_table [OF assms(1) nth_mem [OF assms(2)]] .
  from mset_take_out [OF this] obtain es where es: "mset ?E = mset (?c ! i # es)" by (elim exE)
  have ok: "ents_ok (set (sh_freed h)) ?E" and u: "sh_used h = int (length ?E)" using assms(1) by (auto simp: str_ok_def)
  have "mset (concat ((sh_bkts h)[sx (length (sh_bkts h)) k := ?c[i := e']])) = mset (e' # es)" for e'
  proof -
    have "mset ?c + {#e'#} = mset (?c[i := e']) + {#?c ! i#}"
      using assms(2) by (simp add: mset_update)
    from chain_mset_str [OF assms(1) this] es show ?thesis by simp
  qed
  moreover have "mset (concat ((sh_bkts h)[sx (length (sh_bkts h)) k := take i ?c @ drop (Suc i) ?c])) = mset es"
  proof -
    have "mset ?c + {#} = mset (take i ?c @ drop (Suc i) ?c) + {#?c ! i#}"
      using arg_cong [OF id_take_nth_drop [OF assms(2)], of mset] by simp
    from chain_mset_str [OF assms(1) this] es show ?thesis by simp
  qed
  moreover have "str_abs h j = map_option se_data (entry_of se_key (?c ! i # es) j)" for j
    unfolding str_abs_def using entry_of_mset [OF es, of se_key] ok by (simp add: ents_ok_def)
  moreover have "sh_used h = int (length (?c ! i # es))" using u arg_cong [OF es, of size] by simp
  ultimately show ?thesis using es ok ents_ok_mset [OF es] by blast
qed

lemma fresh_ptr_new:
  "x \<in> set (sh_freed h) \<Longrightarrow> x \<noteq> fresh_ptr h p"
  "e \<in> set (concat (sh_bkts h)) \<Longrightarrow> se_ptr e \<noteq> fresh_ptr h p"
proof -
  have ge: "b \<le> fold max xs b \<and> (\<forall>x \<in> set xs. x \<le> fold max xs b)" for xs :: "nat list" and b
  proof (induction xs arbitrary: b)
    case (Cons x xs)
    from Cons.IH [of "max x b"] show ?case by auto
  qed simp
  have "\<forall>x \<in> set (sh_freed h @ map se_ptr (concat (sh_bkts h))). x < fresh_ptr h p"
    using ge [of p "sh_freed h @ map se_ptr (concat (sh_bkts h))"] by (auto simp: fresh_ptr_def less_Suc_eq_le)
  then show "x \<in> set (sh_freed h) \<Longrightarrow> x \<noteq> fresh_ptr h p" "e \<in> set (concat (sh_bkts h)) \<Longrightarrow> se_ptr e \<noteq> fresh_ptr h p"
    unfolding set_append set_map by (blast dest: less_imp_neq)+
qed

subsection \<open>Ownership of the keys\<close>

lemma ents_same:
  "ents_ok F (e # es) \<Longrightarrow> ents_ok F (e\<lparr>se_data := d\<rparr> # es)"
  by (auto simp: ents_ok_def)

text \<open>An entry that gets a new key of its own, while the old one is freed if it was owned.\<close>

lemma ents_renew:
  assumes "ents_ok F (e # es)" "q \<notin> F" "q \<noteq> se_ptr e" "\<forall>e' \<in> set es. se_ptr e' \<noteq> q"
  shows "ents_ok (if se_freeKey e then insert (se_ptr e) F else F)
    (e\<lparr>se_data := d, se_ptr := q, se_freeKey := fr\<rparr> # es)"
proof -
  have "se_ptr e' \<noteq> se_ptr e" if "se_freeKey e" "e' \<in> set es" for e'
  proof
    assume "se_ptr e' = se_ptr e"
    with assms(1) that have "se_key e = se_key e'" by (auto simp: ents_ok_def)
    with assms(1) that(2) show False by (auto simp: ents_ok_def)
  qed
  with assms show ?thesis by (fastforce simp: ents_ok_def)
qed

lemma ents_drop:
  assumes "ents_ok F (e # es)"
  shows "ents_ok (if se_freeKey e then insert (se_ptr e) F else F) es"
proof -
  have "se_ptr e' \<noteq> se_ptr e" if "se_freeKey e" "e' \<in> set es" for e'
  proof
    assume "se_ptr e' = se_ptr e"
    with assms that have "se_key e = se_key e'" by (auto simp: ents_ok_def)
    with assms that(2) show False by (auto simp: ents_ok_def)
  qed
  with assms show ?thesis by (auto simp: ents_ok_def)
qed

lemma ents_add:
  assumes "ents_ok F es" "se_hk n = natsStrHash_Hash (se_key n)" "se_key n \<notin> se_key ` set es" "se_ptr n \<notin> F"
    "\<forall>e \<in> set es. se_freeKey e \<or> se_freeKey n \<longrightarrow> se_ptr e \<noteq> se_ptr n"
  shows "ents_ok F (n # es)"
proof -
  have p: "distinct (map se_key es)" "\<forall>e \<in> set es. se_hk e = natsStrHash_Hash (se_key e) \<and> se_ptr e \<notin> F"
    and u: "\<And>e e'. e \<in> set es \<Longrightarrow> e' \<in> set es \<Longrightarrow> se_freeKey e \<Longrightarrow> se_ptr e = se_ptr e' \<Longrightarrow> se_key e = se_key e'"
    using assms(1) unfolding ents_ok_def by blast+
  have "se_key e = se_key e'"
    if "e = n \<or> e \<in> set es" "e' = n \<or> e' \<in> set es" "se_freeKey e" "se_ptr e = se_ptr e'" for e e'
  proof (cases "e = n \<or> e' = n")
    case True
    with that assms(5) show ?thesis by force
  next
    case False
    with that u show ?thesis by blast
  qed
  moreover have "distinct (map se_key (n # es))" using p(1) assms(3) by simp
  moreover have "\<forall>e \<in> set (n # es). se_hk e = natsStrHash_Hash (se_key e) \<and> se_ptr e \<notin> F"
    using p(2) assms(2,4) by simp
  ultimately show ?thesis unfolding ents_ok_def by (simp only: list.set insert_iff) blast
qed

section \<open>Operations\<close>

text \<open>
  A key that is lent to the table: it is not freed, it is not a key the table owns, and the table
  does not own a copy of it already.
\<close>

definition key_lent :: "'a natsStrHash \<Rightarrow> nat \<Rightarrow> bytes \<Rightarrow> bool" where
  "key_lent h p key \<longleftrightarrow> p \<notin> set (sh_freed h)
     \<and> (\<forall>e \<in> set (concat (sh_bkts h)). se_freeKey e \<longrightarrow> se_ptr e \<noteq> p \<and> se_key e \<noteq> key)"

text \<open>What \<open>natsStrHash_Set\<close> promises.\<close>

definition set_promise ::
    "'a natsStrHash \<Rightarrow> bytes \<Rightarrow> 'a \<Rightarrow> (natsStatus \<times> 'a option \<times> 'a natsStrHash) option \<Rightarrow> bool" where
  "set_promise h key d r \<longleftrightarrow>
     (\<exists>s old h'. r = Some (s, old, h') \<and> str_ok h' \<and> old = str_abs h key \<and> (s = NATS_OK \<or> s = NATS_NO_MEMORY)
        \<and> (str_abs h' = (str_abs h)(key \<mapsto> d) \<or> s = NATS_NO_MEMORY \<and> h' = h \<and> str_abs h key = None))"

lemma chain_index:
  "str_ok h \<Longrightarrow> sh_bkts h ! str_idx (sh_mask h) (natsStrHash_Hash k) = chain_of h k"
  by (simp add: str_idx_sx chain_of_def)

lemma replace_promise:
  assumes h: "str_ok h" and i: "i < length (chain_of h k)" "se_key (chain_of h k ! i) = k"
    and old: "str_abs h k = Some (se_data (chain_of h k ! i))"
    and e': "se_key e' = k" "se_data e' = d"
    and ok: "\<And>es. ents_ok (set (sh_freed h)) (chain_of h k ! i # es) \<Longrightarrow>
        set es \<subseteq> set (concat (sh_bkts h)) \<Longrightarrow> ents_ok (set F) (e' # es)"
    and s: "s = NATS_OK \<or> s = NATS_NO_MEMORY"
  shows "set_promise h k d (Some (s, Some (se_data (chain_of h k ! i)),
     h\<lparr>sh_bkts := (sh_bkts h)[sx (length (sh_bkts h)) k := (chain_of h k)[i := e']], sh_freed := F\<rparr>))"
proof -
  let ?c = "chain_of h k" and ?n = "length (sh_bkts h)"
  let ?h = "h\<lparr>sh_bkts := (sh_bkts h)[sx ?n k := ?c[i := e']], sh_freed := F\<rparr>"
  obtain es where es: "mset (concat (sh_bkts h)) = mset (?c ! i # es)" "ents_ok (set (sh_freed h)) (?c ! i # es)"
      "sh_used h = int (length (?c ! i # es))"
      "mset (concat ((sh_bkts h)[sx ?n k := ?c[i := e']])) = mset (e' # es)"
      "\<And>j. str_abs h j = map_option se_data (entry_of se_key (?c ! i # es) j)"
    using table_split [OF h i(1)] by blast
  have "set es \<subseteq> set (concat (sh_bkts h))" using arg_cong [OF es(1), of set_mset] by auto
  then have eo: "ents_ok (set (sh_freed ?h)) (e' # es)" using ok es(2) by simp
  have pl: "\<forall>e \<in> set (?c[i := e']). sx ?n (se_key e) = sx ?n k"
    using chain_placed [OF h] e'(1) by (auto dest!: set_mp [OF set_update_subset_insert])
  note U = str_upd_ok [OF h pl es(4) eo]
  have ok': "str_ok ?h" using es(3) by (intro U(1)) simp_all
  have "str_abs ?h = (str_abs h)(k \<mapsto> d)"
  proof
    fix j
    have "str_abs ?h j = map_option se_data (entry_of se_key (e' # es) j)" using es(3) by (intro U(2)) simp_all
    then show "str_abs ?h j = ((str_abs h)(k \<mapsto> d)) j"
      using es(5) [of j] i(2) e' by (simp add: entry_of_Cons)
  qed
  with ok' s old show ?thesis by (auto simp: set_promise_def)
qed

lemma insert_promise:
  assumes h: "str_ok h" and n: "str_abs h k = None" "se_key e = k" "se_hk e = natsStrHash_Hash k" "se_data e = d"
    and p: "se_ptr e \<notin> set (sh_freed h)"
      "\<forall>e' \<in> set (concat (sh_bkts h)). se_freeKey e' \<or> se_freeKey e \<longrightarrow> se_ptr e' \<noteq> se_ptr e"
  defines "h1 \<equiv> h\<lparr>sh_bkts := (sh_bkts h)[sx (length (sh_bkts h)) k := e # chain_of h k], sh_used := sh_used h + 1\<rparr>"
  shows "str_ok h1" "str_abs h1 = (str_abs h)(k \<mapsto> d)"
proof -
  let ?n = "length (sh_bkts h)" and ?E = "concat (sh_bkts h)"
  have ms: "mset (concat ((sh_bkts h)[sx ?n k := e # chain_of h k])) = mset (e # ?E)"
    using chain_mset_str [OF h, of k "{#e#}" "e # chain_of h k" "{#}"] by simp
  have ok: "ents_ok (set (sh_freed h)) ?E" and u: "sh_used h + 1 = int (length (e # ?E))"
    using h by (auto simp: str_ok_def)
  have "k \<notin> se_key ` set ?E" using n(1) by (auto simp: str_abs_def entry_of_None)
  then have eo: "ents_ok (set (sh_freed h1)) (e # ?E)"
    using ents_add [OF ok, of e] n p by (simp add: h1_def)
  have pl: "\<forall>x \<in> set (e # chain_of h k). sx ?n (se_key x) = sx ?n k" using chain_placed [OF h] n(2) by simp
  note U = str_upd_ok [OF h pl ms eo]
  show "str_ok h1" using u by (intro U(1)) (simp_all add: h1_def)
  show "str_abs h1 = (str_abs h)(k \<mapsto> d)"
  proof
    fix j
    have "str_abs h1 j = map_option se_data (entry_of se_key (e # ?E) j)" using u by (intro U(2)) (simp_all add: h1_def)
    then show "str_abs h1 j = ((str_abs h)(k \<mapsto> d)) j" using n by (simp add: entry_of_Cons str_abs_def)
  qed
qed

lemma Set_found:
  assumes h: "str_ok h" and cp: "cp \<or> key_lent h p k"
    and sr: "str_search (sh_freed h) (natsStrHash_Hash k) (\<lambda>x. x = k) (chain_of h k) = Some (Some i)"
    and i: "i < length (chain_of h k)" "se_key (chain_of h k ! i) = k"
    and old: "str_abs h k = Some (se_data (chain_of h k ! i))"
  shows "set_promise h k d (natsStrHash_Set mem h p k cp d)"
proof -
  let ?e = "chain_of h k ! i" and ?q = "fresh_ptr h p"
  have in_t: "?e \<in> set (concat (sh_bkts h))" using chain_in_table [OF h nth_mem [OF i(1)]] .
  note R = replace_promise [OF h i old]
  have same: "set_promise h k d (Some (s, Some (se_data ?e),
     h\<lparr>sh_bkts := (sh_bkts h)[sx (length (sh_bkts h)) k := (chain_of h k)[i := ?e\<lparr>se_data := d\<rparr>]], sh_freed := sh_freed h\<rparr>))"
    if "s = NATS_OK \<or> s = NATS_NO_MEMORY" for s
    using that i(2) by (intro R) (auto intro: ents_same)
  let ?F = "if se_freeKey ?e then se_ptr ?e # sh_freed h else sh_freed h"
  let ?e' = "?e\<lparr>se_data := d, se_ptr := ?q, se_freeKey := True\<rparr>"
  have renew: "set_promise h k d (Some (NATS_OK, Some (se_data ?e),
     h\<lparr>sh_bkts := (sh_bkts h)[sx (length (sh_bkts h)) k := (chain_of h k)[i := ?e']], sh_freed := ?F\<rparr>))"
  proof (rule R)
    fix es assume ok: "ents_ok (set (sh_freed h)) (?e # es)" and sub: "set es \<subseteq> set (concat (sh_bkts h))"
    have q: "?q \<notin> set (sh_freed h)" "?q \<noteq> se_ptr ?e"
      using fresh_ptr_new(1) [of ?q h p] fresh_ptr_new(2) [OF in_t, of p] by auto
    have "\<forall>e' \<in> set es. se_ptr e' \<noteq> ?q"
    proof
      fix e' assume "e' \<in> set es"
      with sub have "e' \<in> set (concat (sh_bkts h))" by blast
      then show "se_ptr e' \<noteq> ?q" by (rule fresh_ptr_new(2))
    qed
    from ents_renew [OF ok q this, where d = d and fr = True] show "ents_ok (set ?F) (?e' # es)" by (simp split: if_splits)
  qed (use i in auto)
  have ci: "sh_bkts h ! str_idx (sh_mask h) (natsStrHash_Hash k) = chain_of h k" using chain_index [OF h] .
  have ix: "str_idx (sh_mask h) (natsStrHash_Hash k) = sx (length (sh_bkts h)) k"
    "sh_bkts h ! sx (length (sh_bkts h)) k = chain_of h k" using str_idx_sx [OF h] by (simp_all add: chain_of_def)
  show ?thesis
  proof (cases "p = se_ptr ?e \<and> cp = se_freeKey ?e \<or> cp \<and> \<not> memDup mem")
    case True
    then show ?thesis using same sr by (auto simp: natsStrHash_Set_def natsStrHash_SetEx_def Let_def ci ix)
  next
    case nf: False
    show ?thesis
    proof (cases cp)
      case True
      with nf renew sr show ?thesis by (auto simp: natsStrHash_Set_def natsStrHash_SetEx_def Let_def ci ix)
    next
      case False
      with cp in_t i(2) have o: "\<not> se_freeKey ?e" by (auto simp: key_lent_def)
      then have eq: "?e\<lparr>se_data := d, se_freeKey := False\<rparr> = ?e\<lparr>se_data := d\<rparr>" by (cases ?e) simp
      have "natsStrHash_Set mem h p k cp d = Some (NATS_OK, Some (se_data ?e),
         h\<lparr>sh_bkts := (sh_bkts h)[sx (length (sh_bkts h)) k := (chain_of h k)[i := ?e\<lparr>se_data := d, se_freeKey := False\<rparr>]],
           sh_freed := sh_freed h\<rparr>)"
        using o nf False sr by (simp add: natsStrHash_Set_def natsStrHash_SetEx_def Let_def ci ix)
      with same [of NATS_OK] show ?thesis by (simp only: eq simp_thms)
    qed
  qed
qed

lemma Set_new:
  assumes h: "str_ok h" and cp: "cp \<or> key_lent h p k"
    and sr: "str_search (sh_freed h) (natsStrHash_Hash k) (\<lambda>x. x = k) (chain_of h k) = Some None"
    and n: "str_abs h k = None"
  shows "set_promise h k d (natsStrHash_Set mem h p k cp d)"
proof -
  let ?q = "fresh_ptr h p"
  let ?e = "\<lparr>se_hk = natsStrHash_Hash k, se_ptr = (if cp then ?q else p), se_key = k, se_freeKey = cp, se_data = d\<rparr>"
  let ?h1 = "h\<lparr>sh_bkts := (sh_bkts h)[sx (length (sh_bkts h)) k := ?e # chain_of h k], sh_used := sh_used h + 1\<rparr>"
  have p: "se_ptr ?e \<notin> set (sh_freed h)"
    using fresh_ptr_new(1) [of "se_ptr ?e" h p] cp by (auto simp: key_lent_def)
  have p2: "\<forall>e' \<in> set (concat (sh_bkts h)). se_freeKey e' \<or> se_freeKey ?e \<longrightarrow> se_ptr e' \<noteq> se_ptr ?e"
    using fresh_ptr_new(2) [of _ h p] cp by (auto simp: key_lent_def)
  note I = insert_promise [of h k ?e d, OF h n _ _ _ p p2, simplified]
  note G = str_grow_ok [OF I(1), of "memBkts mem"]
  have gs: "fst (str_grow m g) = NATS_OK \<or> fst (str_grow m g) = NATS_NO_MEMORY" for m and g :: "'a natsStrHash"
    by (simp add: str_grow_def str_resize_def Let_def)
  have ci: "sh_bkts h ! str_idx (sh_mask h) (natsStrHash_Hash k) = chain_of h k" using chain_index [OF h] .
  have ix: "str_idx (sh_mask h) (natsStrHash_Hash k) = sx (length (sh_bkts h)) k"
    "sh_bkts h ! sx (length (sh_bkts h)) k = chain_of h k" using str_idx_sx [OF h] by (simp_all add: chain_of_def)
  show ?thesis
  proof (cases "memEntry mem \<and> (cp \<longrightarrow> memDup mem)")
    case False
    then show ?thesis using sr h n
      by (auto simp: natsStrHash_Set_def natsStrHash_SetEx_def Let_def ci ix createStrEntry_def set_promise_def)
  next
    case True
    then have "natsStrHash_Set mem h p k cp d =
        (if sh_canResize ?h1 \<and> sh_used ?h1 > sh_numBkts ?h1
         then Some (fst (str_grow (memBkts mem) ?h1), None, snd (str_grow (memBkts mem) ?h1))
         else Some (NATS_OK, None, ?h1))"
      using sr by (auto simp: natsStrHash_Set_def natsStrHash_SetEx_def Let_def ci ix createStrEntry_def split: prod.splits)
    with G I n gs [of "memBkts mem" ?h1] show ?thesis by (auto simp: set_promise_def)
  qed
qed

lemma Set_promise:
  assumes "str_ok h" "cp \<or> key_lent h p k"
  shows "set_promise h k d (natsStrHash_Set mem h p k cp d)"
  using chain_search [OF assms(1), of k] Set_found [OF assms] Set_new [OF assms] by blast

lemma Remove_promise:
  assumes h: "str_ok h"
  shows "\<exists>h'. natsStrHash_Remove mem h k = Some (str_abs h k, h') \<and> str_ok h' \<and> str_abs h' = (str_abs h)(k := None)"
proof -
  have ci: "sh_bkts h ! str_idx (sh_mask h) (natsStrHash_Hash k) = chain_of h k" using chain_index [OF h] .
  have ix: "str_idx (sh_mask h) (natsStrHash_Hash k) = sx (length (sh_bkts h)) k"
    "sh_bkts h ! sx (length (sh_bkts h)) k = chain_of h k" using str_idx_sx [OF h] by (simp_all add: chain_of_def)
  from chain_search [OF h, of k] show ?thesis
  proof (elim disjE exE conjE)
    assume "str_search (sh_freed h) (natsStrHash_Hash k) (\<lambda>x. x = k) (chain_of h k) = Some None" "str_abs h k = None"
    with h show ?thesis by (auto simp: natsStrHash_Remove_def Let_def ci)
  next
    fix i
    let ?c = "chain_of h k" and ?n = "length (sh_bkts h)"
    assume sr: "str_search (sh_freed h) (natsStrHash_Hash k) (\<lambda>x. x = k) ?c = Some (Some i)"
      and i: "i < length ?c" "se_key (?c ! i) = k" and old: "str_abs h k = Some (se_data (?c ! i))"
    let ?h1 = "h\<lparr>sh_bkts := (sh_bkts h)[sx ?n k := take i ?c @ drop (Suc i) ?c], sh_used := sh_used h - 1,
                 sh_freed := freeStrEntry (?c ! i) (sh_freed h)\<rparr>"
    obtain es where es: "ents_ok (set (sh_freed h)) (?c ! i # es)" "sh_used h = int (length (?c ! i # es))"
        "mset (concat ((sh_bkts h)[sx ?n k := take i ?c @ drop (Suc i) ?c])) = mset es"
        "\<And>j. str_abs h j = map_option se_data (entry_of se_key (?c ! i # es) j)"
      using table_split [OF h i(1)] by blast
    have eo: "ents_ok (set (sh_freed ?h1)) es"
      using ents_drop [OF es(1)] by (simp add: freeStrEntry_def split: if_splits)
    have pl: "\<forall>e \<in> set (take i ?c @ drop (Suc i) ?c). sx ?n (se_key e) = sx ?n k"
      using chain_placed [OF h] by (auto dest: in_set_takeD in_set_dropD)
    note U = str_upd_ok [OF h pl es(3) eo]
    have ok1: "str_ok ?h1" using es(2) by (intro U(1)) simp_all
    have "k \<notin> se_key ` set es" using es(1) i(2) by (auto simp: ents_ok_def)
    then have n: "entry_of se_key es k = None" by (simp add: entry_of_None)
    have "str_abs ?h1 = (str_abs h)(k := None)"
    proof
      fix j
      have "str_abs ?h1 j = map_option se_data (entry_of se_key es j)" using es(2) by (intro U(2)) simp_all
      then show "str_abs ?h1 j = ((str_abs h)(k := None)) j" using es(4) [of j] i(2) n by (simp add: entry_of_Cons)
    qed
    with ok1 str_maybeShrink_ok [OF ok1, of mem] sr old show ?thesis
      by (auto simp: natsStrHash_Remove_def Let_def ci ix)
  qed
qed

text \<open>
  \<open>natsStrHash_Get\<close> compares with \<open>strncmp\<close> up to the length of the key, so it accepts an entry
  whose key goes on after it, if the hash codes agree.
\<close>

definition prefix_clash :: "'a natsStrHash \<Rightarrow> bytes \<Rightarrow> bool" where
  "prefix_clash h k \<longleftrightarrow> (\<exists>e \<in> set (concat (sh_bkts h)).
     take (length k) (se_key e) = k \<and> natsStrHash_Hash (se_key e) = natsStrHash_Hash k \<and> se_key e \<noteq> k)"

lemma Get_exact:
  assumes h: "str_ok h" and np: "\<not> prefix_clash h k"
  shows "natsStrHash_Get h k = Some (str_abs h k)"
proof -
  let ?c = "chain_of h k"
  have ci: "sh_bkts h ! str_idx (sh_mask h) (natsStrHash_Hash k) = ?c" using chain_index [OF h] .
  have "(se_hk e = natsStrHash_Hash k \<and> take (length k) (se_key e) = k) \<longleftrightarrow>
      (se_hk e = natsStrHash_Hash k \<and> se_key e = k)" if "e \<in> set ?c" for e
    using np chain_in_table [OF h that] chain_ents [OF h that] unfolding prefix_clash_def by auto
  then have "str_search F (natsStrHash_Hash k) (\<lambda>e. take (length k) e = k) ?c
      = str_search F (natsStrHash_Hash k) (\<lambda>x. x = k) ?c" for F
    by (intro str_search_cong) blast
  with chain_search [OF h, of k] show ?thesis
    by (auto simp: natsStrHash_Get_def natsStrHash_GetEx_def c_strneq_def Let_def ci)
qed

section \<open>The map interface\<close>

text \<open>Insertion of a copied key and removal; \<open>p\<close> is the address of the caller's key.\<close>

definition str_put :: "str_mem \<times> nat \<Rightarrow> 'a natsStrHash \<Rightarrow> bytes \<Rightarrow> 'a \<Rightarrow> natsStatus \<times> 'a option \<times> 'a natsStrHash" where
  "str_put al h k d =
     (case natsStrHash_Set (fst al) h (snd al) k True d of Some r \<Rightarrow> r | None \<Rightarrow> (NATS_ERR, None, h))"

definition str_del :: "str_mem \<times> nat \<Rightarrow> 'a natsStrHash \<Rightarrow> bytes \<Rightarrow> 'a option \<times> 'a natsStrHash" where
  "str_del al h k = (case natsStrHash_Remove (memBkts (fst al)) h k of Some r \<Rightarrow> r | None \<Rightarrow> (None, h))"

lemma str_put_promise:
  assumes "str_ok h" "str_put al h k d = (s, old, h')"
  shows "str_ok h' \<and> old = str_abs h k \<and> (s = NATS_OK \<or> s = NATS_NO_MEMORY)
    \<and> (str_abs h' = (str_abs h)(k \<mapsto> d) \<or> s = NATS_NO_MEMORY \<and> h' = h)"
  using Set_promise [OF assms(1), of True "snd al" k d "fst al"] assms(2)
  by (auto simp: set_promise_def str_put_def)

interpretation sh: hash_store str_ok str_abs str_put str_del
proof
  fix m :: "'a natsStrHash" and k al v s old m'
  assume m: "str_ok m"
  {
    assume r: "str_put al m k v = (s, old, m')"
    note P = str_put_promise [OF m r]
    show "str_ok m'" and "old = str_abs m k" using P by blast+
    show "str_abs m' = str_abs m \<or> str_abs m' = (str_abs m)(k \<mapsto> v)" if "s \<noteq> NATS_OK" using P that by auto
  next
    assume "str_put al m k v = (NATS_OK, old, m')"
    from str_put_promise [OF m this] show "str_abs m' = (str_abs m)(k \<mapsto> v)" by simp
  next
    assume r: "str_del al m k = (old, m')"
    obtain h' where "natsStrHash_Remove (memBkts (fst al)) m k = Some (str_abs m k, h')" "str_ok h'"
        "str_abs h' = (str_abs m)(k := None)"
      using Remove_promise [OF m] by blast
    with r show "str_ok m'" and "old = str_abs m k \<and> str_abs m' = (str_abs m)(k := None)" by (auto simp: str_del_def)
  }
qed

section \<open>The hash function\<close>

text \<open>
  The tail of the hash function tests the bits 8, 4 and 1 of the number of bytes left, but not the
  bit 2, so two bytes after a multiple of four do not count.
\<close>

lemma hash_loop_pair:
  assumes "4 dvd length k"
  shows "\<exists>h r. hash_loop h0 k = (h, r) \<and> hash_loop h0 (k @ [a, b]) = (h, r @ [a, b]) \<and> length r < 16 \<and> 4 dvd length r"
  using assms
proof (induction h0 k rule: hash_loop.induct)
  case (1 h0 d)
  show ?case
  proof (cases "length d \<ge> 16")
    case True
    have dv: "4 dvd length (drop 16 d)" using "1.prems" True by (simp add: dvd_diff_nat)
    let ?h = "ucast ((ucast h0 XOR ((push_bit 5 (le_word (take 8 d) :: u64) OR drop_bit 27 (le_word (take 8 d) :: u64))
        XOR (le_word (take 8 (drop 4 d)) :: u64))) * YP32) :: u32"
    have "hash_loop h0 d = hash_loop ?h (drop 16 d)" "hash_loop h0 (d @ [a, b]) = hash_loop ?h (drop 16 d @ [a, b])"
      using True by (subst hash_loop.simps, simp add: Let_def)+
    with "1.IH" [OF True refl refl dv] show ?thesis by simp
  next
    case False
    then have "length d + 2 < 16" using "1.prems" by (auto elim!: dvdE)
    with False "1.prems" show ?thesis
      by (intro exI [of _ h0] exI [of _ d]) (simp add: hash_loop.simps [of h0])
  qed
qed

lemma Hash_pair:
  assumes "4 dvd length k"
  shows "natsStrHash_Hash (k @ [a, b]) = natsStrHash_Hash k"
proof -
  obtain h r where hr: "hash_loop 2166136261 k = (h, r)" "hash_loop 2166136261 (k @ [a, b]) = (h, r @ [a, b])"
      "length r < 16" "4 dvd length r"
    using hash_loop_pair [OF assms] by blast
  have "length r = 0 \<or> length r = 4 \<or> length r = 8 \<or> length r = 12" using hr(3,4) by presburger
  then show ?thesis using hr(1,2) by (elim disjE) (simp_all add: natsStrHash_Hash_def Let_def)
qed

section \<open>Properties\<close>

text \<open>
  A sequence of operations on a table that copies its keys: \<open>Some d\<close> sets the key, \<open>None\<close> removes
  it. The result is \<open>None\<close> when a freed key is read.
\<close>

fun natsStrHash_run :: "'a natsStrHash \<Rightarrow> ((str_mem \<times> nat) \<times> bytes \<times> 'a option) list \<Rightarrow>
    (natsStatus list \<times> 'a natsStrHash) option" where
  "natsStrHash_run h [] = Some ([], h)"
| "natsStrHash_run h (((mem, p), k, Some d) # ops) =
     (case natsStrHash_Set mem h p k True d of
        None \<Rightarrow> None
      | Some (s, _, h1) \<Rightarrow> map_option (\<lambda>(ss, h2). (s # ss, h2)) (natsStrHash_run h1 ops))"
| "natsStrHash_run h (((mem, p), k, None) # ops) =
     (case natsStrHash_Remove (memBkts mem) h k of None \<Rightarrow> None | Some (_, h1) \<Rightarrow> natsStrHash_run h1 ops)"

lemma natsStrHash_run_eq:
  assumes "str_ok h"
  shows "\<exists>ss. natsStrHash_run h ops = Some (ss, sh.run h ops) \<and> (set ss \<subseteq> {NATS_OK} \<longleftrightarrow> sh.all_ok h ops)"
  using assms
proof (induction ops arbitrary: h)
  case Nil
  then show ?case by simp
next
  case (Cons x ops)
  obtain mem p k v where x: "x = ((mem, p), k, v)" by (metis prod.exhaust)
  show ?case
  proof (cases v)
    case None
    obtain h1 where r: "natsStrHash_Remove (memBkts mem) h k = Some (str_abs h k, h1)" "str_ok h1"
      using Remove_promise [OF Cons.prems] by blast
    then have "str_del (mem, p) h k = (str_abs h k, h1)" by (simp add: str_del_def)
    with Cons.IH [OF r(2)] r(1) x None show ?thesis by simp
  next
    case (Some d)
    obtain s old h1 where r: "natsStrHash_Set mem h p k True d = Some (s, old, h1)" "str_ok h1"
      using Set_promise [OF Cons.prems, of True p k d mem] by (auto simp: set_promise_def)
    then have "str_put (mem, p) h k d = (s, old, h1)" by (simp add: str_put_def)
    with Cons.IH [OF r(2)] r(1) x Some show ?thesis by auto
  qed
qed

text \<open>
  Property C33. The table with string keys that copies its keys (as for message headers, pending
  replies and the server pool) is memory safe and refines a map: from a well-formed table, any
  sequence of sets and removes, with whatever allocations fail and whatever resizing happens, never
  reads a freed key and keeps the table well-formed; when the insertions succeed the table is the
  map the same updates make, and \<open>natsStrHash_Get\<close> finds the binding of every key that is not
  confused with a longer one.
\<close>

theorem natsStrHash_history:
  assumes "str_ok h"
  shows "\<exists>ss h'. natsStrHash_run h ops = Some (ss, h') \<and> str_ok h'
    \<and> (set ss \<subseteq> {NATS_OK} \<longrightarrow> str_abs h' = fold (\<lambda>(_, k, v) f. f(k := v)) ops (str_abs h))
    \<and> (\<forall>k. \<not> prefix_clash h' k \<longrightarrow> natsStrHash_Get h' k = Some (str_abs h' k))"
proof -
  obtain ss where r: "natsStrHash_run h ops = Some (ss, sh.run h ops)" "set ss \<subseteq> {NATS_OK} \<longleftrightarrow> sh.all_ok h ops"
    using natsStrHash_run_eq [OF assms] by blast
  moreover have "str_ok (sh.run h ops)" by (rule sh.run_inv [OF assms])
  moreover from this have "\<not> prefix_clash (sh.run h ops) k \<Longrightarrow> natsStrHash_Get (sh.run h ops) k = Some (str_abs (sh.run h ops) k)" for k
    by (rule Get_exact)
  ultimately show ?thesis using sh.run_abs [OF assms, of ops] by auto
qed

definition wit_str :: "nat natsStrHash" where
  "wit_str = \<lparr>sh_bkts = [[], []], sh_numBkts = 2, sh_mask = 1, sh_used = 0, sh_canResize = True, sh_freed = []\<rparr>"

lemma wit_str_ok: "str_ok wit_str"
  by (auto simp: wit_str_def str_ok_def ents_ok_def pow2_size_def placed_def less_Suc_eq_0_disj
      numeral_2_eq_2 intro!: exI [of _ 1])

definition all_mem :: str_mem where
  "all_mem = \<lparr>memEntry = True, memDup = True, memBkts = True\<rparr>"

theorem natsStrHash_history_witness:
  "\<exists>ss h'. natsStrHash_run wit_str [((all_mem, 1), ''foo'', Some 1), ((all_mem, 2), ''bar'', Some 2), ((all_mem, 3), ''foo'', None)]
     = Some (ss, h') \<and> str_ok h'"
  using natsStrHash_history [OF wit_str_ok, of "[((all_mem, 1), ''foo'', Some 1), ((all_mem, 2), ''bar'', Some 2), ((all_mem, 3), ''foo'', None)]"]
  by blast

text \<open>
  One operation, on every branch: setting a key that is copied, or one that is lent and
  that the table does not own, reports the old binding, binds the key and keeps every key of the
  table readable; it fails only for lack of memory, and then either nothing has changed (a new key)
  or the binding has been replaced nevertheless. Removing reports and deletes the binding.
\<close>

theorem natsStrHash_operations:
  assumes "str_ok h" "cp \<or> key_lent h p k"
  shows "(\<exists>s old h'. natsStrHash_Set mem h p k cp d = Some (s, old, h') \<and> str_ok h' \<and> old = str_abs h k
      \<and> (s = NATS_OK \<or> s = NATS_NO_MEMORY)
      \<and> (str_abs h' = (str_abs h)(k \<mapsto> d) \<or> s = NATS_NO_MEMORY \<and> h' = h \<and> str_abs h k = None))
    \<and> (\<exists>h'. natsStrHash_Remove mb h k = Some (str_abs h k, h') \<and> str_ok h' \<and> str_abs h' = (str_abs h)(k := None))"
  using Set_promise [OF assms, of d mem] Remove_promise [OF assms(1), of mb k] by (simp add: set_promise_def)

theorem natsStrHash_operations_witness:
  "str_ok wit_str \<and> key_lent wit_str 7 ''x''
   \<and> (\<exists>s old h'. natsStrHash_Set all_mem wit_str 7 ''x'' False 5 = Some (s, old, h') \<and> str_ok h')"
proof -
  have "key_lent wit_str 7 ''x''" by (simp add: key_lent_def wit_str_def)
  with natsStrHash_operations [OF wit_str_ok, of False 7 "''x''"] wit_str_ok show ?thesis by blast
qed

text \<open>
  \<open>natsStrHash_Get\<close> can return the data of another key: the hash function ignores two
  bytes after a multiple of four, and the comparison stops at the length of the key looked up. A
  table that holds only a key with two bytes more than such a key answers for both; a message with
  the header \<open>abcdef\<close> answers to \<open>abcd\<close>.
\<close>

theorem natsStrHash_Get_confuses:
  assumes "str_ok h" "4 dvd length k" "str_abs h = [k @ [a, b] \<mapsto> d]"
  shows "str_abs h k = None \<and> natsStrHash_Get h k = Some (Some d)"
proof -
  let ?c = "chain_of h k" and ?k = "k @ [a, b]"
  have hk: "natsStrHash_Hash ?k = natsStrHash_Hash k" by (rule Hash_pair [OF assms(2)])
  then have c: "chain_of h ?k = ?c" by (simp add: chain_of_def sx_def)
  have d: "distinct (map se_key (concat (sh_bkts h)))" using str_keys_distinct [OF assms(1)] by (simp add: keys_distinct_def)
  have only: "se_key e = ?k \<and> se_data e = d" if "e \<in> set ?c" for e
  proof -
    have "entry_of se_key (concat (sh_bkts h)) (se_key e) = Some e"
      using chain_in_table [OF assms(1) that] by (simp only: entry_of_Some [OF d])
    then have "str_abs h (se_key e) = Some (se_data e)" by (simp add: str_abs_def)
    with assms(3) show ?thesis by (auto split: if_splits)
  qed
  have "str_abs h ?k = Some d" using assms(3) by simp
  then obtain i where i: "i < length ?c" using chain_search [OF assms(1), of ?k] c by auto
  have nf: "\<forall>e \<in> set ?c. se_ptr e \<notin> set (sh_freed h)" using chain_ents [OF assms(1)] by blast
  have hit: "se_hk e = natsStrHash_Hash k \<and> take (length k) (se_key e) = k" if "e \<in> set ?c" for e
    using only [OF that] chain_ents [OF assms(1) that] hk by simp
  obtain j where "str_search (sh_freed h) (natsStrHash_Hash k) (\<lambda>e. take (length k) e = k) ?c = Some (Some j)" "j < length ?c"
    using str_search_spec [OF nf, of "natsStrHash_Hash k" "\<lambda>e. take (length k) e = k"] hit [OF nth_mem [OF i]] i nth_mem [OF i]
    by (auto split: option.splits)
  then have "natsStrHash_Get h k = Some (Some d)"
    using only [OF nth_mem] chain_index [OF assms(1), of k]
    by (simp add: natsStrHash_Get_def natsStrHash_GetEx_def c_strneq_def Let_def)
  with assms(3) show ?thesis by simp
qed

text \<open>A table with one key, which it owns.\<close>

lemma one_key_table:
  assumes "map_option fst (natsStrHash_Set all_mem wit_str 1 k True 9) = Some NATS_OK"
  shows "\<exists>h. str_ok h \<and> str_abs h = [k \<mapsto> 9] \<and> (\<exists>old. natsStrHash_Set all_mem wit_str 1 k True 9 = Some (NATS_OK, old, h))"
proof -
  obtain s old h where r: "natsStrHash_Set all_mem wit_str 1 k True 9 = Some (s, old, h)" "str_ok h"
      "str_abs h = (str_abs wit_str)(k \<mapsto> 9) \<or> s = NATS_NO_MEMORY"
    using Set_promise [OF wit_str_ok, of True 1 k 9 all_mem] by (auto simp: set_promise_def)
  have "str_abs wit_str = Map.empty" by (simp add: str_abs_def wit_str_def entry_of_def fun_eq_iff)
  with r assms show ?thesis by auto
qed

theorem natsStrHash_Get_confuses_witness:
  "\<exists>h old. natsStrHash_Set all_mem wit_str 1 ''abcdef'' True 9 = Some (NATS_OK, old, h)
     \<and> natsStrHash_Get h ''abcd'' = Some (Some 9)"
proof -
  have "map_option fst (natsStrHash_Set all_mem wit_str 1 ''abcdef'' True 9) = Some NATS_OK" by code_simp
  from one_key_table [OF this] obtain h old where h: "str_ok h" "str_abs h = [''abcdef'' \<mapsto> 9]"
      "natsStrHash_Set all_mem wit_str 1 ''abcdef'' True 9 = Some (NATS_OK, old, h)" by blast
  have "4 dvd length ''abcd''" by simp presburger
  from natsStrHash_Get_confuses [OF h(1) this, of "CHR ''e''" "CHR ''f''" 9] h show ?thesis by auto
qed

text \<open>
  A set that lends a key to the table while the table owns a copy of the same key frees
  the copy and goes on using it: the entry is left with a freed key, and every later lookup of the
  key, here through \<open>natsStrHash_Get\<close>, reads freed memory.
\<close>

theorem natsStrHash_Set_dangling:
  assumes "str_ok h" "str_abs h k = Some x" "\<forall>e \<in> set (concat (sh_bkts h)). se_freeKey e \<and> se_key e = k"
  shows "\<exists>old h'. natsStrHash_Set mem h p k False d = Some (NATS_OK, old, h') \<and> natsStrHash_Get h' k = None"
proof -
  let ?c = "chain_of h k"
  obtain i where sr: "str_search (sh_freed h) (natsStrHash_Hash k) (\<lambda>x. x = k) ?c = Some (Some i)"
      and i: "i < length ?c" "se_key (?c ! i) = k"
    using chain_search [OF assms(1), of k] assms(2) by auto
  have ci: "sh_bkts h ! str_idx (sh_mask h) (natsStrHash_Hash k) = ?c" using chain_index [OF assms(1)] .
  have all: "se_freeKey e \<and> se_key e = k" if "e \<in> set ?c" for e using assms(3) chain_in_table [OF assms(1) that] by blast
  have d: "distinct (map se_key ?c)"
    using sx_less [OF assms(1), of k] str_keys_distinct [OF assms(1)] unfolding keys_distinct_def map_concat chain_of_def
    by (metis distinct_concat_iff length_map nth_map nth_mem)
  have one: "?c = [?c ! 0]" "i = 0"
  proof -
    have "length ?c \<le> 1"
    proof (rule ccontr)
      assume "\<not> length ?c \<le> 1"
      then have "0 < length ?c" "1 < length ?c" by auto
      with all [OF nth_mem [of 0 ?c]] all [OF nth_mem [of 1 ?c]] d show False by (metis nth_eq_iff_index_eq nth_map length_map zero_neq_one)
    qed
    with i(1) show "i = 0" "?c = [?c ! 0]" by (auto simp: length_Suc_conv le_Suc_eq)
  qed
  let ?e = "?c ! 0"
  have e: "se_freeKey ?e" "se_key ?e = k" "se_hk ?e = natsStrHash_Hash k"
    using all [OF nth_mem [OF i(1)]] chain_ents [OF assms(1) nth_mem [OF i(1)]] one(2) by auto
  let ?h = "h\<lparr>sh_bkts := (sh_bkts h)[str_idx (sh_mask h) (natsStrHash_Hash k) := [?e\<lparr>se_data := d, se_freeKey := False\<rparr>]],
              sh_freed := se_ptr ?e # sh_freed h\<rparr>"
  have upd: "?c[0 := y] = [y]" for y using one(1) by (metis list_update_code(2))
  have "natsStrHash_Set mem h p k False d = Some (NATS_OK, Some (se_data ?e), ?h)"
    using sr e by (simp add: natsStrHash_Set_def natsStrHash_SetEx_def Let_def ci one(2) upd)
  moreover have "natsStrHash_Get ?h k = None"
    using e sx_less [OF assms(1), of k] str_idx_sx [OF assms(1), of k]
    by (simp add: natsStrHash_Get_def natsStrHash_GetEx_def Let_def)
  ultimately show ?thesis by blast
qed

lemma one_key_owned:
  assumes "map_option (\<lambda>(s, _, h). (s, sh_bkts h)) (natsStrHash_Set all_mem wit_str 1 k True 9) = Some (NATS_OK, b)"
    "\<forall>e \<in> set (concat b). se_freeKey e \<and> se_key e = k"
  shows "\<exists>h old. str_ok h \<and> str_abs h k = Some 9 \<and> (\<forall>e \<in> set (concat (sh_bkts h)). se_freeKey e \<and> se_key e = k)
    \<and> natsStrHash_Set all_mem wit_str 1 k True 9 = Some (NATS_OK, old, h)"
proof -
  have "map_option fst (natsStrHash_Set all_mem wit_str 1 k True 9) = Some NATS_OK" using assms(1) by auto
  from one_key_table [OF this] assms show ?thesis by auto
qed

theorem natsStrHash_Set_dangling_witness:
  "\<exists>h old old' h'. natsStrHash_Set all_mem wit_str 1 ''foo'' True 9 = Some (NATS_OK, old, h)
     \<and> natsStrHash_Set all_mem h 2 ''foo'' False 8 = Some (NATS_OK, old', h') \<and> natsStrHash_Get h' ''foo'' = None"
proof -
  let ?e = "\<lparr>se_hk = natsStrHash_Hash ''foo'', se_ptr = 2, se_key = ''foo'', se_freeKey = True, se_data = 9\<rparr> :: nat natsStrHashEntry"
  let ?b = "if str_idx 1 (natsStrHash_Hash ''foo'') = 0 then [[?e], []] else [[], [?e]]"
  have 1: "map_option (\<lambda>(s, _, h). (s, sh_bkts h)) (natsStrHash_Set all_mem wit_str 1 ''foo'' True 9) = Some (NATS_OK, ?b)"
    by code_simp
  have 2: "\<forall>e \<in> set (concat ?b). se_freeKey e \<and> se_key e = ''foo''" by simp
  obtain h old where h: "str_ok h" "str_abs h ''foo'' = Some 9"
      "\<forall>e \<in> set (concat (sh_bkts h)). se_freeKey e \<and> se_key e = ''foo''"
      "natsStrHash_Set all_mem wit_str 1 ''foo'' True 9 = Some (NATS_OK, old, h)"
    using one_key_owned [OF 1 2] by blast
  from natsStrHash_Set_dangling [OF h(1-3), of all_mem 2 8] h(4) show ?thesis by blast
qed

end
