(* ===== verification/Nats_Parser.thy ===== *)
theory Nats_Parser
  imports Nats_Buf Nats_Parse_Int
begin

text \<open>
  The protocol parser of the NATS client (\<open>parser.h\<close>, \<open>parser.c\<close>): the state machine that reads what
  the server sends, in pieces of arbitrary length, and calls the connection for every message,
  error, ping, pong, acknowledgement and server information.

  What the parser must keep between two pieces is copied to the \<open>scratch\<close> array of the parser, or to
  the heap when it does not fit. The aliasing matters: the subject and the reply of a message are
  not copied but designate bytes of the piece being read, of the argument buffer or of \<open>scratch\<close>
  (\<open>bufref\<close>). The handlers of the connection are parameters (\<open>conn_ops\<close>) over its state \<open>'c\<close>.
  \<open>None\<close> is undefined behaviour: an access outside an array, a dangling reference or a signed
  overflow.
\<close>

section \<open>State\<close>

datatype natsOp =
    OP_START
  | OP_PLUS
  | OP_PLUS_O
  | OP_PLUS_OK
  | OP_MINUS
  | OP_MINUS_E
  | OP_MINUS_ER
  | OP_MINUS_ERR
  | OP_MINUS_ERR_SPC
  | MINUS_ERR_ARG
  | OP_M
  | OP_MS
  | OP_MSG
  | OP_MSG_SPC
  | MSG_ARG
  | MSG_PAYLOAD
  | MSG_END
  | OP_H
  | OP_P
  | OP_PI
  | OP_PIN
  | OP_PING
  | OP_PO
  | OP_PON
  | OP_PONG
  | OP_I
  | OP_IN
  | OP_INF
  | OP_INFO
  | OP_INFO_SPC
  | INFO_ARG

text \<open>The number of a state, as printed in the text of a parse error.\<close>

fun natsOp_value :: "natsOp \<Rightarrow> nat" where
  "natsOp_value OP_START = 0"
| "natsOp_value OP_PLUS = 1"
| "natsOp_value OP_PLUS_O = 2"
| "natsOp_value OP_PLUS_OK = 3"
| "natsOp_value OP_MINUS = 4"
| "natsOp_value OP_MINUS_E = 5"
| "natsOp_value OP_MINUS_ER = 6"
| "natsOp_value OP_MINUS_ERR = 7"
| "natsOp_value OP_MINUS_ERR_SPC = 8"
| "natsOp_value MINUS_ERR_ARG = 9"
| "natsOp_value OP_M = 10"
| "natsOp_value OP_MS = 11"
| "natsOp_value OP_MSG = 12"
| "natsOp_value OP_MSG_SPC = 13"
| "natsOp_value MSG_ARG = 14"
| "natsOp_value MSG_PAYLOAD = 15"
| "natsOp_value MSG_END = 16"
| "natsOp_value OP_H = 17"
| "natsOp_value OP_P = 18"
| "natsOp_value OP_PI = 19"
| "natsOp_value OP_PIN = 20"
| "natsOp_value OP_PING = 21"
| "natsOp_value OP_PO = 22"
| "natsOp_value OP_PON = 23"
| "natsOp_value OP_PONG = 24"
| "natsOp_value OP_I = 25"
| "natsOp_value OP_IN = 26"
| "natsOp_value OP_INF = 27"
| "natsOp_value OP_INFO = 28"
| "natsOp_value OP_INFO_SPC = 29"
| "natsOp_value INFO_ARG = 30"

text \<open>
  A buffer made over bytes that belong to something else: offset and length in the piece being
  read, in \<open>scratch\<close> or in the array of the argument buffer. A reference to a piece is stale once
  \<open>natsParser_Parse\<close> has returned, because the caller reads the next piece into the same memory.
\<close>

datatype bufref = RefRead int int | RefScratch int int | RefArg int int | RefStale

record natsMsgArg =
  ma_subject :: "bufref option"
  ma_reply :: "bufref option"
  ma_sid :: int
  ma_hdr :: int
  ma_size :: int

definition MAX_CONTROL_LINE_SIZE :: int where "MAX_CONTROL_LINE_SIZE = 4096"

record natsParser =
  ps_state :: natsOp
  ps_afterSpace :: int
  ps_drop :: int
  ps_hdr :: int
  ps_ma :: natsMsgArg
  ps_argBuf :: "natsBuffer option"
  ps_msgBuf :: "natsBuffer option"
  ps_scratch :: bytes

text \<open>
  What the parser calls of the connection. The message handler gets the subject, the reply, the
  subscription id and the header length found in \<open>ps->ma\<close>, and the payload.
\<close>

record 'c conn_ops =
  processMsg :: "bytes \<Rightarrow> bytes option \<Rightarrow> int \<Rightarrow> int \<Rightarrow> bytes \<Rightarrow> 'c \<Rightarrow> natsStatus \<times> 'c"
  processOK :: "'c \<Rightarrow> 'c"
  processErr :: "bytes \<Rightarrow> 'c \<Rightarrow> 'c"
  processPing :: "'c \<Rightarrow> 'c"
  processPong :: "'c \<Rightarrow> 'c"
  processAsyncINFO :: "bytes \<Rightarrow> 'c \<Rightarrow> 'c"
  setErr :: "natsStatus \<Rightarrow> 'c \<Rightarrow> 'c"
  setErrStr :: "bytes \<Rightarrow> 'c \<Rightarrow> 'c"

text \<open>Memory: whether a buffer structure can be allocated, and the allocator of arrays.\<close>

record parse_mem =
  pm_struct :: bool
  pm_alloc :: allocator

section \<open>Arguments of a message\<close>

text \<open>\<open>snprintf(dst, 256, ..)\<close> keeps 255 bytes; \<open>%.*s\<close> stops at a NUL.\<close>

definition c_snprintf256 :: "bytes \<Rightarrow> bytes" where
  "c_snprintf256 s = take 255 s"

definition is_sep :: "byte \<Rightarrow> bool" where
  "is_sep b \<longleftrightarrow> b = SPC \<or> b = TAB \<or> b = CR \<or> b = LF"

text \<open>The loop that collects the slices (start, length) of the words of the line.\<close>

fun slice_loop :: "nat \<Rightarrow> bytes \<Rightarrow> int \<Rightarrow> int \<Rightarrow> (int \<times> int) list \<Rightarrow> natsStatus \<times> int \<times> int \<times> (int \<times> int) list" where
  "slice_loop indexLimit [] i start slices = (NATS_OK, i, start, slices)"
| "slice_loop indexLimit (b # bs) i start slices =
     (if is_sep b then
        (if start \<ge> 0 then
           (if length slices > indexLimit then (NATS_PROTOCOL_ERROR, i, start, slices)
            else slice_loop indexLimit bs (i + 1) (-1) (slices @ [(start, i - start)]))
         else slice_loop indexLimit bs (i + 1) start slices)
      else if start < 0 then slice_loop indexLimit bs (i + 1) i slices
      else slice_loop indexLimit bs (i + 1) start slices)"

text \<open>A word that ends with the line is added after the loop.\<close>

definition slices_end ::
    "nat \<Rightarrow> natsStatus \<times> int \<times> int \<times> (int \<times> int) list \<Rightarrow> natsStatus \<times> (int \<times> int) list" where
  "slices_end indexLimit r =
     (case r of (s, i, start, slices) \<Rightarrow>
        if s = NATS_OK \<and> start \<ge> 0
        then (if length slices > indexLimit then (NATS_PROTOCOL_ERROR, slices)
              else (s, slices @ [(start, i - start)]))
        else (s, slices))"

definition msg_slices :: "nat \<Rightarrow> bytes \<Rightarrow> natsStatus \<times> (int \<times> int) list" where
  "msg_slices indexLimit buf = slices_end indexLimit (slice_loop indexLimit buf 0 (-1) [])"

definition slice_bytes :: "bytes \<Rightarrow> int \<times> int \<Rightarrow> bytes" where
  "slice_bytes buf sl = take (nat (snd sl)) (drop (nat (fst sl)) buf)"

definition slice_int :: "bytes \<Rightarrow> int \<times> int \<Rightarrow> int" where
  "slice_int buf sl = nats_ParseInt64 (slice_bytes buf sl)"

text \<open>
  \<open>buf\<close> are the \<open>bufLen\<close> bytes of the line and \<open>ref\<close> makes a reference to a slice of it, since the
  subject and the reply are buffers over the line.
\<close>

definition processMsgArgs ::
    "'c conn_ops \<Rightarrow> natsParser \<Rightarrow> 'c \<Rightarrow> (int \<Rightarrow> int \<Rightarrow> bufref) \<Rightarrow> bytes \<Rightarrow> natsStatus \<times> natsParser \<times> 'c" where
  "processMsgArgs ops ps c ref buf =
     (let hasHeaders = ps_hdr ps \<ge> 0;
          indexLimit = (if hasHeaders then 4 else 3);
          minArgs = (if hasHeaders then 4 else 3);
          maxArgs = (if hasHeaders then 5 else 4);
          (s0, slices) = msg_slices indexLimit buf;
          index = length slices;
          ma = ps_ma ps;
          (s1, err1, ma1) =
            (if s0 = NATS_OK \<and> (index = minArgs \<or> index = maxArgs) then
               (NATS_OK, [],
                ma\<lparr>ma_subject := Some (ref (fst (slices ! 0)) (snd (slices ! 0))),
                   ma_sid := slice_int buf (slices ! 1),
                   ma_reply := (if index = minArgs then None
                                else Some (ref (fst (slices ! 2)) (snd (slices ! 2)))),
                   ma_hdr := (if hasHeaders then to_c_int (slice_int buf (slices ! (index - 2)))
                              else ma_hdr ma),
                   ma_size := to_c_int (slice_int buf (slices ! (index - 1)))\<rparr>)
             else (NATS_PROTOCOL_ERROR, ''processMsgArgs Parse Error: wrong number of arguments'', ma));
          line = '': '' @ [CHR 0x27] @ c_str buf @ [CHR 0x27];
          (s2, err2) = (if ma_sid ma1 < 0
                        then (NATS_PROTOCOL_ERROR, ''processMsgArgs Bad or Missing Sid'' @ line)
                        else (s1, err1));
          (s3, err3) = (if ma_size ma1 < 0
                        then (NATS_PROTOCOL_ERROR, ''processMsgArgs Bad or Missing Size'' @ line)
                        else (s2, err2));
          (s4, err4) = (if hasHeaders \<and> (ma_hdr ma1 < 0 \<or> ma_hdr ma1 > ma_size ma1)
                        then (NATS_PROTOCOL_ERROR, ''processMsgArgs Bad or Missing Header Size'' @ line)
                        else (s3, err3))
      in (s4, ps\<lparr>ps_ma := ma1\<rparr>,
          if s4 = NATS_OK then c else setErr ops s4 (setErrStr ops (c_snprintf256 err4) c)))"

section \<open>Buffers over the scratch array\<close>

text \<open>
  A buffer over \<open>scratch + off\<close> that has not been expanded shares its bytes with \<open>scratch\<close>, so what
  is written to it is written there.
\<close>

definition scratch_sync :: "int \<Rightarrow> natsBuffer \<Rightarrow> bytes \<Rightarrow> bytes" where
  "scratch_sync off b scratch =
     (if buf_ownData b then scratch
      else take (nat off) scratch @ buf_data b @ drop (nat off + length (buf_data b)) scratch)"

definition set_argBuf :: "natsBuffer \<Rightarrow> natsParser \<Rightarrow> natsParser" where
  "set_argBuf b ps = ps\<lparr>ps_argBuf := Some b, ps_scratch := scratch_sync 0 b (ps_scratch ps)\<rparr>"

text \<open>The message buffer, when it is over \<open>scratch\<close>, starts after the bytes of the argument buffer.\<close>

definition set_msgBuf :: "natsBuffer \<Rightarrow> natsParser \<Rightarrow> natsParser" where
  "set_msgBuf b ps =
     ps\<lparr>ps_msgBuf := Some b,
        ps_scratch := (case ps_argBuf ps of
                         None \<Rightarrow> ps_scratch ps
                       | Some ab \<Rightarrow> scratch_sync (buf_len ab) b (ps_scratch ps))\<rparr>"

definition deref :: "bytes \<Rightarrow> natsParser \<Rightarrow> bufref \<Rightarrow> bytes option" where
  "deref buf ps r =
     (case r of
        RefRead off len \<Rightarrow> c_read buf off len
      | RefScratch off len \<Rightarrow> c_read (ps_scratch ps) off len
      | RefArg off len \<Rightarrow> (case ps_argBuf ps of None \<Rightarrow> None | Some ab \<Rightarrow> c_read (buf_data ab) off len)
      | RefStale \<Rightarrow> None)"

definition ref_len :: "bufref \<Rightarrow> int" where
  "ref_len r = (case r of RefRead _ n \<Rightarrow> n | RefScratch _ n \<Rightarrow> n | RefArg _ n \<Rightarrow> n | RefStale \<Rightarrow> 0)"

text \<open>
  \<open>_cloneMsgArg\<close>: copies the subject and the reply to the argument buffer, which starts as a buffer
  over \<open>scratch\<close>, and makes both designate \<open>scratch\<close>.
\<close>

definition clone_subject ::
    "parse_mem \<Rightarrow> bytes \<Rightarrow> natsParser \<Rightarrow> bufref \<Rightarrow> (natsStatus \<times> natsParser) option" where
  "clone_subject mem buf ps subj =
     (case natsBuf_InitWithBackend (pm_alloc mem) (Some (ps_scratch ps)) 0 MAX_CONTROL_LINE_SIZE of
        Inl s \<Rightarrow> Some (s, ps)
      | Inr ab0 \<Rightarrow>
          (case deref buf ps subj of
             None \<Rightarrow> None
           | Some bs \<Rightarrow>
               (case natsBuf_Append (pm_alloc mem) ab0 bs (ref_len subj) of
                  None \<Rightarrow> None
                | Some (s, ab) \<Rightarrow>
                    (let ps1 = set_argBuf ab ps
                     in if s = NATS_OK
                        then Some (NATS_OK, ps1\<lparr>ps_ma := (ps_ma ps1)\<lparr>ma_subject := Some (RefScratch 0 (ref_len subj))\<rparr>\<rparr>)
                        else Some (s, ps1)))))"

definition clone_reply ::
    "parse_mem \<Rightarrow> bytes \<Rightarrow> natsParser \<Rightarrow> int \<Rightarrow> bufref \<Rightarrow> (natsStatus \<times> natsParser) option" where
  "clone_reply mem buf ps subjLen rep =
     (case (ps_argBuf ps, deref buf ps rep) of
        (Some ab0, Some bs) \<Rightarrow>
          (case natsBuf_Append (pm_alloc mem) ab0 bs (ref_len rep) of
             None \<Rightarrow> None
           | Some (s, ab) \<Rightarrow>
               (let ps1 = set_argBuf ab ps
                in if s = NATS_OK
                   then Some (NATS_OK, ps1\<lparr>ps_ma := (ps_ma ps1)\<lparr>ma_reply := Some (RefScratch subjLen (ref_len rep))\<rparr>\<rparr>)
                   else Some (s, ps1)))
      | _ \<Rightarrow> None)"

definition cloneMsgArg :: "parse_mem \<Rightarrow> bytes \<Rightarrow> natsParser \<Rightarrow> (natsStatus \<times> natsParser) option" where
  "cloneMsgArg mem buf ps =
     (case ma_subject (ps_ma ps) of
        None \<Rightarrow> None
      | Some subj \<Rightarrow>
          (case clone_subject mem buf ps subj of
             None \<Rightarrow> None
           | Some (s, ps1) \<Rightarrow>
               if s \<noteq> NATS_OK then Some (s, ps1)
               else (case ma_reply (ps_ma ps1) of
                       None \<Rightarrow> Some (NATS_OK, ps1)
                     | Some rep \<Rightarrow> clone_reply mem buf ps1 (ref_len subj) rep)))"

section \<open>One iteration of the loop\<close>

text \<open>
  An iteration ends with a status, the index (before the increment of the \<open>for\<close>) and the new states,
  or jumps to the label \<open>parseErr\<close>.
\<close>

datatype 'c step = Step natsStatus int natsParser 'c | ParseErr

definition goto_op :: "int \<Rightarrow> natsParser \<Rightarrow> 'c \<Rightarrow> natsOp \<Rightarrow> 'c step option" where
  "goto_op i ps c op = Some (Step NATS_OK i (ps\<lparr>ps_state := op\<rparr>) c)"

text \<open>The states that accept one letter, in either case.\<close>

definition letter :: "byte list \<Rightarrow> natsOp \<Rightarrow> int \<Rightarrow> byte \<Rightarrow> natsParser \<Rightarrow> 'c \<Rightarrow> 'c step option" where
  "letter cs op i b ps c = (if b \<in> set cs then goto_op i ps c op else Some ParseErr)"

text \<open>The states that skip spaces before the arguments.\<close>

definition skip_space :: "natsOp \<Rightarrow> int \<Rightarrow> byte \<Rightarrow> natsParser \<Rightarrow> 'c \<Rightarrow> 'c step option" where
  "skip_space op i b ps c =
     (if b = SPC \<or> b = TAB then Some (Step NATS_OK i ps c)
      else Some (Step NATS_OK i (ps\<lparr>ps_state := op, ps_afterSpace := i\<rparr>) c))"

definition step_start :: "int \<Rightarrow> byte \<Rightarrow> natsParser \<Rightarrow> 'c \<Rightarrow> 'c step option" where
  "step_start i b ps c =
     (if b \<in> set ''Mm'' then
        goto_op i (ps\<lparr>ps_hdr := -1, ps_ma := (ps_ma ps)\<lparr>ma_hdr := -1\<rparr>\<rparr>) c OP_M
      else if b \<in> set ''Hh'' then
        goto_op i (ps\<lparr>ps_hdr := 0, ps_ma := (ps_ma ps)\<lparr>ma_hdr := 0\<rparr>\<rparr>) c OP_H
      else if b \<in> set ''Pp'' then goto_op i ps c OP_P
      else if b = CHR ''+'' then goto_op i ps c OP_PLUS
      else if b = CHR ''-'' then goto_op i ps c OP_MINUS
      else if b \<in> set ''Ii'' then goto_op i ps c OP_I
      else Some ParseErr)"

text \<open>
  The line of arguments that ends before index \<open>i\<close>: the bytes of the argument buffer when there
  is one, otherwise those of the piece. The second component refers to its slices.
\<close>

definition arg_line :: "bytes \<Rightarrow> int \<Rightarrow> natsParser \<Rightarrow> (bytes \<times> (int \<Rightarrow> int \<Rightarrow> bufref)) option" where
  "arg_line buf i ps =
     (case ps_argBuf ps of
        Some ab \<Rightarrow> map_option (\<lambda>l. (l, RefArg)) (c_read (buf_data ab) 0 (buf_len ab))
      | None \<Rightarrow> map_option (\<lambda>l. (l, \<lambda>st. RefRead (ps_afterSpace ps + st)))
                  (c_read buf (ps_afterSpace ps) ((i - ps_drop ps) - ps_afterSpace ps)))"

text \<open>A byte inside the line: it is kept only when the line is split over pieces.\<close>

definition arg_byte :: "parse_mem \<Rightarrow> int \<Rightarrow> byte \<Rightarrow> natsParser \<Rightarrow> 'c \<Rightarrow> 'c step option" where
  "arg_byte mem i b ps c =
     (case ps_argBuf ps of
        None \<Rightarrow> Some (Step NATS_OK i ps c)
      | Some ab \<Rightarrow>
          (case natsBuf_AppendByte (pm_alloc mem) ab b of
             None \<Rightarrow> None
           | Some (s, ab') \<Rightarrow> Some (Step s i (set_argBuf ab' ps) c)))"

text \<open>The jump over the payload computes \<open>afterSpace + size\<close> on 32-bit integers.\<close>

definition step_MSG_ARG ::
    "'c conn_ops \<Rightarrow> parse_mem \<Rightarrow> bytes \<Rightarrow> int \<Rightarrow> byte \<Rightarrow> natsParser \<Rightarrow> 'c \<Rightarrow> 'c step option" where
  "step_MSG_ARG ops mem buf i b ps c =
     (if b = CR then Some (Step NATS_OK i (ps\<lparr>ps_drop := 1\<rparr>) c)
      else if b = LF then
        (case arg_line buf i ps of
           None \<Rightarrow> None
         | Some (line, ref) \<Rightarrow>
             (case processMsgArgs ops ps c ref line of
                (s, ps1, c1) \<Rightarrow>
                  if s = NATS_OK then
                    (let sum = (i + 1) + ma_size (ps_ma ps1)
                     in if c_int_ok sum
                        then Some (Step NATS_OK (sum - 1)
                               (ps1\<lparr>ps_drop := 0, ps_afterSpace := i + 1, ps_state := MSG_PAYLOAD\<rparr>) c1)
                        else None)
                  else Some (Step s i ps1 c1)))
      else arg_byte mem i b ps c)"

text \<open>The call of \<open>natsConn_processMsg\<close>, which reads the subject and the reply of \<open>ps->ma\<close>.\<close>

definition call_processMsg ::
    "'c conn_ops \<Rightarrow> bytes \<Rightarrow> natsParser \<Rightarrow> 'c \<Rightarrow> bytes \<Rightarrow> (natsStatus \<times> 'c) option" where
  "call_processMsg ops buf ps c payload =
     (let ma = ps_ma ps in
      case ma_subject ma of
        None \<Rightarrow> None
      | Some subj \<Rightarrow>
          (case deref buf ps subj of
             None \<Rightarrow> None
           | Some sb \<Rightarrow>
               (case ma_reply ma of
                  None \<Rightarrow> Some (processMsg ops sb None (ma_sid ma) (ma_hdr ma) payload c)
                | Some rep \<Rightarrow>
                    (case deref buf ps rep of
                       None \<Rightarrow> None
                     | Some rb \<Rightarrow> Some (processMsg ops sb (Some rb) (ma_sid ma) (ma_hdr ma) payload c)))))"

definition msg_done :: "natsParser \<Rightarrow> natsParser" where
  "msg_done ps = ps\<lparr>ps_argBuf := None, ps_msgBuf := None, ps_state := MSG_END\<rparr>"

definition step_MSG_PAYLOAD ::
    "'c conn_ops \<Rightarrow> parse_mem \<Rightarrow> bytes \<Rightarrow> int \<Rightarrow> byte \<Rightarrow> natsParser \<Rightarrow> 'c \<Rightarrow> 'c step option" where
  "step_MSG_PAYLOAD ops mem buf i b ps c =
     (let size = ma_size (ps_ma ps); bufLen = int (length buf) in
      case ps_msgBuf ps of
        Some mb \<Rightarrow>
          (if buf_len mb \<ge> size then
             (case c_read (buf_data mb) 0 (buf_len mb) of
                None \<Rightarrow> None
              | Some payload \<Rightarrow>
                  (case call_processMsg ops buf ps c payload of
                     None \<Rightarrow> None
                   | Some (s, c1) \<Rightarrow> Some (Step s i (msg_done ps) c1)))
           else
             (let toCopy = min (size - buf_len mb) (bufLen - i)
              in if toCopy > 0 then
                   (case c_read buf i toCopy of
                      None \<Rightarrow> None
                    | Some bs \<Rightarrow>
                        (case natsBuf_Append (pm_alloc mem) mb bs toCopy of
                           None \<Rightarrow> None
                         | Some (s, mb') \<Rightarrow>
                             Some (Step s (if s = NATS_OK then i + (toCopy - 1) else i) (set_msgBuf mb' ps) c)))
                 else
                   (case natsBuf_AppendByte (pm_alloc mem) mb b of
                      None \<Rightarrow> None
                    | Some (s, mb') \<Rightarrow> Some (Step s i (set_msgBuf mb' ps) c))))
      | None \<Rightarrow>
          (if i - ps_afterSpace ps \<ge> size then
             (case c_read buf (ps_afterSpace ps) (i - ps_afterSpace ps) of
                None \<Rightarrow> None
              | Some payload \<Rightarrow>
                  (case call_processMsg ops buf ps c payload of
                     None \<Rightarrow> None
                   | Some (s, c1) \<Rightarrow> Some (Step s i (msg_done ps) c1)))
           else Some (Step NATS_OK i ps c)))"

definition step_MSG_END :: "int \<Rightarrow> byte \<Rightarrow> natsParser \<Rightarrow> 'c \<Rightarrow> 'c step option" where
  "step_MSG_END i b ps c =
     (if b = LF
      then Some (Step NATS_OK i (ps\<lparr>ps_drop := 0, ps_afterSpace := i + 1, ps_state := OP_START\<rparr>) c)
      else Some (Step NATS_OK i ps c))"

definition step_PLUS_OK :: "'c conn_ops \<Rightarrow> int \<Rightarrow> byte \<Rightarrow> natsParser \<Rightarrow> 'c \<Rightarrow> 'c step option" where
  "step_PLUS_OK ops i b ps c =
     (if b = LF then Some (Step NATS_OK i (ps\<lparr>ps_drop := 0, ps_state := OP_START\<rparr>) (processOK ops c))
      else Some (Step NATS_OK i ps c))"

text \<open>The line of an error or of the server information is handed to \<open>handle\<close>.\<close>

definition step_line_arg ::
    "(bytes \<Rightarrow> 'c \<Rightarrow> 'c) \<Rightarrow> parse_mem \<Rightarrow> bytes \<Rightarrow> int \<Rightarrow> byte \<Rightarrow> natsParser \<Rightarrow> 'c \<Rightarrow> 'c step option" where
  "step_line_arg handle mem buf i b ps c =
     (if b = CR then Some (Step NATS_OK i (ps\<lparr>ps_drop := 1\<rparr>) c)
      else if b = LF then
        (case arg_line buf i ps of
           None \<Rightarrow> None
         | Some (line, _) \<Rightarrow>
             Some (Step NATS_OK i
               (ps\<lparr>ps_drop := 0, ps_afterSpace := i + 1, ps_state := OP_START, ps_argBuf := None\<rparr>)
               (handle line c)))
      else arg_byte mem i b ps c)"

definition step_MINUS_ERR_ARG ::
    "'c conn_ops \<Rightarrow> parse_mem \<Rightarrow> bytes \<Rightarrow> int \<Rightarrow> byte \<Rightarrow> natsParser \<Rightarrow> 'c \<Rightarrow> 'c step option" where
  "step_MINUS_ERR_ARG ops = step_line_arg (processErr ops)"

definition step_INFO_ARG ::
    "'c conn_ops \<Rightarrow> parse_mem \<Rightarrow> bytes \<Rightarrow> int \<Rightarrow> byte \<Rightarrow> natsParser \<Rightarrow> 'c \<Rightarrow> 'c step option" where
  "step_INFO_ARG ops = step_line_arg (processAsyncINFO ops)"

definition step_P :: "int \<Rightarrow> byte \<Rightarrow> natsParser \<Rightarrow> 'c \<Rightarrow> 'c step option" where
  "step_P i b ps c =
     (if b \<in> set ''Ii'' then goto_op i ps c OP_PI
      else if b \<in> set ''Oo'' then goto_op i ps c OP_PO
      else Some ParseErr)"

text \<open>The end of a ping or a pong.\<close>

definition step_PXNG :: "('c \<Rightarrow> 'c) \<Rightarrow> int \<Rightarrow> byte \<Rightarrow> natsParser \<Rightarrow> 'c \<Rightarrow> 'c step option" where
  "step_PXNG handle i b ps c =
     (if b = LF
      then Some (Step NATS_OK i (ps\<lparr>ps_drop := 0, ps_afterSpace := i + 1, ps_state := OP_START\<rparr>) (handle c))
      else Some (Step NATS_OK i ps c))"

text \<open>The states that read an operation, by its first letter.\<close>

definition step_msg_ops :: "int \<Rightarrow> byte \<Rightarrow> natsParser \<Rightarrow> 'c \<Rightarrow> 'c step option" where
  "step_msg_ops i b ps c =
     (case ps_state ps of
        OP_START \<Rightarrow> step_start i b ps c
      | OP_H \<Rightarrow> letter ''Mm'' OP_M i b ps c
      | OP_M \<Rightarrow> letter ''Ss'' OP_MS i b ps c
      | OP_MS \<Rightarrow> letter ''Gg'' OP_MSG i b ps c
      | OP_MSG \<Rightarrow> letter [SPC, TAB] OP_MSG_SPC i b ps c
      | OP_MSG_SPC \<Rightarrow> skip_space MSG_ARG i b ps c
      | _ \<Rightarrow> Some ParseErr)"

definition step_plus_minus_ops :: "'c conn_ops \<Rightarrow> int \<Rightarrow> byte \<Rightarrow> natsParser \<Rightarrow> 'c \<Rightarrow> 'c step option" where
  "step_plus_minus_ops ops i b ps c =
     (case ps_state ps of
        OP_PLUS \<Rightarrow> letter ''Oo'' OP_PLUS_O i b ps c
      | OP_PLUS_O \<Rightarrow> letter ''Kk'' OP_PLUS_OK i b ps c
      | OP_PLUS_OK \<Rightarrow> step_PLUS_OK ops i b ps c
      | OP_MINUS \<Rightarrow> letter ''Ee'' OP_MINUS_E i b ps c
      | OP_MINUS_E \<Rightarrow> letter ''Rr'' OP_MINUS_ER i b ps c
      | OP_MINUS_ER \<Rightarrow> letter ''Rr'' OP_MINUS_ERR i b ps c
      | OP_MINUS_ERR \<Rightarrow> letter [SPC, TAB] OP_MINUS_ERR_SPC i b ps c
      | OP_MINUS_ERR_SPC \<Rightarrow> skip_space MINUS_ERR_ARG i b ps c
      | _ \<Rightarrow> Some ParseErr)"

definition step_ping_pong_ops :: "'c conn_ops \<Rightarrow> int \<Rightarrow> byte \<Rightarrow> natsParser \<Rightarrow> 'c \<Rightarrow> 'c step option" where
  "step_ping_pong_ops ops i b ps c =
     (case ps_state ps of
        OP_P \<Rightarrow> step_P i b ps c
      | OP_PO \<Rightarrow> letter ''Nn'' OP_PON i b ps c
      | OP_PON \<Rightarrow> letter ''Gg'' OP_PONG i b ps c
      | OP_PONG \<Rightarrow> step_PXNG (processPong ops) i b ps c
      | OP_PI \<Rightarrow> letter ''Nn'' OP_PIN i b ps c
      | OP_PIN \<Rightarrow> letter ''Gg'' OP_PING i b ps c
      | OP_PING \<Rightarrow> step_PXNG (processPing ops) i b ps c
      | _ \<Rightarrow> Some ParseErr)"

definition step_info_ops :: "int \<Rightarrow> byte \<Rightarrow> natsParser \<Rightarrow> 'c \<Rightarrow> 'c step option" where
  "step_info_ops i b ps c =
     (case ps_state ps of
        OP_I \<Rightarrow> letter ''Nn'' OP_IN i b ps c
      | OP_IN \<Rightarrow> letter ''Ff'' OP_INF i b ps c
      | OP_INF \<Rightarrow> letter ''Oo'' OP_INFO i b ps c
      | OP_INFO \<Rightarrow> letter [SPC, TAB] OP_INFO_SPC i b ps c
      | OP_INFO_SPC \<Rightarrow> skip_space INFO_ARG i b ps c
      | _ \<Rightarrow> Some ParseErr)"

text \<open>The \<open>switch\<close> on the state.\<close>

definition parse_step ::
    "'c conn_ops \<Rightarrow> parse_mem \<Rightarrow> bytes \<Rightarrow> int \<Rightarrow> byte \<Rightarrow> natsParser \<Rightarrow> 'c \<Rightarrow> 'c step option" where
  "parse_step ops mem buf i b ps c =
     (let st = ps_state ps in
      if st \<in> {OP_START, OP_H, OP_M, OP_MS, OP_MSG, OP_MSG_SPC} then step_msg_ops i b ps c
      else if st = MSG_ARG then step_MSG_ARG ops mem buf i b ps c
      else if st = MSG_PAYLOAD then step_MSG_PAYLOAD ops mem buf i b ps c
      else if st = MSG_END then step_MSG_END i b ps c
      else if st = MINUS_ERR_ARG then step_MINUS_ERR_ARG ops mem buf i b ps c
      else if st = INFO_ARG then step_INFO_ARG ops mem buf i b ps c
      else if st \<in> {OP_P, OP_PO, OP_PON, OP_PONG, OP_PI, OP_PIN, OP_PING} then step_ping_pong_ops ops i b ps c
      else if st \<in> {OP_I, OP_IN, OP_INF, OP_INFO, OP_INFO_SPC} then step_info_ops i b ps c
      else step_plus_minus_ops ops i b ps c)"

text \<open>The index never moves back, so the loop ends.\<close>

lemmas parse_step_defs =
  parse_step_def step_msg_ops_def step_plus_minus_ops_def step_ping_pong_ops_def step_info_ops_def step_start_def letter_def skip_space_def goto_op_def step_P_def step_PXNG_def
  step_PLUS_OK_def step_MSG_END_def step_MINUS_ERR_ARG_def step_INFO_ARG_def

lemma processMsgArgs_size:
  "processMsgArgs ops ps c ref line = (NATS_OK, ps1, c1) \<Longrightarrow> 0 \<le> ma_size (ps_ma ps1)"
  by (auto simp: processMsgArgs_def Let_def split: prod.splits if_splits)

lemma step_MSG_ARG_progress: "step_MSG_ARG ops mem buf i b ps c = Some (Step s i' ps' c') \<Longrightarrow> i \<le> i'"
  by (auto simp: step_MSG_ARG_def arg_byte_def Let_def dest: processMsgArgs_size
      split: prod.splits if_splits option.splits)

lemma step_MSG_PAYLOAD_progress: "step_MSG_PAYLOAD ops mem buf i b ps c = Some (Step s i' ps' c') \<Longrightarrow> i \<le> i'"
  by (auto simp: step_MSG_PAYLOAD_def Let_def split: prod.splits if_splits option.splits)

lemma step_line_arg_progress: "step_line_arg h mem buf i b ps c = Some (Step s i' ps' c') \<Longrightarrow> i \<le> i'"
  by (auto simp: step_line_arg_def arg_byte_def split: prod.splits if_splits option.splits)

lemma parse_step_progress:
  assumes "parse_step ops mem buf i b ps c = Some (Step s i' ps' c')"
  shows "i \<le> i'"
  using assms step_MSG_ARG_progress [of ops mem buf i b ps c] step_MSG_PAYLOAD_progress [of ops mem buf i b ps c]
    step_line_arg_progress [of _ mem buf i b ps c]
  by (cases "ps_state ps") (simp_all add: parse_step_defs split: if_splits)

section \<open>Parse\<close>

text \<open>The loop: it ends with an index and a status, or at \<open>parseErr\<close> with the index of the bad byte.\<close>

datatype 'c loop_end = Loop natsStatus int natsParser 'c | LoopErr int natsParser 'c

function parse_loop ::
    "'c conn_ops \<Rightarrow> parse_mem \<Rightarrow> bytes \<Rightarrow> int \<Rightarrow> natsParser \<Rightarrow> 'c \<Rightarrow> 'c loop_end option" where
  "parse_loop ops mem buf i ps c =
     (if i < int (length buf) then
        (if i < 0 then None
         else case parse_step ops mem buf i (buf ! nat i) ps c of
            None \<Rightarrow> None
          | Some ParseErr \<Rightarrow> Some (LoopErr i ps c)
          | Some (Step s i' ps' c') \<Rightarrow>
              if s = NATS_OK then parse_loop ops mem buf (i' + 1) ps' c'
              else Some (Loop s (i' + 1) ps' c'))
      else Some (Loop NATS_OK i ps c))"
  by pat_completeness auto
termination
  by (relation "measure (\<lambda>(ops, mem, buf, i, ps, c). nat (int (length buf) - i))")
    (auto dest: parse_step_progress)

declare parse_loop.simps [simp del]

text \<open>The piece ends inside a line of arguments: what has been read of it is kept.\<close>

definition split_arg ::
    "parse_mem \<Rightarrow> bytes \<Rightarrow> int \<Rightarrow> natsParser \<Rightarrow> (natsStatus \<times> natsParser) option" where
  "split_arg mem buf i ps =
     (if ps_state ps \<in> {MSG_ARG, MINUS_ERR_ARG, INFO_ARG} \<and> ps_argBuf ps = None then
        (case natsBuf_InitWithBackend (pm_alloc mem) (Some (ps_scratch ps)) 0 MAX_CONTROL_LINE_SIZE of
           Inl s \<Rightarrow> Some (s, ps)
         | Inr ab0 \<Rightarrow>
             (let n = (i - ps_drop ps) - ps_afterSpace ps
              in case c_read buf (ps_afterSpace ps) n of
                   None \<Rightarrow> None
                 | Some bs \<Rightarrow>
                     (case natsBuf_Append (pm_alloc mem) ab0 bs n of
                        None \<Rightarrow> None
                      | Some (s, ab) \<Rightarrow> Some (s, set_argBuf ab ps))))
      else Some (NATS_OK, ps))"

text \<open>The buffer for a split message: on the heap unless the rest of \<open>scratch\<close> is large enough.\<close>

definition new_msgBuf :: "parse_mem \<Rightarrow> natsParser \<Rightarrow> natsBuffer \<Rightarrow> natsStatus + natsBuffer" where
  "new_msgBuf mem ps ab =
     (let remainingInScratch = MAX_CONTROL_LINE_SIZE - buf_len ab
      in if ma_size (ps_ma ps) > remainingInScratch
         then natsBuf_Create (pm_struct mem) (pm_alloc mem) (ma_size (ps_ma ps))
         else natsBuf_InitWithBackend (pm_alloc mem)
                (Some (drop (nat (buf_len ab)) (ps_scratch ps))) 0 remainingInScratch)"

text \<open>The piece ends inside a payload.\<close>

definition split_msg ::
    "parse_mem \<Rightarrow> bytes \<Rightarrow> natsParser \<Rightarrow> (natsStatus \<times> natsParser) option" where
  "split_msg mem buf ps =
     (if ps_state ps = MSG_PAYLOAD \<and> ps_msgBuf ps = None then
        (case (if ps_argBuf ps = None then cloneMsgArg mem buf ps else Some (NATS_OK, ps)) of
           None \<Rightarrow> None
         | Some (s, ps1) \<Rightarrow>
             if s \<noteq> NATS_OK then Some (s, ps1)
             else case ps_argBuf ps1 of
               None \<Rightarrow> None
             | Some ab \<Rightarrow>
                 (case new_msgBuf mem ps1 ab of
                    Inl s \<Rightarrow> Some (s, ps1)
                  | Inr mb0 \<Rightarrow>
                      (let toCopy = int (length buf) - ps_afterSpace ps1
                       in case c_read buf (ps_afterSpace ps1) toCopy of
                            None \<Rightarrow> None
                          | Some bs \<Rightarrow>
                              (case natsBuf_Append (pm_alloc mem) mb0 bs toCopy of
                                 None \<Rightarrow> None
                               | Some (s, mb) \<Rightarrow> Some (s, set_msgBuf mb ps1)))))
      else Some (NATS_OK, ps))"

definition clear_pointers :: "natsParser \<Rightarrow> natsParser" where
  "clear_pointers ps =
     ps\<lparr>ps_argBuf := None, ps_msgBuf := None,
        ps_ma := (ps_ma ps)\<lparr>ma_subject := None, ma_reply := None\<rparr>\<rparr>"

text \<open>After the return the piece is no longer there.\<close>

definition expire_ref :: "bufref \<Rightarrow> bufref" where
  "expire_ref r = (case r of RefRead _ _ \<Rightarrow> RefStale | _ \<Rightarrow> r)"

definition expire :: "natsParser \<Rightarrow> natsParser" where
  "expire ps = ps\<lparr>ps_ma := (ps_ma ps)\<lparr>ma_subject := map_option expire_ref (ma_subject (ps_ma ps)),
                                       ma_reply := map_option expire_ref (ma_reply (ps_ma ps))\<rparr>\<rparr>"

definition parse_error_text :: "natsParser \<Rightarrow> bytes \<Rightarrow> int \<Rightarrow> bytes" where
  "parse_error_text ps buf i =
     c_snprintf256 (''Parse Error ['' @ dec_str (natsOp_value (ps_state ps)) @ '']: '' @ [CHR 0x27]
                    @ c_str (drop (nat i) buf) @ [CHR 0x27])"

definition natsParser_Parse ::
    "'c conn_ops \<Rightarrow> parse_mem \<Rightarrow> natsParser \<Rightarrow> 'c \<Rightarrow> bytes \<Rightarrow> (natsStatus \<times> natsParser \<times> 'c) option" where
  "natsParser_Parse ops mem ps c buf =
     (case parse_loop ops mem buf 0 ps c of
        None \<Rightarrow> None
      | Some (LoopErr i ps1 c1) \<Rightarrow>
          Some (NATS_PROTOCOL_ERROR, expire ps1, setErrStr ops (parse_error_text ps1 buf i) c1)
      | Some (Loop s i ps1 c1) \<Rightarrow>
          (case (if s = NATS_OK then split_arg mem buf i ps1 else Some (s, ps1)) of
             None \<Rightarrow> None
           | Some (s2, ps2) \<Rightarrow>
               (case (if s2 = NATS_OK then split_msg mem buf ps2 else Some (s2, ps2)) of
                  None \<Rightarrow> None
                | Some (s3, ps3) \<Rightarrow>
                    Some (s3, expire (if s3 = NATS_OK then ps3 else clear_pointers ps3), c1))))"

section \<open>Creation\<close>

text \<open>The structure is zeroed.\<close>

definition natsParser_Create :: "bool \<Rightarrow> natsStatus + natsParser" where
  "natsParser_Create mem =
     (if mem then
        Inr \<lparr>ps_state = OP_START, ps_afterSpace = 0, ps_drop = 0, ps_hdr = 0,
             ps_ma = \<lparr>ma_subject = None, ma_reply = None, ma_sid = 0, ma_hdr = 0, ma_size = 0\<rparr>,
             ps_argBuf = None, ps_msgBuf = None,
             ps_scratch = replicate (nat MAX_CONTROL_LINE_SIZE) NUL\<rparr>
      else Inl NATS_NO_MEMORY)"

text \<open>
  \<open>natsParser_Destroy\<close> cleans up the buffer records inside the structure. The result tells whether
  the array of the argument buffer and that of the message buffer are freed.
\<close>

definition natsParser_Destroy :: "natsParser \<Rightarrow> bool \<times> bool" where
  "natsParser_Destroy ps =
     ((case ps_argBuf ps of None \<Rightarrow> False | Some ab \<Rightarrow> buf_ownData ab),
      (case ps_msgBuf ps of None \<Rightarrow> False | Some mb \<Rightarrow> \<not> buf_doFree mb \<and> buf_ownData mb))"

end
