(* ===== verification/Nats_Parser_Spec.thy ===== *)
theory Nats_Parser_Spec
  imports Nats_Parser
begin

text \<open>
  The protocol as a transducer that reads one byte at a time and emits events, without buffers,
  references or pieces, and the relation between its states and those of the parser.

  The transducer leaves open (\<open>Unspec\<close>) what the parser does not treat uniformly: a control line
  with more than \<open>MAX_CONTROL_LINE_SIZE\<close> bytes of arguments, a carriage return inside a control line
  that is not followed by a line feed, and payloads above \<open>MAX_SPEC_SIZE\<close> bytes.
\<close>

section \<open>Specification\<close>

fun words :: "bytes \<Rightarrow> bytes \<Rightarrow> bytes list" where
  "words [] cur = (if cur = [] then [] else [cur])"
| "words (b # bs) cur =
     (if is_sep b then (if cur = [] then words bs [] else cur # words bs []) else words bs (cur @ [b]))"

definition tokens :: "bytes \<Rightarrow> bytes list" where
  "tokens line = words line []"

record msg_head =
  mh_subject :: bytes
  mh_reply :: "bytes option"
  mh_sid :: int
  mh_hdr :: int
  mh_size :: int

definition msg_head_of :: "bool \<Rightarrow> bytes \<Rightarrow> msg_head option" where
  "msg_head_of hdrs line =
     (let ts = tokens line; n = length ts; minArgs = (if hdrs then 4 else 3) in
      if n = minArgs \<or> n = Suc minArgs then
        (let mh = \<lparr>mh_subject = ts ! 0,
                   mh_reply = (if n = minArgs then None else Some (ts ! 2)),
                   mh_sid = nats_ParseInt64 (ts ! 1),
                   mh_hdr = (if hdrs then to_c_int (nats_ParseInt64 (ts ! (n - 2))) else -1),
                   mh_size = to_c_int (nats_ParseInt64 (ts ! (n - 1)))\<rparr>
         in if mh_sid mh < 0 \<or> mh_size mh < 0 \<or> hdrs \<and> (mh_hdr mh < 0 \<or> mh_hdr mh > mh_size mh)
            then None else Some mh)
      else None)"

datatype event =
    EMsg bytes "bytes option" int int bytes
  | EOk
  | EErr bytes
  | EPing
  | EPong
  | EInfo bytes

datatype pspec =
    SOp natsOp bool
  | SArg natsOp bool bytes bool
  | SPay bool msg_head bytes

datatype outcome = Go pspec "event option" | Reject | Unspec

definition MAX_SPEC_SIZE :: int where "MAX_SPEC_SIZE = 2 ^ 30"

definition letter_next :: "natsOp \<Rightarrow> byte \<Rightarrow> natsOp option" where
  "letter_next op b =
     (case op of
        OP_H \<Rightarrow> if b \<in> set ''Mm'' then Some OP_M else None
      | OP_M \<Rightarrow> if b \<in> set ''Ss'' then Some OP_MS else None
      | OP_MS \<Rightarrow> if b \<in> set ''Gg'' then Some OP_MSG else None
      | OP_MSG \<Rightarrow> if b = SPC \<or> b = TAB then Some OP_MSG_SPC else None
      | OP_PLUS \<Rightarrow> if b \<in> set ''Oo'' then Some OP_PLUS_O else None
      | OP_PLUS_O \<Rightarrow> if b \<in> set ''Kk'' then Some OP_PLUS_OK else None
      | OP_MINUS \<Rightarrow> if b \<in> set ''Ee'' then Some OP_MINUS_E else None
      | OP_MINUS_E \<Rightarrow> if b \<in> set ''Rr'' then Some OP_MINUS_ER else None
      | OP_MINUS_ER \<Rightarrow> if b \<in> set ''Rr'' then Some OP_MINUS_ERR else None
      | OP_MINUS_ERR \<Rightarrow> if b = SPC \<or> b = TAB then Some OP_MINUS_ERR_SPC else None
      | OP_P \<Rightarrow> if b \<in> set ''Ii'' then Some OP_PI else if b \<in> set ''Oo'' then Some OP_PO else None
      | OP_PI \<Rightarrow> if b \<in> set ''Nn'' then Some OP_PIN else None
      | OP_PIN \<Rightarrow> if b \<in> set ''Gg'' then Some OP_PING else None
      | OP_PO \<Rightarrow> if b \<in> set ''Nn'' then Some OP_PON else None
      | OP_PON \<Rightarrow> if b \<in> set ''Gg'' then Some OP_PONG else None
      | OP_I \<Rightarrow> if b \<in> set ''Nn'' then Some OP_IN else None
      | OP_IN \<Rightarrow> if b \<in> set ''Ff'' then Some OP_INF else None
      | OP_INF \<Rightarrow> if b \<in> set ''Oo'' then Some OP_INFO else None
      | OP_INFO \<Rightarrow> if b = SPC \<or> b = TAB then Some OP_INFO_SPC else None
      | _ \<Rightarrow> None)"

definition start_next :: "bool \<Rightarrow> byte \<Rightarrow> outcome" where
  "start_next h b =
     (if b \<in> set ''Mm'' then Go (SOp OP_M False) None
      else if b \<in> set ''Hh'' then Go (SOp OP_H True) None
      else if b \<in> set ''Pp'' then Go (SOp OP_P h) None
      else if b = CHR ''+'' then Go (SOp OP_PLUS h) None
      else if b = CHR ''-'' then Go (SOp OP_MINUS h) None
      else if b \<in> set ''Ii'' then Go (SOp OP_I h) None
      else Reject)"

text \<open>The states that wait for the end of a line, with the event it gives.\<close>

definition line_event :: "natsOp \<Rightarrow> event option option" where
  "line_event op =
     (case op of
        MSG_END \<Rightarrow> Some None
      | OP_PLUS_OK \<Rightarrow> Some (Some EOk)
      | OP_PING \<Rightarrow> Some (Some EPing)
      | OP_PONG \<Rightarrow> Some (Some EPong)
      | _ \<Rightarrow> None)"

definition arg_state :: "natsOp \<Rightarrow> natsOp option" where
  "arg_state op =
     (case op of
        OP_MSG_SPC \<Rightarrow> Some MSG_ARG
      | OP_MINUS_ERR_SPC \<Rightarrow> Some MINUS_ERR_ARG
      | OP_INFO_SPC \<Rightarrow> Some INFO_ARG
      | _ \<Rightarrow> None)"

definition spec_op :: "natsOp \<Rightarrow> bool \<Rightarrow> byte \<Rightarrow> outcome" where
  "spec_op op h b =
     (if op = OP_START then start_next h b
      else case arg_state op of
        Some op' \<Rightarrow> if b = SPC \<or> b = TAB then Go (SOp op h) None else Go (SArg op' h [b] False) None
      | None \<Rightarrow>
          (case line_event op of
             Some e \<Rightarrow> if b = LF then Go (SOp OP_START h) e else Go (SOp op h) None
           | None \<Rightarrow> (case letter_next op b of None \<Rightarrow> Reject | Some op' \<Rightarrow> Go (SOp op' h) None)))"

definition spec_line :: "natsOp \<Rightarrow> bool \<Rightarrow> bytes \<Rightarrow> outcome" where
  "spec_line op h a =
     (case op of
        MSG_ARG \<Rightarrow>
          (case msg_head_of h a of
             None \<Rightarrow> Reject
           | Some mh \<Rightarrow> if mh_size mh \<le> MAX_SPEC_SIZE then Go (SPay h mh []) None else Unspec)
      | MINUS_ERR_ARG \<Rightarrow> Go (SOp OP_START h) (Some (EErr a))
      | INFO_ARG \<Rightarrow> Go (SOp OP_START h) (Some (EInfo a))
      | _ \<Rightarrow> Unspec)"

fun spec_step :: "pspec \<Rightarrow> byte \<Rightarrow> outcome" where
  "spec_step (SOp op h) b = spec_op op h b"
| "spec_step (SArg op h a cr) b =
     (if b = LF then spec_line op h a
      else if cr then Unspec
      else if b = CR then Go (SArg op h a True) None
      else if int (length a) \<ge> MAX_CONTROL_LINE_SIZE then Unspec
      else Go (SArg op h (a @ [b]) False) None)"
| "spec_step (SPay h mh pay) b =
     (if int (length pay) < mh_size mh then Go (SPay h mh (pay @ [b])) None
      else Go (SOp MSG_END h) (Some (EMsg (mh_subject mh) (mh_reply mh) (mh_sid mh) (mh_hdr mh) pay)))"

text \<open>What the connection does with an event.\<close>

fun handle :: "'c conn_ops \<Rightarrow> event \<Rightarrow> 'c \<Rightarrow> natsStatus \<times> 'c" where
  "handle ops (EMsg subj reply sid hdr pay) c = processMsg ops subj reply sid hdr pay c"
| "handle ops EOk c = (NATS_OK, processOK ops c)"
| "handle ops (EErr l) c = (NATS_OK, processErr ops l c)"
| "handle ops EPing c = (NATS_OK, processPing ops c)"
| "handle ops EPong c = (NATS_OK, processPong ops c)"
| "handle ops (EInfo l) c = (NATS_OK, processAsyncINFO ops l c)"

datatype 'c spec_result = Running pspec 'c | Failed natsStatus 'c | Rejected 'c | Unspecified

fun spec_run :: "'c conn_ops \<Rightarrow> pspec \<Rightarrow> 'c \<Rightarrow> bytes \<Rightarrow> 'c spec_result" where
  "spec_run ops st c [] = Running st c"
| "spec_run ops st c (b # bs) =
     (case spec_step st b of
        Unspec \<Rightarrow> Unspecified
      | Reject \<Rightarrow> Rejected c
      | Go st' None \<Rightarrow> spec_run ops st' c bs
      | Go st' (Some e) \<Rightarrow>
          (case handle ops e c of (s, c') \<Rightarrow> if s = NATS_OK then spec_run ops st' c' bs else Failed s c'))"

lemma spec_run_append:
  "spec_run ops st c (xs @ ys) =
     (case spec_run ops st c xs of Running st' c' \<Rightarrow> spec_run ops st' c' ys | r \<Rightarrow> r)"
  by (induction xs arbitrary: st c) (auto split: outcome.splits option.splits prod.splits)

lemma spec_run_payload:
  "int (length pay + length xs) \<le> mh_size mh \<Longrightarrow>
   spec_run ops (SPay h mh pay) c xs = Running (SPay h mh (pay @ xs)) c"
  by (induction xs arbitrary: pay) auto

section \<open>The words of a line\<close>

definition slice_in :: "bytes \<Rightarrow> int \<times> int \<Rightarrow> bool" where
  "slice_in buf sl \<longleftrightarrow> 0 \<le> fst sl \<and> 1 \<le> snd sl \<and> fst sl + snd sl \<le> int (length buf)"

lemma slice_bytes_append:
  "slice_in pre sl \<Longrightarrow> slice_bytes (pre @ rest) sl = slice_bytes pre sl"
  by (auto simp: slice_in_def slice_bytes_def)

lemma slice_in_append: "slice_in pre sl \<Longrightarrow> slice_in (pre @ rest) sl"
  by (auto simp: slice_in_def)

lemma slice_loop_words:
  assumes "buf = pre @ bs" "int (length pre) = i" "length slices \<le> Suc limit"
    "list_all (slice_in pre) slices"
    "start = -1 \<and> cur = [] \<or> 0 \<le> start \<and> nat start < length pre \<and> cur = drop (nat start) pre"
  shows "let r = slices_end limit (slice_loop limit bs i start slices);
             ws = map (slice_bytes buf) slices @ words bs cur
         in if length ws \<le> Suc limit
            then fst r = NATS_OK \<and> map (slice_bytes buf) (snd r) = ws \<and> list_all (slice_in buf) (snd r)
            else fst r = NATS_PROTOCOL_ERROR"
  using assms
proof (induction bs arbitrary: pre i start slices cur)
  case Nil
  then show ?case
    by (auto simp: slices_end_def Let_def slice_bytes_def slice_in_def list_all_iff)
next
  case (Cons b bs)
  have pre': "buf = (pre @ [b]) @ bs" "int (length (pre @ [b])) = i + 1" using Cons.prems by auto
  have sl': "list_all (slice_in (pre @ [b])) slices"
    using Cons.prems(4) by (auto simp: list_all_iff slice_in_append)
  note IH = Cons.IH [OF pre']
  show ?case
  proof (cases "is_sep b")
    case sep: True
    show ?thesis
    proof (cases "start \<ge> 0")
      case False
      with sep Cons.prems IH [of slices start "[]"] sl' show ?thesis by auto
    next
      case st: True
      then have cur: "cur = drop (nat start) pre" "nat start < length pre" "cur \<noteq> []"
        using Cons.prems(5) by auto
      show ?thesis
      proof (cases "length slices > limit")
        case True
        with sep st cur show ?thesis by (simp add: slices_end_def)
      next
        case False
        let ?sl = "(start, i - start)"
        have sb: "slice_bytes buf ?sl = cur"
          using Cons.prems(1,2) cur st by (auto simp: slice_bytes_def)
        have "slice_in (pre @ [b]) ?sl"
          using Cons.prems(2) cur st by (auto simp: slice_in_def)
        with sl' have "list_all (slice_in (pre @ [b])) (slices @ [?sl])" by simp
        with IH [of "slices @ [?sl]" "-1" "[]"] False sep st cur sb show ?thesis by simp
      qed
    qed
  next
    case nosep: False
    show ?thesis
    proof (cases "start \<ge> 0")
      case True
      with nosep Cons.prems IH [of slices start "cur @ [b]"] sl' show ?thesis by auto
    next
      case False
      with Cons.prems have "start = -1" "cur = []" by auto
      moreover have "0 \<le> i" "nat i = length pre" using Cons.prems(2) by auto
      ultimately show ?thesis
        using nosep Cons.prems IH [of slices i "[b]"] sl' by auto
    qed
  qed
qed

lemma msg_slices_tokens:
  "if length (tokens buf) \<le> Suc limit
   then fst (msg_slices limit buf) = NATS_OK \<and> map (slice_bytes buf) (snd (msg_slices limit buf)) = tokens buf
     \<and> list_all (slice_in buf) (snd (msg_slices limit buf))
   else fst (msg_slices limit buf) = NATS_PROTOCOL_ERROR"
  using slice_loop_words [of buf "[]" buf 0 "[]" limit "-1" "[]"]
  by (simp add: msg_slices_def tokens_def Let_def)

lemma words_length: "sum_list (map length (words bs cur)) \<le> length bs + length cur"
proof (induction bs cur rule: words.induct)
  case (2 b bs cur)
  then show ?case by (cases "is_sep b"; cases "cur = []") auto
qed simp

lemma tokens_length: "sum_list (map length (tokens line)) \<le> length line"
  using words_length [of line "[]"] by (simp add: tokens_def)

lemma two_of_sum:
  "i < j \<Longrightarrow> j < length xs \<Longrightarrow> xs ! i + xs ! j \<le> sum_list (xs :: nat list)"
proof (induction xs arbitrary: i j)
  case (Cons x xs)
  then obtain k where k: "j = Suc k" "k < length xs" by (cases j) auto
  then have "xs ! k \<le> sum_list xs" by (simp add: elem_le_sum_list)
  with Cons k show ?case by (cases i) (auto intro: trans_le_add2)
qed simp

text \<open>The arguments of a message are read as the specification says.\<close>

definition ma_matches :: "(bufref \<Rightarrow> bytes option) \<Rightarrow> natsMsgArg \<Rightarrow> msg_head \<Rightarrow> bool" where
  "ma_matches rd ma mh \<longleftrightarrow>
     (\<exists>r. ma_subject ma = Some r \<and> rd r = Some (mh_subject mh) \<and> ref_len r = int (length (mh_subject mh)))
     \<and> (case mh_reply mh of
          None \<Rightarrow> ma_reply ma = None
        | Some rep \<Rightarrow> (\<exists>r. ma_reply ma = Some r \<and> rd r = Some rep \<and> ref_len r = int (length rep)))
     \<and> ma_sid ma = mh_sid mh \<and> ma_hdr ma = mh_hdr mh \<and> ma_size ma = mh_size mh"

text \<open>With slices that are the words of the line, the code reads what the specification reads.\<close>

lemma processMsgArgs_words:
  assumes "h \<longleftrightarrow> 0 \<le> ps_hdr ps" "msg_slices (if h then 4 else 3) line = (NATS_OK, sls)" "tokens line = map (slice_bytes line) sls"
    and "length sls = (if h then 4 else 3) \<or> length sls = Suc (if h then 4 else 3)" "\<not> h \<longrightarrow> ma_hdr (ps_ma ps) = -1"
    and mh: "msg_head_of h line = Some mh"
  shows "processMsgArgs ops ps c ref line = (NATS_OK, ps\<lparr>ps_ma := (ps_ma ps)
      \<lparr>ma_subject := Some (ref (fst (sls ! 0)) (snd (sls ! 0))), ma_sid := mh_sid mh,
       ma_reply := (if length sls = (if h then 4 else 3) then None else Some (ref (fst (sls ! 2)) (snd (sls ! 2)))),
       ma_hdr := mh_hdr mh, ma_size := mh_size mh\<rparr>\<rparr>, c)
    \<and> mh_subject mh = slice_bytes line (sls ! 0)
    \<and> mh_reply mh = (if length sls = (if h then 4 else 3) then None else Some (slice_bytes line (sls ! 2)))"
proof -
  let ?m = "if h then 4 else 3 :: nat"
  have k: "length sls - 2 < length sls" "length sls - 1 < length sls" "1 < length sls" "2 < length sls" "0 < length sls" "length (tokens line) = length sls"
    using assms(3,4) by (auto split: if_splits)
  have t: "tokens line ! i = slice_bytes line (sls ! i)" if "i < length sls" for i using that by (simp add: assms(3))
  note tk = t [OF k(1)] t [OF k(2)] t [OF k(3)] t [OF k(4)] t [OF k(5)]
  have v: "slice_int line (sls ! 1) = mh_sid mh" "(if h then to_c_int (slice_int line (sls ! (length sls - 2))) else -1) = mh_hdr mh"
      "to_c_int (slice_int line (sls ! (length sls - 1))) = mh_size mh" "mh_subject mh = slice_bytes line (sls ! 0)"
      "mh_reply mh = (if length sls = ?m then None else Some (slice_bytes line (sls ! 2)))"
      "\<not> mh_sid mh < 0" "\<not> mh_size mh < 0" "\<not> (h \<and> (mh_hdr mh < 0 \<or> mh_size mh < mh_hdr mh))"
    using mh assms(4) unfolding msg_head_of_def Let_def k(6) tk slice_int_def by (auto split: if_split_asm)
  have "(if h then to_c_int (slice_int line (sls ! (length sls - 2))) else ma_hdr (ps_ma ps)) = mh_hdr mh"
    using v(2) assms(5) by (cases h) simp_all
  then show ?thesis using v(1,3-8) assms(2,4)
    by (cases h; cases "length sls = ?m") (simp_all add: processMsgArgs_def Let_def assms(1) [symmetric])
qed

lemma processMsgArgs_ok:
  assumes "h \<longleftrightarrow> 0 \<le> ps_hdr ps" "\<not> h \<longrightarrow> ma_hdr (ps_ma ps) = -1"
    and rd: "\<And>st n. slice_in line (st, n) \<Longrightarrow> rd (ref st n) = Some (slice_bytes line (st, n))"
    and rl: "\<And>st n. ref_len (ref st n) = n"
    and mh: "msg_head_of h line = Some mh"
  shows "\<exists>ma. processMsgArgs ops ps c ref line = (NATS_OK, ps\<lparr>ps_ma := ma\<rparr>, c) \<and> ma_matches rd ma mh"
proof -
  let ?m = "if h then 4 else 3 :: nat" and ?ts = "tokens line"
  obtain s sls where sl: "msg_slices ?m line = (s, sls)" by fastforce
  have n: "length ?ts = ?m \<or> length ?ts = Suc ?m" using mh by (auto simp: msg_head_of_def Let_def split: if_splits)
  then have s: "s = NATS_OK" and ts: "?ts = map (slice_bytes line) sls" and al: "list_all (slice_in line) sls"
    using msg_slices_tokens [of line ?m] sl by auto
  have n': "length sls = ?m \<or> length sls = Suc ?m" using n ts by simp
  then have k: "0 < length sls" "2 < length sls" by (auto split: if_splits)
  have part: "rd (ref (fst (sls ! k)) (snd (sls ! k))) = Some (slice_bytes line (sls ! k))
      \<and> int (length (slice_bytes line (sls ! k))) = snd (sls ! k)" if "k < length sls" for k
  proof -
    have "slice_in line (fst (sls ! k), snd (sls ! k))" using al that by (auto simp: list_all_length)
    then show ?thesis using rd [of "fst (sls ! k)" "snd (sls ! k)"] by (auto simp: slice_bytes_def slice_in_def)
  qed
  note ev = processMsgArgs_words [OF assms(1) sl [unfolded s] ts n' assms(2) mh, of ops c ref]
  show ?thesis
    by (intro exI conjI, rule ev [THEN conjunct1]) (simp add: ma_matches_def rl part [OF k(1)] part [OF k(2)] ev [THEN conjunct2])
qed

lemma processMsgArgs_bad:
  assumes "h \<longleftrightarrow> 0 \<le> ps_hdr ps" "msg_head_of h line = None"
  shows "\<exists>ps1 txt. processMsgArgs ops ps c ref line =
    (NATS_PROTOCOL_ERROR, ps1, setErr ops NATS_PROTOCOL_ERROR (setErrStr ops txt c))"
proof -
  define m where "m = (if h then 4 else 3 :: nat)"
  obtain s sls where sl: "msg_slices m line = (s, sls)" by fastforce
  let ?ts = "tokens line"
  show ?thesis
  proof (cases "s = NATS_OK \<and> (length sls = m \<or> length sls = Suc m)")
    case False
    with sl assms(1) show ?thesis
      by (cases h) (auto simp: processMsgArgs_def Let_def m_def split: if_splits)
  next
    case True
    then have ts: "?ts = map (slice_bytes line) sls"
      using msg_slices_tokens [of line m] sl by (auto split: if_splits)
    have m3: "3 \<le> length sls" using True by (auto simp: m_def)
    have nth: "?ts ! k = slice_bytes line (sls ! k)" if "k < length sls" for k using ts that by simp
    have k: "1 < length sls" "length sls - 2 < length sls" "length sls - 1 < length sls" using m3 by auto
    have len: "length ?ts = length sls" using ts by simp
    show ?thesis
      using assms True sl len nth [OF k(1)] nth [OF k(2)] nth [OF k(3)]
      by (cases h) (auto simp: processMsgArgs_def msg_head_of_def Let_def m_def slice_int_def
          split: if_splits)
  qed
qed

end
