(* ===== verification/Nats_Parser_Sim.thy ===== *)
theory Nats_Parser_Sim
  imports Nats_Parser_Spec
begin

text \<open>
  The parser implements the transducer: a relation between their states, at every position of a
  piece and between two pieces, that every iteration of the loop and the work done at the end of a
  piece preserve. A locale carries the result from one piece to any sequence of pieces.
\<close>

section \<open>The relation\<close>

definition arg_ops :: "natsOp set" where "arg_ops = {MSG_ARG, MINUS_ERR_ARG, INFO_ARG}"

definition hdr_rel :: "bool \<Rightarrow> natsParser \<Rightarrow> bool" where
  "hdr_rel h ps \<longleftrightarrow> (h \<longleftrightarrow> 0 \<le> ps_hdr ps) \<and> (\<not> h \<longrightarrow> ma_hdr (ps_ma ps) = -1)"

text \<open>The argument buffer stays over \<open>scratch\<close>.\<close>

definition scratch_buf :: "natsBuffer \<Rightarrow> bool" where
  "scratch_buf ab \<longleftrightarrow> buf_ok ab \<and> \<not> buf_ownData ab \<and> buf_capacity ab = MAX_CONTROL_LINE_SIZE"

definition arg_rel :: "bytes \<Rightarrow> int \<Rightarrow> natsParser \<Rightarrow> bytes \<Rightarrow> bool \<Rightarrow> bool" where
  "arg_rel buf i ps a cr \<longleftrightarrow>
     ps_drop ps = (if cr then 1 else 0) \<and> int (length a) \<le> MAX_CONTROL_LINE_SIZE
     \<and> (case ps_argBuf ps of
          Some ab \<Rightarrow> scratch_buf ab \<and> buf_content ab = a
        | None \<Rightarrow> 0 \<le> ps_afterSpace ps \<and> a \<noteq> []
            \<and> i - ps_drop ps - ps_afterSpace ps = int (length a) \<and> i \<le> int (length buf)
            \<and> a = take (length a) (drop (nat (ps_afterSpace ps)) buf))"

text \<open>References that survive the piece and the writes to the message buffer.\<close>

definition stable_ref :: "natsBuffer \<Rightarrow> bufref \<Rightarrow> bool" where
  "stable_ref ab r \<longleftrightarrow>
     (case r of RefRead _ _ \<Rightarrow> False | RefScratch off n \<Rightarrow> off + n \<le> buf_len ab | RefArg _ _ \<Rightarrow> True
      | RefStale \<Rightarrow> False)"

text \<open>Without an argument buffer the references are to the piece.\<close>

definition is_read :: "bufref \<Rightarrow> bool" where
  "is_read r \<longleftrightarrow> (case r of RefRead _ _ \<Rightarrow> True | _ \<Rightarrow> False)"

definition read_refs :: "natsMsgArg \<Rightarrow> bool" where
  "read_refs ma \<longleftrightarrow> pred_option is_read (ma_subject ma) \<and> pred_option is_read (ma_reply ma)"

definition stable_refs :: "natsBuffer \<Rightarrow> natsMsgArg \<Rightarrow> bool" where
  "stable_refs ab ma \<longleftrightarrow> pred_option (stable_ref ab) (ma_subject ma) \<and> pred_option (stable_ref ab) (ma_reply ma)"

definition msgbuf_rel :: "natsBuffer \<Rightarrow> natsBuffer \<Rightarrow> int \<Rightarrow> bytes \<Rightarrow> bool" where
  "msgbuf_rel ab mb sz pay \<longleftrightarrow>
     buf_ok mb \<and> sz \<le> buf_capacity mb \<and> buf_content mb = pay \<and> int (length pay) \<le> sz
     \<and> (\<not> buf_ownData mb \<longrightarrow> buf_len ab + buf_capacity mb = MAX_CONTROL_LINE_SIZE)"

definition head_len :: "msg_head \<Rightarrow> int" where
  "head_len mh = int (length (mh_subject mh)) + (case mh_reply mh of None \<Rightarrow> 0 | Some r \<Rightarrow> int (length r))"

definition pay_rel :: "bytes \<Rightarrow> int \<Rightarrow> natsParser \<Rightarrow> msg_head \<Rightarrow> bytes \<Rightarrow> bool" where
  "pay_rel buf i ps mh pay \<longleftrightarrow>
     ma_matches (deref buf ps) (ps_ma ps) mh \<and> 0 \<le> mh_size mh \<and> mh_size mh \<le> MAX_SPEC_SIZE
     \<and> ps_drop ps = 0 \<and> head_len mh \<le> MAX_CONTROL_LINE_SIZE \<and> mh_subject mh \<noteq> [] \<and> mh_reply mh \<noteq> Some []
     \<and> (case ps_argBuf ps of
          None \<Rightarrow> ps_msgBuf ps = None \<and> read_refs (ps_ma ps)
        | Some ab \<Rightarrow> scratch_buf ab \<and> stable_refs ab (ps_ma ps)
            \<and> (case ps_msgBuf ps of None \<Rightarrow> True | Some mb \<Rightarrow> msgbuf_rel ab mb (mh_size mh) pay))
     \<and> (ps_msgBuf ps = None \<longrightarrow>
          i = ps_afterSpace ps + mh_size mh \<and> 0 \<le> ps_afterSpace ps \<and> ps_afterSpace ps \<le> int (length buf)
          \<and> pay = take (nat (mh_size mh)) (drop (nat (ps_afterSpace ps)) buf))"

definition prel :: "bytes \<Rightarrow> int \<Rightarrow> natsParser \<Rightarrow> pspec \<Rightarrow> bool" where
  "prel buf i ps st \<longleftrightarrow>
     int (length (ps_scratch ps)) = MAX_CONTROL_LINE_SIZE
     \<and> (case st of
          SOp op h \<Rightarrow> ps_state ps = op \<and> op \<notin> arg_ops \<and> op \<noteq> MSG_PAYLOAD \<and> hdr_rel h ps
            \<and> ps_argBuf ps = None \<and> ps_msgBuf ps = None \<and> ps_drop ps = 0
        | SArg op h a cr \<Rightarrow> ps_state ps = op \<and> op \<in> arg_ops \<and> hdr_rel h ps
            \<and> ps_msgBuf ps = None \<and> arg_rel buf i ps a cr
        | SPay h mh pay \<Rightarrow> ps_state ps = MSG_PAYLOAD \<and> hdr_rel h ps \<and> pay_rel buf i ps mh pay)"

text \<open>Memory is available.\<close>

definition mem_ok :: "parse_mem \<Rightarrow> bool" where
  "mem_ok mem \<longleftrightarrow> pm_struct mem \<and> alloc_sized (pm_alloc mem) \<and> (\<forall>n. pm_alloc mem n \<noteq> None)"

section \<open>Iterations\<close>

definition event_result :: "'c conn_ops \<Rightarrow> event option \<Rightarrow> 'c \<Rightarrow> natsStatus \<times> 'c" where
  "event_result ops e c = (case e of None \<Rightarrow> (NATS_OK, c) | Some e \<Rightarrow> handle ops e c)"

definition rejected :: "'c conn_ops \<Rightarrow> 'c \<Rightarrow> 'c step \<Rightarrow> bool" where
  "rejected ops c r \<longleftrightarrow> r = ParseErr
     \<or> (\<exists>i ps txt. r = Step NATS_PROTOCOL_ERROR i ps (setErr ops NATS_PROTOCOL_ERROR (setErrStr ops txt c)))"

text \<open>
  An iteration does the step of the transducer, or the steps up to the index it jumps to, through
  which the transducer emits nothing.
\<close>

definition sim_step :: "'c conn_ops \<Rightarrow> parse_mem \<Rightarrow> bytes \<Rightarrow> int \<Rightarrow> natsParser \<Rightarrow> 'c \<Rightarrow> pspec \<Rightarrow> bool" where
  "sim_step ops mem buf i ps c st \<longleftrightarrow>
     (let b = buf ! nat i in
      case spec_step st b of
        Unspec \<Rightarrow> True
      | Reject \<Rightarrow> (\<exists>r. parse_step ops mem buf i b ps c = Some r \<and> rejected ops c r)
      | Go st' e \<Rightarrow>
          (\<exists>i' ps' st''. parse_step ops mem buf i b ps c =
              Some (Step (fst (event_result ops e c)) i' ps' (snd (event_result ops e c)))
            \<and> (fst (event_result ops e c) = NATS_OK \<longrightarrow> prel buf (i' + 1) ps' st''
               \<and> spec_run ops st' (snd (event_result ops e c)) (drop (nat (i + 1)) buf)
                 = spec_run ops st'' (snd (event_result ops e c)) (drop (nat (i' + 1)) buf))))"

text \<open>Most iterations read exactly one byte.\<close>

definition lock_step :: "'c conn_ops \<Rightarrow> parse_mem \<Rightarrow> bytes \<Rightarrow> int \<Rightarrow> natsParser \<Rightarrow> 'c \<Rightarrow> pspec \<Rightarrow> bool" where
  "lock_step ops mem buf i ps c st \<longleftrightarrow>
     (let b = buf ! nat i in
      case spec_step st b of
        Unspec \<Rightarrow> True
      | Reject \<Rightarrow> (\<exists>r. parse_step ops mem buf i b ps c = Some r \<and> rejected ops c r)
      | Go st' e \<Rightarrow>
          (\<exists>ps'. parse_step ops mem buf i b ps c =
              Some (Step (fst (event_result ops e c)) i ps' (snd (event_result ops e c)))
            \<and> prel buf (i + 1) ps' st'))"

lemma lock_step_sim: "lock_step ops mem buf i ps c st \<Longrightarrow> sim_step ops mem buf i ps c st"
  unfolding lock_step_def sim_step_def Let_def
  by (cases "spec_step st (buf ! nat i)") auto

lemma sim_op:
  assumes "prel buf i ps (SOp op h)" "0 \<le> i" "i < int (length buf)"
  shows "sim_step ops mem buf i ps c (SOp op h)"
proof -
  let ?b = "buf ! nat i"
  have ps: "ps_state ps = op" "op \<notin> arg_ops" "op \<noteq> MSG_PAYLOAD" "hdr_rel h ps" "ps_argBuf ps = None"
      "ps_msgBuf ps = None" "ps_drop ps = 0" "int (length (ps_scratch ps)) = MAX_CONTROL_LINE_SIZE"
    using assms(1) by (simp_all add: prel_def)
  have b1: "take (Suc 0) (drop (nat i) buf) = [?b]"
    using assms(2,3) by (simp add: take_Suc_conv_app_nth nth_drop)
  show ?thesis
    using ps assms(2,3) b1
    by (intro lock_step_sim, cases op) (simp_all add: lock_step_def parse_step_defs spec_op_def start_next_def letter_next_def arg_state_def
        line_event_def event_result_def rejected_def prel_def arg_ops_def hdr_rel_def arg_rel_def
        MAX_CONTROL_LINE_SIZE_def Let_def)
qed

lemma AppendByte_fits:
  assumes "buf_ok b" "buf_len b < buf_capacity b"
  shows "natsBuf_AppendByte alloc b x = Some (NATS_OK, buf_put b [x])"
  using assms buf_put_write [of b "[x]"]
  by (auto simp: natsBuf_AppendByte_def Let_def buf_put_def)

lemma content_length: "buf_ok b \<Longrightarrow> int (length (buf_content b)) = buf_len b"
  by (auto simp: buf_ok_def buf_content_def)

lemma scratch_buf_put:
  assumes "scratch_buf ab" "buf_len ab + int (length bs) \<le> MAX_CONTROL_LINE_SIZE"
  shows "scratch_buf (buf_put ab bs)" "buf_content (buf_put ab bs) = buf_content ab @ bs"
  using assms buf_put_ok [of ab bs] by (auto simp: scratch_buf_def) (auto simp: buf_put_def)

lemma set_argBuf_simps [simp]:
  "ps_state (set_argBuf ab ps) = ps_state ps" "ps_argBuf (set_argBuf ab ps) = Some ab"
  "ps_msgBuf (set_argBuf ab ps) = ps_msgBuf ps" "ps_drop (set_argBuf ab ps) = ps_drop ps"
  "ps_hdr (set_argBuf ab ps) = ps_hdr ps" "ps_ma (set_argBuf ab ps) = ps_ma ps"
  "ps_afterSpace (set_argBuf ab ps) = ps_afterSpace ps"
  "hdr_rel h (set_argBuf ab ps) = hdr_rel h ps"
  by (simp_all add: set_argBuf_def hdr_rel_def)

lemma set_argBuf_scratch:
  assumes "scratch_buf ab" "int (length (ps_scratch ps)) = MAX_CONTROL_LINE_SIZE"
  shows "ps_scratch (set_argBuf ab ps) = buf_data ab" "int (length (buf_data ab)) = MAX_CONTROL_LINE_SIZE"
  using assms by (auto simp: set_argBuf_def scratch_sync_def scratch_buf_def buf_ok_def)

text \<open>The line that is complete before index \<open>i\<close>.\<close>

lemma arg_line_rel:
  assumes "arg_rel buf i ps a cr"
  shows "\<exists>ref. arg_line buf i ps = Some (a, ref) \<and> (\<forall>st n. ref_len (ref st n) = n)
    \<and> (\<forall>st n. slice_in a (st, n) \<longrightarrow> deref buf ps (ref st n) = Some (slice_bytes a (st, n)))
    \<and> (\<forall>st n. case ps_argBuf ps of None \<Rightarrow> is_read (ref st n) | Some ab \<Rightarrow> stable_ref ab (ref st n))"
proof (cases "ps_argBuf ps")
  case None
  let ?p = "ps_afterSpace ps"
  have a: "0 \<le> ?p" "i - ps_drop ps - ?p = int (length a)" "?p + int (length a) \<le> int (length buf)"
     and e: "a = take (length a) (drop (nat ?p) buf)"
    using None assms by (auto simp: arg_rel_def split: if_splits)
  have "c_read buf ?p (i - ps_drop ps - ?p) = Some a"
    using a e by (simp add: c_read_def)
  moreover have "deref buf ps (RefRead (?p + st) n) = Some (slice_bytes a (st, n))" if sl: "slice_in a (st, n)" for st n
  proof -
    have n: "0 \<le> st" "1 \<le> n" "st + n \<le> int (length a)" using sl by (auto simp: slice_in_def)
    then have k: "nat (?p + st) = nat ?p + nat st" "nat n \<le> length a - nat st" using a(1) by auto
    have "take (nat n) (drop (nat st) a) = take (nat n) (drop (nat (?p + st)) buf)"
      using k by (subst e) (simp add: drop_take min_absorb1 add.commute)
    with n a show ?thesis by (simp add: deref_def c_read_def slice_bytes_def)
  qed
  ultimately show ?thesis using None by (simp add: arg_line_def ref_len_def is_read_def)
next
  case (Some ab)
  then have ab: "buf_ok ab" "buf_content ab = a" using assms by (auto simp: arg_rel_def scratch_buf_def)
  then have r: "c_read (buf_data ab) 0 (buf_len ab) = Some a"
    by (auto simp: c_read_def buf_ok_def buf_content_def)
  have "deref buf ps (RefArg st n) = Some (slice_bytes a (st, n))" if sl: "slice_in a (st, n)" for st n
  proof -
    have n: "0 \<le> st" "1 \<le> n" "st + n \<le> int (length a)" using sl by (auto simp: slice_in_def)
    have "int (length a) = buf_len ab" using ab content_length by blast
    moreover from this n have "nat n \<le> nat (buf_len ab) - nat st" by linarith
    ultimately show ?thesis
      using n ab Some by (auto simp: deref_def c_read_def slice_bytes_def buf_ok_def buf_content_def drop_take min_absorb1)
  qed
  with r Some show ?thesis by (simp add: arg_line_def ref_len_def stable_ref_def)
qed

lemma arg_rel_byte_None:
  assumes "arg_rel buf i ps a False" "0 \<le> i" "i < int (length buf)" "int (length a) < MAX_CONTROL_LINE_SIZE"
    "ps_argBuf ps = None"
  shows "arg_rel buf (i + 1) ps (a @ [buf ! nat i]) False"
proof -
  let ?p = "ps_afterSpace ps"
  have a: "0 \<le> ?p" "i - ?p = int (length a)" and e: "a = take (length a) (drop (nat ?p) buf)"
    using assms by (auto simp: arg_rel_def)
  then have i: "nat i = nat ?p + length a" "nat ?p + length a < length buf" using assms(3) by auto
  then have "take (Suc (length a)) (drop (nat ?p) buf) = take (length a) (drop (nat ?p) buf) @ [buf ! nat i]"
    by (simp add: take_Suc_conv_app_nth)
  with e have "a @ [buf ! nat i] = take (length (a @ [buf ! nat i])) (drop (nat ?p) buf)" by simp
  with a assms show ?thesis by (auto simp: arg_rel_def)
qed

lemma arg_byte_sim:
  assumes "prel buf i ps (SArg op h a False)" "0 \<le> i" "i < int (length buf)"
    "int (length a) < MAX_CONTROL_LINE_SIZE"
  shows "\<exists>ps'. arg_byte mem i (buf ! nat i) ps c = Some (Step NATS_OK i ps' c)
    \<and> prel buf (i + 1) ps' (SArg op h (a @ [buf ! nat i]) False)"
proof (cases "ps_argBuf ps")
  case None
  with assms arg_rel_byte_None [of buf i ps a] show ?thesis by (auto simp: prel_def arg_byte_def)
next
  case (Some ab)
  let ?b = "buf ! nat i" and ?ps = "set_argBuf (buf_put ab [buf ! nat i]) ps"
  have ab: "scratch_buf ab" "buf_content ab = a" and ar: "arg_rel buf i ps a False"
    using assms Some by (auto simp: prel_def arg_rel_def)
  then have l: "buf_len ab = int (length a)" using content_length by (fastforce simp: scratch_buf_def)
  then have "natsBuf_AppendByte (pm_alloc mem) ab ?b = Some (NATS_OK, buf_put ab [?b])"
    using ab assms(4) by (intro AppendByte_fits) (auto simp: scratch_buf_def)
  moreover have sb: "scratch_buf (buf_put ab [?b])" "buf_content (buf_put ab [?b]) = a @ [?b]"
    using scratch_buf_put [of ab "[?b]"] ab l assms(4) by auto
  moreover have "arg_rel buf (i + 1) ?ps (a @ [?b]) False"
    using sb ar assms(4) by (auto simp: arg_rel_def)
  moreover have "int (length (ps_scratch ?ps)) = MAX_CONTROL_LINE_SIZE"
    using set_argBuf_scratch [OF sb(1), of ps] assms(1) by (auto simp: prel_def)
  ultimately show ?thesis using Some assms(1) by (auto simp: arg_byte_def prel_def)
qed

lemma arg_rel_CR:
  "arg_rel buf i ps a False \<Longrightarrow> i < int (length buf) \<Longrightarrow> arg_rel buf (i + 1) (ps\<lparr>ps_drop := 1\<rparr>) a True"
  by (auto simp: arg_rel_def split: option.splits)

lemma parse_step_arg:
  assumes "prel buf i ps (SArg op h a cr)"
  shows "b \<noteq> LF \<Longrightarrow> parse_step ops mem buf i b ps c =
      (if b = CR then Some (Step NATS_OK i (ps\<lparr>ps_drop := 1\<rparr>) c) else arg_byte mem i b ps c)"
    and "op = MSG_ARG \<Longrightarrow> parse_step ops mem buf i LF ps c = step_MSG_ARG ops mem buf i LF ps c"
    and "op = MINUS_ERR_ARG \<Longrightarrow> parse_step ops mem buf i LF ps c = step_line_arg (processErr ops) mem buf i LF ps c"
    and "op = INFO_ARG \<Longrightarrow> parse_step ops mem buf i LF ps c = step_line_arg (processAsyncINFO ops) mem buf i LF ps c"
proof -
  have st: "ps_state ps = op" "op = MSG_ARG \<or> op = MINUS_ERR_ARG \<or> op = INFO_ARG"
    using assms by (auto simp: prel_def arg_ops_def)
  note defs = parse_step_def step_MINUS_ERR_ARG_def step_INFO_ARG_def Let_def
  show "b \<noteq> LF \<Longrightarrow> parse_step ops mem buf i b ps c =
      (if b = CR then Some (Step NATS_OK i (ps\<lparr>ps_drop := 1\<rparr>) c) else arg_byte mem i b ps c)"
    using st by (elim disjE) (simp_all add: defs step_MSG_ARG_def step_line_arg_def)
  show "op = MSG_ARG \<Longrightarrow> parse_step ops mem buf i LF ps c = step_MSG_ARG ops mem buf i LF ps c"
    and "op = MINUS_ERR_ARG \<Longrightarrow> parse_step ops mem buf i LF ps c = step_line_arg (processErr ops) mem buf i LF ps c"
    and "op = INFO_ARG \<Longrightarrow> parse_step ops mem buf i LF ps c = step_line_arg (processAsyncINFO ops) mem buf i LF ps c"
    using st(1) by (simp_all add: defs)
qed

lemma sim_arg_inside:
  assumes "prel buf i ps (SArg op h a cr)" "0 \<le> i" "i < int (length buf)" "buf ! nat i \<noteq> LF"
  shows "sim_step ops mem buf i ps c (SArg op h a cr)"
proof (rule lock_step_sim)
  let ?b = "buf ! nat i"
  show "lock_step ops mem buf i ps c (SArg op h a cr)"
  proof (cases "cr \<or> ?b \<noteq> CR \<and> int (length a) \<ge> MAX_CONTROL_LINE_SIZE")
    case True
    with assms(4) show ?thesis by (auto simp: lock_step_def Let_def)
  next
    case False
    then have cr: "cr = False" by simp
    show ?thesis
    proof (cases "?b = CR")
      case True
      then show ?thesis
        using assms arg_rel_CR [of buf i ps a] parse_step_arg(1) [OF assms(1,4), of ops mem c] cr
        by (auto simp: lock_step_def Let_def event_result_def prel_def hdr_rel_def)
    next
      case b: False
      with False have "int (length a) < MAX_CONTROL_LINE_SIZE" by simp
      with arg_byte_sim [of buf i ps op h a mem c] parse_step_arg(1) [OF assms(1,4), of ops mem c] b assms cr
      show ?thesis by (auto simp: lock_step_def Let_def event_result_def)
    qed
  qed
qed

lemma sim_line_end:
  assumes "prel buf i ps (SArg op h a cr)" "buf ! nat i = LF" "op = MINUS_ERR_ARG \<or> op = INFO_ARG"
  shows "sim_step ops mem buf i ps c (SArg op h a cr)"
proof (rule lock_step_sim)
  obtain ref where "arg_line buf i ps = Some (a, ref)"
    using arg_line_rel [of buf i ps a cr] assms(1) by (auto simp: prel_def)
  then show "lock_step ops mem buf i ps c (SArg op h a cr)"
    using assms parse_step_arg(3,4) [OF assms(1), of ops mem c]
    by (elim disjE) (simp_all add: lock_step_def Let_def event_result_def step_line_arg_def spec_line_def prel_def arg_ops_def hdr_rel_def)
qed

lemma words_nonempty: "w \<in> set (words bs cur) \<Longrightarrow> w \<noteq> []"
  by (induction bs cur rule: words.induct) (auto split: if_splits)

lemma msg_head_facts:
  assumes "msg_head_of h a = Some mh"
  shows "head_len mh \<le> int (length a)" "mh_subject mh \<noteq> []" "mh_reply mh \<noteq> Some []" "0 \<le> mh_size mh"
    "\<not> h \<longrightarrow> mh_hdr mh = -1"
proof -
  let ?ts = "tokens a"
  have n: "3 \<le> length ?ts" and mh: "mh_subject mh = ?ts ! 0" "mh_reply mh = None \<or> mh_reply mh = Some (?ts ! 2)"
    and "0 \<le> mh_size mh" "\<not> h \<longrightarrow> mh_hdr mh = -1"
    using assms by (auto simp: msg_head_of_def Let_def split: if_splits)
  then show "0 \<le> mh_size mh" "\<not> h \<longrightarrow> mh_hdr mh = -1" by auto
  have ne: "?ts ! k \<noteq> []" if "k < length ?ts" for k
    using words_nonempty [of "?ts ! k" a "[]"] that by (simp add: tokens_def)
  have "map length ?ts ! 0 + map length ?ts ! 2 \<le> sum_list (map length ?ts)"
    using n by (intro two_of_sum) auto
  then have "length (?ts ! 0) + length (?ts ! 2) \<le> length a"
    using tokens_length [of a] n by (subst (asm) (1 2) nth_map) auto
  with mh show "head_len mh \<le> int (length a)" by (auto simp: head_len_def)
  have "0 < length ?ts" "2 < length ?ts" using n by linarith+
  with mh ne show "mh_subject mh \<noteq> []" "mh_reply mh \<noteq> Some []" by fastforce+
qed

lemma ma_matches_restrict:
  assumes "ma_matches (\<lambda>r. if P r then rd r else None) ma mh"
  shows "ma_matches rd ma mh" "pred_option P (ma_subject ma)" "pred_option P (ma_reply ma)"
  using assms by (auto simp: ma_matches_def split: if_splits option.splits)

lemma deref_cong [simp]:
  "deref buf (ps\<lparr>ps_ma := m\<rparr>) = deref buf ps" "deref buf (ps\<lparr>ps_drop := d\<rparr>) = deref buf ps"
  "deref buf (ps\<lparr>ps_afterSpace := p\<rparr>) = deref buf ps" "deref buf (ps\<lparr>ps_state := s\<rparr>) = deref buf ps"
  by (auto simp: deref_def fun_eq_iff split: bufref.splits)

lemma sim_msg_end:
  assumes "prel buf i ps (SArg MSG_ARG h a cr)" "buf ! nat i = LF" "0 \<le> i" "i < int (length buf)"
    "length buf < 2 ^ 30"
  shows "sim_step ops mem buf i ps c (SArg MSG_ARG h a cr)"
proof -
  have ar: "arg_rel buf i ps a cr" and hr: "hdr_rel h ps" using assms(1) by (auto simp: prel_def)
  obtain ref where ref: "arg_line buf i ps = Some (a, ref)" "\<And>st n. ref_len (ref st n) = n"
      "\<And>st n. slice_in a (st, n) \<Longrightarrow> deref buf ps (ref st n) = Some (slice_bytes a (st, n))"
      "\<And>st n. case ps_argBuf ps of None \<Rightarrow> is_read (ref st n) | Some ab \<Rightarrow> stable_ref ab (ref st n)"
    using arg_line_rel [OF ar] by blast
  note step = parse_step_arg(2) [OF assms(1) refl, of ops mem c]
  show ?thesis
  proof (cases "msg_head_of h a")
    case None
    obtain ps1 et where "processMsgArgs ops ps c ref a =
        (NATS_PROTOCOL_ERROR, ps1, setErr ops NATS_PROTOCOL_ERROR (setErrStr ops et c))"
      using processMsgArgs_bad [of h ps a ops c ref] None hr by (auto simp: hdr_rel_def)
    with None assms(2) ref(1) step show ?thesis
      by (auto simp: sim_step_def Let_def spec_line_def step_MSG_ARG_def rejected_def)
  next
    case (Some mh)
    note mh = msg_head_facts [OF Some]
    let ?P = "\<lambda>r. case ps_argBuf ps of None \<Rightarrow> is_read r | Some ab \<Rightarrow> stable_ref ab r"
    have rd: "(if ?P (ref st n) then deref buf ps (ref st n) else None) = Some (slice_bytes a (st, n))"
      if "slice_in a (st, n)" for st n
      using ref(3) [OF that] ref(4) [of st n] by simp
    have hdr: "h \<longleftrightarrow> 0 \<le> ps_hdr ps" "\<not> h \<longrightarrow> ma_hdr (ps_ma ps) = -1" using hr unfolding hdr_rel_def by blast+
    obtain ma where pm: "processMsgArgs ops ps c ref a = (NATS_OK, ps\<lparr>ps_ma := ma\<rparr>, c)"
        and mm: "ma_matches (\<lambda>r. if ?P r then deref buf ps r else None) ma mh"
      using processMsgArgs_ok [of h ps a "\<lambda>r. if ?P r then deref buf ps r else None" ref mh ops c, OF hdr rd ref(2) Some]
      by blast
    note mm = ma_matches_restrict [OF mm]
    let ?ps = "ps\<lparr>ps_ma := ma, ps_drop := 0, ps_afterSpace := i + 1, ps_state := MSG_PAYLOAD\<rparr>"
    let ?n = "mh_size mh" and ?rest = "drop (nat (i + 1)) buf"
    let ?pay = "take (nat ?n) ?rest"
    show ?thesis
    proof (cases "?n \<le> MAX_SPEC_SIZE")
      case False
      with Some assms(2) show ?thesis by (auto simp: sim_step_def Let_def spec_line_def)
    next
      case True
      have sz: "ma_size ma = ?n" "ma_hdr ma = mh_hdr mh" using mm(1) by (auto simp: ma_matches_def)
      have st: "parse_step ops mem buf i LF ps c = Some (Step NATS_OK (i + ?n) ?ps c)"
        using step ref(1) pm sz True assms(3,4,5) mh(4)
        by (auto simp: step_MSG_ARG_def Let_def c_int_ok_def MAX_SPEC_SIZE_def)
      have "prel buf (i + ?n + 1) ?ps (SPay h mh ?pay)"
        using assms(1,3,4) mm mh ar hr True sz
        by (auto simp: prel_def pay_rel_def arg_rel_def hdr_rel_def stable_refs_def read_refs_def
            split: option.splits)
      moreover have "spec_run ops (SPay h mh []) c ?rest = spec_run ops (SPay h mh ?pay) c (drop (nat (i + ?n + 1)) buf)"
      proof -
        have "drop (nat (i + ?n + 1)) buf = drop (nat ?n) ?rest"
          using assms(3) mh(4) by (simp add: nat_add_distrib add_ac)
        then have "?rest = ?pay @ drop (nat (i + ?n + 1)) buf" by (simp only: append_take_drop_id)
        then have "spec_run ops (SPay h mh []) c ?rest = spec_run ops (SPay h mh []) c (?pay @ drop (nat (i + ?n + 1)) buf)"
          by (rule arg_cong)
        also have "\<dots> = spec_run ops (SPay h mh ?pay) c (drop (nat (i + ?n + 1)) buf)"
          using spec_run_payload [of "[]" ?pay mh ops h c] mh(4) by (simp add: spec_run_append)
        finally show ?thesis .
      qed
      ultimately show ?thesis
        using st Some assms(2) True
        by (auto simp: sim_step_def Let_def spec_line_def event_result_def intro!: exI [of _ "SPay h mh ?pay"])
    qed
  qed
qed

subsection \<open>The payload\<close>

lemma call_processMsg_rel:
  assumes "ma_matches (deref buf ps) (ps_ma ps) mh"
  shows "call_processMsg ops buf ps c pay =
    Some (handle ops (EMsg (mh_subject mh) (mh_reply mh) (mh_sid mh) (mh_hdr mh) pay) c)"
  using assms by (auto simp: call_processMsg_def ma_matches_def Let_def split: option.splits)

lemma msg_done_rel:
  assumes "prel buf i ps (SPay h mh pay)"
  shows "prel buf j (msg_done ps) (SOp MSG_END h)"
  using assms by (auto simp: prel_def msg_done_def pay_rel_def arg_ops_def hdr_rel_def)

lemma set_msgBuf_simps [simp]:
  "ps_state (set_msgBuf mb ps) = ps_state ps" "ps_argBuf (set_msgBuf mb ps) = ps_argBuf ps"
  "ps_msgBuf (set_msgBuf mb ps) = Some mb" "ps_drop (set_msgBuf mb ps) = ps_drop ps"
  "ps_hdr (set_msgBuf mb ps) = ps_hdr ps" "ps_ma (set_msgBuf mb ps) = ps_ma ps"
  "hdr_rel h (set_msgBuf mb ps) = hdr_rel h ps"
  by (simp_all add: set_msgBuf_def hdr_rel_def)

text \<open>Writing the message buffer keeps what the subject and the reply designate.\<close>

lemma set_msgBuf_scratch:
  assumes "ps_argBuf ps = Some ab" "scratch_buf ab" "msgbuf_rel ab mb n pay"
    "int (length (ps_scratch ps)) = MAX_CONTROL_LINE_SIZE"
  shows "int (length (ps_scratch (set_msgBuf mb ps))) = MAX_CONTROL_LINE_SIZE"
    "take (nat (buf_len ab)) (ps_scratch (set_msgBuf mb ps)) = take (nat (buf_len ab)) (ps_scratch ps)"
proof -
  have ab: "0 \<le> buf_len ab" "buf_len ab \<le> MAX_CONTROL_LINE_SIZE"
    using assms(2) by (auto simp: scratch_buf_def buf_ok_def)
  have mb: "int (length (buf_data mb)) = buf_capacity mb" using assms(3) by (auto simp: msgbuf_rel_def buf_ok_def)
  have own: "\<not> buf_ownData mb \<Longrightarrow> buf_len ab + buf_capacity mb = MAX_CONTROL_LINE_SIZE"
    using assms(3) by (auto simp: msgbuf_rel_def)
  have l: "nat (buf_len ab) \<le> length (ps_scratch ps)" using ab assms(4) by linarith
  show "int (length (ps_scratch (set_msgBuf mb ps))) = MAX_CONTROL_LINE_SIZE"
    using assms(1,4) ab mb own l by (auto simp: set_msgBuf_def scratch_sync_def)
  show "take (nat (buf_len ab)) (ps_scratch (set_msgBuf mb ps)) = take (nat (buf_len ab)) (ps_scratch ps)"
    using assms(1) l by (auto simp: set_msgBuf_def scratch_sync_def)
qed

lemma c_read_take:
  assumes "take k a = take k a'" "length a = length a'" "off + n \<le> int k"
  shows "c_read a off n = c_read a' off n"
proof (cases "0 \<le> off \<and> 0 \<le> n")
  case True
  have "take (nat n) (drop (nat off) x) = drop (nat off) (take (nat off + nat n) (take k x))" for x :: bytes
  proof -
    have "nat off + nat n \<le> k" using True assms(3) by linarith
    then show ?thesis by (simp add: take_drop min_absorb1 add.commute)
  qed
  from this [of a] this [of a'] assms(1)
  have "take (nat n) (drop (nat off) a) = take (nat n) (drop (nat off) a')" by metis
  then show ?thesis using assms(2) by (simp add: c_read_def)
qed (auto simp: c_read_def)

lemma stable_deref:
  assumes "stable_ref ab r" "ps_argBuf ps = Some ab" "ps_argBuf ps' = Some ab"
    "take (nat (buf_len ab)) (ps_scratch ps') = take (nat (buf_len ab)) (ps_scratch ps)"
    "length (ps_scratch ps') = length (ps_scratch ps)" "0 \<le> buf_len ab"
  shows "deref buf' ps' r = deref buf ps r"
  using assms c_read_take [OF assms(4,5)]
  by (cases r) (auto simp: stable_ref_def deref_def)

lemma ma_matches_cong:
  assumes "ma_matches rd ma mh" "pred_option P (ma_subject ma)" "pred_option P (ma_reply ma)"
    "\<And>r. P r \<Longrightarrow> rd' r = rd r"
  shows "ma_matches rd' ma mh"
  using assms by (auto simp: ma_matches_def split: option.splits)

lemma set_msgBuf_matches:
  assumes "ps_argBuf ps = Some ab" "scratch_buf ab" "msgbuf_rel ab mb n pay" "stable_refs ab (ps_ma ps)"
    "int (length (ps_scratch ps)) = MAX_CONTROL_LINE_SIZE" "ma_matches (deref buf ps) (ps_ma ps) mh"
  shows "ma_matches (deref buf' (set_msgBuf mb ps)) (ps_ma ps) mh"
proof (rule ma_matches_cong [OF assms(6)])
  show "pred_option (stable_ref ab) (ma_subject (ps_ma ps))" "pred_option (stable_ref ab) (ma_reply (ps_ma ps))"
    using assms(4) by (auto simp: stable_refs_def)
  show "deref buf' (set_msgBuf mb ps) r = deref buf ps r" if "stable_ref ab r" for r
    using that assms(1,2) set_msgBuf_scratch [OF assms(1,2,3,5)] assms(5)
    by (intro stable_deref) (auto simp: scratch_buf_def buf_ok_def)
qed

lemma msgbuf_rel_put:
  assumes "msgbuf_rel ab mb n pay" "int (length pay + length bs) \<le> n"
  shows "msgbuf_rel ab (buf_put mb bs) n (pay @ bs)"
proof -
  have "buf_len mb + int (length bs) \<le> buf_capacity mb"
    using assms content_length [of mb] by (auto simp: msgbuf_rel_def)
  then have "buf_ok (buf_put mb bs)" "buf_content (buf_put mb bs) = buf_content mb @ bs"
    using assms(1) buf_put_ok [of mb bs] by (auto simp: msgbuf_rel_def)
  with assms show ?thesis by (auto simp: msgbuf_rel_def) (auto simp: buf_put_def)
qed

lemma sim_pay_done:
  assumes "prel buf i ps (SPay h mh pay)" "int (length pay) = mh_size mh"
    "parse_step ops mem buf i (buf ! nat i) ps c =
       map_option (\<lambda>(s, c1). Step s i (msg_done ps) c1) (call_processMsg ops buf ps c pay)"
  shows "sim_step ops mem buf i ps c (SPay h mh pay)"
proof (rule lock_step_sim)
  have "ma_matches (deref buf ps) (ps_ma ps) mh" using assms(1) by (simp add: prel_def pay_rel_def)
  from call_processMsg_rel [OF this, of ops c pay] assms msg_done_rel [OF assms(1), of "i + 1"]
  show "lock_step ops mem buf i ps c (SPay h mh pay)"
    by (simp add: lock_step_def Let_def event_result_def split: prod.splits)
qed

lemma sim_pay_None:
  assumes "prel buf i ps (SPay h mh pay)" "0 \<le> i" "i < int (length buf)" "ps_msgBuf ps = None"
  shows "sim_step ops mem buf i ps c (SPay h mh pay)"
proof -
  let ?p = "ps_afterSpace ps" and ?n = "mh_size mh"
  have r: "i = ?p + ?n" "0 \<le> ?p" "0 \<le> ?n" "pay = take (nat ?n) (drop (nat ?p) buf)" "ma_size (ps_ma ps) = ?n"
      "ps_state ps = MSG_PAYLOAD"
    using assms by (auto simp: prel_def pay_rel_def ma_matches_def)
  have "c_read buf ?p (i - ?p) = Some pay" "int (length pay) = ?n"
    using r assms(3) by (auto simp: c_read_def)
  with r assms(4) show ?thesis
    by (intro sim_pay_done [OF assms(1)])
      (auto simp: parse_step_def step_MSG_PAYLOAD_def Let_def split: option.splits)
qed

lemma sim_pay_Some:
  assumes "prel buf i ps (SPay h mh pay)" "0 \<le> i" "i < int (length buf)" "ps_msgBuf ps = Some mb"
  shows "sim_step ops mem buf i ps c (SPay h mh pay)"
proof -
  let ?n = "mh_size mh"
  obtain ab where ab: "ps_argBuf ps = Some ab" "scratch_buf ab" "stable_refs ab (ps_ma ps)" "msgbuf_rel ab mb ?n pay"
    using assms(1,4) by (auto simp: prel_def pay_rel_def split: option.splits)
  have r: "ma_size (ps_ma ps) = ?n" "ps_state ps = MSG_PAYLOAD" "?n \<le> MAX_SPEC_SIZE"
      "int (length (ps_scratch ps)) = MAX_CONTROL_LINE_SIZE" "ma_matches (deref buf ps) (ps_ma ps) mh"
    using assms(1) by (auto simp: prel_def pay_rel_def ma_matches_def)
  have mb: "buf_ok mb" "buf_content mb = pay" "int (length pay) \<le> ?n" "buf_len mb = int (length pay)" "?n \<le> buf_capacity mb"
    using ab(4) content_length [of mb] by (auto simp: msgbuf_rel_def)
  then have rd: "c_read (buf_data mb) 0 (buf_len mb) = Some pay"
    by (auto simp: c_read_def buf_ok_def buf_content_def)
  show ?thesis
  proof (cases "int (length pay) = ?n")
    case True
    with r mb rd assms(4) show ?thesis
      by (intro sim_pay_done [OF assms(1)])
        (auto simp: parse_step_def step_MSG_PAYLOAD_def Let_def split: option.splits)
  next
    case False
    then have lt: "int (length pay) < ?n" using mb by simp
    define k where "k = min (?n - int (length pay)) (int (length buf) - i)"
    define bs where "bs = take (nat k) (drop (nat i) buf)"
    have k: "0 < k" "k \<le> ?n - int (length pay)" "i + k \<le> int (length buf)" using lt assms(3) by (auto simp: k_def)
    have lb: "int (length bs) = k" using k assms(2) by (auto simp: bs_def)
    have "c_read buf i k = Some bs" using k assms(2) by (simp add: c_read_def bs_def)
    moreover have "natsBuf_Append (pm_alloc mem) mb bs k = Some (NATS_OK, buf_put mb (take (nat k) bs))"
      using mb k lb r(3) by (intro natsBuf_Append_fits) (auto simp: MAX_SPEC_SIZE_def)
    moreover have "take (nat k) bs = bs" using lb by simp
    ultimately have st: "parse_step ops mem buf i (buf ! nat i) ps c =
        Some (Step NATS_OK (i + k - 1) (set_msgBuf (buf_put mb bs) ps) c)"
      using r assms(4) lt mb k unfolding parse_step_def step_MSG_PAYLOAD_def Let_def
      by (simp flip: k_def)
    have rel: "msgbuf_rel ab (buf_put mb bs) ?n (pay @ bs)"
      using ab(4) k lb by (intro msgbuf_rel_put) auto
    have "ma_matches (deref buf (set_msgBuf (buf_put mb bs) ps)) (ps_ma ps) mh"
      by (rule set_msgBuf_matches [OF ab(1,2) rel ab(3) r(4,5)])
    with set_msgBuf_scratch(1) [OF ab(1,2) rel r(4)] rel ab assms(1)
    have prel: "prel buf (i + k) (set_msgBuf (buf_put mb bs) ps) (SPay h mh (pay @ bs))"
      by (auto simp: prel_def pay_rel_def)
    have split: "drop (nat i) buf = bs @ drop (nat (i + k)) buf"
    proof -
      have "drop (nat (i + k)) buf = drop (nat k) (drop (nat i) buf)"
        using k(1) assms(2) by (simp add: nat_add_distrib add.commute)
      then show ?thesis by (simp only: bs_def append_take_drop_id)
    qed
    have hd: "drop (nat i) buf = buf ! nat i # drop (nat (i + 1)) buf"
      using assms(2,3) by (simp add: Cons_nth_drop_Suc [symmetric] nat_add_distrib)
    have "spec_run ops (SPay h mh pay) c (drop (nat i) buf) = spec_run ops (SPay h mh (pay @ bs)) c (drop (nat (i + k)) buf)"
      unfolding split using spec_run_payload [of pay bs mh ops h c] k lb by (simp add: spec_run_append)
    then have "spec_run ops (SPay h mh (pay @ [buf ! nat i])) c (drop (nat (i + 1)) buf)
        = spec_run ops (SPay h mh (pay @ bs)) c (drop (nat (i + k)) buf)"
      using lt unfolding hd by simp
    with st prel lt show ?thesis
      by (auto simp: sim_step_def Let_def event_result_def intro!: exI [of _ "SPay h mh (pay @ bs)"])
  qed
qed

lemma sim_any:
  assumes "prel buf i ps st" "0 \<le> i" "i < int (length buf)" "length buf < 2 ^ 30"
  shows "sim_step ops mem buf i ps c st"
proof (cases st)
  case (SOp op h)
  with assms show ?thesis by (simp add: sim_op)
next
  case (SArg op h a cr)
  then have op: "op = MSG_ARG \<or> op = MINUS_ERR_ARG \<or> op = INFO_ARG" using assms(1) by (auto simp: prel_def arg_ops_def)
  show ?thesis
  proof (cases "buf ! nat i = LF")
    case True
    with op assms SArg sim_msg_end [of buf i ps h a cr] sim_line_end [of buf i ps op h a cr] show ?thesis by auto
  next
    case False
    with assms SArg show ?thesis by (simp add: sim_arg_inside)
  qed
next
  case (SPay h mh pay)
  with assms show ?thesis by (cases "ps_msgBuf ps") (simp_all add: sim_pay_None sim_pay_Some)
qed

end
