(* ===== verification/Nats_Parser_Pieces.thy ===== *)
theory Nats_Parser_Pieces
  imports Nats_Parser_Sim
begin

text \<open>
  From one iteration of the loop to \<open>natsParser_Parse\<close> on one piece, and to any sequence of pieces.
\<close>

section \<open>The loop\<close>

definition rejection :: "'c conn_ops \<Rightarrow> 'c \<Rightarrow> 'c \<Rightarrow> bool" where
  "rejection ops c c' \<longleftrightarrow>
     (\<exists>et. c' = setErrStr ops et c \<or> c' = setErr ops NATS_PROTOCOL_ERROR (setErrStr ops et c))"

definition loop_agrees :: "'c conn_ops \<Rightarrow> bytes \<Rightarrow> 'c spec_result \<Rightarrow> 'c loop_end option \<Rightarrow> bool" where
  "loop_agrees ops buf r e \<longleftrightarrow>
     (case r of
        Unspecified \<Rightarrow> True
      | Running st' c' \<Rightarrow> (\<exists>i' ps'. e = Some (Loop NATS_OK i' ps' c') \<and> prel buf i' ps' st' \<and> int (length buf) \<le> i')
      | Failed s c' \<Rightarrow> s \<noteq> NATS_OK \<and> (\<exists>i' ps'. e = Some (Loop s i' ps' c'))
      | Rejected c' \<Rightarrow> (\<exists>i' ps'. e = Some (LoopErr i' ps' c'))
          \<or> (\<exists>i' ps' et. e = Some (Loop NATS_PROTOCOL_ERROR i' ps'
                 (setErr ops NATS_PROTOCOL_ERROR (setErrStr ops et c')))))"

lemma drop_nth_Cons: "0 \<le> i \<Longrightarrow> i < int (length xs) \<Longrightarrow> drop (nat i) xs = xs ! nat i # drop (nat (i + 1)) xs"
  by (simp add: Cons_nth_drop_Suc [symmetric] nat_add_distrib)

lemma loop_sim:
  assumes "prel buf i ps st" "0 \<le> i" "length buf < 2 ^ 30"
  shows "loop_agrees ops buf (spec_run ops st c (drop (nat i) buf)) (parse_loop ops mem buf i ps c)"
  using assms
proof (induction ops mem buf i ps c arbitrary: st rule: parse_loop.induct)
  case (1 ops mem buf i ps c)
  show ?case
  proof (cases "i < int (length buf)")
    case False
    with "1.prems" show ?thesis
      by (auto simp: loop_agrees_def parse_loop.simps [of ops mem buf i])
  next
    case True
    let ?b = "buf ! nat i"
    have sim: "sim_step ops mem buf i ps c st" using "1.prems" True by (intro sim_any) auto
    have loop: "parse_loop ops mem buf i ps c =
        (case parse_step ops mem buf i ?b ps c of None \<Rightarrow> None
         | Some ParseErr \<Rightarrow> Some (LoopErr i ps c)
         | Some (Step s i' ps' c') \<Rightarrow>
             if s = NATS_OK then parse_loop ops mem buf (i' + 1) ps' c' else Some (Loop s (i' + 1) ps' c'))"
      using True "1.prems"(2) by (subst parse_loop.simps) simp
    note hd = drop_nth_Cons [OF "1.prems"(2) True]
    show ?thesis
    proof (cases "spec_step st ?b")
      case Unspec
      then show ?thesis by (simp add: hd loop_agrees_def)
    next
      case Reject
      with sim obtain r where "parse_step ops mem buf i ?b ps c = Some r" "rejected ops c r"
        by (auto simp: sim_step_def)
      with loop Reject hd show ?thesis
        by (auto simp: loop_agrees_def rejected_def)
    next
      case (Go st' e)
      obtain s c' where er: "event_result ops e c = (s, c')" by fastforce
      have run: "spec_run ops st c (drop (nat i) buf) =
          (if s = NATS_OK then spec_run ops st' c' (drop (nat (i + 1)) buf) else Failed s c')"
        using Go er by (cases e) (auto simp: hd event_result_def)
      obtain i' ps' st'' where st: "parse_step ops mem buf i ?b ps c = Some (Step s i' ps' c')"
        and rel: "s = NATS_OK \<longrightarrow> prel buf (i' + 1) ps' st''
            \<and> spec_run ops st' c' (drop (nat (i + 1)) buf) = spec_run ops st'' c' (drop (nat (i' + 1)) buf)"
        using sim Go er by (auto simp: sim_step_def Let_def)
      show ?thesis
      proof (cases "s = NATS_OK")
        case False
        with run loop st show ?thesis by (simp add: loop_agrees_def)
      next
        case ok: True
        have "i \<le> i'" using parse_step_progress [OF st] .
        then have "loop_agrees ops buf (spec_run ops st'' c' (drop (nat (i' + 1)) buf)) (parse_loop ops mem buf (i' + 1) ps' c')"
          using "1.IH" [OF True _ st refl ok] rel ok "1.prems" by auto
        with run rel ok loop st show ?thesis by simp
      qed
    qed
  qed
qed

section \<open>The end of a piece\<close>

lemma backend_buf:
  assumes "int (length arr) = n" "0 \<le> n" "n \<le> INT_MAX"
  shows "\<exists>b. natsBuf_InitWithBackend alloc (Some arr) 0 n = Inr b \<and> buf_ok b \<and> buf_content b = []
    \<and> buf_len b = 0 \<and> buf_capacity b = n \<and> \<not> buf_ownData b"
  using assms by (simp add: natsBuf_InitWithBackend_def buf_init_def buf_ok_def buf_content_def)

lemma scratch_backend:
  assumes "int (length (ps_scratch ps)) = MAX_CONTROL_LINE_SIZE"
  shows "\<exists>b. natsBuf_InitWithBackend alloc (Some (ps_scratch ps)) 0 MAX_CONTROL_LINE_SIZE = Inr b
    \<and> scratch_buf b \<and> buf_content b = [] \<and> buf_len b = 0"
  using backend_buf [OF assms, of alloc] by (auto simp: MAX_CONTROL_LINE_SIZE_def scratch_buf_def)

lemma Append_all_fits:
  assumes "buf_ok b" "buf_len b + int (length bs) \<le> buf_capacity b" "buf_len b + int (length bs) < INT_MAX"
  shows "\<exists>b'. natsBuf_Append alloc b bs (int (length bs)) = Some (NATS_OK, b')
    \<and> b' = (if bs = [] then b else buf_put b bs)"
  using assms natsBuf_Append_fits [of b "int (length bs)" bs alloc]
  by (cases "bs = []") (auto simp: natsBuf_Append_def)

lemma scratch_append:
  assumes "scratch_buf ab" "buf_len ab + int (length bs) \<le> MAX_CONTROL_LINE_SIZE"
  shows "\<exists>ab'. natsBuf_Append alloc ab bs (int (length bs)) = Some (NATS_OK, ab') \<and> scratch_buf ab'
    \<and> buf_content ab' = buf_content ab @ bs \<and> buf_len ab' = buf_len ab + int (length bs)"
proof -
  obtain b' where b': "natsBuf_Append alloc ab bs (int (length bs)) = Some (NATS_OK, b')"
      "b' = (if bs = [] then ab else buf_put ab bs)"
    using Append_all_fits [of ab bs alloc] assms by (auto simp: scratch_buf_def MAX_CONTROL_LINE_SIZE_def)
  with scratch_buf_put [OF assms] assms(1) have "scratch_buf b'" "buf_content b' = buf_content ab @ bs" by auto
  moreover have "buf_len b' = buf_len ab + int (length bs)" using b'(2) by (simp add: buf_put_def)
  ultimately show ?thesis using b'(1) by blast
qed

lemma split_arg_rel:
  assumes "prel buf i ps st" "int (length buf) \<le> i"
  shows "\<exists>ps'. split_arg mem buf i ps = Some (NATS_OK, ps') \<and> prel buf i ps' st
    \<and> (ps_state ps' \<in> arg_ops \<longrightarrow> ps_argBuf ps' \<noteq> None)"
proof (cases "ps_state ps \<in> arg_ops \<and> ps_argBuf ps = None")
  case False
  then show ?thesis using assms(1) by (auto simp: split_arg_def arg_ops_def)
next
  case True
  then obtain op h a cr where st: "st = SArg op h a cr"
    using assms(1) by (cases st) (auto simp: prel_def arg_ops_def)
  let ?p = "ps_afterSpace ps"
  have a: "0 \<le> ?p" "i - ps_drop ps - ?p = int (length a)" "?p + int (length a) \<le> int (length buf)"
     "a = take (length a) (drop (nat ?p) buf)" "int (length a) \<le> MAX_CONTROL_LINE_SIZE"
     "ps_drop ps = (if cr then 1 else 0)"
    using True assms(1) st by (auto simp: prel_def arg_rel_def split: if_splits)
  have rd: "c_read buf ?p (int (length a)) = Some a" using a by (simp add: c_read_def)
  have sc: "int (length (ps_scratch ps)) = MAX_CONTROL_LINE_SIZE" using assms(1) by (simp add: prel_def)
  obtain b where b: "natsBuf_InitWithBackend (pm_alloc mem) (Some (ps_scratch ps)) 0 MAX_CONTROL_LINE_SIZE = Inr b"
      "scratch_buf b" "buf_content b = []" "buf_len b = 0"
    using scratch_backend [OF sc] by blast
  obtain ab where ab: "natsBuf_Append (pm_alloc mem) b a (int (length a)) = Some (NATS_OK, ab)"
      "scratch_buf ab" "buf_content ab = a"
    using scratch_append [OF b(2), of a "pm_alloc mem"] b a(5) by auto
  have "split_arg mem buf i ps = Some (NATS_OK, set_argBuf ab ps)"
    using True b(1) rd a(2) ab(1) by (auto simp: split_arg_def arg_ops_def Let_def)
  moreover have "prel buf i (set_argBuf ab ps) st"
    using assms(1) st True ab a(5,6) set_argBuf_scratch [OF ab(2) sc]
    by (auto simp: prel_def arg_rel_def)
  ultimately show ?thesis by simp
qed

lemma read_deref: "is_read r \<Longrightarrow> deref buf ps' r = deref buf ps r"
  by (cases r) (auto simp: is_read_def deref_def)

lemma c_read_content:
  assumes "scratch_buf ab" "buf_content ab = x @ y @ z"
  shows "c_read (buf_data ab) (int (length x)) (int (length y)) = Some y"
proof -
  have l: "buf_len ab = int (length (x @ y @ z))" "buf_len ab \<le> int (length (buf_data ab))"
    using assms content_length [of ab] by (auto simp: scratch_buf_def buf_ok_def)
  have "take (length (x @ y @ z)) (buf_data ab) = x @ y @ z"
    using assms(2) l(1) unfolding buf_content_def by (metis nat_int)
  then have "take (length y) (drop (length x) (buf_data ab)) = y"
    by (metis append_eq_conv_conj append_take_drop_id append_assoc)
  with l show ?thesis by (simp add: c_read_def)
qed

lemma clone_subject_rel:
  assumes "int (length (ps_scratch ps)) = MAX_CONTROL_LINE_SIZE" "deref buf ps r = Some subj"
    "ref_len r = int (length subj)" "int (length subj) \<le> MAX_CONTROL_LINE_SIZE"
  shows "\<exists>ab. clone_subject mem buf ps r = Some (NATS_OK,
        (set_argBuf ab ps)\<lparr>ps_ma := (ps_ma ps)\<lparr>ma_subject := Some (RefScratch 0 (int (length subj)))\<rparr>\<rparr>)
    \<and> scratch_buf ab \<and> buf_content ab = subj \<and> buf_len ab = int (length subj)"
proof -
  obtain b where b: "natsBuf_InitWithBackend (pm_alloc mem) (Some (ps_scratch ps)) 0 MAX_CONTROL_LINE_SIZE = Inr b"
      "scratch_buf b" "buf_content b = []" "buf_len b = 0"
    using scratch_backend [OF assms(1)] by blast
  obtain ab where "natsBuf_Append (pm_alloc mem) b subj (int (length subj)) = Some (NATS_OK, ab)"
      "scratch_buf ab" "buf_content ab = subj" "buf_len ab = int (length subj)"
    using scratch_append [OF b(2), of subj "pm_alloc mem"] b assms(4) by auto
  with b(1) assms(2,3) show ?thesis by (auto simp: clone_subject_def Let_def)
qed

text \<open>What cloning establishes: the head of the message no longer depends on the piece.\<close>

definition cloned :: "natsParser \<Rightarrow> msg_head \<Rightarrow> natsParser \<Rightarrow> natsBuffer \<Rightarrow> bool" where
  "cloned ps mh ps' ab \<longleftrightarrow>
     ps_argBuf ps' = Some ab \<and> scratch_buf ab \<and> stable_refs ab (ps_ma ps')
     \<and> (\<forall>buf. ma_matches (deref buf ps') (ps_ma ps') mh)
     \<and> int (length (ps_scratch ps')) = MAX_CONTROL_LINE_SIZE
     \<and> ps_state ps' = ps_state ps \<and> ps_afterSpace ps' = ps_afterSpace ps \<and> ps_drop ps' = ps_drop ps
     \<and> ps_msgBuf ps' = ps_msgBuf ps \<and> (\<forall>h. hdr_rel h ps' = hdr_rel h ps)"

lemma clone_rel:
  assumes "int (length (ps_scratch ps)) = MAX_CONTROL_LINE_SIZE" "ma_matches (deref buf ps) (ps_ma ps) mh"
    "read_refs (ps_ma ps)" "head_len mh \<le> MAX_CONTROL_LINE_SIZE"
  shows "\<exists>ps' ab. cloneMsgArg mem buf ps = Some (NATS_OK, ps') \<and> cloned ps mh ps' ab"
proof -
  let ?s = "mh_subject mh"
  obtain r where r: "ma_subject (ps_ma ps) = Some r" "deref buf ps r = Some ?s" "ref_len r = int (length ?s)"
    using assms(2) by (auto simp: ma_matches_def)
  have ma: "ma_sid (ps_ma ps) = mh_sid mh" "ma_hdr (ps_ma ps) = mh_hdr mh" "ma_size (ps_ma ps) = mh_size mh"
    using assms(2) by (auto simp: ma_matches_def)
  have "int (length ?s) \<le> MAX_CONTROL_LINE_SIZE" using assms(4) by (auto simp: head_len_def split: option.splits)
  then obtain ab where ab: "clone_subject mem buf ps r = Some (NATS_OK,
        (set_argBuf ab ps)\<lparr>ps_ma := (ps_ma ps)\<lparr>ma_subject := Some (RefScratch 0 (int (length ?s)))\<rparr>\<rparr>)"
      "scratch_buf ab" "buf_content ab = ?s" "buf_len ab = int (length ?s)"
    using clone_subject_rel [OF assms(1) r(2,3)] by blast
  let ?ps1 = "(set_argBuf ab ps)\<lparr>ps_ma := (ps_ma ps)\<lparr>ma_subject := Some (RefScratch 0 (int (length ?s)))\<rparr>\<rparr>"
  note sc = set_argBuf_scratch [OF ab(2) assms(1)]
  show ?thesis
  proof (cases "mh_reply mh")
    case None
    then have rep: "ma_reply (ps_ma ps) = None" using assms(2) by (auto simp: ma_matches_def)
    have "c_read (buf_data ab) 0 (int (length ?s)) = Some ?s"
      using c_read_content [of ab "[]" ?s "[]"] ab by simp
    then have "ma_matches (deref buf' ?ps1) (ps_ma ?ps1) mh" for buf'
      using None rep ma sc by (auto simp: ma_matches_def deref_def ref_len_def)
    moreover have "cloneMsgArg mem buf ps = Some (NATS_OK, ?ps1)" using r(1) ab(1) rep by (simp add: cloneMsgArg_def)
    ultimately show ?thesis using ab rep sc
      by (auto simp: cloned_def stable_refs_def stable_ref_def hdr_rel_def)
  next
    case (Some rep)
    then obtain q where q: "ma_reply (ps_ma ps) = Some q" "deref buf ps q = Some rep" "ref_len q = int (length rep)"
      using assms(2) by (auto simp: ma_matches_def)
    have "is_read q" using assms(3) q(1) by (simp add: read_refs_def)
    then have dq: "deref buf ?ps1 q = Some rep" using read_deref [of q buf ?ps1 ps] q(2) by simp
    obtain ab2 where ab2: "natsBuf_Append (pm_alloc mem) ab rep (int (length rep)) = Some (NATS_OK, ab2)"
        "scratch_buf ab2" "buf_content ab2 = ?s @ rep" "buf_len ab2 = int (length ?s) + int (length rep)"
      using scratch_append [OF ab(2), of rep "pm_alloc mem"] ab(3,4) assms(4) Some by (auto simp: head_len_def)
    let ?ps2 = "(set_argBuf ab2 ?ps1)\<lparr>ps_ma := (ps_ma ?ps1)\<lparr>ma_reply := Some (RefScratch (int (length ?s)) (int (length rep)))\<rparr>\<rparr>"
    have clone: "cloneMsgArg mem buf ps = Some (NATS_OK, ?ps2)"
      using r(1,3) ab(1) q(1,3) dq ab2(1) by (simp add: cloneMsgArg_def clone_reply_def Let_def)
    have sc1: "int (length (ps_scratch ?ps1)) = MAX_CONTROL_LINE_SIZE" using sc by simp
    note sc2 = set_argBuf_scratch [OF ab2(2) sc1]
    have "c_read (buf_data ab2) 0 (int (length ?s)) = Some ?s"
      "c_read (buf_data ab2) (int (length ?s)) (int (length rep)) = Some rep"
      using c_read_content [of ab2 "[]" ?s rep] c_read_content [of ab2 ?s rep "[]"] ab2 by auto
    then have "ma_matches (deref buf' ?ps2) (ps_ma ?ps2) mh" for buf'
      using Some ma sc2(1) by (auto simp: ma_matches_def deref_def ref_len_def)
    with clone ab2 sc2 show ?thesis
      by (auto simp: cloned_def stable_refs_def stable_ref_def hdr_rel_def)
  qed
qed

lemma new_msgBuf_rel:
  assumes "mem_ok mem" "scratch_buf ab" "int (length (ps_scratch ps)) = MAX_CONTROL_LINE_SIZE"
    "0 \<le> ma_size (ps_ma ps)" "ma_size (ps_ma ps) \<le> MAX_SPEC_SIZE"
  shows "\<exists>mb. new_msgBuf mem ps ab = Inr mb \<and> msgbuf_rel ab mb (ma_size (ps_ma ps)) [] \<and> buf_len mb = 0"
proof -
  let ?n = "ma_size (ps_ma ps)" and ?r = "MAX_CONTROL_LINE_SIZE - buf_len ab"
  have ab: "0 \<le> buf_len ab" "0 \<le> ?r" using assms(2) by (auto simp: scratch_buf_def buf_ok_def)
  show ?thesis
  proof (cases "?n > ?r")
    case True
    obtain blk where blk: "pm_alloc mem ?n = Some blk" "length blk = nat ?n"
      using assms(1) alloc_sizedD by (fastforce simp: mem_ok_def)
    with True assms(1,4,5) show ?thesis
      by (auto simp: new_msgBuf_def Let_def natsBuf_Create_def newBuf_def buf_init_def mem_ok_def msgbuf_rel_def
          buf_ok_def buf_content_def MAX_SPEC_SIZE_def)
  next
    case False
    have "int (length (drop (nat (buf_len ab)) (ps_scratch ps))) = ?r" using ab assms(3) by auto
    from backend_buf [OF this, of "pm_alloc mem"] ab obtain b where
      "natsBuf_InitWithBackend (pm_alloc mem) (Some (drop (nat (buf_len ab)) (ps_scratch ps))) 0 ?r = Inr b"
      "buf_ok b" "buf_content b = []" "buf_len b = 0" "buf_capacity b = ?r" "\<not> buf_ownData b"
      by (auto simp: MAX_CONTROL_LINE_SIZE_def)
    with False assms(4) show ?thesis by (auto simp: new_msgBuf_def Let_def msgbuf_rel_def)
  qed
qed

lemma msgbuf_append:
  assumes "msgbuf_rel ab mb n []" "buf_len mb = 0" "int (length bs) \<le> n" "n \<le> MAX_SPEC_SIZE"
  shows "\<exists>mb'. natsBuf_Append alloc mb bs (int (length bs)) = Some (NATS_OK, mb') \<and> msgbuf_rel ab mb' n bs"
proof -
  obtain mb' where "natsBuf_Append alloc mb bs (int (length bs)) = Some (NATS_OK, mb')"
      "mb' = (if bs = [] then mb else buf_put mb bs)"
    using Append_all_fits [of mb bs alloc] assms by (auto simp: msgbuf_rel_def MAX_SPEC_SIZE_def)
  moreover have "msgbuf_rel ab (buf_put mb bs) n bs" using msgbuf_rel_put [OF assms(1), of bs] assms(3) by simp
  ultimately show ?thesis using assms(1) by auto
qed

text \<open>Either branch of the test on the argument buffer gives a head that does not depend on the piece.\<close>

lemma split_msg_head:
  assumes "prel buf i ps (SPay h mh pay)" "ps_msgBuf ps = None"
  shows "\<exists>ps1 ab. (if ps_argBuf ps = None then cloneMsgArg mem buf ps else Some (NATS_OK, ps)) = Some (NATS_OK, ps1)
    \<and> cloned ps mh ps1 ab"
proof (cases "ps_argBuf ps")
  case None
  with clone_rel [of ps buf mh mem] assms show ?thesis by (auto simp: prel_def pay_rel_def)
next
  case (Some ab)
  then have ab: "scratch_buf ab" "stable_refs ab (ps_ma ps)" "ma_matches (deref buf ps) (ps_ma ps) mh"
    using assms by (auto simp: prel_def pay_rel_def)
  have "ma_matches (deref buf' ps) (ps_ma ps) mh" for buf'
    using ab Some by (intro ma_matches_cong [OF ab(3), of "stable_ref ab"] stable_deref)
      (auto simp: stable_refs_def scratch_buf_def buf_ok_def)
  with Some assms ab show ?thesis by (auto simp: prel_def cloned_def)
qed

lemma split_msg_rel:
  assumes "prel buf i ps st" "int (length buf) \<le> i" "mem_ok mem"
  shows "\<exists>ps'. split_msg mem buf ps = Some (NATS_OK, ps') \<and> prel buf i ps' st
    \<and> (ps_state ps' = MSG_PAYLOAD \<longrightarrow> ps_msgBuf ps' \<noteq> None) \<and> ps_state ps' = ps_state ps
    \<and> (ps_state ps \<in> arg_ops \<longrightarrow> ps' = ps)"
proof (cases "ps_state ps = MSG_PAYLOAD \<and> ps_msgBuf ps = None")
  case False
  then show ?thesis using assms(1) by (auto simp: split_msg_def)
next
  case True
  then obtain h mh pay where st: "st = SPay h mh pay"
    using assms(1) by (cases st) (auto simp: prel_def arg_ops_def)
  let ?p = "ps_afterSpace ps"
  have r: "i = ?p + mh_size mh" "0 \<le> ?p" "?p \<le> int (length buf)" "pay = take (nat (mh_size mh)) (drop (nat ?p) buf)"
     "0 \<le> mh_size mh" "mh_size mh \<le> MAX_SPEC_SIZE" "hdr_rel h ps"
    using assms(1) True st by (auto simp: prel_def pay_rel_def)
  have pay: "pay = drop (nat ?p) buf" "int (length pay) = int (length buf) - ?p" "int (length pay) \<le> mh_size mh"
    using r assms(2) by auto
  have rd: "c_read buf ?p (int (length pay)) = Some pay" using r pay by (simp add: c_read_def)
  obtain ps1 ab where c1: "(if ps_argBuf ps = None then cloneMsgArg mem buf ps else Some (NATS_OK, ps)) = Some (NATS_OK, ps1)"
      and c2: "cloned ps mh ps1 ab"
    using split_msg_head assms(1) True st by blast
  have c: "ps_argBuf ps1 = Some ab" "scratch_buf ab" "stable_refs ab (ps_ma ps1)" "ma_matches (deref buf ps1) (ps_ma ps1) mh"
      "int (length (ps_scratch ps1)) = MAX_CONTROL_LINE_SIZE" "ps_afterSpace ps1 = ?p" "ma_size (ps_ma ps1) = mh_size mh"
    using c2 by (auto simp: cloned_def ma_matches_def)
  obtain mb where mb: "new_msgBuf mem ps1 ab = Inr mb" "msgbuf_rel ab mb (mh_size mh) []" "buf_len mb = 0"
    using new_msgBuf_rel [OF assms(3) c(2,5)] c(7) r by auto
  obtain mb' where mb': "natsBuf_Append (pm_alloc mem) mb pay (int (length pay)) = Some (NATS_OK, mb')"
      "msgbuf_rel ab mb' (mh_size mh) pay"
    using msgbuf_append [OF mb(2,3) pay(3) r(6)] by blast
  have "split_msg mem buf ps = Some (NATS_OK, set_msgBuf mb' ps1)"
    using True c1 c(1,6) mb(1) rd pay(2) mb'(1) by (simp add: split_msg_def Let_def)
  moreover have "prel buf i (set_msgBuf mb' ps1) st"
    using assms(1) True st c c2 mb'(2) set_msgBuf_scratch(1) [OF c(1,2) mb'(2) c(5)]
      set_msgBuf_matches [OF c(1,2) mb'(2) c(3,5,4), of buf]
    by (auto simp: prel_def pay_rel_def cloned_def)
  ultimately show ?thesis using True c2 by (auto simp: cloned_def arg_ops_def)
qed

section \<open>One piece\<close>

text \<open>Between two calls the relation does not depend on a piece.\<close>

definition rest_rel :: "natsParser \<Rightarrow> pspec \<Rightarrow> bool" where
  "rest_rel ps st \<longleftrightarrow> (\<forall>buf. prel buf 0 ps st)"

lemma expire_simps [simp]:
  "ps_state (expire ps) = ps_state ps" "ps_argBuf (expire ps) = ps_argBuf ps" "ps_msgBuf (expire ps) = ps_msgBuf ps"
  "ps_drop (expire ps) = ps_drop ps" "ps_scratch (expire ps) = ps_scratch ps" "hdr_rel h (expire ps) = hdr_rel h ps"
  "ps_afterSpace (expire ps) = ps_afterSpace ps"
  by (simp_all add: expire_def hdr_rel_def)

lemma expire_stable:
  assumes "stable_refs ab (ps_ma ps)"
  shows "expire ps = ps"
proof -
  have "expire_ref r = r" if "stable_ref ab r" for r
    using that by (cases r) (auto simp: stable_ref_def expire_ref_def)
  then have "map_option expire_ref x = x" if "pred_option (stable_ref ab) x" for x
    using that by (cases x) auto
  then show ?thesis using assms by (simp add: expire_def stable_refs_def)
qed

lemma settle:
  assumes "prel buf i ps st" "ps_state ps \<in> arg_ops \<longrightarrow> ps_argBuf ps \<noteq> None"
    "ps_state ps = MSG_PAYLOAD \<longrightarrow> ps_msgBuf ps \<noteq> None"
  shows "rest_rel (expire ps) st"
proof (cases st)
  case (SOp op h)
  with assms show ?thesis by (auto simp: rest_rel_def prel_def)
next
  case (SArg op h a cr)
  with assms show ?thesis by (auto simp: rest_rel_def prel_def arg_rel_def)
next
  case (SPay h mh pay)
  then obtain mb where mb: "ps_msgBuf ps = Some mb" using assms by (auto simp: prel_def)
  then obtain ab where ab: "ps_argBuf ps = Some ab" "scratch_buf ab" "stable_refs ab (ps_ma ps)"
      "ma_matches (deref buf ps) (ps_ma ps) mh"
    using assms(1) SPay by (auto simp: prel_def pay_rel_def split: option.splits)
  have "ma_matches (deref buf' ps) (ps_ma ps) mh" for buf'
    using ab by (intro ma_matches_cong [OF ab(4), of "stable_ref ab"] stable_deref)
      (auto simp: stable_refs_def scratch_buf_def buf_ok_def)
  then have "rest_rel ps st" using assms(1) SPay mb ab
    by (auto simp: rest_rel_def prel_def pay_rel_def)
  then show ?thesis using expire_stable ab(3) by simp
qed

definition agrees :: "'c conn_ops \<Rightarrow> ('p \<Rightarrow> pspec \<Rightarrow> bool) \<Rightarrow> 'c spec_result \<Rightarrow> (natsStatus \<times> 'p \<times> 'c) option \<Rightarrow> bool" where
  "agrees ops rel r x \<longleftrightarrow>
     (case r of
        Unspecified \<Rightarrow> True
      | Running st' c' \<Rightarrow> (\<exists>p. x = Some (NATS_OK, p, c') \<and> rel p st')
      | Failed s c' \<Rightarrow> s \<noteq> NATS_OK \<and> (\<exists>p. x = Some (s, p, c'))
      | Rejected c' \<Rightarrow> (\<exists>p c''. x = Some (NATS_PROTOCOL_ERROR, p, c'') \<and> rejection ops c' c''))"

lemma parse_piece:
  assumes "rest_rel ps st" "mem_ok mem" "length buf < 2 ^ 30"
  shows "agrees ops rest_rel (spec_run ops st c buf) (natsParser_Parse ops mem ps c buf)"
proof -
  have p: "prel buf 0 ps st" using assms(1) by (simp add: rest_rel_def)
  have sim: "loop_agrees ops buf (spec_run ops st c buf) (parse_loop ops mem buf 0 ps c)"
    using loop_sim [OF p, of ops c mem] assms(3) by simp
  show ?thesis
  proof (cases "spec_run ops st c buf")
    case (Running st' c')
    then obtain i ps1 where l: "parse_loop ops mem buf 0 ps c = Some (Loop NATS_OK i ps1 c')" "prel buf i ps1 st'"
        "int (length buf) \<le> i"
      using sim by (auto simp: loop_agrees_def)
    obtain ps2 where s2: "split_arg mem buf i ps1 = Some (NATS_OK, ps2)" "prel buf i ps2 st'"
        "ps_state ps2 \<in> arg_ops \<longrightarrow> ps_argBuf ps2 \<noteq> None"
      using split_arg_rel [OF l(2,3)] by blast
    obtain ps3 where s3: "split_msg mem buf ps2 = Some (NATS_OK, ps3)" "prel buf i ps3 st'"
        "ps_state ps3 = MSG_PAYLOAD \<longrightarrow> ps_msgBuf ps3 \<noteq> None" "ps_state ps3 = ps_state ps2"
        "ps_state ps2 \<in> arg_ops \<longrightarrow> ps3 = ps2"
      using split_msg_rel [OF s2(2) l(3) assms(2)] by blast
    have "natsParser_Parse ops mem ps c buf = Some (NATS_OK, expire ps3, c')"
      using l(1) s2(1) s3(1) by (simp add: natsParser_Parse_def)
    moreover have "rest_rel (expire ps3) st'" using settle [OF s3(2)] s2(3) s3(3-5) by auto
    ultimately show ?thesis using Running by (simp add: agrees_def)
  qed (use sim in \<open>auto simp: loop_agrees_def agrees_def natsParser_Parse_def rejection_def\<close>)
qed

section \<open>Sequences of pieces\<close>

text \<open>
  A decoder that agrees with the transducer on each piece agrees with it on the concatenation,
  whatever the pieces are.
\<close>

locale piecewise =
  fixes ops :: "'c conn_ops"
    and rel :: "'p \<Rightarrow> pspec \<Rightarrow> bool"
    and parse :: "'p \<Rightarrow> 'c \<Rightarrow> bytes \<Rightarrow> (natsStatus \<times> 'p \<times> 'c) option"
    and pieces :: "'p \<Rightarrow> 'c \<Rightarrow> bytes list \<Rightarrow> (natsStatus \<times> 'p \<times> 'c) option"
    and piece_ok :: "bytes \<Rightarrow> bool"
  assumes piece: "rel p st \<Longrightarrow> piece_ok x \<Longrightarrow> agrees ops rel (spec_run ops st c x) (parse p c x)"
    and pieces_Nil: "pieces p c [] = Some (NATS_OK, p, c)"
    and pieces_Cons: "pieces p c (x # xs) =
      (case parse p c x of None \<Rightarrow> None
       | Some (s, p', c') \<Rightarrow> if s = NATS_OK then pieces p' c' xs else Some (s, p', c'))"
begin

lemma pieces_agree:
  assumes "rel p st" "list_all piece_ok xs"
  shows "agrees ops rel (spec_run ops st c (concat xs)) (pieces p c xs)"
  using assms
proof (induction xs arbitrary: p st c)
  case Nil
  then show ?case by (simp add: agrees_def pieces_Nil)
next
  case (Cons x xs)
  have a: "agrees ops rel (spec_run ops st c x) (parse p c x)" using piece Cons.prems by simp
  show ?case
  proof (cases "spec_run ops st c x")
    case (Running st' c')
    with a obtain p' where p': "parse p c x = Some (NATS_OK, p', c')" "rel p' st'" by (auto simp: agrees_def)
    have "agrees ops rel (spec_run ops st' c' (concat xs)) (pieces p' c' xs)" using Cons p'(2) by simp
    with p' Running show ?thesis by (simp add: spec_run_append pieces_Cons)
  next
    case Unspecified
    then show ?thesis by (simp add: spec_run_append agrees_def)
  qed (use a in \<open>auto simp: agrees_def spec_run_append pieces_Cons\<close>)
qed

end

text \<open>The read loop of the connection hands every piece it receives to the parser.\<close>

fun parse_pieces ::
    "'c conn_ops \<Rightarrow> parse_mem \<Rightarrow> natsParser \<Rightarrow> 'c \<Rightarrow> bytes list \<Rightarrow> (natsStatus \<times> natsParser \<times> 'c) option" where
  "parse_pieces ops mem ps c [] = Some (NATS_OK, ps, c)"
| "parse_pieces ops mem ps c (x # xs) =
     (case natsParser_Parse ops mem ps c x of
        None \<Rightarrow> None
      | Some (s, ps', c') \<Rightarrow> if s = NATS_OK then parse_pieces ops mem ps' c' xs else Some (s, ps', c'))"

definition piece_size_ok :: "bytes \<Rightarrow> bool" where
  "piece_size_ok x \<longleftrightarrow> length x < 2 ^ 30"

text \<open>Memory that does not run out, from any allocator.\<close>

definition enough_mem :: "parse_mem \<Rightarrow> parse_mem" where
  "enough_mem mem = (if mem_ok mem then mem else \<lparr>pm_struct = True, pm_alloc = calloc0\<rparr>)"

lemma enough_mem_ok: "mem_ok (enough_mem mem)" "mem_ok mem \<Longrightarrow> enough_mem mem = mem"
  using calloc0_sized by (auto simp: enough_mem_def mem_ok_def calloc0_def)

interpretation np: piecewise ops rest_rel "natsParser_Parse ops (enough_mem mem)" "parse_pieces ops (enough_mem mem)" piece_size_ok
  for ops :: "'c conn_ops" and mem
  by unfold_locales (auto simp: piece_size_ok_def intro: parse_piece enough_mem_ok)

lemmas parse_pieces_agree = np.pieces_agree

lemma created_rest:
  assumes "natsParser_Create True = Inr ps"
  shows "rest_rel ps (SOp OP_START True)"
  using assms by (auto simp: natsParser_Create_def rest_rel_def prel_def arg_ops_def hdr_rel_def MAX_CONTROL_LINE_SIZE_def)

end
