(* ===== verification/Nats_Protocol.thy ===== *)
theory Nats_Protocol
  imports Nats_Parser_Pieces
begin

text \<open>
  The protocol of the server as it is written on the wire, and the theorems about the parser: what a
  server sends is delivered to the connection exactly and in order, however it is cut into pieces.
\<close>

section \<open>What a server writes\<close>

definition msg_line :: "bytes \<Rightarrow> bytes option \<Rightarrow> int \<Rightarrow> int \<Rightarrow> nat \<Rightarrow> bytes" where
  "msg_line subj reply sid hdr n =
     subj @ [SPC] @ dec_str (nat sid) @ [SPC]
     @ (case reply of None \<Rightarrow> [] | Some r \<Rightarrow> r @ [SPC])
     @ (if hdr < 0 then [] else dec_str (nat hdr) @ [SPC]) @ dec_str n"

definition crlf :: bytes where "crlf = [CR, LF]"

fun encode :: "event \<Rightarrow> bytes" where
  "encode (EMsg subj reply sid hdr pay) =
     (if hdr < 0 then ''MSG '' else ''HMSG '') @ msg_line subj reply sid hdr (length pay) @ crlf @ pay @ crlf"
| "encode EOk = ''+OK'' @ crlf"
| "encode (EErr l) = ''-ERR '' @ l @ crlf"
| "encode EPing = ''PING'' @ crlf"
| "encode EPong = ''PONG'' @ crlf"
| "encode (EInfo l) = ''INFO '' @ l @ crlf"

definition is_word :: "bytes \<Rightarrow> bool" where
  "is_word w \<longleftrightarrow> w \<noteq> [] \<and> list_all (\<lambda>b. \<not> is_sep b) w"

definition is_line :: "bytes \<Rightarrow> bool" where
  "is_line l \<longleftrightarrow> l \<noteq> [] \<and> hd l \<noteq> SPC \<and> hd l \<noteq> TAB \<and> list_all (\<lambda>b. b \<noteq> CR \<and> b \<noteq> LF) l
     \<and> int (length l) \<le> MAX_CONTROL_LINE_SIZE"

fun wf_event :: "event \<Rightarrow> bool" where
  "wf_event (EMsg subj reply sid hdr pay) \<longleftrightarrow>
     is_word subj \<and> pred_option is_word reply \<and> 0 \<le> sid \<and> sid < 2 ^ 63
     \<and> (hdr = -1 \<or> 0 \<le> hdr \<and> hdr \<le> int (length pay)) \<and> int (length pay) \<le> MAX_SPEC_SIZE
     \<and> int (length (msg_line subj reply sid hdr (length pay))) \<le> MAX_CONTROL_LINE_SIZE"
| "wf_event (EErr l) \<longleftrightarrow> is_line l"
| "wf_event (EInfo l) \<longleftrightarrow> is_line l"
| "wf_event _ \<longleftrightarrow> True"

text \<open>The handlers called for a list of events; a handler that fails ends the delivery.\<close>

fun deliver :: "'c conn_ops \<Rightarrow> event list \<Rightarrow> 'c \<Rightarrow> natsStatus \<times> 'c" where
  "deliver ops [] c = (NATS_OK, c)"
| "deliver ops (e # es) c =
     (case handle ops e c of (s, c') \<Rightarrow> if s = NATS_OK then deliver ops es c' else (s, c'))"

section \<open>The transducer decodes what a server writes\<close>

lemma words_word: "list_all (\<lambda>b. \<not> is_sep b) w \<Longrightarrow> words (w @ rest) cur = words rest (cur @ w)"
  by (induction w arbitrary: cur) auto

lemma is_sep_SPC [simp]: "is_sep SPC"
  by (simp add: is_sep_def)

lemma tokens_word_SPC: "is_word w \<Longrightarrow> tokens (w @ SPC # rest) = w # tokens rest"
  by (simp add: tokens_def words_word is_word_def)

lemma tokens_word: "is_word w \<Longrightarrow> tokens w = [w]"
  using words_word [of w "[]" "[]"] by (simp add: tokens_def is_word_def)

lemma digit_not_sep: "c_isdigit b \<Longrightarrow> \<not> is_sep b"
  by (auto simp: c_isdigit_def is_sep_def ord_def)

lemma is_word_dec: "is_word (dec_str n)"
  unfolding is_word_def list_all_iff
proof (intro conjI ballI)
  show "dec_str n \<noteq> []" by (rule dec_str_digits(2))
  show "\<not> is_sep b" if "b \<in> set (dec_str n)" for b
    by (rule digit_not_sep [OF dec_str_not_space [OF that]])
qed

lemma msg_line_tokens:
  assumes "is_word subj" "pred_option is_word reply"
  shows "tokens (msg_line subj reply sid hdr n) =
    [subj, dec_str (nat sid)] @ (case reply of None \<Rightarrow> [] | Some r \<Rightarrow> [r])
    @ (if hdr < 0 then [] else [dec_str (nat hdr)]) @ [dec_str n]"
  using assms
  by (auto simp: msg_line_def tokens_word_SPC tokens_word is_word_dec split: option.splits)

lemma msg_line_head:
  assumes "wf_event (EMsg subj reply sid hdr pay)"
  shows "msg_head_of (0 \<le> hdr) (msg_line subj reply sid hdr (length pay)) =
    Some \<lparr>mh_subject = subj, mh_reply = reply, mh_sid = sid, mh_hdr = hdr, mh_size = int (length pay)\<rparr>"
proof -
  have w: "is_word subj" "pred_option is_word reply" using assms by auto
  have n: "int (nat sid) < 2 ^ 63" "int (nat hdr) < 2 ^ 63" "int (length pay) < 2 ^ 63"
    "c_int_ok hdr" "c_int_ok (int (length pay))"
    using assms by (auto simp: c_int_ok_def MAX_SPEC_SIZE_def)
  note p = ParseInt64_dec_str [OF n(1)] ParseInt64_dec_str [OF n(2)] ParseInt64_dec_str [OF n(3)]
  have h: "0 \<le> sid" "hdr = -1 \<or> 0 \<le> hdr" "hdr \<le> int (length pay)" using assms by auto
  let ?ts = "[subj, dec_str (nat sid)] @ (case reply of None \<Rightarrow> [] | Some r \<Rightarrow> [r])
    @ (if hdr < 0 then [] else [dec_str (nat hdr)]) @ [dec_str (length pay)]"
  have "msg_head_of (0 \<le> hdr) line = Some \<lparr>mh_subject = subj, mh_reply = reply, mh_sid = sid, mh_hdr = hdr,
      mh_size = int (length pay)\<rparr>" if "tokens line = ?ts" for line
    using h(2)
  proof
    assume "hdr = -1"
    with that h p(1,3) n(5) show ?thesis by (cases reply) (simp_all add: msg_head_of_def Let_def)
  next
    assume "0 \<le> hdr"
    with that h p n(4,5) show ?thesis by (cases reply) (simp_all add: msg_head_of_def Let_def)
  qed
  then show ?thesis using msg_line_tokens [OF w] by simp
qed

lemma spec_run_arg:
  assumes "list_all (\<lambda>b. b \<noteq> CR \<and> b \<noteq> LF) xs" "int (length (a @ xs)) \<le> MAX_CONTROL_LINE_SIZE"
  shows "spec_run ops (SArg op h a False) c (xs @ ys) = spec_run ops (SArg op h (a @ xs) False) c ys"
  using assms by (induction xs arbitrary: a) auto

lemma spec_run_crlf:
  "spec_run ops (SArg op h a False) c (crlf @ ys) = spec_run ops (SArg op h a True) c (LF # ys)"
  by (simp add: crlf_def)

lemma spec_run_start_arg:
  assumes "is_line l"
  shows "spec_run ops (SOp OP_START h) c (''-ERR '' @ l @ ys) = spec_run ops (SArg MINUS_ERR_ARG h l False) c ys"
    and "spec_run ops (SOp OP_START h) c (''INFO '' @ l @ ys) = spec_run ops (SArg INFO_ARG h l False) c ys"
    and "spec_run ops (SOp OP_START h) c (''MSG '' @ l @ ys) = spec_run ops (SArg MSG_ARG False l False) c ys"
    and "spec_run ops (SOp OP_START h) c (''HMSG '' @ l @ ys) = spec_run ops (SArg MSG_ARG True l False) c ys"
proof -
  obtain x xs where l: "l = x # xs" "x \<noteq> SPC" "x \<noteq> TAB" "list_all (\<lambda>b. b \<noteq> CR \<and> b \<noteq> LF) xs"
     "int (length ([x] @ xs)) \<le> MAX_CONTROL_LINE_SIZE"
    using assms by (cases l) (auto simp: is_line_def)
  note [simp] = spec_op_def start_next_def letter_next_def arg_state_def line_event_def
  show "spec_run ops (SOp OP_START h) c (''-ERR '' @ l @ ys) = spec_run ops (SArg MINUS_ERR_ARG h l False) c ys"
    using spec_run_arg [OF l(4,5), of ops MINUS_ERR_ARG h c ys] l(1-3) by simp
  show "spec_run ops (SOp OP_START h) c (''INFO '' @ l @ ys) = spec_run ops (SArg INFO_ARG h l False) c ys"
    using spec_run_arg [OF l(4,5), of ops INFO_ARG h c ys] l(1-3) by simp
  show "spec_run ops (SOp OP_START h) c (''MSG '' @ l @ ys) = spec_run ops (SArg MSG_ARG False l False) c ys"
    using spec_run_arg [OF l(4,5), of ops MSG_ARG False c ys] l(1-3) by simp
  show "spec_run ops (SOp OP_START h) c (''HMSG '' @ l @ ys) = spec_run ops (SArg MSG_ARG True l False) c ys"
    using spec_run_arg [OF l(4,5), of ops MSG_ARG True c ys] l(1-3) by simp
qed

lemma is_word_line: "is_word w \<Longrightarrow> list_all (\<lambda>b. b \<noteq> CR \<and> b \<noteq> LF) w"
  by (auto simp: is_word_def list_all_iff is_sep_def)

lemma msg_line_is_line:
  assumes "wf_event (EMsg subj reply sid hdr pay)"
  shows "is_line (msg_line subj reply sid hdr (length pay))"
proof -
  have w: "is_word subj" "pred_option is_word reply"
     "int (length (msg_line subj reply sid hdr (length pay))) \<le> MAX_CONTROL_LINE_SIZE" using assms by auto
  obtain x xs where x: "subj = x # xs" "\<not> is_sep x" using w(1) by (cases subj) (auto simp: is_word_def)
  note l = is_word_line [OF w(1)] is_word_line [OF is_word_dec]
  have "list_all (\<lambda>b. b \<noteq> CR \<and> b \<noteq> LF) (msg_line subj reply sid hdr (length pay))"
    using l w(2) is_word_line by (cases reply) (simp_all add: msg_line_def)
  moreover have "hd (msg_line subj reply sid hdr (length pay)) = x" using x(1) by (simp add: msg_line_def)
  moreover have "msg_line subj reply sid hdr (length pay) \<noteq> []" using x(1) by (simp add: msg_line_def)
  ultimately show ?thesis using x(2) w(3) by (auto simp: is_line_def is_sep_def)
qed

lemma spec_run_encode_msg:
  assumes "wf_event (EMsg subj reply sid hdr pay)"
  shows "spec_run ops (SOp OP_START h) c (encode (EMsg subj reply sid hdr pay) @ ys) =
    (case processMsg ops subj reply sid hdr pay c of
       (s, c') \<Rightarrow> if s = NATS_OK then spec_run ops (SOp OP_START (0 \<le> hdr)) c' ys else Failed s c')"
proof -
  let ?l = "msg_line subj reply sid hdr (length pay)"
  let ?mh = "\<lparr>mh_subject = subj, mh_reply = reply, mh_sid = sid, mh_hdr = hdr, mh_size = int (length pay)\<rparr>"
  have sz: "int (length pay) \<le> MAX_SPEC_SIZE" using assms by auto
  have "spec_run ops (SOp OP_START h) c (encode (EMsg subj reply sid hdr pay) @ ys)
      = spec_run ops (SArg MSG_ARG (0 \<le> hdr) ?l False) c (crlf @ pay @ crlf @ ys)"
    using spec_run_start_arg(3,4) [OF msg_line_is_line [OF assms], of ops h c "crlf @ pay @ crlf @ ys"]
    by (cases "hdr < 0") simp_all
  also have "\<dots> = spec_run ops (SPay (0 \<le> hdr) ?mh []) c (pay @ crlf @ ys)"
    using msg_line_head [OF assms] sz by (simp add: crlf_def spec_line_def)
  also have "\<dots> = spec_run ops (SPay (0 \<le> hdr) ?mh pay) c (crlf @ ys)"
    using spec_run_payload [of "[]" pay ?mh ops "0 \<le> hdr" c] by (simp add: spec_run_append)
  also have "\<dots> = (case processMsg ops subj reply sid hdr pay c of
       (s, c') \<Rightarrow> if s = NATS_OK then spec_run ops (SOp OP_START (0 \<le> hdr)) c' ys else Failed s c')"
    by (auto simp: crlf_def spec_op_def arg_state_def line_event_def split: prod.splits)
  finally show ?thesis .
qed

lemma spec_run_encode:
  assumes "wf_event e"
  shows "\<exists>h'. spec_run ops (SOp OP_START h) c (encode e @ ys) =
    (case handle ops e c of (s, c') \<Rightarrow> if s = NATS_OK then spec_run ops (SOp OP_START h') c' ys else Failed s c')"
proof (cases e)
  case (EMsg subj reply sid hdr pay)
  with spec_run_encode_msg [of subj reply sid hdr pay ops h c ys] assms show ?thesis
    by (intro exI [of _ "0 \<le> hdr"]) simp
next
  case (EErr l)
  with assms spec_run_start_arg(1) [of l ops h c "crlf @ ys"] show ?thesis
    by (intro exI [of _ h]) (simp add: crlf_def spec_line_def)
next
  case (EInfo l)
  with assms spec_run_start_arg(2) [of l ops h c "crlf @ ys"] show ?thesis
    by (intro exI [of _ h]) (simp add: crlf_def spec_line_def)
qed (rule exI [of _ h],
    simp add: crlf_def spec_op_def start_next_def letter_next_def arg_state_def line_event_def)+

lemma spec_run_encode_all:
  assumes "list_all wf_event es"
  shows "\<exists>h'. spec_run ops (SOp OP_START h) c (concat (map encode es)) =
    (case deliver ops es c of (s, c') \<Rightarrow> if s = NATS_OK then Running (SOp OP_START h') c' else Failed s c')"
  using assms
proof (induction es arbitrary: h c)
  case Nil
  then show ?case by simp
next
  case (Cons e es)
  have "wf_event e" using Cons.prems by simp
  from spec_run_encode [OF this, of ops h c "concat (map encode es)"]
  obtain h1 where r: "spec_run ops (SOp OP_START h) c (encode e @ concat (map encode es)) =
      (case handle ops e c of (s, c') \<Rightarrow> if s = NATS_OK then spec_run ops (SOp OP_START h1) c' (concat (map encode es)) else Failed s c')"
    by (rule exE)
  obtain s c' where h: "handle ops e c = (s, c')" by fastforce
  show ?case
  proof (cases "s = NATS_OK")
    case True
    with Cons.IH [of h1 c'] Cons.prems r h show ?thesis by simp
  next
    case False
    with r h show ?thesis by simp
  qed
qed

section \<open>Properties\<close>

lemma parse_pieces_created:
  assumes "natsParser_Create True = Inr ps" "mem_ok mem" "list_all piece_size_ok xs"
  shows "agrees ops rest_rel (spec_run ops (SOp OP_START True) c (concat xs)) (parse_pieces ops mem ps c xs)"
  using parse_pieces_agree [OF created_rest [OF assms(1)] assms(3), of ops c mem] enough_mem_ok(2) [OF assms(2)]
  by simp

text \<open>
  Property C30. Whatever a server writes is delivered exactly once, unchanged and in order, however
  the stream is cut into pieces: for a list of well-formed protocol messages (subjects and replies
  without separators, control lines of at most \<open>MAX_CONTROL_LINE_SIZE\<close> bytes, payloads of at most
  \<open>2^30\<close> bytes with any contents) and any pieces below \<open>2^30\<close> bytes whose concatenation is their
  encoding, the parser calls the handlers of the connection for these messages, one after the
  other, and stops with the status of the first handler that fails. When none fails it is back in
  \<open>OP_START\<close>. It never reads or writes outside its buffers, nor through a dangling reference.
\<close>

theorem parser_delivers:
  assumes "natsParser_Create True = Inr ps" "mem_ok mem" "list_all piece_size_ok pieces"
    and "list_all wf_event es" "concat pieces = concat (map encode es)"
  shows "\<exists>ps'. parse_pieces ops mem ps c pieces = Some (fst (deliver ops es c), ps', snd (deliver ops es c))
    \<and> (fst (deliver ops es c) = NATS_OK \<longrightarrow> ps_state ps' = OP_START)"
proof -
  obtain h where r: "spec_run ops (SOp OP_START True) c (concat pieces) =
      (case deliver ops es c of (s, c') \<Rightarrow> if s = NATS_OK then Running (SOp OP_START h) c' else Failed s c')"
    using spec_run_encode_all [OF assms(4), of ops True c] assms(5) by auto
  from parse_pieces_created [OF assms(1-3), of ops c] r show ?thesis
    by (auto simp: agrees_def rest_rel_def prel_def split: prod.splits if_splits)
qed

text \<open>A connection that records what it is told.\<close>

definition log_ops :: "event list conn_ops" where
  "log_ops = \<lparr>processMsg = \<lambda>subj rep sid hdr pay c. (NATS_OK, c @ [EMsg subj rep sid hdr pay]),
              processOK = \<lambda>c. c @ [EOk], processErr = \<lambda>l c. c @ [EErr l], processPing = \<lambda>c. c @ [EPing],
              processPong = \<lambda>c. c @ [EPong], processAsyncINFO = \<lambda>l c. c @ [EInfo l],
              setErr = \<lambda>_ c. c, setErrStr = \<lambda>_ c. c\<rparr>"

definition init_parser :: natsParser where
  "init_parser = \<lparr>ps_state = OP_START, ps_afterSpace = 0, ps_drop = 0, ps_hdr = 0,
     ps_ma = \<lparr>ma_subject = None, ma_reply = None, ma_sid = 0, ma_hdr = 0, ma_size = 0\<rparr>,
     ps_argBuf = None, ps_msgBuf = None, ps_scratch = replicate (nat MAX_CONTROL_LINE_SIZE) NUL\<rparr>"

definition wit_mem :: parse_mem where "wit_mem = \<lparr>pm_struct = True, pm_alloc = calloc0\<rparr>"

lemma init_parser_created: "natsParser_Create True = Inr init_parser"
  by (simp add: natsParser_Create_def init_parser_def)

lemma wit_mem_ok: "mem_ok wit_mem"
  using calloc0_sized by (simp add: mem_ok_def wit_mem_def calloc0_def)

theorem parser_delivers_witness:
  "\<exists>ps'. parse_pieces log_ops wit_mem init_parser []
     [''PI'', ''NG'' @ [CR], [LF] @ ''MSG foo 7 3'' @ [CR, LF] @ ''a'', [CR, LF] @ [CR, LF]]
     = Some (NATS_OK, ps', [EPing, EMsg ''foo'' None 7 (-1) (''a'' @ [CR, LF])]) \<and> ps_state ps' = OP_START"
proof -
  let ?es = "[EPing, EMsg ''foo'' None 7 (-1) (''a'' @ [CR, LF])]"
  have d: "dec_str 7 = ''7''" "dec_str 3 = ''3''" by (simp_all add: dec_str.simps digit_char_def char_of_def bit_0)
  have l: "encode (EMsg ''foo'' None 7 (-1) (''a'' @ [CR, LF])) = ''MSG foo 7 3'' @ [CR, LF] @ ''a'' @ [CR, LF] @ [CR, LF]"
    using d by (simp add: msg_line_def crlf_def eval_nat_numeral)
  have "list_all wf_event ?es"
    using d by (simp add: is_word_def is_sep_def msg_line_def MAX_SPEC_SIZE_def MAX_CONTROL_LINE_SIZE_def eval_nat_numeral)
  moreover have "deliver log_ops ?es [] = (NATS_OK, ?es)" by (simp add: log_ops_def)
  ultimately show ?thesis
    using parser_delivers [OF init_parser_created wit_mem_ok, where es = ?es and ops = log_ops and c = "[]"
        and pieces = "[''PI'', ''NG'' @ [CR], [LF] @ ''MSG foo 7 3'' @ [CR, LF] @ ''a'', [CR, LF] @ [CR, LF]]"] l
    by (simp add: piece_size_ok_def crlf_def del: deliver.simps encode.simps(1))
qed

text \<open>
  Property C31. On every byte stream, well-formed or not, the parser does what the byte-at-a-time
  transducer does, for every way to cut the stream into pieces: it makes the same calls in the same
  order; it fails with the status of the handler that failed; and it returns
  \<open>NATS_PROTOCOL_ERROR\<close>, after the calls for what precedes, when the transducer rejects a byte.
\<close>

theorem parser_refines_transducer:
  assumes "natsParser_Create True = Inr ps" "mem_ok mem" "list_all piece_size_ok pieces"
  shows "case spec_run ops (SOp OP_START True) c (concat pieces) of
      Running st c' \<Rightarrow> \<exists>ps'. parse_pieces ops mem ps c pieces = Some (NATS_OK, ps', c') \<and> rest_rel ps' st
    | Failed s c' \<Rightarrow> s \<noteq> NATS_OK \<and> (\<exists>ps'. parse_pieces ops mem ps c pieces = Some (s, ps', c'))
    | Rejected c' \<Rightarrow> \<exists>ps' c''. parse_pieces ops mem ps c pieces = Some (NATS_PROTOCOL_ERROR, ps', c'')
        \<and> rejection ops c' c''
    | Unspecified \<Rightarrow> True"
  using parse_pieces_created [OF assms, of ops c] by (auto simp: agrees_def split: spec_result.splits)

theorem parser_refines_transducer_witness:
  "\<exists>ps' c''. parse_pieces log_ops wit_mem init_parser [] [''+O'', ''K'' @ [CR, LF] @ ''X''] = Some (NATS_PROTOCOL_ERROR, ps', c'')
     \<and> rejection log_ops [EOk] c''"
  using parser_refines_transducer [OF init_parser_created wit_mem_ok, where ops = log_ops and c = "[]"
      and pieces = "[''+O'', ''K'' @ [CR, LF] @ ''X'']"]
  by (simp add: piece_size_ok_def spec_op_def start_next_def letter_next_def arg_state_def line_event_def log_ops_def)

text \<open>
  Cutting the same stream in two different ways gives the same result: the same status,
  and the same connection state unless the stream is a protocol error (whose text quotes the piece).
\<close>

theorem parser_piece_invariance:
  assumes "natsParser_Create True = Inr ps" "mem_ok mem"
    and "list_all piece_size_ok xs" "list_all piece_size_ok ys" "concat xs = concat ys"
    and "spec_run ops (SOp OP_START True) c (concat xs) \<noteq> Unspecified"
  shows "\<exists>s ps1 ps2 c1 c2. parse_pieces ops mem ps c xs = Some (s, ps1, c1) \<and> parse_pieces ops mem ps c ys = Some (s, ps2, c2)
    \<and> (s \<noteq> NATS_PROTOCOL_ERROR \<longrightarrow> c1 = c2)"
  using parse_pieces_created [OF assms(1-3), of ops c] parse_pieces_created [OF assms(1,2,4), of ops c] assms(5,6)
  by (auto simp: agrees_def split: spec_result.splits)

theorem parser_piece_invariance_witness:
  "\<exists>s ps1 ps2 c1 c2. parse_pieces log_ops wit_mem init_parser [] [''PONG'' @ [CR, LF] @ ''HM''] = Some (s, ps1, c1)
     \<and> parse_pieces log_ops wit_mem init_parser [] [''P'', ''ONG'' @ [CR], [LF] @ ''HM''] = Some (s, ps2, c2)
     \<and> (s = NATS_PROTOCOL_ERROR \<or> c1 = c2)"
proof -
  have "spec_run log_ops (SOp OP_START True) [] (concat [''PONG'' @ [CR, LF] @ ''HM'']) \<noteq> Unspecified"
    by (simp add: spec_op_def start_next_def letter_next_def arg_state_def line_event_def)
  from parser_piece_invariance [OF init_parser_created wit_mem_ok _ _ _ this,
      where ys = "[''P'', ''ONG'' @ [CR], [LF] @ ''HM'']"]
  show ?thesis by (simp add: piece_size_ok_def) blast
qed

section \<open>The arguments of a message\<close>

text \<open>
  What the arguments of a message line say, read independently of the code: a number is a non-empty word of digits with its
  value in unbounded integers. The words are the subject, the subscription id, an optional reply, the size of the header for a message that has one,
  and the size.
\<close>

definition decimal :: "bytes \<Rightarrow> int option" where
  "decimal w = (if w \<noteq> [] \<and> all_digits w then Some (dec_value w 0) else None)"

definition numbers_of :: "bytes \<Rightarrow> bytes option \<Rightarrow> bytes \<Rightarrow> bytes option \<Rightarrow> bytes \<Rightarrow> msg_head option" where
  "numbers_of subj reply sid hdr len =
     (case (decimal sid, case hdr of None \<Rightarrow> Some (-1) | Some w \<Rightarrow> decimal w, decimal len) of
        (Some i, Some m, Some n) \<Rightarrow> Some \<lparr>mh_subject = subj, mh_reply = reply, mh_sid = i, mh_hdr = m, mh_size = n\<rparr>
      | _ \<Rightarrow> None)"

fun message_head :: "bool \<Rightarrow> bytes list \<Rightarrow> msg_head option" where
  "message_head False [subj, sid, len] = numbers_of subj None sid None len"
| "message_head False [subj, sid, reply, len] = numbers_of subj (Some reply) sid None len"
| "message_head True [subj, sid, hdr, len] = numbers_of subj None sid (Some hdr) len"
| "message_head True [subj, sid, reply, hdr, len] = numbers_of subj (Some reply) sid (Some hdr) len"
| "message_head _ _ = None"

lemma decimal_read:
  "decimal w = None \<Longrightarrow> nats_ParseInt64 w = -1"
  "decimal w = Some v \<Longrightarrow> 0 \<le> v \<and> (v < 2 ^ 63 \<longrightarrow> nats_ParseInt64 w = v)"
  using parse_digits_ok [of w 0] parse_digits_bad [of w 0] dec_value_ge [of w 0]
  by (auto simp: decimal_def nats_ParseInt64_def split: if_splits)

lemma numbers_of_cases:
  "numbers_of subj reply sid hdr len = None \<longleftrightarrow> decimal sid = None \<or> (\<exists>w. hdr = Some w \<and> decimal w = None) \<or> decimal len = None"
  "numbers_of subj reply sid hdr len = Some mh \<longleftrightarrow>
     (\<exists>i m n. decimal sid = Some i \<and> (case hdr of None \<Rightarrow> m = -1 | Some w \<Rightarrow> decimal w = Some m) \<and> decimal len = Some n
        \<and> mh = \<lparr>mh_subject = subj, mh_reply = reply, mh_sid = i, mh_hdr = m, mh_size = n\<rparr>)"
  by (auto simp: numbers_of_def split: option.splits)

lemma to_c_int_minus_one [simp]: "to_c_int (-1) = -1"
  by (rule to_c_int_id) (simp add: c_int_ok_def)

lemma to_c_int_small: "0 \<le> v \<Longrightarrow> v < 2 ^ 31 \<Longrightarrow> to_c_int v = v"
  by (rule to_c_int_id) (simp add: c_int_ok_def)

text \<open>The four forms of the line as the code finds them, and their numbers as the code reads them.\<close>

definition read_head :: "bytes \<Rightarrow> bytes option \<Rightarrow> bytes \<Rightarrow> bytes option \<Rightarrow> bytes \<Rightarrow> msg_head option" where
  "read_head subj reply sid hdr len =
     (let i = nats_ParseInt64 sid; m = (case hdr of None \<Rightarrow> -1 | Some w \<Rightarrow> to_c_int (nats_ParseInt64 w)); n = to_c_int (nats_ParseInt64 len)
      in if i < 0 \<or> n < 0 \<or> hdr \<noteq> None \<and> (m < 0 \<or> m > n) then None
         else Some \<lparr>mh_subject = subj, mh_reply = reply, mh_sid = i, mh_hdr = m, mh_size = n\<rparr>)"

lemma message_words:
  obtains (head) subj reply sid hdr len where "message_head h (tokens line) = numbers_of subj reply sid hdr len"
      "msg_head_of h line = read_head subj reply sid hdr len" "hdr = None \<longleftrightarrow> \<not> h"
  | (count) "message_head h (tokens line) = None" "msg_head_of h line = None"
proof (cases "(h, tokens line)" rule: message_head.cases)
  case (1 subj sid len)
  then show ?thesis by (intro head [of subj None sid None len]) (simp_all add: msg_head_of_def read_head_def)
next
  case (2 subj sid reply len)
  then show ?thesis by (intro head [of subj "Some reply" sid None len]) (simp_all add: msg_head_of_def read_head_def)
next
  case (3 subj sid hdr len)
  then show ?thesis by (intro head [of subj None sid "Some hdr" len]) (simp_all add: msg_head_of_def read_head_def)
next
  case (4 subj sid reply hdr len)
  then show ?thesis by (intro head [of subj "Some reply" sid "Some hdr" len]) (simp_all add: msg_head_of_def read_head_def)
qed (auto intro!: count simp: msg_head_of_def Let_def)

lemma read_head_bad: "numbers_of subj reply sid hdr len = None \<Longrightarrow> read_head subj reply sid hdr len = None"
  by (auto simp: numbers_of_cases read_head_def Let_def decimal_read(1))

lemma read_head_ok:
  assumes "numbers_of subj reply sid hdr len = Some mh" "mh_sid mh < 2 ^ 63" "mh_hdr mh < 2 ^ 31" "mh_size mh < 2 ^ 31"
  shows "read_head subj reply sid hdr len = (if mh_hdr mh \<le> mh_size mh then Some mh else None)"
proof -
  have n: "nats_ParseInt64 w = v \<and> 0 \<le> v" if "decimal w = Some v" "v < 2 ^ 63" for w v using decimal_read(2) [OF that(1)] that(2) by simp
  have c: "to_c_int (nats_ParseInt64 w) = v \<and> 0 \<le> v" if "decimal w = Some v" "v < 2 ^ 31" for w v
    using n [OF that(1)] that(2) by (auto intro: to_c_int_small)
  obtain i m k where d: "decimal sid = Some i" "case hdr of None \<Rightarrow> m = -1 | Some w \<Rightarrow> decimal w = Some m" "decimal len = Some k"
    "mh = \<lparr>mh_subject = subj, mh_reply = reply, mh_sid = i, mh_hdr = m, mh_size = k\<rparr>"
    using assms(1) unfolding numbers_of_cases(2) by blast
  show ?thesis
  proof (cases hdr)
    case None
    then show ?thesis using n [OF d(1)] c [OF d(3)] d(2,4) assms(2-4) by (auto simp: read_head_def Let_def)
  next
    case (Some w)
    then have "decimal w = Some m" using d(2) by simp
    then show ?thesis using Some n [OF d(1)] c [OF d(3)] c [of w m] d(4) assms(2-4) by (auto simp: read_head_def Let_def)
  qed
qed

lemma msg_head_of_exact:
  "message_head h (tokens line) = None \<Longrightarrow> msg_head_of h line = None"
  "message_head h (tokens line) = Some mh \<Longrightarrow> mh_sid mh < 2 ^ 63 \<Longrightarrow> mh_hdr mh < 2 ^ 31 \<Longrightarrow> mh_size mh < 2 ^ 31 \<Longrightarrow>
   msg_head_of h line = (if mh_hdr mh \<le> mh_size mh then Some mh else None)"
  by (cases rule: message_words [where h = h and line = line]; simp add: read_head_bad read_head_ok)+

text \<open>Where the line is: in the argument buffer, or in the bytes that were just read.\<close>

definition read_arg :: "bytes \<Rightarrow> bufref \<Rightarrow> bytes option" where
  "read_arg line r = (case r of RefArg off n \<Rightarrow> c_read line off n | _ \<Rightarrow> None)"

definition read_buf :: "bytes \<Rightarrow> bufref \<Rightarrow> bytes option" where
  "read_buf buf r = (case r of RefRead off n \<Rightarrow> c_read buf off n | _ \<Rightarrow> None)"

definition line_at :: "bytes \<Rightarrow> (int \<Rightarrow> int \<Rightarrow> bufref) \<Rightarrow> (bufref \<Rightarrow> bytes option) \<Rightarrow> bool" where
  "line_at line ref rd \<longleftrightarrow>
     ref = RefArg \<and> rd = read_arg line
   \<or> (\<exists>pre post. ref = (\<lambda>st. RefRead (int (length pre) + st)) \<and> rd = read_buf (pre @ line @ post))"

lemma line_at_reads:
  assumes "line_at line ref rd"
  shows "slice_in line (st, n) \<Longrightarrow> rd (ref st n) = Some (slice_bytes line (st, n))" "ref_len (ref st n) = n"
  using assms
  by (auto simp: line_at_def read_arg_def read_buf_def slice_in_def slice_bytes_def c_read_def ref_len_def nat_add_distrib)

text \<open>
  Property C35. The arguments of a message are read exactly, wherever the line is, for every line whose numbers fit the fields they are kept in.
  A line that does not split into a subject, an id, an optional reply, the size of the header where there is one, and a size,
  or in which one of the numbers is not a word of digits, is refused with an error that is recorded. Otherwise, with the values of the numbers
  taken in unbounded integers and below \<open>2^63\<close> for the id and \<open>2^31\<close> for the sizes, it is accepted if and only if the header is not longer than
  the message, and then the subject and the reply designate their words and the numbers are those of the line.
  Sizes from \<open>2^31\<close> on are not in this statement because they are not read exactly (\<open>processMsgArgs_size_wraps\<close>).
\<close>

theorem processMsgArgs_correct:
  assumes "h \<longleftrightarrow> 0 \<le> ps_hdr ps" "\<not> h \<longrightarrow> ma_hdr (ps_ma ps) = -1" "line_at line ref rd"
  shows "case message_head h (tokens line) of
      None \<Rightarrow> \<exists>ps1 txt. processMsgArgs ops ps c ref line =
          (NATS_PROTOCOL_ERROR, ps1, setErr ops NATS_PROTOCOL_ERROR (setErrStr ops txt c))
    | Some mh \<Rightarrow> mh_sid mh < 2 ^ 63 \<and> mh_hdr mh < 2 ^ 31 \<and> mh_size mh < 2 ^ 31 \<longrightarrow>
        (if mh_hdr mh \<le> mh_size mh
         then \<exists>ma. processMsgArgs ops ps c ref line = (NATS_OK, ps\<lparr>ps_ma := ma\<rparr>, c) \<and> ma_matches rd ma mh
         else \<exists>ps1 txt. processMsgArgs ops ps c ref line =
            (NATS_PROTOCOL_ERROR, ps1, setErr ops NATS_PROTOCOL_ERROR (setErrStr ops txt c)))"
proof -
  have bad: "\<exists>ps1 txt. processMsgArgs ops ps c ref line =
      (NATS_PROTOCOL_ERROR, ps1, setErr ops NATS_PROTOCOL_ERROR (setErrStr ops txt c))" if "msg_head_of h line = None"
    using assms(1) that by (rule processMsgArgs_bad)
  have ok: "\<exists>ma. processMsgArgs ops ps c ref line = (NATS_OK, ps\<lparr>ps_ma := ma\<rparr>, c) \<and> ma_matches rd ma mh"
    if "msg_head_of h line = Some mh" for mh
    by (rule processMsgArgs_ok [OF assms(1,2) line_at_reads(1) [OF assms(3)] line_at_reads(2) [OF assms(3)] that])
  show ?thesis using bad ok msg_head_of_exact [of h line] by (cases "message_head h (tokens line)") auto
qed

theorem processMsgArgs_correct_witness:
  "\<exists>ma. processMsgArgs log_ops (init_parser) [] (\<lambda>st. RefRead (5 + st)) ''foo 12 bar 4 9'' =
      (NATS_OK, init_parser\<lparr>ps_ma := ma\<rparr>, [])
    \<and> ma_sid ma = 12 \<and> ma_hdr ma = 4 \<and> ma_size ma = 9
    \<and> (\<exists>r. ma_reply ma = Some r \<and> read_buf (''HMSG '' @ ''foo 12 bar 4 9'' @ []) r = Some ''bar'')"
proof -
  let ?line = "''foo 12 bar 4 9''" and ?rd = "read_buf (''HMSG '' @ ''foo 12 bar 4 9'' @ [])"
  let ?mh = "\<lparr>mh_subject = ''foo'', mh_reply = Some ''bar'', mh_sid = 12, mh_hdr = 4, mh_size = 9\<rparr>"
  have t: "message_head True (tokens ?line) = Some ?mh"
    by (simp add: tokens_def is_sep_def numbers_of_def decimal_def all_digits_def c_isdigit_def ord_def)
  have h: "True \<longleftrightarrow> 0 \<le> ps_hdr init_parser" by (simp add: init_parser_def)
  have at: "line_at ?line (\<lambda>st. RefRead (5 + st)) ?rd"
    unfolding line_at_def by (intro disjI2 exI [of _ "''HMSG ''"] exI [of _ "[]"]) simp
  have "\<exists>ma. processMsgArgs log_ops (init_parser) [] (\<lambda>st. RefRead (5 + st)) ?line =
      (NATS_OK, init_parser\<lparr>ps_ma := ma\<rparr>, []) \<and> ma_matches ?rd ma ?mh"
    using processMsgArgs_correct [OF _ _ at, of True "init_parser" log_ops "[]"] h by (simp add: t)
  then show ?thesis by (auto simp: ma_matches_def)
qed

section \<open>Where the parser goes wrong\<close>

lemma Append_grows_own:
  assumes "buf_ok b" "mem_ok mem" "buf_capacity b < buf_len b + int (length bs)" "0 < length bs"
    "grown (buf_len b + int (length bs)) < INT_MAX"
  shows "\<exists>b'. natsBuf_Append (pm_alloc mem) b bs (int (length bs)) = Some (NATS_OK, b') \<and> buf_ownData b'"
proof -
  let ?n = "buf_len b + int (length bs)"
  have n: "?n < grown ?n" using grown_gt [of ?n] assms(1) by (simp add: buf_ok_def)
  have al: "alloc_sized (pm_alloc mem)" "pm_alloc mem (grown ?n) \<noteq> None" using assms(2) by (auto simp: mem_ok_def)
  obtain b1 where e: "natsBuf_Expand (pm_alloc mem) b (grown ?n) = Some (NATS_OK, b1)" "buf_ownData b1"
    using natsBuf_Expand_spec [OF assms(1) al(1), of "grown ?n"] assms(3,5) n al(2) by auto
  have "natsBuf_Append (pm_alloc mem) b bs (int (length bs)) = Some (NATS_OK, buf_put b1 (take (nat (int (length bs))) bs))"
    using natsBuf_Append_grows [OF assms(1) al(1) _ _ _ _ e(1)] assms(3-5) by simp
  with e(2) show ?thesis by (simp add: buf_put_def)
qed

text \<open>
  Property C37. \<open>_cloneMsgArg\<close> is wrong for a subject and a reply that do not fit together in the 4096
  bytes of \<open>scratch\<close>: the argument buffer moves to the heap, but the reply is still made to designate
  \<open>scratch + subjLen\<close>, past whose end it reaches. It reports success, and any later use of the reply
  reads outside the array.
\<close>

theorem cloneMsgArg_reply_overrun:
  assumes "mem_ok mem" "int (length (ps_scratch ps)) = MAX_CONTROL_LINE_SIZE"
    and "ma_subject (ps_ma ps) = Some (RefRead a (int (length subj)))" "c_read buf a (int (length subj)) = Some subj"
    and "ma_reply (ps_ma ps) = Some (RefRead b (int (length rep)))" "c_read buf b (int (length rep)) = Some rep"
    and "length subj \<le> 4096" "4096 < length subj + length rep" "length subj + length rep < 2 ^ 30"
  shows "\<exists>ps' r. cloneMsgArg mem buf ps = Some (NATS_OK, ps') \<and> ma_reply (ps_ma ps') = Some r
    \<and> (\<forall>buf'. deref buf' ps' r = None)"
proof -
  obtain ab where ab: "clone_subject mem buf ps (RefRead a (int (length subj))) = Some (NATS_OK,
        (set_argBuf ab ps)\<lparr>ps_ma := (ps_ma ps)\<lparr>ma_subject := Some (RefScratch 0 (int (length subj)))\<rparr>\<rparr>)"
      "scratch_buf ab" "buf_content ab = subj" "buf_len ab = int (length subj)"
    using clone_subject_rel [of ps buf "RefRead a (int (length subj))" subj mem] assms
    by (auto simp: deref_def ref_len_def MAX_CONTROL_LINE_SIZE_def)
  let ?ps1 = "(set_argBuf ab ps)\<lparr>ps_ma := (ps_ma ps)\<lparr>ma_subject := Some (RefScratch 0 (int (length subj)))\<rparr>\<rparr>"
  have "grown (buf_len ab + int (length rep)) < INT_MAX" using ab(4) assms(8,9) unfolding grown_def by (simp, linarith)
  then obtain ab2 where ab2: "natsBuf_Append (pm_alloc mem) ab rep (int (length rep)) = Some (NATS_OK, ab2)" "buf_ownData ab2"
    using Append_grows_own [of ab mem rep] ab assms(1,7,8) by (cases "rep = []") (auto simp: scratch_buf_def MAX_CONTROL_LINE_SIZE_def)
  let ?r = "RefScratch (int (length subj)) (int (length rep))"
  let ?ps2 = "(set_argBuf ab2 ?ps1)\<lparr>ps_ma := (ps_ma ?ps1)\<lparr>ma_reply := Some ?r\<rparr>\<rparr>"
  have "cloneMsgArg mem buf ps = Some (NATS_OK, ?ps2)"
    using ab(1) ab2(1) assms(3,5,6)
    by (simp add: cloneMsgArg_def clone_reply_def Let_def deref_def ref_len_def)
  moreover have "length (ps_scratch ?ps2) = 4096"
    using ab2(2) set_argBuf_scratch [OF ab(2) assms(2)] by (simp add: set_argBuf_def scratch_sync_def MAX_CONTROL_LINE_SIZE_def)
  then have "deref buf' ?ps2 ?r = None" for buf'
    using assms(8) by (simp add: deref_def c_read_def)
  ultimately show ?thesis by auto
qed

definition long_head :: natsParser where
  "long_head = init_parser\<lparr>ps_ma := \<lparr>ma_subject = Some (RefRead 0 3000), ma_reply = Some (RefRead 3000 3000),
     ma_sid = 1, ma_hdr = -1, ma_size = 10\<rparr>\<rparr>"

theorem cloneMsgArg_reply_overrun_witness:
  "\<exists>ps' r. cloneMsgArg wit_mem (replicate 6000 (CHR ''a'')) long_head = Some (NATS_OK, ps')
     \<and> ma_reply (ps_ma ps') = Some r \<and> (\<forall>buf'. deref buf' ps' r = None)"
  using cloneMsgArg_reply_overrun [OF wit_mem_ok, of long_head 0 "replicate 3000 (CHR ''a'')"
      "replicate 6000 (CHR ''a'')" 3000 "replicate 3000 (CHR ''a'')"]
  by (simp add: long_head_def init_parser_def MAX_CONTROL_LINE_SIZE_def c_read_def)

text \<open>
  A size is converted to an \<open>int\<close> before it is tested, so the check for a negative len does not see one that does not fit: a len between
  \<open>2^31\<close> and \<open>2^63\<close> whose lower 32 bits are a positive \<open>int\<close> is accepted with that value, and the rest of the payload is read as protocol.
\<close>

theorem processMsgArgs_size_wraps:
  assumes "ps_hdr ps < 0" "ma_hdr (ps_ma ps) = -1" "line_at line ref rd"
    and "message_head False (tokens line) = Some mh" "mh_sid mh < 2 ^ 63" "2 ^ 31 \<le> mh_size mh" "mh_size mh < 2 ^ 63" "mh_size mh mod 2 ^ 32 < 2 ^ 31"
  shows "\<exists>ma. processMsgArgs ops ps c ref line = (NATS_OK, ps\<lparr>ps_ma := ma\<rparr>, c) \<and> ma_size ma = mh_size mh mod 2 ^ 32 \<and> ma_size ma \<noteq> mh_size mh"
proof -
  have wrap: "to_c_int v = v mod 2 ^ 32" if "v mod 2 ^ 32 < 2 ^ 31" for v :: int
  proof -
    have "(word_of_int v :: 32 word) = word_of_int (v mod 2 ^ 32)" by (simp add: word_of_int_eq_iff take_bit_eq_mod)
    then have "to_c_int v = to_c_int (v mod 2 ^ 32)" by (simp only: to_c_int_def)
    then show ?thesis using that by (simp add: to_c_int_small)
  qed
  have "\<exists>mh'. msg_head_of False line = Some mh' \<and> mh_size mh' = mh_size mh mod 2 ^ 32"
  proof (cases rule: message_words [where h = False and line = line])
    case (head subj reply sid hdr len)
    then have "numbers_of subj reply sid None len = Some mh" "hdr = None" using assms(4) by auto
    then obtain i n where "decimal sid = Some i" "decimal len = Some n" "mh_sid mh = i" "mh_size mh = n" "hdr = None"
      unfolding numbers_of_cases by auto
    then show ?thesis using head decimal_read(2) [of sid i] decimal_read(2) [of len n] assms(5-8) wrap [of n]
      by (simp add: read_head_def Let_def)
  qed (use assms(4) in simp)
  then obtain mh' where mh: "msg_head_of False line = Some mh'" "mh_size mh' = mh_size mh mod 2 ^ 32" by blast
  have "\<exists>ma. processMsgArgs ops ps c ref line = (NATS_OK, ps\<lparr>ps_ma := ma\<rparr>, c) \<and> ma_matches rd ma mh'"
    using assms(1,2) by (intro processMsgArgs_ok [OF _ _ line_at_reads(1) [OF assms(3)] line_at_reads(2) [OF assms(3)] mh(1)]) simp_all
  moreover have "mh_size mh mod 2 ^ 32 \<noteq> mh_size mh" using assms(6,8) by linarith
  ultimately show ?thesis using mh(2) by (auto simp: ma_matches_def)
qed

text \<open>
  The size of a message is not bounded before it is used: when it reaches the largest
  32-bit integer the index the parser jumps to overflows. A server (or anything that writes to the
  connection) that announces a payload of 2147483647 bytes makes the client execute undefined
  behaviour.
\<close>

theorem parse_size_overflow:
  "natsParser_Parse ops mem init_parser c (''MSG a 1 2147483647'' @ [LF]) = None"
proof -
  have w: "msg_slices 3 ''a 1 2147483647'' = (NATS_OK, [(0, 1), (2, 1), (4, 10)])"
    by (simp add: msg_slices_def slices_end_def is_sep_def)
  have n: "to_c_int (nats_ParseInt64 ''2147483647'') = 2147483647" "nats_ParseInt64 ''1'' = 1"
    by (simp_all add: nats_ParseInt64_def to_int64_def ord_def sint_sbintrunc' c_int_ok_def)
  note loop = parse_loop.simps [of ops mem "CHR ''M'' # _"]
  note steps = parse_step_defs step_MSG_ARG_def arg_byte_def arg_line_def
  show ?thesis
    using w n
    by (simp add: natsParser_Parse_def loop steps init_parser_def c_read_def processMsgArgs_def slice_int_def
        slice_bytes_def c_int_ok_def Let_def eval_nat_numeral)
qed

lemma split_arg_then_CR:
  assumes "scratch_buf ab" "buf_content ab = ''a''" "ps_argBuf ps = Some ab" "ps_state ps = INFO_ARG"
  shows "\<exists>ps'. natsParser_Parse ops mem ps c ([CR] @ ''bc'' @ [LF]) = Some (NATS_OK, ps', processAsyncINFO ops ''abc'' c)"
proof -
  let ?b1 = "buf_put ab ''b''" and ?b2 = "buf_put (buf_put ab ''b'') ''c''"
  have l: "buf_len ab = 1" using assms(1,2) content_length [of ab] by (simp add: scratch_buf_def)
  have b1: "scratch_buf ?b1" "buf_content ?b1 = ''ab''" "buf_len ?b1 = 2"
    using scratch_buf_put [OF assms(1), of "''b''"] assms(2) l
    by (simp_all add: MAX_CONTROL_LINE_SIZE_def) (simp add: buf_put_def)
  have b2: "scratch_buf ?b2" "buf_content ?b2 = ''abc''" "buf_len ?b2 = 3"
    using scratch_buf_put [OF b1(1), of "''c''"] b1(2,3)
    by (simp_all add: MAX_CONTROL_LINE_SIZE_def) (simp add: buf_put_def)
  have a1: "natsBuf_AppendByte (pm_alloc mem) ab (CHR ''b'') = Some (NATS_OK, ?b1)"
    using assms(1) l by (intro AppendByte_fits) (auto simp: scratch_buf_def MAX_CONTROL_LINE_SIZE_def)
  have a2: "natsBuf_AppendByte (pm_alloc mem) ?b1 (CHR ''c'') = Some (NATS_OK, ?b2)"
    using b1 by (intro AppendByte_fits) (auto simp: scratch_buf_def MAX_CONTROL_LINE_SIZE_def)
  have r: "c_read (buf_data ?b2) 0 3 = Some ''abc''"
    using c_read_content [OF b2(1), of "[]" "''abc''" "[]"] b2(2) by simp
  show ?thesis
    using assms(3,4) a1 a2 r b2(3)
    by (simp add: natsParser_Parse_def parse_loop.simps [of ops mem "CR # _"] parse_step_defs step_line_arg_def arg_byte_def
        arg_line_def split_arg_def split_msg_def eval_nat_numeral)
qed

text \<open>
  A carriage return inside a control line, which the protocol does not allow but the
  parser does not refuse, makes the result depend on how the stream is cut: the byte before the line
  feed is lost when the line is read in one piece, and the carriage return is lost when it is not.
\<close>

theorem parse_inner_CR:
  "(\<exists>ps'. parse_pieces log_ops wit_mem init_parser [] [''INFO a'' @ [CR] @ ''bc'' @ [LF]]
      = Some (NATS_OK, ps', [EInfo (''a'' @ [CR] @ ''b'')]))
   \<and> (\<exists>ps'. parse_pieces log_ops wit_mem init_parser [] [''INFO a'', [CR] @ ''bc'' @ [LF]]
      = Some (NATS_OK, ps', [EInfo ''abc'']))"
proof
  have info: "processAsyncINFO log_ops l c = c @ [EInfo l]" for l c by (simp add: log_ops_def)
  have "natsParser_Parse log_ops wit_mem init_parser [] (''INFO a'' @ [CR] @ ''bc'' @ [LF])
      = Some (NATS_OK, init_parser\<lparr>ps_afterSpace := 10\<rparr>, [EInfo (''a'' @ [CR] @ ''b'')])"
    by (simp add: natsParser_Parse_def parse_loop.simps [of log_ops wit_mem "CHR ''I'' # _"] parse_step_defs
        step_line_arg_def arg_byte_def arg_line_def split_arg_def split_msg_def init_parser_def c_read_def
        info expire_def eval_nat_numeral)
  then show "\<exists>ps'. parse_pieces log_ops wit_mem init_parser [] [''INFO a'' @ [CR] @ ''bc'' @ [LF]]
      = Some (NATS_OK, ps', [EInfo (''a'' @ [CR] @ ''b'')])" by simp
  have "spec_run log_ops (SOp OP_START True) [] ''INFO a'' = Running (SArg INFO_ARG True ''a'' False) []"
    by (simp add: spec_op_def start_next_def letter_next_def arg_state_def line_event_def)
  with parse_piece [OF created_rest [OF init_parser_created] wit_mem_ok, of "''INFO a''" log_ops "[]"]
  obtain ps1 where p1: "natsParser_Parse log_ops wit_mem init_parser [] ''INFO a'' = Some (NATS_OK, ps1, [])"
      "rest_rel ps1 (SArg INFO_ARG True ''a'' False)"
    by (auto simp: agrees_def)
  then have "prel [] 0 ps1 (SArg INFO_ARG True ''a'' False)" by (simp add: rest_rel_def)
  then obtain ab where "ps_argBuf ps1 = Some ab" "scratch_buf ab" "buf_content ab = ''a''" "ps_state ps1 = INFO_ARG"
    by (auto simp: prel_def arg_rel_def split: option.splits)
  with split_arg_then_CR [of ab ps1 log_ops wit_mem "[]"] p1(1)
  show "\<exists>ps'. parse_pieces log_ops wit_mem init_parser [] [''INFO a'', [CR] @ ''bc'' @ [LF]]
      = Some (NATS_OK, ps', [EInfo ''abc''])" by (auto simp: log_ops_def)
qed

text \<open>
  \<open>natsParser_Destroy\<close> forgets the message buffer that was created on the heap for a
  split message larger than the rest of \<open>scratch\<close>: closing the connection in the middle of such a
  message leaks it, because only the buffer records inside the parser are cleaned up.
\<close>

theorem parser_destroy_leak:
  assumes "mem_ok mem" "0 \<le> buf_len ab" "MAX_CONTROL_LINE_SIZE - buf_len ab < ma_size (ps_ma ps)"
  shows "\<exists>mb. new_msgBuf mem ps ab = Inr mb \<and> buf_ownData mb
    \<and> snd (natsParser_Destroy (ps\<lparr>ps_argBuf := Some ab, ps_msgBuf := Some mb\<rparr>)) = False"
proof -
  obtain blk where "pm_alloc mem (ma_size (ps_ma ps)) = Some blk" using assms(1) by (auto simp: mem_ok_def)
  with assms show ?thesis
    by (simp add: new_msgBuf_def Let_def natsBuf_Create_def newBuf_def buf_init_def mem_ok_def natsParser_Destroy_def)
qed

theorem parser_destroy_leak_witness:
  "\<exists>mb. new_msgBuf wit_mem (init_parser\<lparr>ps_ma := (ps_ma init_parser)\<lparr>ma_size := 5000\<rparr>\<rparr>) empty_buf = Inr mb \<and> buf_ownData mb
    \<and> snd (natsParser_Destroy (init_parser\<lparr>ps_ma := (ps_ma init_parser)\<lparr>ma_size := 5000\<rparr>, ps_argBuf := Some empty_buf, ps_msgBuf := Some mb\<rparr>)) = False"
  using parser_destroy_leak [OF wit_mem_ok, of empty_buf "init_parser\<lparr>ps_ma := (ps_ma init_parser)\<lparr>ma_size := 5000\<rparr>\<rparr>"]
  by (simp add: empty_buf_def MAX_CONTROL_LINE_SIZE_def)

end
