(* ===== verification/Spec2Isabelle.thy ===== *)
theory Spec2Isabelle
  imports Diod_Pool Diod_Sender Diod_InFlight Diod_Pg Diod_Pipeline Diod_Worker Diod_Poll Diod_Trace
    Nats_Buf Nats_Hash_Iter Nats_StrHash_Map Nats_Protocol
begin

text \<open>
  \<^bold>\<open>http-data-diod: a verification library.\<close>

  \<^bold>\<open>The program.\<close> Clients speak HTTP to a proxy (\<open>request_handler*.cpp\<close>). The proxy checks a request against a
  detector of duplicate bodies and two rate limiters, packs it into a JSON message, sends it over NATS and waits for the reply. A worker
  (\<open>l2_worker.cpp\<close>, \<open>l2_worker_nats.cpp\<close>) takes the message from NATS on a thread pool, looks the id up in a cache of
  responses, asks the routing policy for a level 2 server, calls it over pooled HTTP connections behind a circuit breaker, and sends
  the answer back. A second path carries read-only SQL from the proxy to the worker, which runs it on PostgreSQL or Oracle. Both processes
  use the vendored NATS client in C, of which the protocol parser and its containers are part of this library, and deliver spans and events
  through a queue of their own.

  \<^bold>\<open>Conventions.\<close>
  \<^item> The definitions follow the source function by function and are executable; a class is a record, an enumeration a datatype.
    A method that runs under a mutex is a function on the record, and sequences of calls are folds over it
    (\<open>Diod_Machine\<close> carries invariants and refinements along them). Where threads interleave between critical sections or
    atomic operations, the component is an \<open>inductive\<close> step relation whose steps are those sections, and a property is proved of
    every reachable state.
  \<^item> \<open>None\<close> of an operation is undefined behaviour (an access out of bounds, a dangling iterator or pointer, a signed overflow) or
    an endless loop, so that a theorem that states \<open>Some\<close> states its absence. An exception of C++ is \<open>Inl\<close> of a fault or of its text, or
    \<open>None\<close> of the answer where a text says so. An error the NATS client reports is a value of \<open>natsStatus\<close>.
  \<^item> Machine integers are words where they can wrap (clock differences, hashes, tokens, sizes of the parser) and \<open>int\<close> or \<open>nat\<close> where an
    invariant bounds them. Clock readings are arguments, in the order in which the code takes them, which need not be their order in time.
  \<^item> Libraries are parameters: the JSON serialiser and parser (\<open>serialises\<close>: a well-formed UTF-8 value reads back as itself, another
    is refused), base64 (\<open>base64_codec\<close>), the digest of a body, the HTTP client library (\<open>network\<close>, an answer for each request and history), libpq,
    allocation (\<open>mem_ok\<close>), the handlers the parser calls, and what the NATS connection does in each round of a wait. Every hypothesis has a witness on a concrete instance.
  \<^item> Loops that the code bounds are structural recursion or \<open>function\<close>s with a measure. One loop runs on fuel, the wait for a reply;
    \<open>poll_ends\<close> shows that one round for every quarter of a second of the timeout and one more are always enough, because a round that
    does not end the loop sleeps that long, and \<open>poll_response\<close> runs it with this fuel.

  \<^bold>\<open>The theories.\<close>
  \<^item> \<open>Prelude\<close>: C types and strings, memory, shared lemmas. \<open>Diod_Machine\<close>: the locales \<open>machine\<close>, \<open>refining_machine\<close> and \<open>transitions\<close>,
    which every component with state interprets. \<open>Diod_Lru\<close>: the container of a map and a list with iterators that the per-address
    limiter and the cache of responses build by hand.
  \<^item> The path of a request through the proxy: \<open>Diod_Pipeline\<close> (\<open>request_handler.cpp\<close>, \<open>request_handler_limits.cpp\<close>,
    \<open>request_handler_pipeline.cpp\<close>: \<open>handle_forward\<close> with its gates), \<open>Diod_Duplicates\<close> (\<open>duplicate_detector.cpp\<close>), \<open>Diod_RateLimit\<close> (\<open>rate_limiter.hpp\<close>,
    threads on atomics), \<open>Diod_PerIP\<close> (\<open>rate_limiter_per_ip.hpp\<close>), \<open>Diod_InFlight\<close> (\<open>in_flight_tracker.hpp\<close>), \<open>Diod_Poll\<close>
    (\<open>nats_poll_service.cpp\<close>, \<open>retry_handler.hpp\<close>), \<open>Diod_Trace\<close> (the traceparent header). Shown: a request reaches the worker only through
    every gate and is refused by each exactly when it says so, the requests that get through are bounded by the token bucket and their messages, which the
    wait may send again, by that and the rounds of a wait, duplicates are recognised exactly, an address is measured by its own bucket and affects another
    only by taking the place of the oldest one in a full table, the counters count, and waiting ends.
  \<^item> What travels: \<open>Diod_Utf8\<close> (\<open>utf8_utils.hpp\<close>), \<open>Diod_Json\<close> (\<open>json_utils.hpp\<close>, \<open>header_utils.hpp\<close>), \<open>Diod_Messages\<close>
    (\<open>request_data_preparer.cpp\<close>, \<open>nats_push_service.cpp\<close>, \<open>json_schema_validator.hpp\<close>, \<open>worker_request_parser.hpp\<close>, \<open>response_builder.cpp\<close>). Shown: the validity
    test is exact, which requests become a message, which of them the worker refuses and which it decodes, and requests and responses survive the way byte for byte.
  \<^item> The worker: \<open>Diod_Worker\<close> (\<open>process_request_from_nats\<close> down to \<open>execute_l2_call_with_retry\<close>), \<open>Diod_Dedup\<close> (\<open>dedup_cache.hpp\<close>), \<open>Diod_Breaker\<close>
    (\<open>circuit_breaker.cpp\<close>), \<open>Diod_Http\<close> (\<open>http_client.cpp\<close>, \<open>http_client_pool.cpp\<close>, \<open>pool_executor.hpp\<close>), \<open>Diod_Routing\<close> (\<open>url_utils.hpp\<close>, \<open>l2_routing.hpp\<close>,
    \<open>db_gateway_routing.hpp\<close>), \<open>Diod_Pool\<close> (\<open>thread_pool.hpp\<close>), \<open>Diod_Sender\<close> (\<open>async_sender_queue.hpp\<close> and its two delivery loops). Shown: a call
    follows the specification of its retries and goes to the allowed server, a request sent again is answered from the cache, the breaker and
    the cache refine their specifications, the pools keep their limits, lose nothing and come to rest, and the delivery threads leave nothing behind unless a flush waits.
  \<^item> The database gateway: \<open>Diod_Sql\<close> (\<open>db_query_utils.hpp\<close>), \<open>Diod_Gateway\<close> (\<open>request_handler_db_gateway.cpp\<close>, \<open>db_query_handler.cpp\<close>, the worker's
    \<open>process_db_query_from_nats\<close>), \<open>Diod_Pg\<close> (\<open>db_query_executor_postgres.cpp\<close>). Shown: what the read-only check decides, that nothing else
    reaches an executor, the way of a query with its limits and bind parameters and of its answer, the soundness of the connection pool and the row limit.
  \<^item> The NATS client (\<open>nats/src\<close>): \<open>Nats_Status\<close> (\<open>status.c\<close>), \<open>Nats_Buf\<close> (\<open>buf.c\<close>), \<open>Nats_Buckets\<close>, \<open>Nats_Hash\<close>, \<open>Nats_Hash_Iter\<close>, \<open>Nats_StrHash\<close>, \<open>Nats_StrHash_Map\<close>
    (\<open>hash.c\<close>, with the ownership of keys), \<open>Nats_Parse_Int\<close> (\<open>util.c\<close>), \<open>Nats_Parser\<close> (\<open>parser.c\<close>, with its scratch memory and references),
    \<open>Nats_Parser_Spec\<close>, \<open>Nats_Parser_Sim\<close>, \<open>Nats_Parser_Pieces\<close> and \<open>Nats_Protocol\<close>: the parser simulates a byte-at-a-time transducer for every way to cut the stream,
    and delivers exactly what a server writes.
  \<^item> This theory puts the ends together: \<open>diode_end_to_end\<close>.

  \<^bold>\<open>Defects.\<close> Where the code does not do what it means to, a theorem shows it on the model: among others \<open>client_keeps_first_server\<close>
  and \<open>http_pool_starves\<close> (the HTTP pool), \<open>refused_then_conflict\<close> (the pipeline), \<open>sql_nested_comment\<close> (the read-only check), \<open>traceparent_not_utf8\<close>, \<open>sender_flush_stuck\<close>,
  \<open>tracker_early_completion\<close>, \<open>duplicates_stale_reading\<close>, \<open>worker_missing_body\<close>, \<open>pg_bind_changes\<close> and, in the NATS client, \<open>cloneMsgArg_reply_overrun\<close>, \<open>parse_size_overflow\<close>,
  \<open>parse_inner_CR\<close>, \<open>parser_destroy_leak\<close>, \<open>natsStrHash_Get_confuses\<close>, \<open>natsStrHash_Set_dangling\<close>, \<open>natsHash_Set_failed_growth\<close>, \<open>processMsgArgs_size_wraps\<close> and \<open>ParseInt64_overflow_undetected\<close>. The positive theorems carry
  the hypotheses that exclude these cases, for instance one level 2 server in \<open>l2_call_exact\<close>.

  \<^bold>\<open>Not modelled.\<close> The rest of the NATS client (connection, subscriptions, sockets, timers, JetStream and the other services), the HTTP, JSON, base64,
  metrics and Oracle libraries: vendored code, represented by parameters or not used. The Oracle executor, the wrapper of the NATS client and the subscription
  loop of the worker: every step is a call of such a library. Configuration, start-up, logging, crash reports, metrics and their pages, the bodies of
  spans and events: no decision that the theorems are about depends on them. 
  \<^bold>\<open>How fine the steps are.\<close> The proxy handles one request per step in \<open>Diod_Pipeline\<close>, and the worker one message
  per step in \<open>Diod_Worker\<close>. Of the objects their threads share, the token bucket, the table of addresses, the counter of requests in flight, the pools and the
  queues are treated under interleaving in their own theories, and the detector of duplicates and the cache of responses work under one mutex. The circuit breaker is not: its methods
  (\<open>circuit_breaker.cpp\<close>) are sequences of atomic loads and stores without a lock, and each method is taken as one step, so nothing is said of calls that overlap.
  Smaller sections taken as one step: the exchange that takes a token and the counter after it in \<open>bucket_step\<close>; the sixteen loads of \<open>in_flight\<close>, which
  is a snapshot in the model and need not be one in the program; in \<open>get_or_create_limiter\<close> one reading of the clock stands for that of the new limiter and that of its entry, which
  are taken one after the other. An executor of the database is a function of its arguments, so an execution whose result is thrown away cannot be seen. In \<open>worker_reply\<close> and \<open>answers\<close> NATS is a
  delivery that loses nothing and returns the reply in the first round of the wait: the hypothesis of \<open>diode_end_to_end\<close>, not a claim about NATS. The pipeline theorems quantify over everything a
  connection can do in each round.
\<close>

section \<open>From the client to the level 2 server and back\<close>

text \<open>
  NATS between the two ends, when nothing is lost: the message of the proxy is handled by a worker, and what the worker publishes
  is the reply; without one the request of the proxy runs into its timeout and has no data. A connection that \<open>answers\<close> is there and
  connected in the first round of a wait, in which the request returns this reply; the other rounds are left open.
\<close>

definition worker_reply :: "worker_env \<Rightarrow> task \<Rightarrow> Worker \<Rightarrow> string \<Rightarrow> string" where
  "worker_reply env t w request_json =
     (case process_request_from_nats env (t\<lparr>tk_request_json := request_json\<rparr>) w of
        None \<Rightarrow> []
      | Some w' \<Rightarrow> (case drop (length (wk_replies w)) (wk_replies w') of [] \<Rightarrow> [] | (_, reply) # _ \<Rightarrow> reply))"

definition answers :: "worker_env \<Rightarrow> task \<Rightarrow> Worker \<Rightarrow> nats_side \<Rightarrow> bool" where
  "answers env t w nats \<longleftrightarrow> ns_client nats \<noteq> None
     \<and> (\<forall>msg. ro_connected (ns_rounds nats msg 0) \<and> ro_reply (ns_rounds nats msg 0) = worker_reply env t w msg)"

text \<open>What a worker does with a new request that its only server answers at the first attempt.\<close>

lemma worker_serves:
  fixes t :: task
  assumes "worker_receive (we_parse env) (we_from_base64 env) (tk_request_json t) = Inr (Some d)"
    and "find_response (tk_find_ms t) (wr_request_id d) (wk_dedup_cache w) = Some (None, c)" "dd_inv (wk_dedup_cache w)"
    and "one_server (we_l2_server_urls env) e" "quiet e (wk_pool w)"
    and "find_allowed_l2_server (we_l2_server_urls env) (wr_path d) = Some server"
    and "fst (allow_request (tk_allow_us t) (wk_circuit_breaker w))" "0 < we_max_retries env"
    and "we_net env (wk_wire w) (wire_of e (canonicalize_path (wr_path d) @ query_suffix (wr_query d))
           (if wr_method d = ''POST'' then wr_body d else []) (tk_l2_traceparent t) (wr_forwarded_headers d)) = Inr r"
    and "l2_status_code r \<notin> {502, 503, 504}" "tk_published t 0"
    and "we_dump env (response_message (we_to_base64 env) (tk_timestamp_us t) (wr_request_id d) (tk_traceparent_header t) r) = Some reply"
  shows "\<exists>w'. process_request_from_nats env t w = Some w' \<and> wk_replies w' = wk_replies w @ [(tk_reply_to t, reply)]
    \<and> wk_wire w' = wk_wire w @ [wire_of e (canonicalize_path (wr_path d) @ query_suffix (wr_query d))
           (if wr_method d = ''POST'' then wr_body d else []) (tk_l2_traceparent t) (wr_forwarded_headers d)]"
proof -
  let ?m = "wire_of e (canonicalize_path (wr_path d) @ query_suffix (wr_query d))
    (if wr_method d = ''POST'' then wr_body d else []) (tk_l2_traceparent t) (wr_forwarded_headers d)"
  let ?w = "w\<lparr>wk_dedup_cache := c\<rparr>"
  obtain n where n: "nat (we_max_retries env) = Suc n" using assms(8) by (metis Suc_pred zero_less_nat_eq)
  have one: "retry_spec (we_net env) ?m (nat (we_max_retries env)) ''Initial error'' (wk_wire w) = (Inr r, wk_wire w @ [?m])"
    using assms(9,10) by (simp add: n)
  obtain cb where cb: "allow_request (tk_allow_us t) (wk_circuit_breaker w) = (True, cb)" using assms(7) by (metis prod.collapse)
  obtain w1 where w1: "call_l2_server env t (wr_path d) (wr_body d) (wr_forwarded_headers d) (wr_method d) (wr_query d) ?w = (Some r, w1)"
      "wk_wire w1 = wk_wire w @ [?m]"
    using l2_call_effect [of env e ?w "wr_path d" server t cb "wr_query d" "wr_method d" "wr_body d" "wr_forwarded_headers d"] assms(4-6,8) cb
    by (auto simp: one)
  have c: "dd_inv c" "wk_dedup_cache w1 = c" "wk_replies w1 = wk_replies w"
    using find_effect [OF assms(3), of "tk_find_ms t" "wr_request_id d"] assms(2) call_keeps [OF w1(1)] by auto
  obtain c' where "store (tk_store_ms t) (wr_request_id d) reply c = Some c'"
    using store_effect [OF c(1), of "tk_store_ms t" "wr_request_id d" reply] by (cases "m_enabled c") (auto simp: store_def)
  then show ?thesis using assms(1,2,11,12) w1 c
    by (simp add: process_request_from_nats_def send_l2_response_def send_nats_response_def kSendMaxRetries_def numeral_3_eq_3)
qed

text \<open>
  Property C1. The diode, end to end: a request that passes the gates of the proxy reaches the level 2 server that
  the policy allows, once, with its method by its body, the canonical path, the query and the body, byte for byte, and
  with its headers without those of the connection; and the client gets the status, the bytes and the content type
  that the server answered. The proxy sends one message, since the first request of its wait is answered. The libraries behave as they document,
  the parts of the request that travel as text are UTF-8, NATS delivers the message and the reply, the worker has not seen the id, its breaker is not open, its entries name one server, and the server does not answer with a status that is tried again.
\<close>
theorem diode_end_to_end:
  assumes lib: "serialises (lib_dump lib) (lib_parse lib)" "base64_codec (lib_to_base64 lib) (lib_from_base64 lib)"
      "\<forall>b. lib_accept lib b \<longrightarrow> is_valid_utf8 b"
      "we_dump env = lib_dump lib" "we_parse env = lib_parse lib" "we_to_base64 env = lib_to_base64 lib" "we_from_base64 env = lib_from_base64 lib"
    and req: "list_all is_valid_utf8 [at_request_id a, rq_path req, extract_query_string (rq_target req), at_traceparent_for_backend a,
           request_client_ip req, rq_local_addr req]"
      "list_all (\<lambda>(name, _). is_valid_utf8 name) (rq_headers req)"
      "trace_utf8 (at_trace a) (at_tracer a) (at_generated a) (at_trace_id a) (at_push_span_id a)" "0 \<le> at_epoch_ms a" "at_epoch_ms a < 2 ^ 63"
      "req_method \<in> {''GET'', ''POST''}" "length (rq_path req) \<le> 2048"
      "length (if body \<noteq> [] \<and> \<not> lib_accept lib body then lib_to_base64 lib body else body) \<le> 10485760"
    and gates: "(if req_method = ''POST'' \<and> body \<noteq> [] \<and> cfg_duplicate_enabled cfg then record_and_maybe_reject_duplicate lib cfg a
           (get_header_value (rq_headers req) ''X-DataHub-Client-Id'' ''unknown'') body px else (Inr (), px)) = (Inr (), px1)"
      "check_rate_limits lib a (request_client_ip req) px1 = Some (Inr (), px2)"
    and nats: "answers env t w nats" "c_int_ok (cfg_request_timeout_seconds cfg * kMsPerSecond)"
    and wk: "find_response (tk_find_ms t) (at_request_id a) (wk_dedup_cache w) = Some (None, c)" "dd_inv (wk_dedup_cache w)"
      "one_server (we_l2_server_urls env) e" "quiet e (wk_pool w)"
      "find_allowed_l2_server (we_l2_server_urls env) (rq_path req) = Some server"
      "fst (allow_request (tk_allow_us t) (wk_circuit_breaker w))" "0 < we_max_retries env" "tk_published t 0"
      "is_valid_utf8 (tk_traceparent_header t)" "0 \<le> tk_timestamp_us t" "tk_timestamp_us t < 2 ^ 63"
    and srv: "\<forall>m. w_endpoint m = e \<longrightarrow> we_net env (wk_wire w) m = Inr r" "l2_status_code r \<notin> {502, 503, 504}" "c_int_ok (l2_status_code r)"
      "list_all (\<lambda>(name, _). is_valid_utf8 name) (l2_headers r)"
  shows "\<exists>msg w' hs. handle_forward lib cfg nats a req_method body req px =
        Some (Some \<lparr>rs_status = l2_status_code r, rs_body = l2_body r, rs_content_type = response_content_type r,
              rs_headers = (if at_traceparent_header a \<noteq> [] then [(''traceparent'', at_traceparent_header a)] else [])\<rparr>,
            px2\<lparr>px_sent := px_sent px2 @ [msg]\<rparr>)
      \<and> process_request_from_nats env (t\<lparr>tk_request_json := msg\<rparr>) w = Some w'
      \<and> wk_wire w' = wk_wire w @ [wire_of e (canonicalize_path (rq_path req) @ query_suffix (extract_query_string (rq_target req)))
          (if req_method = ''POST'' then body else []) (tk_l2_traceparent t) hs]
      \<and> (\<forall>n v. (n, v) \<in> set hs \<longrightarrow>
           (\<exists>v'. (n, v') \<in> set (rq_headers req) \<and> v = sanitize_invalid v' \<and> \<not> should_skip_header n g_default_skip_headers))
      \<and> (\<forall>n v. (n, v) \<in> set (rq_headers req) \<longrightarrow> \<not> should_skip_header n g_default_skip_headers \<longrightarrow> (\<exists>v'. (n, v') \<in> set hs))"
proof -
  obtain msg d where d: "proxy_message (lib_accept lib) (lib_to_base64 lib) (lib_dump lib) (at_epoch_ms a) (at_trace a) (at_tracer a)
        (at_generated a) (at_trace_id a) (at_push_span_id a) (at_request_id a) req_method body req (at_traceparent_for_backend a) = Inr msg"
      "msg \<noteq> []" "worker_receive (lib_parse lib) (lib_from_base64 lib) msg = Inr (Some d)"
      "wr_request_id d = at_request_id a" "wr_method d = req_method" "wr_path d = rq_path req"
      "wr_query d = extract_query_string (rq_target req)" "wr_body d = body"
    and h: "(\<forall>n v. (n, v) \<in> set (wr_forwarded_headers d) \<longrightarrow>
         (\<exists>v'. (n, v') \<in> set (rq_headers req) \<and> v = sanitize_invalid v' \<and> \<not> should_skip_header n g_default_skip_headers))
    \<and> (\<forall>n v. (n, v) \<in> set (rq_headers req) \<longrightarrow> \<not> should_skip_header n g_default_skip_headers \<longrightarrow> (\<exists>v'. (n, v') \<in> set (wr_forwarded_headers d)))"
    using request_decoded [OF lib(1-3) req] by blast
  have rid: "is_valid_utf8 (at_request_id a)" using req(1) by simp
  obtain reply j where r: "lib_dump lib (response_message (lib_to_base64 lib) (tk_timestamp_us t) (at_request_id a) (tk_traceparent_header t) r) = Some reply"
      "reply \<noteq> []" "lib_parse lib reply = Some j"
      "set_response_content (lib_dump lib) (lib_from_base64 lib) (at_request_id a) (at_traceparent_header a) j =
        Some \<lparr>rs_status = l2_status_code r, rs_body = l2_body r, rs_content_type = response_content_type r,
              rs_headers = (if at_traceparent_header a \<noteq> [] then [(''traceparent'', at_traceparent_header a)] else [])\<rparr>"
    using response_delivered [OF lib(1,2) rid wk(9) srv(4,3) wk(10,11), of "at_traceparent_header a"] by blast
  let ?t = "t\<lparr>tk_request_json := msg\<rparr>"
  let ?m = "wire_of e (canonicalize_path (wr_path d) @ query_suffix (wr_query d))
    (if wr_method d = ''POST'' then wr_body d else []) (tk_l2_traceparent ?t) (wr_forwarded_headers d)"
  have net: "we_net env (wk_wire w) ?m = Inr r" using srv(1) by (simp add: wire_of_def)
  obtain w' where w': "process_request_from_nats env ?t w = Some w'" "wk_replies w' = wk_replies w @ [(tk_reply_to t, reply)]"
      "wk_wire w' = wk_wire w @ [?m]"
    using worker_serves [of env ?t d w c e server r reply] d(3,4,6) lib(4-7) wk(1-8) net srv(2) r(1) by auto
  have "worker_reply env t w msg = reply" using w'(1,2) by (simp add: worker_reply_def)
  then obtain outcome limit where "poll_for_response cfg nats a msg = Some outcome" "ps_reply outcome = reply" "ps_requests outcome = [limit]"
    using poll_response_at_once [of "ns_client nats" "cfg_request_timeout_seconds cfg" "ns_rounds nats msg" "at_poll a"] nats r(2)
    by (auto simp: answers_def poll_for_response_def)
  then have "process_request lib cfg nats a req_method body req px2 =
      Some (Some \<lparr>rs_status = l2_status_code r, rs_body = l2_body r, rs_content_type = response_content_type r,
              rs_headers = (if at_traceparent_header a \<noteq> [] then [(''traceparent'', at_traceparent_header a)] else [])\<rparr>,
            px2\<lparr>px_sent := px_sent px2 @ [msg]\<rparr>)"
    using d(1,2) r(2-4) by (simp add: process_request_def)
  then have "handle_forward lib cfg nats a req_method body req px =
      Some (Some \<lparr>rs_status = l2_status_code r, rs_body = l2_body r, rs_content_type = response_content_type r,
              rs_headers = (if at_traceparent_header a \<noteq> [] then [(''traceparent'', at_traceparent_header a)] else [])\<rparr>,
            px2\<lparr>px_sent := px_sent px2 @ [msg]\<rparr>)"
    using gates by (simp add: handle_forward_def Let_def)
  then show ?thesis using w'(1,3) h d(5-8) by (intro exI [of _ msg] exI [of _ w'] exI [of _ "wr_forwarded_headers d"]) simp
qed

text \<open>A proxy without limits and a worker with one server, which answers 200.\<close>

definition open_library :: library where
  "open_library = demo_library\<lparr>lib_accept := \<lambda>_. False\<rparr>"

definition open_proxy :: Proxy where
  "open_proxy = \<lparr>px_rate_limiter = None, px_per_ip = None, px_duplicates = None, px_rejections = [], px_sent = []\<rparr>"

definition open_env :: worker_env where
  "open_env = (demo_env [''http://l2''])\<lparr>we_dump := demo_dump, we_parse := demo_parse,
     we_net := \<lambda>_ _. Inr \<lparr>l2_status_code = 200, l2_body = ''ok'', l2_headers = []\<rparr>\<rparr>"

definition open_nats :: nats_side where
  "open_nats = \<lparr>ns_client = Some True, ns_rounds = (\<lambda>msg _. \<lparr>ro_connected = True, ro_connect_ok = True, ro_connect_ns = 0,
     ro_reply = worker_reply open_env (demo_task 0) demo_worker msg, ro_request_ns = 7, ro_last_error = [], ro_oversleep_ns = 0\<rparr>)\<rparr>"

theorem diode_end_to_end_witness:
  "\<exists>msg w' hs. handle_forward open_library demo_config open_nats (demo_arrival 0 0) ''POST'' ''b'' demo_request open_proxy =
      Some (Some \<lparr>rs_status = 200, rs_body = ''ok'', rs_content_type = [], rs_headers = []\<rparr>, open_proxy\<lparr>px_sent := [msg]\<rparr>)
    \<and> process_request_from_nats open_env ((demo_task 0)\<lparr>tk_request_json := msg\<rparr>) demo_worker = Some w' \<and> map w_body (wk_wire w') = [''b'']"
proof -
  let ?e = "\<lparr>ep_https = False, ep_host = ''l2'', ep_port = 80\<rparr>" and ?r = "\<lparr>l2_status_code = 200, l2_body = ''ok'', l2_headers = []\<rparr>"
  let ?a = "demo_arrival 0 0" and ?t = "demo_task 0"
  have lib: "serialises (lib_dump open_library) (lib_parse open_library)" "base64_codec (lib_to_base64 open_library) (lib_from_base64 open_library)"
    "\<forall>b. lib_accept open_library b \<longrightarrow> is_valid_utf8 b" "we_dump open_env = lib_dump open_library" "we_parse open_env = lib_parse open_library"
    "we_to_base64 open_env = lib_to_base64 open_library" "we_from_base64 open_env = lib_from_base64 open_library"
    using demo_serialises demo_codec by (simp_all add: open_library_def demo_library_def open_env_def demo_env_def)
  have v: "is_valid_utf8 ''r''" "is_valid_utf8 ''s''" "is_valid_utf8 ''/a''" "is_valid_utf8 ''1''" "is_valid_utf8 ''2''" by (rule ascii_valid, simp)+
  have ip: "request_client_ip demo_request = ''1''" "extract_query_string (rq_target demo_request) = []"
    by (simp_all add: request_client_ip_def extract_client_ip_def header_find_def extract_query_string_def demo_request_def)
  have req: "list_all is_valid_utf8 [at_request_id ?a, rq_path demo_request, extract_query_string (rq_target demo_request),
      at_traceparent_for_backend ?a, request_client_ip demo_request, rq_local_addr demo_request]"
    "list_all (\<lambda>(name, _). is_valid_utf8 name) (rq_headers demo_request)"
    "trace_utf8 (at_trace ?a) (at_tracer ?a) (at_generated ?a) (at_trace_id ?a) (at_push_span_id ?a)" "0 \<le> at_epoch_ms ?a" "at_epoch_ms ?a < 2 ^ 63"
    "''POST'' \<in> {''GET'', ''POST''}" "length (rq_path demo_request) \<le> 2048"
    "length (if ''b'' \<noteq> [] \<and> \<not> lib_accept open_library ''b'' then lib_to_base64 open_library ''b'' else ''b'') \<le> 10485760"
    using v ip by (simp_all add: demo_arrival_def demo_request_def trace_utf8_def open_library_def demo_library_def demo_encode_def)
  have gates: "(if ''POST'' = ''POST'' \<and> ''b'' \<noteq> [] \<and> cfg_duplicate_enabled demo_config then record_and_maybe_reject_duplicate open_library demo_config ?a
      (get_header_value (rq_headers demo_request) ''X-DataHub-Client-Id'' ''unknown'') ''b'' open_proxy else (Inr (), open_proxy)) = (Inr (), open_proxy)"
    "check_rate_limits open_library ?a (request_client_ip demo_request) open_proxy = Some (Inr (), open_proxy)"
    by (simp_all add: record_and_maybe_reject_duplicate_def open_proxy_def check_rate_limits_def check_global_def check_per_ip_def)
  have p: "parse_url ''http://l2'' = Some \<lparr>m_host = ''l2'', m_path = ''/'', m_port = 80, m_is_https = False\<rparr>" by code_simp
  have f: "find_allowed_l2_server [''http://l2''] ''/a'' = Some ''http://l2''" by code_simp
  have wk: "find_response (tk_find_ms ?t) (at_request_id ?a) (wk_dedup_cache demo_worker) = Some (None, wk_dedup_cache demo_worker)"
    "dd_inv (wk_dedup_cache demo_worker)" "one_server (we_l2_server_urls open_env) ?e" "quiet ?e (wk_pool demo_worker)"
    "find_allowed_l2_server (we_l2_server_urls open_env) (rq_path demo_request) = Some ''http://l2''"
    "fst (allow_request (tk_allow_us ?t) (wk_circuit_breaker demo_worker))" "0 < we_max_retries open_env" "tk_published ?t 0"
    "is_valid_utf8 (tk_traceparent_header ?t)" "0 \<le> tk_timestamp_us ?t" "tk_timestamp_us ?t < 2 ^ 63"
    using p f by (simp_all add: find_response_def demo_worker_def new_DedupCache_def dd_inv_def lru_rep_def pairs_of_def one_server_def endpoint_of_def
        quiet_def pool_ok_def new_HttpClientPool_def allow_request_def new_CircuitBreaker_def demo_task_def open_env_def demo_env_def demo_request_def)
  have srv: "\<forall>m. w_endpoint m = ?e \<longrightarrow> we_net open_env (wk_wire demo_worker) m = Inr ?r" "l2_status_code ?r \<notin> {502, 503, 504}"
    "c_int_ok (l2_status_code ?r)" "list_all (\<lambda>(name, _). is_valid_utf8 name) (l2_headers ?r)" by (simp_all add: open_env_def c_int_ok_def)
  have ct: "response_content_type ?r = []" by (simp add: response_content_type_def header_find_def)
  have th: "at_traceparent_header ?a = []" by (simp add: demo_arrival_def)
  have nats: "answers open_env ?t demo_worker open_nats" "c_int_ok (cfg_request_timeout_seconds demo_config * kMsPerSecond)"
    by (simp_all add: answers_def open_nats_def demo_config_def kMsPerSecond_def c_int_ok_def)
  from diode_end_to_end [OF lib req gates nats wk srv, unfolded ct th] obtain msg w' hs where x:
      "handle_forward open_library demo_config open_nats ?a ''POST'' ''b'' demo_request open_proxy =
        Some (Some \<lparr>rs_status = l2_status_code ?r, rs_body = l2_body ?r, rs_content_type = [],
          rs_headers = (if ([] :: string) \<noteq> [] then [(''traceparent'', [])] else [])\<rparr>, open_proxy\<lparr>px_sent := px_sent open_proxy @ [msg]\<rparr>)"
      "process_request_from_nats open_env (?t\<lparr>tk_request_json := msg\<rparr>) demo_worker = Some w'"
      "wk_wire w' = wk_wire demo_worker @ [wire_of ?e (canonicalize_path (rq_path demo_request) @ query_suffix (extract_query_string (rq_target demo_request)))
          (if ''POST'' = ''POST'' then ''b'' else []) (tk_l2_traceparent ?t) hs]" by blast
  then show ?thesis by (intro exI [of _ msg] exI [of _ w'] exI [of _ hs]) (simp add: open_proxy_def wire_of_def demo_worker_def)
qed

end
